(* ===== verification/PBPS_Prelude.thy ===== *)
theory PBPS_Prelude
  imports Main "HOL-Library.Char_ord" "HOL-Library.List_Lexorder"
    "HOL-Library.Product_Lexorder" "HOL-Library.Sublist"
begin

text \<open>
  Shared vocabulary of the development.

  \<^item> \<open>Result\<close> values: \<open>'e + 'a\<close> with \<open>Inl\<close> the error; \<open>and_then\<close> is the \<open>?\<close> operator,
    \<open>try_each\<close> a \<open>for\<close> loop whose body may return an error, \<open>try_fold\<close> such a loop with
    a state.
  \<^item> \<open>BTreeMap\<close>: the type \<open>('k, 'v) btree\<close> of key-sorted association lists, so that equality
    is equality of the maps and iteration is in key order, as in the Rust library. The
    interface is the locale \<open>finite_map\<close>.
  \<^item> \<open>str\<close>: a \<^typ>\<open>string\<close> is the UTF-8 bytes of a Rust string; the ordering is the byte
    ordering that \<open>String: Ord\<close> has. \<open>trim\<close> removes the UTF-8 spellings of the characters
    with the Unicode property \<open>White_Space\<close>.
\<close>

named_theorems result_simps \<open>rewriting of fallible code\<close>
named_theorems btree_simps \<open>lookups after map operations\<close>

section \<open>Results\<close>

type_synonym ('e, 'a) result = "'e + 'a"

definition and_then :: "('e, 'a) result \<Rightarrow> ('a \<Rightarrow> ('e, 'b) result) \<Rightarrow> ('e, 'b) result" where
  "and_then r f = (case r of Inl e \<Rightarrow> Inl e | Inr x \<Rightarrow> f x)"

definition ensure :: "bool \<Rightarrow> 'e \<Rightarrow> ('e, unit) result" where
  "ensure b e = (if b then Inr () else Inl e)"

definition ok_or :: "'a option \<Rightarrow> 'e \<Rightarrow> ('e, 'a) result" where
  "ok_or x e = (case x of None \<Rightarrow> Inl e | Some v \<Rightarrow> Inr v)"

definition map_err :: "('e \<Rightarrow> 'f) \<Rightarrow> ('e, 'a) result \<Rightarrow> ('f, 'a) result" where
  "map_err g r = (case r of Inl e \<Rightarrow> Inl (g e) | Inr x \<Rightarrow> Inr x)"

definition is_ok :: "('e, 'a) result \<Rightarrow> bool" where
  "is_ok r = (case r of Inl _ \<Rightarrow> False | Inr _ \<Rightarrow> True)"

fun try_each :: "('a \<Rightarrow> ('e, unit) result) \<Rightarrow> 'a list \<Rightarrow> ('e, unit) result" where
  "try_each f [] = Inr ()"
| "try_each f (x # xs) = and_then (f x) (\<lambda>_. try_each f xs)"

fun try_fold :: "('s \<Rightarrow> 'a \<Rightarrow> ('e, 's) result) \<Rightarrow> 's \<Rightarrow> 'a list \<Rightarrow> ('e, 's) result" where
  "try_fold f s [] = Inr s"
| "try_fold f s (x # xs) = and_then (f s x) (\<lambda>s'. try_fold f s' xs)"

fun try_map :: "('a \<Rightarrow> ('e, 'b) result) \<Rightarrow> 'a list \<Rightarrow> ('e, 'b list) result" where
  "try_map f [] = Inr []"
| "try_map f (x # xs) = and_then (f x) (\<lambda>y. and_then (try_map f xs) (\<lambda>ys. Inr (y # ys)))"

lemma and_then_simps [simp]:
  "and_then (Inl e) f = Inl e" "and_then (Inr x) f = f x"
  by (simp_all add: and_then_def)

lemma and_then_Inr_iff [result_simps]:
  "and_then r f = Inr y \<longleftrightarrow> (\<exists>x. r = Inr x \<and> f x = Inr y)"
  by (cases r) auto

lemma and_then_Inl_iff [result_simps]:
  "and_then r f = Inl e \<longleftrightarrow> r = Inl e \<or> (\<exists>x. r = Inr x \<and> f x = Inl e)"
  by (cases r) auto

lemma ensure_iff [result_simps]:
  "ensure b e = Inr u \<longleftrightarrow> b" "ensure b e = Inl e' \<longleftrightarrow> \<not> b \<and> e' = e"
  by (auto simp: ensure_def)

lemma ensure_simps [simp]: "ensure True e = Inr ()" "ensure False e = Inl e"
  by (simp_all add: ensure_def)

lemma ok_or_iff [result_simps]:
  "ok_or x e = Inr v \<longleftrightarrow> x = Some v" "ok_or x e = Inl e' \<longleftrightarrow> x = None \<and> e' = e"
  by (auto simp: ok_or_def split: option.splits)

lemma ok_or_simps [simp]: "ok_or None e = Inl e" "ok_or (Some v) e = Inr v"
  by (simp_all add: ok_or_def)

lemma map_err_iff [result_simps]:
  "map_err g r = Inr x \<longleftrightarrow> r = Inr x" "map_err g r = Inl e \<longleftrightarrow> (\<exists>e'. r = Inl e' \<and> e = g e')"
  by (auto simp: map_err_def split: sum.splits)

lemma is_ok_iff: "is_ok r \<longleftrightarrow> (\<exists>x. r = Inr x)"
  by (cases r) (auto simp: is_ok_def)

lemma is_ok_simps [simp]: "\<not> is_ok (Inl e)" "is_ok (Inr x)"
  by (auto simp: is_ok_def)

lemma try_each_ok: "try_each f xs = Inr u \<longleftrightarrow> (\<forall>x \<in> set xs. f x = Inr ())"
  by (induction xs) (auto simp: result_simps)

lemma try_each_err:
  assumes "try_each f xs = Inl e"
  obtains ys x zs where "xs = ys @ x # zs" "\<forall>y \<in> set ys. f y = Inr ()" "f x = Inl e"
  using assms
proof (induction xs arbitrary: thesis)
  case Nil
  then show ?case by simp
next
  case (Cons a xs)
  show ?case
  proof (cases "f a")
    case (Inl e')
    with Cons.prems(2) show ?thesis by (intro Cons.prems(1) [of "[]" a xs]) auto
  next
    case (Inr u)
    with Cons.prems(2) have "try_each f xs = Inl e" by simp
    then obtain ys x zs where "xs = ys @ x # zs" "\<forall>y \<in> set ys. f y = Inr ()" "f x = Inl e"
      by (rule Cons.IH [rotated])
    with Inr show ?thesis by (intro Cons.prems(1) [of "a # ys" x zs]) auto
  qed
qed

lemma try_each_append:
  "try_each f (xs @ ys) = and_then (try_each f xs) (\<lambda>_. try_each f ys)"
  by (induction xs) (auto simp: and_then_def split: sum.splits)

lemma try_fold_append:
  "try_fold f s (xs @ ys) = and_then (try_fold f s xs) (\<lambda>s'. try_fold f s' ys)"
  by (induction xs arbitrary: s) (auto simp: and_then_def split: sum.splits)

lemma try_fold_total:
  "(\<And>s x. x \<in> set xs \<Longrightarrow> f s x = Inr (g s x)) \<Longrightarrow> try_fold f s xs = Inr (foldl g s xs)"
  by (induction xs arbitrary: s) auto

lemma try_fold_invariant:
  assumes "try_fold f s xs = Inr s'" and "I s"
    and "\<And>s x t. I s \<Longrightarrow> x \<in> set xs \<Longrightarrow> f s x = Inr t \<Longrightarrow> I t"
  shows "I s'"
  using assms
proof (induction xs arbitrary: s)
  case Nil
  then show ?case by simp
next
  case (Cons x xs)
  from Cons.prems(1) obtain t where "f s x = Inr t" "try_fold f t xs = Inr s'"
    by (auto simp: result_simps)
  with Cons show ?case by (metis list.set_intros)
qed

lemma try_map_ok: "try_map f xs = Inr ys \<longleftrightarrow> list_all2 (\<lambda>x y. f x = Inr y) xs ys"
  by (induction xs arbitrary: ys) (auto simp: result_simps list_all2_Cons1)

section \<open>Ordered maps\<close>

subsection \<open>Sorted association lists\<close>

abbreviation sorted_keys :: "('k::linorder \<times> 'v) list \<Rightarrow> bool" where
  "sorted_keys ps \<equiv> sorted_wrt (<) (map fst ps)"

fun upsert :: "'k::linorder \<Rightarrow> 'v \<Rightarrow> ('k \<times> 'v) list \<Rightarrow> ('k \<times> 'v) list" where
  "upsert k v [] = [(k, v)]"
| "upsert k v ((a, b) # ps) =
     (if k < a then (k, v) # (a, b) # ps
      else if k = a then (k, v) # ps
      else (a, b) # upsert k v ps)"

lemma keys_upsert: "fst ` set (upsert k v ps) = insert k (fst ` set ps)"
  by (induction k v ps rule: upsert.induct) (simp_all add: insert_commute)

lemma sorted_upsert: "sorted_keys ps \<Longrightarrow> sorted_keys (upsert k v ps)"
proof (induction ps)
  case Nil
  then show ?case by simp
next
  case (Cons p ps)
  obtain a b where p: "p = (a, b)" by (cases p)
  from Cons have "\<forall>x \<in> fst ` set (upsert k v ps). a < x" if "a < k"
    using that p by (auto simp: keys_upsert)
  with Cons p show ?case by (auto dest: order.strict_trans)
qed

lemma map_of_upsert: "sorted_keys ps \<Longrightarrow> map_of (upsert k v ps) = (map_of ps)(k \<mapsto> v)"
  by (induction ps) (auto simp: fun_eq_iff)

lemma sorted_keys_distinct: "sorted_keys ps \<Longrightarrow> distinct (map fst ps)"
  by (simp add: strict_sorted_iff)

lemma sorted_filter_keys: "sorted_keys ps \<Longrightarrow> sorted_keys (filter P ps)"
  by (induction ps) auto

lemma sorted_keys_eqI:
  assumes "sorted_keys ps" "sorted_keys qs" "map_of ps = map_of qs"
  shows "ps = qs"
proof -
  have "set (map fst ps) = set (map fst qs)"
    using assms(3) by (metis dom_map_of_conv_image_fst list.set_map)
  then have keys: "map fst ps = map fst qs"
    using assms(1,2) by (metis strict_sorted_equal)
  have "ps = map (\<lambda>k. (k, the (map_of ps k))) (map fst ps)" if "sorted_keys ps" for ps :: "('a \<times> 'b) list"
    using sorted_keys_distinct [OF that] by (auto simp: comp_def intro!: map_idI [symmetric])
  then show ?thesis using assms keys by metis
qed

lemma map_of_rev: "distinct (map fst ps) \<Longrightarrow> map_of (rev ps) = map_of ps"
  by (rule map_of_eqI) (auto simp: map_of_eq_Some_iff rev_map [symmetric])

subsection \<open>The map type\<close>

typedef (overloaded) ('k::linorder, 'v) btree = "{ps :: ('k \<times> 'v) list. sorted_keys ps}"
  morphisms entries Btree
  by (rule exI [of _ "[]"]) simp

setup_lifting type_definition_btree

lift_definition bempty :: "('k::linorder, 'v) btree" is "[]" by simp

lift_definition bget :: "('k::linorder, 'v) btree \<Rightarrow> 'k \<Rightarrow> 'v option" is map_of .

lift_definition bput :: "'k::linorder \<Rightarrow> 'v \<Rightarrow> ('k, 'v) btree \<Rightarrow> ('k, 'v) btree" is upsert
  by (rule sorted_upsert)

lift_definition bretain :: "('k \<Rightarrow> 'v \<Rightarrow> bool) \<Rightarrow> ('k::linorder, 'v) btree \<Rightarrow> ('k, 'v) btree"
  is "\<lambda>P. filter (\<lambda>(k, v). P k v)"
  by (rule sorted_filter_keys)

lift_definition bmap :: "('v \<Rightarrow> 'w) \<Rightarrow> ('k::linorder, 'v) btree \<Rightarrow> ('k, 'w) btree"
  is "\<lambda>f. map (\<lambda>(k, v). (k, f v))"
  by (simp add: comp_def case_prod_unfold)

definition bhas :: "('k::linorder, 'v) btree \<Rightarrow> 'k \<Rightarrow> bool" where
  "bhas m k = (bget m k \<noteq> None)"

definition bkeys :: "('k::linorder, 'v) btree \<Rightarrow> 'k list" where
  "bkeys m = map fst (entries m)"

definition bvalues :: "('k::linorder, 'v) btree \<Rightarrow> 'v list" where
  "bvalues m = map snd (entries m)"

definition bis_empty :: "('k::linorder, 'v) btree \<Rightarrow> bool" where
  "bis_empty m = (entries m = [])"

text \<open>\<open>iter.collect()\<close>: later pairs overwrite earlier ones with the same key.\<close>

definition bcollect :: "('k::linorder \<times> 'v) list \<Rightarrow> ('k, 'v) btree" where
  "bcollect ps = foldl (\<lambda>m (k, v). bput k v m) bempty ps"

text \<open>\<open>entry(k).or_insert(v)\<close>: the first value stays.\<close>

definition bentry :: "'k::linorder \<Rightarrow> 'v \<Rightarrow> ('k, 'v) btree \<Rightarrow> ('k, 'v) btree" where
  "bentry k v m = (if bhas m k then m else bput k v m)"

text \<open>\<open>entry(k).or_default().push(x)\<close> on a map to vectors.\<close>

definition bget_list :: "('k::linorder, 'v list) btree \<Rightarrow> 'k \<Rightarrow> 'v list" where
  "bget_list m k = (case bget m k of None \<Rightarrow> [] | Some xs \<Rightarrow> xs)"

definition bpush :: "'k::linorder \<Rightarrow> 'v \<Rightarrow> ('k, 'v list) btree \<Rightarrow> ('k, 'v list) btree" where
  "bpush k x m = bput k (bget_list m k @ [x]) m"

instantiation btree :: (linorder, equal) equal
begin

definition equal_btree :: "('a, 'b) btree \<Rightarrow> ('a, 'b) btree \<Rightarrow> bool" where
  "equal_btree m n \<longleftrightarrow> entries m = entries n"

instance
  by standard (simp add: equal_btree_def entries_inject)

end

subsection \<open>The interface of a finite map\<close>

text \<open>
  What the components use of a map: reading after writing, iteration that lists exactly the
  stored pairs in key order, and that a map is determined by its lookups.
\<close>

locale finite_map =
  fixes empty :: "'m" and get :: "'m \<Rightarrow> 'k::linorder \<Rightarrow> 'v option"
    and put :: "'k \<Rightarrow> 'v \<Rightarrow> 'm \<Rightarrow> 'm" and iter :: "'m \<Rightarrow> ('k \<times> 'v) list"
  assumes get_empty: "get empty k = None"
    and get_put: "get (put k v m) = (get m)(k \<mapsto> v)"
    and iter_get: "(k, v) \<in> set (iter m) \<longleftrightarrow> get m k = Some v"
    and iter_sorted: "sorted_keys (iter m)"
    and get_ext: "get m = get n \<Longrightarrow> m = n"
begin

definition collect :: "('k \<times> 'v) list \<Rightarrow> 'm \<Rightarrow> 'm" where
  "collect ps m = foldl (\<lambda>m (k, v). put k v m) m ps"

definition collect_first :: "('k \<times> 'v) list \<Rightarrow> 'm \<Rightarrow> 'm" where
  "collect_first ps m = foldl (\<lambda>m (k, v). if get m k = None then put k v m else m) m ps"

lemma get_collect: "get (collect ps m) = (get m) ++ map_of (rev ps)"
  by (induction ps arbitrary: m) (auto simp: collect_def get_put map_add_def fun_eq_iff split: option.splits)

lemma get_collect_first: "get (collect_first ps m) = (\<lambda>k. case get m k of None \<Rightarrow> map_of ps k | Some v \<Rightarrow> Some v)"
proof (induction ps arbitrary: m)
  case Nil
  then show ?case by (auto simp: collect_first_def fun_eq_iff split: option.splits)
next
  case (Cons p ps)
  obtain a b where p: "p = (a, b)" by (cases p)
  have step: "collect_first (p # ps) m = collect_first ps (if get m a = None then put a b m else m)"
    by (simp add: collect_first_def p)
  show ?case
    unfolding step Cons.IH by (auto simp: p get_put fun_eq_iff split: option.splits)
qed

lemma get_map_of_iter: "get m = map_of (iter m)"
proof
  fix k
  have "distinct (map fst (iter m))"
    by (rule sorted_keys_distinct [OF iter_sorted])
  then show "get m k = map_of (iter m) k"
    by (metis iter_get map_of_eq_Some_iff not_None_eq option.exhaust)
qed

lemma collect_iter: "collect (iter m) empty = m"
proof (rule get_ext)
  have "map_of (rev (iter m)) = map_of (iter m)"
    by (rule map_of_rev) (rule sorted_keys_distinct [OF iter_sorted])
  then show "get (collect (iter m) empty) = get m"
    by (simp add: get_collect get_empty get_map_of_iter [of m] map_add_def fun_eq_iff split: option.splits)
qed

end

lemma bget_bempty [simp, btree_simps]: "bget bempty k = None"
  by transfer simp

lemma bget_bput [btree_simps]: "bget (bput k v m) = (bget m)(k \<mapsto> v)"
  by transfer (rule map_of_upsert)

lemma entries_sorted: "sorted_keys (entries m)"
  using entries by blast

lemma entries_bget: "(k, v) \<in> set (entries m) \<longleftrightarrow> bget m k = Some v"
  by transfer (simp add: sorted_keys_distinct)

lemma btree_eqI: "bget m = bget n \<Longrightarrow> m = n"
  by transfer (rule sorted_keys_eqI)

interpretation bt: finite_map bempty bget bput entries
  by unfold_locales (simp_all add: bget_bput entries_bget entries_sorted btree_eqI)

subsection \<open>Lookups after each operation\<close>

lemma bget_bretain_Some: "bget (bretain P m) k = Some v \<longleftrightarrow> bget m k = Some v \<and> P k v"
  by transfer (simp add: sorted_keys_distinct sorted_filter_keys)

lemma bget_bretain [btree_simps]:
  "bget (bretain P m) k = (case bget m k of Some v \<Rightarrow> if P k v then Some v else None | None \<Rightarrow> None)"
proof (cases "bget (bretain P m) k")
  case None
  then have "\<not> (bget m k = Some v \<and> P k v)" for v
    unfolding bget_bretain_Some [symmetric] by simp
  with None show ?thesis by (cases "bget m k") simp_all
next
  case (Some v)
  then have "bget m k = Some v \<and> P k v"
    unfolding bget_bretain_Some .
  with Some show ?thesis by simp
qed

lemma bget_bmap [btree_simps]: "bget (bmap f m) k = map_option f (bget m k)"
  by transfer (simp add: map_of_map)

lemma bget_bcollect [btree_simps]: "bget (bcollect ps) = map_of (rev ps)"
  using bt.get_collect [of ps bempty]
  by (simp add: bcollect_def bt.collect_def map_add_def fun_eq_iff split: option.splits)

lemma bcollect_entries: "bcollect (entries m) = m"
  using bt.collect_iter [of m] by (simp add: bcollect_def bt.collect_def)

lemma bget_bentry [btree_simps]:
  "bget (bentry k v m) = (case bget m k of None \<Rightarrow> (bget m)(k \<mapsto> v) | Some _ \<Rightarrow> bget m)"
  by (auto simp: bentry_def bhas_def bget_bput split: option.splits)

lemma bhas_iff: "bhas m k \<longleftrightarrow> (\<exists>v. bget m k = Some v)"
  by (simp add: bhas_def)

lemma bhas_simps [simp]:
  "\<not> bhas bempty k" "bhas (bput k v m) j \<longleftrightarrow> j = k \<or> bhas m j" "bhas (bmap f m) k \<longleftrightarrow> bhas m k"
  by (auto simp: bhas_def btree_simps)

lemma ball_entries: "(\<forall>p \<in> set (entries m). P p) \<longleftrightarrow> (\<forall>k v. bget m k = Some v \<longrightarrow> P (k, v))"
  by (simp add: Ball_def split_paired_All entries_bget)

lemma set_bkeys: "set (bkeys m) = {k. bhas m k}"
  by (force simp: bkeys_def bhas_iff entries_bget [symmetric] image_iff)

lemma set_bvalues: "v \<in> set (bvalues m) \<longleftrightarrow> (\<exists>k. bget m k = Some v)"
  by (force simp: bvalues_def entries_bget [symmetric] image_iff)

lemma distinct_bkeys: "distinct (bkeys m)"
  unfolding bkeys_def by (rule sorted_keys_distinct [OF entries_sorted])

lemma distinct_entries: "distinct (entries m)"
  using distinct_bkeys [of m] by (simp add: bkeys_def distinct_map)

lemma bget_entries: "bget m = map_of (entries m)"
  by (rule bt.get_map_of_iter)

lemma finite_dom_bget [simp]: "finite (dom (bget m))"
  by (simp add: bget_entries finite_dom_map_of)

lemma bget_bpush [btree_simps]:
  "bget_list (bpush k x m) j = (if j = k then bget_list m k @ [x] else bget_list m j)"
  by (simp add: bget_list_def bpush_def bget_bput)

lemma bget_list_bempty [simp]: "bget_list bempty k = []"
  by (simp add: bget_list_def)

lemma bis_empty_iff: "bis_empty m \<longleftrightarrow> m = bempty"
  by (simp add: bis_empty_def bempty.rep_eq entries_inject [symmetric])

lemma entries_bempty [simp]: "entries bempty = []"
  by (rule bempty.rep_eq)

lemma entries_map_of_sorted:
  "sorted_keys ps \<Longrightarrow> map_of ps = bget m \<Longrightarrow> ps = entries m"
  using sorted_keys_eqI [OF _ entries_sorted] by (simp add: bget_entries)

end
