(* ===== verification/Uid.thy ===== *)
theory Uid
  imports Rust_Str "HOL-Library.Word"
begin

text \<open>
  Identity anchors (\<open>crates/pbps-model/src/uid.rs\<close>): the \<open>Uid\<close> string type with its kinds,
  the strict reader, random allocation from the SplitMix64 generator and derivation from a
  name. The operating system's entropy and SHA-256 are parameters.
\<close>

unbundle bit_operations_syntax

section \<open>Kinds and spelling\<close>

definition ALPHABET :: string where
  "ALPHABET = ''0123456789abcdefghjkmnpqrstvwxyz''"

definition LEN :: nat where
  "LEN = 6"

datatype uid_error = BadPrefix string | BadLength string | BadChar string

datatype uid_kind = ExtensionUid | TypeUid | TableUid | ColumnUid | RoleUid

fun uid_prefix :: "uid_kind \<Rightarrow> string" where
  "uid_prefix ExtensionUid = ''e_''"
| "uid_prefix TypeUid = ''y_''"
| "uid_prefix TableUid = ''t_''"
| "uid_prefix ColumnUid = ''c_''"
| "uid_prefix RoleUid = ''r_''"

datatype uid = Uid (as_str: string)

text \<open>\<open>#[derive(Ord)]\<close>: the order of the string.\<close>

instantiation uid :: linorder
begin

definition less_eq_uid :: "uid \<Rightarrow> uid \<Rightarrow> bool" where
  "less_eq_uid a b \<longleftrightarrow> as_str a \<le> as_str b"

definition less_uid :: "uid \<Rightarrow> uid \<Rightarrow> bool" where
  "less_uid a b \<longleftrightarrow> as_str a < as_str b"

instance
  by standard (auto simp: less_eq_uid_def less_uid_def uid.expand)

end

definition uid_kind_of :: "uid \<Rightarrow> uid_kind" where
  "uid_kind_of u =
     (if starts_with (as_str u) ''e_'' then ExtensionUid
      else if starts_with (as_str u) ''y_'' then TypeUid
      else if starts_with (as_str u) ''t_'' then TableUid
      else if starts_with (as_str u) ''r_'' then RoleUid
      else ColumnUid)"

definition or_else :: "'a option \<Rightarrow> 'a option \<Rightarrow> 'a option" where
  "or_else x y = (case x of None \<Rightarrow> y | Some v \<Rightarrow> Some v)"

definition uid_from_str :: "string \<Rightarrow> (uid_error, uid) result" where
  "uid_from_str s =
     and_then
       (ok_or
         (or_else (strip_prefix ''e_'' s) (or_else (strip_prefix ''t_'' s)
           (or_else (strip_prefix ''c_'' s) (or_else (strip_prefix ''r_'' s) (strip_prefix ''y_'' s)))))
         (BadPrefix s))
       (\<lambda>rest. if length rest \<noteq> LEN then Inl (BadLength s)
               else if \<not> list_all (\<lambda>b. b \<in> set ALPHABET) rest then Inl (BadChar s)
               else Inr (Uid s))"

text \<open>The shape every uid of the program has: only the three constructors below make one.\<close>

definition uid_wf :: "uid \<Rightarrow> bool" where
  "uid_wf u \<longleftrightarrow>
     (\<exists>k rest. as_str u = uid_prefix k @ rest \<and> length rest = LEN \<and> set rest \<subseteq> set ALPHABET)"

section \<open>Allocation\<close>

text \<open>
  \<open>next_random\<close> reads and writes a thread-local 64-bit state; \<open>fresh\<close> is the hash of the
  clock under a new \<open>RandomState\<close>, used when the state is zero.
\<close>

definition splitmix_gamma :: "64 word" where
  "splitmix_gamma = 0x9E3779B97F4A7C15"

definition splitmix_mix :: "64 word \<Rightarrow> 64 word" where
  "splitmix_mix x =
     (let z = (x XOR drop_bit 30 x) * 0xBF58476D1CE4E5B9;
          z = (z XOR drop_bit 27 z) * 0x94D049BB133111EB
      in z XOR drop_bit 31 z)"

definition next_random :: "64 word \<Rightarrow> 64 word \<Rightarrow> 64 word \<times> 64 word" where
  "next_random fresh st =
     (let x = (if st = 0 then fresh OR 1 else st);
          x = x + splitmix_gamma
      in (splitmix_mix x, x))"

fun draw_chars :: "nat \<Rightarrow> (nat \<Rightarrow> 64 word) \<Rightarrow> 64 word \<Rightarrow> string \<times> 64 word" where
  "draw_chars 0 fresh st = ([], st)"
| "draw_chars (Suc n) fresh st =
     (let (r, st') = next_random (fresh 0) st;
          i = unat (r mod of_nat (length ALPHABET));
          (cs, st'') = draw_chars n (\<lambda>j. fresh (Suc j)) st'
      in (ALPHABET ! i # cs, st''))"

definition generate :: "(nat \<Rightarrow> 64 word) \<Rightarrow> 64 word \<Rightarrow> uid_kind \<Rightarrow> uid \<times> 64 word" where
  "generate fresh st k =
     (let (cs, st') = draw_chars LEN fresh st in (Uid (uid_prefix k @ cs), st'))"

text \<open>A run of \<open>n\<close> draws, each reading the state the one before left.\<close>

fun random_draws :: "nat \<Rightarrow> (nat \<Rightarrow> 64 word) \<Rightarrow> 64 word \<Rightarrow> 64 word list" where
  "random_draws 0 fresh st = []"
| "random_draws (Suc n) fresh st =
     (let (r, st') = next_random (fresh 0) st in r # random_draws n (\<lambda>j. fresh (Suc j)) st')"

definition to_be_bytes :: "32 word \<Rightarrow> string" where
  "to_be_bytes w = map (\<lambda>i. char_of (unat (drop_bit i w) mod 256)) [24, 16, 8, 0]"

definition derived :: "(string \<Rightarrow> string) \<Rightarrow> uid_kind \<Rightarrow> string \<Rightarrow> 32 word \<Rightarrow> uid" where
  "derived sha256 k seed salt =
     (let digest = sha256 (uid_prefix k @ seed @ to_be_bytes salt)
      in Uid (uid_prefix k @ map (\<lambda>b. ALPHABET ! (byte b mod length ALPHABET)) (take LEN digest)))"

section \<open>The reader accepts exactly the well-formed spellings\<close>

lemma length_ALPHABET [simp]: "length ALPHABET = 32"
  by (simp add: ALPHABET_def)

lemma or_else_Some: "or_else x y = Some v \<longleftrightarrow> x = Some v \<or> x = None \<and> y = Some v"
  by (auto simp: or_else_def split: option.splits)

lemma uid_kind_of_prefix: "uid_kind_of (Uid (uid_prefix k @ rest)) = k"
  by (cases k) (auto simp: uid_kind_of_def starts_with_def)

lemma uid_wf_rest:
  "uid_wf (Uid (uid_prefix k @ rest)) \<longleftrightarrow> length rest = LEN \<and> set rest \<subseteq> set ALPHABET"
proof -
  have "k' = k \<and> rest' = rest" if "uid_prefix k @ rest = uid_prefix k' @ rest'" for k' rest'
    using that by (cases k; cases k') auto
  then show ?thesis by (auto simp: uid_wf_def)
qed

lemma uid_prefix_rest:
  "or_else (strip_prefix ''e_'' s) (or_else (strip_prefix ''t_'' s)
     (or_else (strip_prefix ''c_'' s) (or_else (strip_prefix ''r_'' s) (strip_prefix ''y_'' s)))) = Some rest
   \<longleftrightarrow> (\<exists>k. s = uid_prefix k @ rest)" (is "?L \<longleftrightarrow> ?R")
proof
  assume ?L
  then show ?R
    by (auto simp: or_else_Some strip_prefix_Some intro: exI [of _ ExtensionUid] exI [of _ TableUid]
      exI [of _ ColumnUid] exI [of _ RoleUid] exI [of _ TypeUid])
next
  assume ?R
  then obtain k where "s = uid_prefix k @ rest" ..
  then show ?L by (cases k) (auto simp: or_else_def strip_prefix_def)
qed

lemma uid_from_str_ok: "uid_from_str s = Inr u \<longleftrightarrow> u = Uid s \<and> uid_wf u"
  unfolding uid_from_str_def
  by (auto simp: result_simps uid_prefix_rest uid_wf_rest list_all_iff split: if_splits)
    (auto simp: uid_wf_def)

text \<open>
  The spelling contract shared by every type that crosses a file as one string: what is
  written reads back, and what reads is a valid value.
\<close>

locale spelled =
  fixes raw :: "'a \<Rightarrow> string" and parse :: "string \<Rightarrow> ('e, 'a) result" and valid :: "'a \<Rightarrow> bool"
  assumes parse_raw: "valid x \<Longrightarrow> parse (raw x) = Inr x"
    and parse_valid: "parse s = Inr x \<Longrightarrow> valid x"
begin

lemma raw_inj: "valid x \<Longrightarrow> valid y \<Longrightarrow> raw x = raw y \<Longrightarrow> x = y"
  using parse_raw by (metis sum.inject(2))

lemma parse_canonical: "parse s = Inr x \<Longrightarrow> parse (raw x) = Inr x"
  using parse_raw parse_valid by blast

lemma reader_range: "valid x \<longleftrightarrow> (\<exists>s. parse s = Inr x)"
  using parse_raw parse_valid by blast

end

interpretation uid_text: spelled as_str uid_from_str uid_wf
proof
  fix x assume "uid_wf x"
  then show "uid_from_str (as_str x) = Inr x" by (cases x) (simp add: uid_from_str_ok)
next
  fix s x assume "uid_from_str s = Inr x"
  then show "uid_wf x" by (auto simp: uid_from_str_ok)
qed

section \<open>Every constructor makes a well-formed uid of the kind asked for\<close>

lemma draw_chars_alphabet:
  "draw_chars n fresh st = (cs, st') \<Longrightarrow> length cs = n \<and> set cs \<subseteq> set ALPHABET"
proof (induction n arbitrary: fresh st cs st')
  case 0
  then show ?case by simp
next
  case (Suc n)
  obtain r s1 where r: "next_random (fresh 0) st = (r, s1)" by fastforce
  obtain ds s2 where ds: "draw_chars n (\<lambda>j. fresh (Suc j)) s1 = (ds, s2)" by fastforce
  have "unat (r mod 32) < 32"
    using unat_mod [of r 32] by simp
  with Suc.IH [OF ds] Suc.prems r ds show ?case
    by (auto simp: Let_def intro!: nth_mem)
qed

lemma derived_alphabet:
  "set (map (\<lambda>b. ALPHABET ! (byte b mod length ALPHABET)) bs) \<subseteq> set ALPHABET"
  by (auto intro!: nth_mem)

section \<open>The generator never repeats within a period\<close>

lemma xor_shift_inj:
  fixes a b :: "'a::len word"
  assumes "0 < k" and eq: "a XOR drop_bit k a = b XOR drop_bit k b"
  shows "a = b"
proof (rule bit_word_eqI)
  have *: "bit a n = bit b n" for n
  proof (induction "LENGTH('a) - n" arbitrary: n rule: less_induct)
    case less
    show ?case
    proof (cases "n < LENGTH('a)")
      case True
      then have "bit a (k + n) = bit b (k + n)"
        using less \<open>0 < k\<close> by (metis add_diff_cancel_left' diff_less_mono2 le_add2 le_neq_implies_less less_add_same_cancel2)
      moreover have "(bit a n \<noteq> bit a (k + n)) = (bit b n \<noteq> bit b (k + n))"
        using arg_cong [OF eq, of "\<lambda>w. bit w n"] by (simp add: bit_simps)
      ultimately show ?thesis by blast
    next
      case False
      then show ?thesis using bit_imp_le_length not_less by (metis)
    qed
  qed
  then show "\<And>n. n < LENGTH('a) \<Longrightarrow> bit a n = bit b n" .
qed

lemma mult_unit_inj:
  fixes a b :: "64 word"
  assumes "a * c = b * c" "c * d = 1"
  shows "a = b"
proof -
  have "a = a * c * d" unfolding mult.assoc assms(2) by simp
  also have "\<dots> = b * c * d" unfolding assms(1) ..
  also have "\<dots> = b" unfolding mult.assoc assms(2) by simp
  finally show ?thesis .
qed

lemma splitmix_mix_inj: "splitmix_mix a = splitmix_mix b \<Longrightarrow> a = b"
proof -
  assume eq: "splitmix_mix a = splitmix_mix b"
  let ?f = "\<lambda>x::64 word. (x XOR drop_bit 30 x) * 0xBF58476D1CE4E5B9"
  let ?g = "\<lambda>z::64 word. (z XOR drop_bit 27 z) * 0x94D049BB133111EB"
  have "?g (?f a) XOR drop_bit 31 (?g (?f a)) = ?g (?f b) XOR drop_bit 31 (?g (?f b))"
    using eq unfolding splitmix_mix_def Let_def .
  then have "?g (?f a) = ?g (?f b)"
    by (rule xor_shift_inj [rotated]) simp
  then have "?f a XOR drop_bit 27 (?f a) = ?f b XOR drop_bit 27 (?f b)"
    by (rule mult_unit_inj [where d = "0x319642B2D24D8EC3"]) simp
  then have "?f a = ?f b"
    by (rule xor_shift_inj [rotated]) simp
  then have "a XOR drop_bit 30 a = b XOR drop_bit 30 b"
    by (rule mult_unit_inj [where d = "0x96DE1B173F119089"]) simp
  then show "a = b"
    by (rule xor_shift_inj [rotated]) simp
qed

lemma random_draws_states:
  "(\<And>i. i < n \<Longrightarrow> st + of_nat i * splitmix_gamma \<noteq> 0) \<Longrightarrow>
   random_draws n fresh st = map (\<lambda>i. splitmix_mix (st + of_nat (Suc i) * splitmix_gamma)) [0..<n]"
proof (induction n arbitrary: fresh st)
  case 0
  then show ?case by simp
next
  case (Suc n)
  have "st \<noteq> 0" using Suc.prems [of 0] by simp
  moreover have "st + splitmix_gamma + of_nat i * splitmix_gamma \<noteq> 0" if "i < n" for i
    using Suc.prems [of "Suc i"] that by (simp add: algebra_simps)
  ultimately show ?case
    by (simp add: Suc.IH next_random_def Let_def map_upt_Suc algebra_simps del: upt_Suc)
qed

lemma gamma_steps_inj:
  assumes "of_nat i * splitmix_gamma = of_nat j * splitmix_gamma" "i < 2 ^ 64" "j < 2 ^ 64"
  shows "i = j"
proof -
  have "of_nat i = (of_nat j :: 64 word)"
    using assms(1) unfolding splitmix_gamma_def
    by (rule mult_unit_inj [where d = "0xF1DE83E19937733D"]) simp
  then show ?thesis
    using assms(2,3) by (simp add: word_of_nat_eq_iff take_bit_nat_eq_self)
qed

section \<open>Properties\<close>

text \<open>
  C40. Both allocators return a uid of the kind asked for that the strict reader accepts
  unchanged: \<open>generate\<close> whatever the entropy and the generator's state, \<open>derived\<close> for every
  digest function that returns at least six bytes (SHA-256 returns 32).
\<close>

theorem allocated_uids_read_back:
  assumes "\<And>x. LEN \<le> length (sha256 x)"
  shows "(let u = fst (generate fresh st k) in uid_from_str (as_str u) = Inr u \<and> uid_kind_of u = k)
    \<and> (let u = derived sha256 k seed salt in uid_from_str (as_str u) = Inr u \<and> uid_kind_of u = k)"
proof -
  obtain cs st' where cs: "draw_chars LEN fresh st = (cs, st')" by fastforce
  then have gen: "fst (generate fresh st k) = Uid (uid_prefix k @ cs)"
    by (simp add: generate_def)
  have wf: "uid_wf (derived sha256 k seed salt)"
    unfolding derived_def Let_def uid_wf_rest using assms derived_alphabet by simp
  have "uid_kind_of (derived sha256 k seed salt) = k"
    by (simp add: derived_def Let_def uid_kind_of_prefix)
  with uid_text.parse_raw [OF wf] draw_chars_alphabet [OF cs] show ?thesis
    by (simp add: gen uid_from_str_ok uid_wf_rest uid_kind_of_prefix)
qed

theorem allocated_uids_read_back_witness:
  "uid_kind_of (derived (\<lambda>x. replicate 32 (CHR ''a'')) TableUid ''dbo.t'' 0) = TableUid
   \<and> as_str (derived (\<lambda>x. replicate 32 (CHR ''a'')) TableUid ''dbo.t'' 0) = ''t_111111''"
proof -
  have "LEN \<le> length (replicate 32 (CHR ''a''))" by (simp add: LEN_def)
  from allocated_uids_read_back [OF this] have
    "uid_kind_of (derived (\<lambda>x. replicate 32 (CHR ''a'')) TableUid ''dbo.t'' 0) = TableUid"
    by (simp add: Let_def)
  moreover have "as_str (derived (\<lambda>x. replicate 32 (CHR ''a'')) TableUid ''dbo.t'' 0) = ''t_111111''"
    by code_simp
  ultimately show ?thesis by simp
qed

text \<open>
  The SplitMix64 generator behind \<open>Uid::generate\<close> never returns the same 64-bit value
  twice within its period: as long as the state does not pass through zero (where the code
  seeds it again), up to \<open>2 ^ 64\<close> draws are pairwise different.
\<close>

theorem random_draws_distinct:
  assumes "n \<le> 2 ^ 64" and "\<And>i. i < n \<Longrightarrow> st + of_nat i * splitmix_gamma \<noteq> 0"
  shows "distinct (random_draws n fresh st)"
proof -
  have "i = j" if "i < n" "j < n"
    "st + of_nat (Suc i) * splitmix_gamma = st + of_nat (Suc j) * splitmix_gamma" for i j
  proof -
    have "of_nat i * splitmix_gamma = of_nat j * splitmix_gamma"
      using that(3) by (simp add: algebra_simps)
    then show "i = j" using that(1,2) assms(1) by (intro gamma_steps_inj) auto
  qed
  moreover have "random_draws n fresh st =
      map (\<lambda>i. splitmix_mix (st + of_nat (Suc i) * splitmix_gamma)) [0..<n]"
    by (rule random_draws_states) (rule assms(2))
  ultimately show ?thesis
    by (auto simp: distinct_map inj_on_def dest!: splitmix_mix_inj)
qed

theorem random_draws_distinct_witness:
  "distinct (random_draws 3 (\<lambda>_. 7) 1) \<and> length (random_draws 3 (\<lambda>_. 7) 1) = 3"
proof -
  have "(1::64 word) + of_nat i * splitmix_gamma \<noteq> 0" if "i < 3" for i
    using that by (auto simp: splitmix_gamma_def less_Suc_eq numeral_3_eq_3)
  then show ?thesis
    using random_draws_distinct [of 3 1 "\<lambda>_. 7"]
    by (simp add: numeral_3_eq_3 split: prod.splits)
qed

end
