(* ===== verification/Name.thy ===== *)
theory Name
  imports Uid
begin

text \<open>
  Qualified names (\<open>crates/pbps-model/src/name.rs\<close>): \<open>schema.table\<close> and
  \<open>schema.table.column\<close>, joined by a dot for files and split again by the reader. Column,
  role and local names are plain strings with the string's order.
\<close>

type_synonym column_name = string
type_synonym role_name = string
type_synonym object_local_name = string

datatype name_error =
    TableShape string
  | ColumnShape string
  | EmptySegment string
  | ContainsSeparator string

definition dot :: char where
  "dot = CHR ''.''"

definition check_segment :: "string \<Rightarrow> (name_error, unit) result" where
  "check_segment part = (if dot \<in> set part then Inl (ContainsSeparator part) else Inr ())"

datatype table_name = TableName (tn_schema: string) (tn_name: string)

datatype column_ref = ColumnRef (cr_table: table_name) (cr_name: column_name)

instantiation table_name :: linorder
begin

definition less_eq_table_name :: "table_name \<Rightarrow> table_name \<Rightarrow> bool" where
  "less_eq_table_name a b \<longleftrightarrow> (tn_schema a, tn_name a) \<le> (tn_schema b, tn_name b)"

definition less_table_name :: "table_name \<Rightarrow> table_name \<Rightarrow> bool" where
  "less_table_name a b \<longleftrightarrow> (tn_schema a, tn_name a) < (tn_schema b, tn_name b)"

instance
  by standard (auto simp: less_eq_table_name_def less_table_name_def table_name.expand)

end

instantiation column_ref :: linorder
begin

definition less_eq_column_ref :: "column_ref \<Rightarrow> column_ref \<Rightarrow> bool" where
  "less_eq_column_ref a b \<longleftrightarrow> (cr_table a, cr_name a) \<le> (cr_table b, cr_name b)"

definition less_column_ref :: "column_ref \<Rightarrow> column_ref \<Rightarrow> bool" where
  "less_column_ref a b \<longleftrightarrow> (cr_table a, cr_name a) < (cr_table b, cr_name b)"

instance
  by standard (auto simp: less_eq_column_ref_def less_column_ref_def column_ref.expand)

end

definition table_raw :: "table_name \<Rightarrow> string" where
  "table_raw t = tn_schema t @ [dot] @ tn_name t"

definition column_raw :: "column_ref \<Rightarrow> string" where
  "column_raw c = table_raw (cr_table c) @ [dot] @ cr_name c"

definition table_from_str :: "string \<Rightarrow> (name_error, table_name) result" where
  "table_from_str s =
     (case split_on dot s of
        [schema, name] \<Rightarrow>
          if schema = [] \<or> name = [] then Inl (EmptySegment s) else Inr (TableName schema name)
      | _ \<Rightarrow> Inl (TableShape s))"

definition column_from_str :: "string \<Rightarrow> (name_error, column_ref) result" where
  "column_from_str s =
     (case split_on dot s of
        [schema, table, column] \<Rightarrow>
          if schema = [] \<or> table = [] \<or> column = [] then Inl (EmptySegment s)
          else Inr (ColumnRef (TableName schema table) column)
      | _ \<Rightarrow> Inl (ColumnShape s))"

text \<open>The names a joined spelling can carry: no part is empty or holds the separator.\<close>

definition segment_ok :: "string \<Rightarrow> bool" where
  "segment_ok s \<longleftrightarrow> s \<noteq> [] \<and> dot \<notin> set s"

definition table_ok :: "table_name \<Rightarrow> bool" where
  "table_ok t \<longleftrightarrow> segment_ok (tn_schema t) \<and> segment_ok (tn_name t)"

definition column_ok :: "column_ref \<Rightarrow> bool" where
  "column_ok c \<longleftrightarrow> table_ok (cr_table c) \<and> segment_ok (cr_name c)"

section \<open>Reading back\<close>

lemma split_on_two:
  "split_on c s = [a, b] \<longleftrightarrow> s = a @ [c] @ b \<and> c \<notin> set a \<and> c \<notin> set b"
proof
  assume "split_on c s = [a, b]"
  then show "s = a @ [c] @ b \<and> c \<notin> set a \<and> c \<notin> set b"
    using join_split_on [of c s] split_on_no_sep [of _ c s] by auto
qed (simp add: split_on_append split_on_single)

lemma split_on_three:
  "split_on c s = [a, b, d] \<longleftrightarrow>
     s = a @ [c] @ b @ [c] @ d \<and> c \<notin> set a \<and> c \<notin> set b \<and> c \<notin> set d"
proof
  assume "split_on c s = [a, b, d]"
  then show "s = a @ [c] @ b @ [c] @ d \<and> c \<notin> set a \<and> c \<notin> set b \<and> c \<notin> set d"
    using join_split_on [of c s] split_on_no_sep [of _ c s] by auto
qed (simp add: split_on_append split_on_single)

lemma table_from_str_ok: "table_from_str s = Inr t \<longleftrightarrow> table_ok t \<and> s = table_raw t"
proof -
  have "table_from_str s = Inr t \<longleftrightarrow>
      split_on dot s = [tn_schema t, tn_name t] \<and> tn_schema t \<noteq> [] \<and> tn_name t \<noteq> []"
    by (cases t) (auto simp: table_from_str_def split: list.splits)
  then show ?thesis
    by (auto simp: split_on_two table_ok_def segment_ok_def table_raw_def)
qed

lemma column_from_str_ok: "column_from_str s = Inr c \<longleftrightarrow> column_ok c \<and> s = column_raw c"
proof -
  have "column_from_str s = Inr c \<longleftrightarrow>
      split_on dot s = [tn_schema (cr_table c), tn_name (cr_table c), cr_name c]
      \<and> tn_schema (cr_table c) \<noteq> [] \<and> tn_name (cr_table c) \<noteq> [] \<and> cr_name c \<noteq> []"
    by (cases c; cases "cr_table c") (auto simp: column_from_str_def split: list.splits)
  then show ?thesis
    by (auto simp: split_on_three column_ok_def table_ok_def segment_ok_def column_raw_def table_raw_def)
qed

interpretation table_text: spelled table_raw table_from_str table_ok
  by unfold_locales (simp_all add: table_from_str_ok)

interpretation column_text: spelled column_raw column_from_str column_ok
  by unfold_locales (simp_all add: column_from_str_ok)

lemma check_segment_ok: "check_segment s = Inr u \<longleftrightarrow> dot \<notin> set s"
  by (simp add: check_segment_def)

lemma column_spelling_needs_dotless_name:
  assumes "table_ok (cr_table c)" "cr_name c \<noteq> []"
  shows "(\<exists>c'. column_from_str (column_raw c) = Inr c') \<longleftrightarrow> dot \<notin> set (cr_name c)"
proof
  assume "\<exists>c'. column_from_str (column_raw c) = Inr c'"
  then obtain c' where ok: "column_ok c'" and eq: "column_raw c = column_raw c'"
    by (auto simp: column_from_str_ok)
  have "split_on dot (column_raw c') = [tn_schema (cr_table c'), tn_name (cr_table c'), cr_name c']"
    using ok unfolding split_on_three
    by (simp add: column_ok_def table_ok_def segment_ok_def column_raw_def table_raw_def)
  moreover have "split_on dot (column_raw c)
      = tn_schema (cr_table c) # tn_name (cr_table c) # split_on dot (cr_name c)"
    using assms(1) by (simp add: column_raw_def table_raw_def table_ok_def segment_ok_def split_on_append)
  ultimately have "split_on dot (cr_name c) = [cr_name c']" by (simp add: eq)
  then show "dot \<notin> set (cr_name c)"
    using join_split_on [of dot "cr_name c"] split_on_no_sep [of "cr_name c'" dot "cr_name c"] by simp
next
  assume "dot \<notin> set (cr_name c)"
  with assms have "column_from_str (column_raw c) = Inr c"
    by (simp add: column_from_str_ok column_ok_def segment_ok_def)
  then show "\<exists>c'. column_from_str (column_raw c) = Inr c'" ..
qed

section \<open>Properties\<close>

text \<open>
  The dotted spelling of a table or column is read back as the same name exactly when
  no part is empty or contains a dot, and every text the reader accepts is the spelling of
  the name it returns; so no two readable names share a spelling, and a column whose own
  name holds a dot is never read back.
\<close>

theorem dotted_names_round_trip:
  "(table_from_str (table_raw t) = Inr t \<longleftrightarrow> segment_ok (tn_schema t) \<and> segment_ok (tn_name t))
   \<and> (column_from_str (column_raw c) = Inr c \<longleftrightarrow> column_ok c)
   \<and> (table_from_str s = Inr t \<longrightarrow> table_raw t = s)
   \<and> (column_from_str s = Inr c \<longrightarrow> column_raw c = s)
   \<and> (table_ok (cr_table c) \<and> cr_name c \<noteq> [] \<longrightarrow>
        (check_segment (cr_name c) = Inr () \<longleftrightarrow> (\<exists>c'. column_from_str (column_raw c) = Inr c')))"
  using column_spelling_needs_dotless_name [of c]
  by (simp add: table_from_str_ok [of "table_raw t"] column_from_str_ok [of "column_raw c" c]
      table_ok_def check_segment_ok) (simp add: table_from_str_ok column_from_str_ok)

theorem dotted_names_round_trip_witness:
  "table_from_str ''dbo.customer'' = Inr (TableName ''dbo'' ''customer'')
   \<and> \<not> (\<exists>c'. column_from_str (column_raw (ColumnRef (TableName ''dbo'' ''t'') ''a.b'')) = Inr c')
   \<and> table_raw (TableName ''dbo'' ''customer'') = ''dbo.customer''"
  using dotted_names_round_trip
    [of "TableName ''dbo'' ''customer''" "ColumnRef (TableName ''dbo'' ''t'') ''a.b''" "''dbo.customer''"]
  by (simp add: segment_ok_def table_ok_def dot_def table_raw_def check_segment_def)

end
