(* ===== verification/Type_Ref.thy ===== *)
theory Type_Ref
  imports Name
begin

text \<open>
  User-defined type references (\<open>crates/pbps-model/src/types.rs\<close>, \<open>TypeRef\<close>): the reader of
  \<open>schema.name\<close> with bare and double-quoted parts, and the canonical writer. The refusal
  reasons keep one constructor per message of the source.
\<close>

section \<open>Data\<close>

datatype type_arg = ArgInt int | ArgMax | ArgIdent string

datatype type_ref = TypeRef (ty_schema: string) (ty_name: string)

instantiation type_ref :: linorder
begin

definition less_eq_type_ref :: "type_ref \<Rightarrow> type_ref \<Rightarrow> bool" where
  "less_eq_type_ref a b \<longleftrightarrow> (ty_schema a, ty_name a) \<le> (ty_schema b, ty_name b)"

definition less_type_ref :: "type_ref \<Rightarrow> type_ref \<Rightarrow> bool" where
  "less_type_ref a b \<longleftrightarrow> (ty_schema a, ty_name a) < (ty_schema b, ty_name b)"

instance
  by standard (auto simp: less_eq_type_ref_def less_type_ref_def type_ref.expand)

end

record column_type =
  ct_base :: string
  ct_args :: "type_arg list"
  ct_args_after_word :: "nat option"
  ct_array :: bool
  ct_user :: "type_ref option"

datatype ref_reason =
    PartEmpty
  | PartNul
  | TemporarySchema string
  | ArrayElementName string string
  | NotQualified
  | TakesNoArguments
  | ExpectedDot
  | ThreeParts
  | UnexpectedText
  | UnicodeEscape
  | QuotedEmpty
  | QuotedOpen
  | DigitStart
  | NotIdentifierStart
  | ArraySuffix
  | ExpectedQualified

datatype type_parse_error = BadTypeReference string ref_reason | BadArray string

section \<open>Writing\<close>

definition bare_start :: "char \<Rightarrow> bool" where
  "bare_start c \<longleftrightarrow> is_ascii_lower c \<or> c = CHR ''_''"

definition bare_char :: "char \<Rightarrow> bool" where
  "bare_char c \<longleftrightarrow> is_ascii_lower c \<or> is_ascii_digit c \<or> c = CHR ''_'' \<or> c = CHR ''$''"

definition quote :: char where
  "quote = CHR 0x22"

fun double_quotes :: "string \<Rightarrow> string" where
  "double_quotes [] = []"
| "double_quotes (c # cs) = (if c = quote then [quote, c] else [c]) @ double_quotes cs"

definition write_part :: "string \<Rightarrow> string" where
  "write_part part =
     (if (case part of [] \<Rightarrow> False | c # _ \<Rightarrow> bare_start c) \<and> list_all bare_char part
      then part
      else [quote] @ double_quotes part @ [quote])"

definition type_raw :: "type_ref \<Rightarrow> string" where
  "type_raw t = write_part (ty_schema t) @ [dot] @ write_part (ty_name t)"

section \<open>Reading\<close>

definition numbered :: "string \<Rightarrow> string \<Rightarrow> bool" where
  "numbered lead part =
     (case strip_prefix lead part of None \<Rightarrow> False | Some n \<Rightarrow> list_all is_ascii_digit n)"

definition check_part :: "string \<Rightarrow> bool \<Rightarrow> (ref_reason, unit) result" where
  "check_part part is_schema =
     (if part = [] then Inl PartEmpty
      else if CHR 0x00 \<in> set part then Inl PartNul
      else if is_schema
        then if part = ''pg_temp'' \<or> numbered ''pg_temp_'' part \<or> numbered ''pg_toast_temp_'' part
             then Inl (TemporarySchema part) else Inr ()
      else case strip_prefix ''_'' part of
             Some element \<Rightarrow> Inl (ArrayElementName part element)
           | None \<Rightarrow> Inr ())"

definition type_problem :: "type_ref \<Rightarrow> ref_reason option" where
  "type_problem t =
     (case and_then (check_part (ty_schema t) True) (\<lambda>_. check_part (ty_name t) False) of
        Inl reason \<Rightarrow> Some reason
      | Inr _ \<Rightarrow> None)"

text \<open>The source shows the spelling in the refusal escaped; here it is the spelling itself.\<close>

definition type_ref_new :: "string \<Rightarrow> string \<Rightarrow> (type_parse_error, type_ref) result" where
  "type_ref_new schema name =
     (let user = TypeRef schema name
      in case type_problem user of
           Some reason \<Rightarrow> Inl (BadTypeReference (type_raw user) reason)
         | None \<Rightarrow> Inr user)"

text \<open>The loop over a quoted part: the part and what follows the closing quote.\<close>

fun take_quoted :: "string \<Rightarrow> string \<Rightarrow> (string \<times> string) option" where
  "take_quoted part [] = None"
| "take_quoted part (c # cs) =
     (if c \<noteq> quote then take_quoted (part @ [c]) cs
      else case cs of
        [] \<Rightarrow> Some (part, [])
      | d # ds \<Rightarrow> if d = quote then take_quoted (part @ [quote]) ds else Some (part, cs))"

definition ident_start :: "char \<Rightarrow> bool" where
  "ident_start c \<longleftrightarrow> is_ascii_alphabetic c \<or> c = CHR ''_'' \<or> \<not> is_ascii c"

definition ident_cont :: "char \<Rightarrow> bool" where
  "ident_cont c \<longleftrightarrow> ident_start c \<or> is_ascii_digit c \<or> c = CHR ''$''"

definition take_part :: "string \<Rightarrow> string \<Rightarrow> (type_parse_error, string \<times> string) result" where
  "take_part whole t =
     (if 2 \<le> length t \<and> eq_ignore_ascii_case (take 2 t) ''u&''
      then Inl (BadTypeReference whole UnicodeEscape)
      else case t of
        [] \<Rightarrow> Inl (BadTypeReference whole NotIdentifierStart)
      | c # cs \<Rightarrow>
          if c = quote
          then case take_quoted [] cs of
                 None \<Rightarrow> Inl (BadTypeReference whole QuotedOpen)
               | Some (part, rest) \<Rightarrow>
                   if part = [] then Inl (BadTypeReference whole QuotedEmpty) else Inr (part, rest)
          else if \<not> ident_start c
          then Inl (BadTypeReference whole (if is_ascii_digit c then DigitStart else NotIdentifierStart))
          else Inr (to_ascii_lowercase (takeWhile ident_cont t), dropWhile ident_cont t))"

definition qualified_parts :: "string \<Rightarrow> (type_parse_error, type_ref \<times> bool) result" where
  "qualified_parts whole =
     and_then (take_part whole whole) (\<lambda>(schema, rest).
       case strip_prefix [dot] rest of
         None \<Rightarrow> Inl (BadTypeReference whole
                   (if rest = [] then NotQualified
                    else if starts_with rest ''('' then TakesNoArguments else ExpectedDot))
       | Some rest \<Rightarrow>
           and_then (take_part whole rest) (\<lambda>(name, rest).
             let rest = trim_start rest in
             if rest = [] then Inr (TypeRef schema name, False)
             else if rest = ''[]'' then Inr (TypeRef schema name, True)
             else if starts_with rest [dot] then Inl (BadTypeReference whole ThreeParts)
             else if starts_with rest ''('' then Inl (BadTypeReference whole TakesNoArguments)
             else if starts_with rest ''['' then Inl (BadArray whole)
             else Inl (BadTypeReference whole UnexpectedText)))"

definition column_type_reference :: "type_ref \<Rightarrow> column_type" where
  "column_type_reference user =
     \<lparr>ct_base = type_raw user, ct_args = [], ct_args_after_word = None, ct_array = False,
      ct_user = Some user\<rparr>"

definition parse_reference :: "string \<Rightarrow> (type_parse_error, column_type) result" where
  "parse_reference whole =
     and_then (qualified_parts whole) (\<lambda>(user, array).
       case type_problem user of
         Some reason \<Rightarrow> Inl (BadTypeReference whole reason)
       | None \<Rightarrow>
           let ty = column_type_reference user
           in Inr (if array then ty\<lparr>ct_array := True\<rparr> else ty))"

definition type_from_str :: "string \<Rightarrow> (type_parse_error, type_ref) result" where
  "type_from_str t =
     and_then (parse_reference (trim t)) (\<lambda>ty.
       if ct_array ty then Inl (BadTypeReference t ArraySuffix)
       else ok_or (ct_user ty) (BadTypeReference t ExpectedQualified))"

definition type_ok :: "type_ref \<Rightarrow> bool" where
  "type_ok t \<longleftrightarrow> type_problem t = None"

section \<open>One part reads back\<close>

lemma take_quoted_double:
  "rest = [] \<or> hd rest \<noteq> quote \<Longrightarrow>
   take_quoted acc (double_quotes part @ quote # rest) = Some (acc @ part, rest)"
proof (induction part arbitrary: acc)
  case Nil
  then show ?case by (cases rest) auto
next
  case (Cons c cs)
  then show ?case by auto
qed

lemma ascii_lower_fix: "bare_char c \<Longrightarrow> ascii_lower_char c = c"
  by (auto simp: ascii_lower_char_def bare_char_def is_ascii_upper_def is_ascii_lower_def
    is_ascii_digit_def byte_def)

lemma bare_not_amp: "bare_char c \<Longrightarrow> ascii_lower_char c \<noteq> CHR ''&''"
  by (auto simp: ascii_lower_fix) (auto simp: bare_char_def is_ascii_lower_def is_ascii_digit_def byte_def)

lemma bare_ident: "bare_char c \<Longrightarrow> ident_cont c" "bare_start c \<Longrightarrow> ident_start c"
  by (auto simp: bare_char_def bare_start_def ident_cont_def ident_start_def is_ascii_alphabetic_def)

lemma dot_not_ident: "\<not> ident_cont dot"
  by (simp add: ident_cont_def ident_start_def dot_def is_ascii_alphabetic_def is_ascii_lower_def
    is_ascii_upper_def is_ascii_digit_def is_ascii_def byte_def)

lemma quote_not_bare: "\<not> bare_start quote" "\<not> bare_char quote"
  by (simp_all add: bare_start_def bare_char_def quote_def is_ascii_lower_def is_ascii_digit_def byte_def)

lemma take_part_bare:
  assumes part: "part = c # cs" "bare_start c" "list_all bare_char part"
    and rest: "rest = [] \<or> (\<exists>ds. rest = dot # ds)"
  shows "take_part whole (part @ rest) = Inr (part, rest)"
proof -
  have "\<not> (2 \<le> length (part @ rest) \<and> eq_ignore_ascii_case (take 2 (part @ rest)) ''u&'')"
  proof (cases cs)
    case Nil
    then show ?thesis
      using rest part
      by (auto simp: eq_ignore_ascii_case_def to_ascii_lowercase_def dot_def ascii_lower_char_def
        is_ascii_upper_def byte_def)
  next
    case (Cons d ds)
    with part bare_not_amp [of d] show ?thesis
      by (auto simp: eq_ignore_ascii_case_def to_ascii_lowercase_def ascii_lower_char_def
        is_ascii_upper_def byte_def split: if_splits)
  qed
  moreover have "takeWhile ident_cont (part @ rest) = part" "dropWhile ident_cont (part @ rest) = rest"
    using part(3) rest dot_not_ident
    by (auto simp: list_all_iff takeWhile_append dropWhile_append bare_ident takeWhile_eq_all_conv)
  moreover have "to_ascii_lowercase part = part"
    using part(3) by (auto simp: to_ascii_lowercase_def list_all_iff ascii_lower_fix intro!: map_idI)
  ultimately show ?thesis
    using part quote_not_bare(1) bare_ident(2) [of c] by (auto simp: take_part_def)
qed

lemma take_part_quoted:
  assumes "part \<noteq> []" "rest = [] \<or> hd rest \<noteq> quote"
  shows "take_part whole (quote # double_quotes part @ quote # rest) = Inr (part, rest)"
proof -
  have "\<not> eq_ignore_ascii_case (take 2 (quote # double_quotes part @ quote # rest)) ''u&''"
    by (simp add: eq_ignore_ascii_case_def to_ascii_lowercase_def quote_def ascii_lower_char_def
      is_ascii_upper_def byte_def)
  then show ?thesis
    using take_quoted_double [OF assms(2), of "[]" part] assms(1)
    by (simp add: take_part_def)
qed

lemma take_part_write_part:
  assumes "part \<noteq> []" "rest = [] \<or> (\<exists>ds. rest = dot # ds)"
  shows "take_part whole (write_part part @ rest) = Inr (part, rest)"
proof (cases "bare_start (hd part) \<and> list_all bare_char part")
  case True
  with assms(1) have "write_part part = part" by (auto simp: write_part_def split: list.splits)
  moreover obtain c cs where "part = c # cs" using assms(1) by (cases part) auto
  ultimately show ?thesis
    using True assms(2) take_part_bare [of part c cs rest whole] by simp
next
  case False
  with assms(1) have "write_part part = quote # double_quotes part @ [quote]"
    by (auto simp: write_part_def split: list.splits)
  moreover have "rest = [] \<or> hd rest \<noteq> quote"
    using assms(2) by (auto simp: dot_def quote_def)
  ultimately show ?thesis
    using take_part_quoted [OF assms(1)] by simp
qed

lemma bare_graphic: "bare_char c \<Longrightarrow> graphic c"
  by (auto simp: bare_char_def graphic_def is_ascii_lower_def is_ascii_digit_def byte_def)

lemma write_part_ends:
  "part \<noteq> [] \<Longrightarrow> write_part part \<noteq> [] \<and> graphic (hd (write_part part)) \<and> graphic (last (write_part part))"
  using bare_graphic
  by (auto simp: write_part_def list_all_iff graphic_def quote_def byte_def split: list.splits)

lemma type_ok_parts: "type_ok t \<Longrightarrow> ty_schema t \<noteq> [] \<and> ty_name t \<noteq> []"
  by (auto simp: type_ok_def type_problem_def check_part_def and_then_def split: sum.splits if_splits)

lemma type_from_str_raw:
  assumes "type_ok t"
  shows "type_from_str (type_raw t) = Inr t"
proof -
  note parts = type_ok_parts [OF assms]
  have "trim (type_raw t) = type_raw t"
    using write_part_ends [of "ty_schema t"] write_part_ends [of "ty_name t"] parts
    by (intro trim_graphic) (auto simp: type_raw_def)
  moreover have "take_part (type_raw t) (type_raw t) = Inr (ty_schema t, dot # write_part (ty_name t))"
    using take_part_write_part [of "ty_schema t" "dot # write_part (ty_name t)"] parts
    by (simp add: type_raw_def)
  moreover have "take_part (type_raw t) (write_part (ty_name t)) = Inr (ty_name t, [])"
    using take_part_write_part [of "ty_name t" "[]"] parts by simp
  ultimately have "qualified_parts (trim (type_raw t)) = Inr (t, False)"
    by (simp add: qualified_parts_def strip_prefix_def)
  with assms \<open>trim (type_raw t) = type_raw t\<close> show ?thesis
    by (simp add: type_from_str_def parse_reference_def type_ok_def column_type_reference_def)
qed

lemma type_from_str_valid: "type_from_str s = Inr t \<Longrightarrow> type_ok t"
  by (auto simp: type_from_str_def parse_reference_def result_simps type_ok_def Let_def
    column_type_reference_def split: option.splits if_splits)

interpretation type_text: spelled type_raw type_from_str type_ok
  by unfold_locales (simp_all add: type_from_str_raw type_from_str_valid)

section \<open>Properties\<close>

text \<open>
  C38. The canonical text of a type reference has one spelling per reference and reads back
  as that reference: for every reference the constructor \<open>TypeRef::new\<close> accepts, quoted or
  not, \<open>from_str\<close> of its text returns it; what \<open>from_str\<close> accepts is a reference
  \<open>TypeRef::new\<close> accepts, and rewriting it in canonical form does not change it.
\<close>

theorem type_references_round_trip:
  "(type_ref_new schema name = Inr t \<longrightarrow> type_from_str (type_raw t) = Inr t)
   \<and> (type_from_str s = Inr t \<longrightarrow>
        type_ref_new (ty_schema t) (ty_name t) = Inr t \<and> type_from_str (type_raw t) = Inr t)
   \<and> (type_ref_new schema name = Inr t \<and> type_ref_new schema' name' = Inr t' \<and> type_raw t = type_raw t'
        \<longrightarrow> t = t')"
proof -
  have new: "type_ref_new s n = Inr u \<longleftrightarrow> u = TypeRef s n \<and> type_ok u" for s n u
    by (auto simp: type_ref_new_def type_ok_def Let_def split: option.splits)
  show ?thesis
    using type_text.parse_raw type_text.parse_valid type_text.parse_canonical type_text.raw_inj
    unfolding new by (metis type_ref.collapse)
qed

theorem type_references_round_trip_witness:
  "type_from_str (type_raw (TypeRef ''App'' ''my mood'')) = Inr (TypeRef ''App'' ''my mood'')
   \<and> type_from_str ''APP.Mood'' = Inr (TypeRef ''app'' ''mood'')"
proof -
  have "type_ref_new ''App'' ''my mood'' = Inr (TypeRef ''App'' ''my mood'')" by code_simp
  then have "type_from_str (type_raw (TypeRef ''App'' ''my mood'')) = Inr (TypeRef ''App'' ''my mood'')"
    using type_references_round_trip by blast
  moreover have "type_from_str ''APP.Mood'' = Inr (TypeRef ''app'' ''mood'')" by code_simp
  ultimately show ?thesis by blast
qed

end
