(* ===== verification/Escape.thy ===== *)
theory Escape
  imports Rust_Str
begin

text \<open>
  Showing artifact-controlled text (\<open>crates/pbps-model/src/escape.rs\<close>), and the two value
  types that check text at construction (\<open>zone.rs\<close>, \<open>reason.rs\<close>). Text here is the list of
  its Unicode scalar values, what \<open>str::chars\<close> yields.
\<close>

type_synonym uchar = nat
type_synonym utext = "uchar list"

definition lit :: "string \<Rightarrow> utext" where
  "lit s = map of_char s"

text \<open>\<open>char::is_control\<close>: the general category Cc.\<close>

definition is_control :: "uchar \<Rightarrow> bool" where
  "is_control c \<longleftrightarrow> c < 32 \<or> 127 \<le> c \<and> c < 160"

definition hides_or_moves :: "uchar \<Rightarrow> bool" where
  "hides_or_moves c \<longleftrightarrow>
     is_control c
     \<or> c = 0xad \<or> c = 0x34f \<or> c = 0x61c
     \<or> 0x115f \<le> c \<and> c \<le> 0x1160
     \<or> 0x17b4 \<le> c \<and> c \<le> 0x17b5
     \<or> c = 0x180e
     \<or> 0x200b \<le> c \<and> c \<le> 0x200f
     \<or> 0x2028 \<le> c \<and> c \<le> 0x202e
     \<or> 0x2060 \<le> c \<and> c \<le> 0x206f
     \<or> c = 0x3164 \<or> c = 0xfeff \<or> c = 0xffa0
     \<or> 0xfff0 \<le> c \<and> c \<le> 0xfff8
     \<or> 0x1bca0 \<le> c \<and> c \<le> 0x1bca3
     \<or> 0x1d173 \<le> c \<and> c \<le> 0x1d17a
     \<or> 0xe0000 \<le> c \<and> c \<le> 0xe00ff
     \<or> 0xe01f0 \<le> c \<and> c \<le> 0xe0fff"

text \<open>The \<open>{:x}\<close> format: lower-case hexadecimal digits, most significant first.\<close>

definition hex_digit :: "nat \<Rightarrow> uchar" where
  "hex_digit d = (if d < 10 then 48 + d else 87 + d)"

fun hex :: "nat \<Rightarrow> utext" where
  "hex n = (if n < 16 then [hex_digit n] else hex (n div 16) @ [hex_digit (n mod 16)])"

declare hex.simps [simp del]

definition show_char :: "uchar \<Rightarrow> utext" where
  "show_char c =
     (if c = 10 then lit [CHR 0x5C, CHR ''n'']
      else if c = 13 then lit [CHR 0x5C, CHR ''r'']
      else if c = 9 then lit [CHR 0x5C, CHR ''t'']
      else if c = 92 then lit [CHR 0x5C, CHR 0x5C]
      else if hides_or_moves c then lit [CHR 0x5C, CHR ''u'', CHR ''{''] @ hex c @ lit [CHR ''}'']
      else [c])"

fun write_inert :: "utext \<Rightarrow> utext" where
  "write_inert [] = []"
| "write_inert (c # cs) = show_char c @ write_inert cs"

section \<open>Session zones and reasons\<close>

datatype zone_error = ZoneEmpty | ZoneControl utext

datatype session_zone = SessionZone (zone_str: utext)

definition session_zone_new :: "utext \<Rightarrow> (zone_error, session_zone) result" where
  "session_zone_new t =
     (if t = [] then Inl ZoneEmpty
      else if list_ex is_control t then Inl (ZoneControl t)
      else Inr (SessionZone t))"

definition session_zone_utc :: session_zone where
  "session_zone_utc = SessionZone (lit ''UTC'')"

datatype reason_error = ReasonError

datatype reason = Reason (reason_str: string)

definition reason_new :: "string \<Rightarrow> (reason_error, reason) result" where
  "reason_new v = (if blank v then Inl ReasonError else Inr (Reason v))"

section \<open>Hexadecimal digits\<close>

fun hex_value :: "utext \<Rightarrow> nat \<Rightarrow> nat" where
  "hex_value [] acc = acc"
| "hex_value (c # cs) acc = hex_value cs (16 * acc + (if c < 58 then c - 48 else c - 87))"

lemma hex_value_append: "hex_value (xs @ ys) acc = hex_value ys (hex_value xs acc)"
  by (induction xs arbitrary: acc) auto

lemma hex_value_digit: "d < 16 \<Longrightarrow> hex_value [hex_digit d] acc = 16 * acc + d"
  by (simp add: hex_digit_def)

lemma hex_value_hex: "hex_value (hex n) 0 = n"
proof (induction n rule: hex.induct)
  case (1 n)
  show ?case
  proof (cases "n < 16")
    case True
    then show ?thesis by (simp add: hex.simps [of n] hex_value_digit del: hex_value.simps)
  next
    case False
    with 1 show ?thesis
      by (simp add: hex.simps [of n] hex_value_append hex_value_digit del: hex_value.simps)
  qed
qed

lemma set_hex: "c \<in> set (hex n) \<Longrightarrow> 48 \<le> c \<and> c \<le> 57 \<or> 97 \<le> c \<and> c \<le> 102"
proof (induction n rule: hex.induct)
  case (1 n)
  then show ?case
    by (subst (asm) hex.simps) (auto simp: hex_digit_def split: if_splits)
qed

section \<open>The escape is readable back\<close>

text \<open>A reader of shown text, the left inverse that makes the escape lossless.\<close>

function (sequential) read_inert :: "utext \<Rightarrow> utext" where
  "read_inert [] = []"
| "read_inert (c # cs) =
     (if c \<noteq> 92 then c # read_inert cs
      else case cs of
        [] \<Rightarrow> []
      | d # ds \<Rightarrow>
          if d = 110 then 10 # read_inert ds
          else if d = 114 then 13 # read_inert ds
          else if d = 116 then 9 # read_inert ds
          else if d = 117
            then hex_value (takeWhile (\<lambda>x. x \<noteq> 125) (drop 1 ds)) 0
                   # read_inert (drop 1 (dropWhile (\<lambda>x. x \<noteq> 125) (drop 1 ds)))
          else d # read_inert ds)"
  by pat_completeness auto
termination
proof (relation "measure length")
  fix c :: uchar and cs :: utext and d ds
  assume "cs = d # ds"
  moreover have "length (dropWhile (\<lambda>x. x \<noteq> 125) (drop 1 ds)) \<le> length ds"
    using length_dropWhile_le [of "\<lambda>x. x \<noteq> 125" "drop 1 ds"] by simp
  ultimately show "(drop 1 (dropWhile (\<lambda>x. x \<noteq> 125) (drop 1 ds)), c # cs) \<in> measure length"
    by simp
qed auto

lemma takeWhile_hex: "takeWhile (\<lambda>x. x \<noteq> 125) (hex n @ 125 # cs) = hex n"
  by (subst takeWhile_append2) (auto dest: set_hex)

lemma dropWhile_hex: "dropWhile (\<lambda>x. x \<noteq> 125) (hex n @ 125 # cs) = 125 # cs"
  by (subst dropWhile_append2) (auto dest: set_hex)

lemma read_show_char: "read_inert (show_char c @ cs) = c # read_inert cs"
  by (auto simp: show_char_def lit_def takeWhile_hex dropWhile_hex hex_value_hex)

lemma read_write_inert: "read_inert (write_inert cs) = cs"
  by (induction cs) (auto simp: read_show_char)

lemma graphic_visible: "33 \<le> x \<Longrightarrow> x < 127 \<Longrightarrow> \<not> hides_or_moves x"
  by (simp add: hides_or_moves_def is_control_def)

lemma control_hides: "c < 32 \<Longrightarrow> hides_or_moves c"
  by (simp add: hides_or_moves_def is_control_def)

lemma show_char_plain: "c \<noteq> 92 \<Longrightarrow> \<not> hides_or_moves c \<Longrightarrow> show_char c = [c]"
proof -
  assume c: "c \<noteq> 92" "\<not> hides_or_moves c"
  then have "\<not> c < 32" using control_hides by blast
  with c show ?thesis by (simp add: show_char_def)
qed

lemma show_char_cases: "show_char c = [c] \<and> \<not> hides_or_moves c \<or> (\<forall>x \<in> set (show_char c). 33 \<le> x \<and> x < 127)"
  by (auto simp: show_char_def lit_def dest: set_hex)

lemma show_char_visible: "x \<in> set (show_char c) \<Longrightarrow> \<not> hides_or_moves x"
  using show_char_cases [of c] graphic_visible by auto

section \<open>Properties\<close>

text \<open>
  C39. Text put into a message through \<open>Escaped\<close> is inert and loses nothing: no character of
  the output is a control, separator or invisible character, two different texts are never
  shown the same way, and a text without such characters and without a backslash is shown
  as it is.
\<close>

theorem escaped_text_is_inert_and_lossless:
  "(\<forall>c \<in> set (write_inert t). \<not> hides_or_moves c)
   \<and> (write_inert t = write_inert t' \<longrightarrow> t = t')
   \<and> ((\<forall>c \<in> set t. c \<noteq> 92 \<and> \<not> hides_or_moves c) \<longrightarrow> write_inert t = t)"
proof -
  have "x \<in> set (write_inert t) \<Longrightarrow> \<not> hides_or_moves x" for x
    by (induction t) (auto dest: show_char_visible)
  moreover have "write_inert t = write_inert t' \<Longrightarrow> t = t'"
    by (metis read_write_inert)
  moreover have "\<forall>c \<in> set t. c \<noteq> 92 \<and> \<not> hides_or_moves c \<Longrightarrow> write_inert t = t"
    by (induction t) (simp_all add: show_char_plain)
  ultimately show ?thesis by blast
qed

theorem escaped_text_is_inert_and_lossless_witness:
  "write_inert (lit ''plain'') = lit ''plain''
   \<and> write_inert [10] \<noteq> write_inert [92, 110]
   \<and> list_all (\<lambda>c. \<not> hides_or_moves c) (write_inert [27, 65])"
proof -
  have "write_inert (lit ''plain'') = lit ''plain''"
    using escaped_text_is_inert_and_lossless [of "lit ''plain''" "[]"]
    by (simp add: lit_def graphic_visible)
  moreover have "write_inert [10] \<noteq> write_inert [92, 110]"
    using escaped_text_is_inert_and_lossless [of "[10]" "[92, 110]"] by auto
  moreover have "list_all (\<lambda>c. \<not> hides_or_moves c) (write_inert [27, 65])"
    unfolding list_all_iff using escaped_text_is_inert_and_lossless [of "[27, 65]" "[]"] by blast
  ultimately show ?thesis by blast
qed

end
