(* ===== verification/Ids.thy ===== *)
theory Ids
  imports Type_Ref Escape
begin

text \<open>
  The identity file (\<open>crates/pbps-model/src/ids.rs\<close>, \<open>rebuild.rs\<close>): the mapping from uids to
  names, its tombstones and recorded intent, the consistency check every reader runs, the
  lookups by scan and by index, and the operations that rename or remove entries.
\<close>

section \<open>Data\<close>

record drop_requirement =
  dr_table_uid :: uid
  dr_predicate :: string
  dr_required_at :: string
  dr_operator :: string

record tombstone =
  tb_was :: string
  tb_dropped_at :: string
  tb_reason :: string
  tb_operator :: string
  tb_require :: "drop_requirement option"

record row_move =
  mv_max_rows :: "64 word"
  mv_allowed_at :: string
  mv_reason :: string
  mv_operator :: string

record conversion =
  cv_from :: string
  cv_to :: string
  cv_using :: string
  cv_allowed_at :: string
  cv_operator :: string

datatype collation = Collation (collation_str: string)

record column_shape =
  sh_ty :: column_type
  sh_collation :: "collation option"

record rebuild_identities =
  ri_tables :: "(uid, table_name) btree"
  ri_columns :: "(uid, column_ref) btree"

record rebuild =
  rb_source :: rebuild_identities
  rb_replacement :: rebuild_identities
  rb_replacement_root :: uid
  rb_continues :: "(uid, uid) btree"
  rb_target_checksum :: string
  rb_max_rows :: "64 word"
  rb_allowed_at :: string
  rb_reason :: reason
  rb_operator :: string
  rb_types :: "(uid, column_shape) btree"
  rb_conversions :: "(uid, conversion) btree"

record ids_file =
  ids_version :: "32 word"
  ids_tables :: "(uid, table_name) btree"
  ids_columns :: "(uid, column_ref) btree"
  ids_roles :: "(uid, role_name) btree"
  ids_types :: "(uid, type_ref) btree"
  ids_extensions :: "(uid, object_local_name) btree"
  ids_tombstones :: "(uid, tombstone) btree"
  ids_moves :: "(uid, row_move) btree"
  ids_rebuilds :: "(uid, rebuild) btree"
  ids_conversions :: "(uid, conversion) btree"

datatype ids_error =
    UnsupportedVersion "32 word" "32 word"
  | LiveAndTombstoned uid
  | DuplicateName uid uid string
  | KindMismatch uid
  | OrphanColumn uid string
  | OrphanMove uid
  | InvalidRebuild uid
  | OrphanConversion uid
  | InvalidConversion uid
  | InvalidDropRequirement uid
  | NotHeld uid string

definition CURRENT_VERSION :: "32 word" where
  "CURRENT_VERSION = 1"

definition ids_default :: ids_file where
  "ids_default =
     \<lparr>ids_version = CURRENT_VERSION, ids_tables = bempty, ids_columns = bempty, ids_roles = bempty,
      ids_types = bempty, ids_extensions = bempty, ids_tombstones = bempty, ids_moves = bempty,
      ids_rebuilds = bempty, ids_conversions = bempty\<rparr>"

definition as_ids :: "rebuild_identities \<Rightarrow> ids_file" where
  "as_ids r = ids_default\<lparr>ids_tables := ri_tables r, ids_columns := ri_columns r\<rparr>"

definition source_root :: "rebuild \<Rightarrow> uid option" where
  "source_root r = bget (rb_continues r) (rb_replacement_root r)"

text \<open>The \<open>all\<close> over \<open>continues\<close> with the set \<open>taken\<close> of source members seen so far.\<close>

fun pairings_whole :: "rebuild \<Rightarrow> uid set \<Rightarrow> (uid \<times> uid) list \<Rightarrow> bool" where
  "pairings_whole r taken [] = True"
| "pairings_whole r taken ((to, from) # ps) =
     ((bhas (ri_tables (rb_replacement r)) to \<and> bhas (ri_tables (rb_source r)) from
       \<or> bhas (ri_columns (rb_replacement r)) to \<and> bhas (ri_columns (rb_source r)) from)
      \<and> from \<notin> taken \<and> pairings_whole r (insert from taken) ps)"

definition continues_are_whole :: "rebuild \<Rightarrow> bool" where
  "continues_are_whole r = pairings_whole r {} (entries (rb_continues r))"

definition source_column :: "rebuild \<Rightarrow> column_ref \<Rightarrow> column_ref option" where
  "source_column r c =
     (case find (\<lambda>(_, column). column = c) (entries (ri_columns (rb_replacement r))) of
        None \<Rightarrow> None
      | Some (u, _) \<Rightarrow>
          (case bget (rb_continues r) u of
             None \<Rightarrow> None
           | Some from \<Rightarrow> bget (ri_columns (rb_source r)) from))"

section \<open>Lookups\<close>

text \<open>\<open>iter().find(|(_, n)| *n == name)\<close>: the lowest uid that holds the name.\<close>

definition find_uid :: "(uid, 'n) btree \<Rightarrow> 'n \<Rightarrow> uid option" where
  "find_uid m n = map_option fst (find (\<lambda>(_, x). x = n) (entries m))"

definition table_uid :: "ids_file \<Rightarrow> table_name \<Rightarrow> uid option" where
  "table_uid ids n = find_uid (ids_tables ids) n"

definition column_uid :: "ids_file \<Rightarrow> column_ref \<Rightarrow> uid option" where
  "column_uid ids c = find_uid (ids_columns ids) c"

definition role_uid :: "ids_file \<Rightarrow> role_name \<Rightarrow> uid option" where
  "role_uid ids n = find_uid (ids_roles ids) n"

definition extension_uid :: "ids_file \<Rightarrow> object_local_name \<Rightarrow> uid option" where
  "extension_uid ids n = find_uid (ids_extensions ids) n"

definition type_uid :: "ids_file \<Rightarrow> type_ref \<Rightarrow> uid option" where
  "type_uid ids n = find_uid (ids_types ids) n"

definition contains_uid :: "ids_file \<Rightarrow> uid \<Rightarrow> bool" where
  "contains_uid ids u \<longleftrightarrow>
     bhas (ids_tables ids) u \<or> bhas (ids_columns ids) u \<or> bhas (ids_roles ids) u
     \<or> bhas (ids_types ids) u \<or> bhas (ids_extensions ids) u \<or> bhas (ids_tombstones ids) u"

definition rebuild_into :: "ids_file \<Rightarrow> uid \<Rightarrow> (uid \<times> rebuild) option" where
  "rebuild_into ids root = find (\<lambda>(_, r). rb_replacement_root r = root) (entries (ids_rebuilds ids))"

definition resolved_in :: "ids_file \<Rightarrow> table_name \<Rightarrow> ids_file \<Rightarrow> table_name" where
  "resolved_in ids wanted recorded =
     (case Option.bind (table_uid ids wanted) (bget (ids_tables recorded)) of
        None \<Rightarrow> wanted
      | Some n \<Rightarrow> n)"

section \<open>The index\<close>

record ids_index =
  ix_types :: "(type_ref, uid) btree"
  ix_tables :: "(table_name, uid) btree"
  ix_columns :: "(column_ref, uid) btree"
  ix_roles :: "(string, uid) btree"
  ix_columns_by_table :: "(table_name, (uid, column_ref) btree) btree"

definition index_first :: "(uid, 'n::linorder) btree \<Rightarrow> ('n, uid) btree" where
  "index_first m = foldl (\<lambda>ix (u, n). bentry n u ix) bempty (entries m)"

definition index_columns_by_table ::
  "(uid, column_ref) btree \<Rightarrow> (table_name, (uid, column_ref) btree) btree" where
  "index_columns_by_table m =
     foldl (\<lambda>ix (u, c).
       let inner = (case bget ix (cr_table c) of None \<Rightarrow> bempty | Some i \<Rightarrow> i)
       in bput (cr_table c) (bput u c inner) ix) bempty (entries m)"

definition index_of :: "ids_file \<Rightarrow> ids_index" where
  "index_of ids =
     \<lparr>ix_types = bcollect (map (\<lambda>(u, n). (n, u)) (rev (entries (ids_types ids)))),
      ix_tables = index_first (ids_tables ids),
      ix_columns = index_first (ids_columns ids),
      ix_roles = index_first (ids_roles ids),
      ix_columns_by_table = index_columns_by_table (ids_columns ids)\<rparr>"

definition index_resolved_in :: "ids_index \<Rightarrow> table_name \<Rightarrow> ids_file \<Rightarrow> table_name" where
  "index_resolved_in ix wanted recorded =
     (case Option.bind (bget (ix_tables ix) wanted) (bget (ids_tables recorded)) of
        None \<Rightarrow> wanted
      | Some n \<Rightarrow> n)"

definition index_columns_of :: "ids_index \<Rightarrow> table_name \<Rightarrow> (uid \<times> column_ref) list" where
  "index_columns_of ix t =
     (case bget (ix_columns_by_table ix) t of None \<Rightarrow> [] | Some m \<Rightarrow> entries m)"

section \<open>Changing entries\<close>

definition rename_table :: "table_name \<Rightarrow> table_name \<Rightarrow> ids_file \<Rightarrow> ids_file" where
  "rename_table from to ids =
     (case table_uid ids from of
        None \<Rightarrow> ids
      | Some u \<Rightarrow>
          ids\<lparr>ids_tables := bput u to (ids_tables ids),
              ids_columns := bmap (\<lambda>r. if cr_table r = from then ColumnRef to (cr_name r) else r)
                               (ids_columns ids)\<rparr>)"

definition rename_role :: "role_name \<Rightarrow> role_name \<Rightarrow> ids_file \<Rightarrow> ids_file" where
  "rename_role from to ids =
     (case role_uid ids from of
        None \<Rightarrow> ids
      | Some u \<Rightarrow> ids\<lparr>ids_roles := bput u to (ids_roles ids)\<rparr>)"

definition ids_without :: "table_name list \<Rightarrow> ids_file \<Rightarrow> ids_file" where
  "ids_without tables ids =
     (let live = bretain (\<lambda>_ n. n \<notin> set tables) (ids_tables ids);
          columns = bretain (\<lambda>_ c. cr_table c \<notin> set tables) (ids_columns ids);
          tombstones = ids_tombstones ids
      in ids\<lparr>ids_tables := live,
             ids_columns := columns,
             ids_moves := bretain (\<lambda>u _. bhas live u) (ids_moves ids),
             ids_conversions := bretain (\<lambda>u _. bhas columns u) (ids_conversions ids),
             ids_rebuilds := bretain
               (\<lambda>_ r. list_all (\<lambda>u. bhas live u \<or> bhas tombstones u) (bkeys (ri_tables (rb_replacement r)))
                    \<and> list_all (\<lambda>u. bhas columns u \<or> bhas tombstones u) (bkeys (ri_columns (rb_replacement r))))
               (ids_rebuilds ids)\<rparr>)"

definition ids_without_roles :: "role_name list \<Rightarrow> ids_file \<Rightarrow> ids_file" where
  "ids_without_roles roles ids = ids\<lparr>ids_roles := bretain (\<lambda>_ n. n \<notin> set roles) (ids_roles ids)\<rparr>"

definition ids_without_types :: "type_ref list \<Rightarrow> ids_file \<Rightarrow> ids_file" where
  "ids_without_types types ids = ids\<lparr>ids_types := bretain (\<lambda>_ n. n \<notin> set types) (ids_types ids)\<rparr>"

section \<open>Validation\<close>

definition check_kind :: "uid_kind \<Rightarrow> uid list \<Rightarrow> (ids_error, unit) result" where
  "check_kind k us = try_each (\<lambda>u. ensure (uid_kind_of u = k) (KindMismatch u)) us"

definition check_kinds :: "ids_file \<Rightarrow> (ids_error, unit) result" where
  "check_kinds ids =
     and_then (check_kind TableUid (bkeys (ids_tables ids))) (\<lambda>_.
     and_then (check_kind ColumnUid (bkeys (ids_columns ids))) (\<lambda>_.
     and_then (check_kind RoleUid (bkeys (ids_roles ids))) (\<lambda>_.
     and_then (check_kind ExtensionUid (bkeys (ids_extensions ids))) (\<lambda>_.
       check_kind TypeUid (bkeys (ids_types ids))))))"

definition requirement_bad :: "uid \<Rightarrow> drop_requirement \<Rightarrow> bool" where
  "requirement_bad u r \<longleftrightarrow>
     blank (dr_predicate r)
     \<or> uid_kind_of (dr_table_uid r) \<noteq> TableUid
     \<or> \<not> (uid_kind_of u = TableUid \<or> uid_kind_of u = ColumnUid)
     \<or> uid_kind_of u = TableUid \<and> u \<noteq> dr_table_uid r"

definition live_uid :: "ids_file \<Rightarrow> uid \<Rightarrow> bool" where
  "live_uid ids u \<longleftrightarrow>
     bhas (ids_tables ids) u \<or> bhas (ids_columns ids) u \<or> bhas (ids_roles ids) u
     \<or> bhas (ids_types ids) u \<or> bhas (ids_extensions ids) u"

definition check_tombstones :: "ids_file \<Rightarrow> (ids_error, unit) result" where
  "check_tombstones ids =
     try_each (\<lambda>(u, t).
       and_then (ensure (case tb_require t of None \<Rightarrow> True | Some r \<Rightarrow> \<not> requirement_bad u r)
                  (InvalidDropRequirement u)) (\<lambda>_.
         ensure (\<not> live_uid ids u) (LiveAndTombstoned u)))
       (entries (ids_tombstones ids))"

fun check_unique :: "(string, uid) btree \<Rightarrow> (uid \<times> string) list \<Rightarrow> (ids_error, unit) result" where
  "check_unique seen [] = Inr ()"
| "check_unique seen ((u, name) # ps) =
     (case bget seen name of
        Some prev \<Rightarrow> Inl (DuplicateName prev u name)
      | None \<Rightarrow> check_unique (bput name u seen) ps)"

definition spellings :: "('n \<Rightarrow> string) \<Rightarrow> (uid, 'n) btree \<Rightarrow> (uid \<times> string) list" where
  "spellings raw m = map (\<lambda>(u, n). (u, raw n)) (entries m)"

definition check_names :: "ids_file \<Rightarrow> (ids_error, unit) result" where
  "check_names ids =
     and_then (check_unique bempty (spellings table_raw (ids_tables ids))) (\<lambda>_.
     and_then (check_unique bempty (spellings column_raw (ids_columns ids))) (\<lambda>_.
     and_then (check_unique bempty (spellings (\<lambda>n. n) (ids_roles ids))) (\<lambda>_.
     and_then (check_unique bempty (spellings type_raw (ids_types ids))) (\<lambda>_.
       check_unique bempty (spellings (\<lambda>n. n) (ids_extensions ids))))))"

definition check_columns :: "ids_file \<Rightarrow> (ids_error, unit) result" where
  "check_columns ids =
     (let live = set (bvalues (ids_tables ids))
      in try_each (\<lambda>(u, c). ensure (cr_table c \<in> live) (OrphanColumn u (column_raw c)))
           (entries (ids_columns ids)))"

definition check_moves :: "ids_file \<Rightarrow> (ids_error, unit) result" where
  "check_moves ids =
     try_each (\<lambda>u. ensure (bhas (ids_tables ids) u) (OrphanMove u)) (bkeys (ids_moves ids))"

definition conversion_bad :: "conversion \<Rightarrow> bool" where
  "conversion_bad c \<longleftrightarrow> blank (cv_using c) \<or> blank (cv_from c) \<or> blank (cv_to c) \<or> cv_from c = cv_to c"

definition check_conversions :: "ids_file \<Rightarrow> (ids_error, unit) result" where
  "check_conversions ids =
     try_each (\<lambda>(u, c).
       and_then (ensure (bhas (ids_columns ids) u) (OrphanConversion u)) (\<lambda>_.
         ensure (\<not> conversion_bad c) (InvalidConversion u)))
       (entries (ids_conversions ids))"

text \<open>
  Everything \<open>validate\<close> checks before the rebuild records. The code calls \<open>validate\<close> again on
  both ends of a record, which carry no records of their own: \<open>validate_as_ids\<close> below shows
  that this is the call the source makes.
\<close>

definition validate_base :: "ids_file \<Rightarrow> (ids_error, unit) result" where
  "validate_base ids =
     and_then (ensure (ids_version ids = CURRENT_VERSION)
                (UnsupportedVersion (ids_version ids) CURRENT_VERSION)) (\<lambda>_.
     and_then (check_kinds ids) (\<lambda>_.
     and_then (check_tombstones ids) (\<lambda>_.
     and_then (check_names ids) (\<lambda>_.
     and_then (check_columns ids) (\<lambda>_.
     and_then (check_moves ids) (\<lambda>_.
       check_conversions ids))))))"

definition rebuild_conversions_bad :: "rebuild \<Rightarrow> bool" where
  "rebuild_conversions_bad r =
     list_ex (\<lambda>(to, c). \<not> bhas (ri_columns (rb_replacement r)) to \<or> \<not> bhas (rb_continues r) to
                \<or> blank (cv_from c) \<or> blank (cv_to c) \<or> blank (cv_using c) \<or> cv_from c = cv_to c)
       (entries (rb_conversions r))"

text \<open>The \<open>any\<close> with \<open>reserved.insert\<close>: the set after the loop, or \<open>None\<close> when it stopped.\<close>

fun reserve :: "(uid \<Rightarrow> bool) \<Rightarrow> uid set \<Rightarrow> uid list \<Rightarrow> uid set option" where
  "reserve bad reserved [] = Some reserved"
| "reserve bad reserved (u # us) =
     (if bad u \<or> u \<in> reserved then None else reserve bad (insert u reserved) us)"

definition held_uid :: "ids_file \<Rightarrow> uid \<Rightarrow> bool" where
  "held_uid ids u \<longleftrightarrow> bhas (ids_tables ids) u \<or> bhas (ids_columns ids) u \<or> bhas (ids_tombstones ids) u"

definition members :: "rebuild_identities \<Rightarrow> uid list" where
  "members r = bkeys (ri_tables r) @ bkeys (ri_columns r)"

definition rebuild_record_ok :: "ids_file \<Rightarrow> uid \<Rightarrow> rebuild \<Rightarrow> bool" where
  "rebuild_record_ok ids u r \<longleftrightarrow>
     \<not> (rb_max_rows r = 0
        \<or> length (rb_target_checksum r) \<noteq> 64
        \<or> \<not> list_all is_ascii_hexdigit (rb_target_checksum r)
        \<or> \<not> is_ok (validate_base (as_ids (rb_source r)))
        \<or> \<not> is_ok (validate_base (as_ids (rb_replacement r)))
        \<or> source_root r \<noteq> Some u
        \<or> \<not> continues_are_whole r
        \<or> list_ex (\<lambda>v. \<not> bhas (ri_columns (rb_replacement r)) v) (bkeys (rb_types r))
        \<or> list_ex (\<lambda>v. \<not> bhas (ids_tombstones ids) v) (members (rb_source r)))"

definition check_rebuild :: "ids_file \<Rightarrow> uid set \<Rightarrow> uid \<times> rebuild \<Rightarrow> (ids_error, uid set) result" where
  "check_rebuild ids reserved p =
     (case p of (u, r) \<Rightarrow>
        if rebuild_conversions_bad r \<or> \<not> rebuild_record_ok ids u r then Inl (InvalidRebuild u)
        else ok_or (reserve (\<lambda>v. \<not> held_uid ids v \<or> v \<in> set (members (rb_source r))) reserved
                      (members (rb_replacement r)))
               (InvalidRebuild u))"

definition check_rebuilds :: "ids_file \<Rightarrow> (ids_error, unit) result" where
  "check_rebuilds ids =
     and_then (try_fold (check_rebuild ids) {} (entries (ids_rebuilds ids))) (\<lambda>_. Inr ())"

definition validate :: "ids_file \<Rightarrow> (ids_error, unit) result" where
  "validate ids = and_then (validate_base ids) (\<lambda>_. check_rebuilds ids)"

section \<open>Membership in a schema\<close>

text \<open>What \<open>check_held_by\<close> reads of a schema: which objects and columns it holds.\<close>

record held_schema =
  hs_extensions :: "object_local_name list"
  hs_types :: "type_ref list"
  hs_tables :: "(table_name, column_name list) btree"
  hs_roles :: "role_name list"

definition check_held_by :: "held_schema \<Rightarrow> ids_file \<Rightarrow> (ids_error, unit) result" where
  "check_held_by s ids =
     and_then (try_each (\<lambda>(u, n). ensure (n \<in> set (hs_extensions s)) (NotHeld u n))
                (entries (ids_extensions ids))) (\<lambda>_.
     and_then (try_each (\<lambda>(u, n). ensure (n \<in> set (hs_types s)) (NotHeld u (type_raw n)))
                (entries (ids_types ids))) (\<lambda>_.
     and_then (try_each (\<lambda>(u, n). ensure (bhas (hs_tables s) n) (NotHeld u (table_raw n)))
                (entries (ids_tables ids))) (\<lambda>_.
     and_then (try_each (\<lambda>(u, c). ensure
                  (case bget (hs_tables s) (cr_table c) of
                     None \<Rightarrow> False | Some columns \<Rightarrow> cr_name c \<in> set columns)
                  (NotHeld u (column_raw c)))
                (entries (ids_columns ids))) (\<lambda>_.
       try_each (\<lambda>(u, n). ensure (n \<in> set (hs_roles s)) (NotHeld u n)) (entries (ids_roles ids))))))"

section \<open>Scans and the index\<close>

lemma find_uid_map_of: "find_uid m n = map_of (map (\<lambda>(u, n). (n, u)) (entries m)) n"
proof -
  have "map_option fst (find (\<lambda>(_, x). x = n) ps) = map_of (map (\<lambda>(u, n). (n, u)) ps) n"
    for ps :: "(uid \<times> 'a) list"
    by (induction ps) auto
  then show ?thesis by (simp add: find_uid_def)
qed

lemma find_uid_Some: "find_uid m n = Some u \<Longrightarrow> bget m u = Some n"
  unfolding find_uid_map_of by (auto dest!: map_of_SomeD simp: entries_bget)

lemma find_uid_None: "find_uid m n = None \<longleftrightarrow> (\<forall>u. bget m u \<noteq> Some n)"
  unfolding find_uid_map_of by (auto simp: map_of_eq_None_iff image_iff entries_bget [symmetric])

lemma find_uid_least:
  assumes "find_uid m n = Some u" "bget m v = Some n"
  shows "u \<le> v"
proof -
  have "find (\<lambda>(_, x). x = n) ps = Some p \<Longrightarrow> (v, n) \<in> set ps \<Longrightarrow> sorted_keys ps \<Longrightarrow> fst p \<le> v"
    for ps :: "(uid \<times> 'a) list" and p
  proof (induction ps)
    case (Cons q ps)
    then show ?case by (cases q) (auto split: if_splits)
  qed simp
  with assms show ?thesis
    by (auto simp: find_uid_def entries_bget [symmetric] entries_sorted)
qed

lemma bget_index_first: "bget (index_first m) n = find_uid m n"
proof -
  have "foldl (\<lambda>ix (u, n). bentry n u ix) ix ps = bt.collect_first (map (\<lambda>(u, n). (n, u)) ps) ix"
    for ix :: "('a, uid) btree" and ps
    by (induction ps arbitrary: ix) (auto simp: bt.collect_first_def bentry_def bhas_def)
  then show ?thesis by (simp add: index_first_def bt.get_collect_first find_uid_map_of)
qed

lemma inner_columns_by_table:
  fixes ix :: "(table_name, (uid, column_ref) btree) btree"
  defines "f \<equiv> \<lambda>(ix :: (table_name, (uid, column_ref) btree) btree) (u, c).
       let inner = (case bget ix (cr_table c) of None \<Rightarrow> bempty | Some i \<Rightarrow> i)
       in bput (cr_table c) (bput u c inner) ix"
  shows "bget (case bget (foldl f ix ps) t of None \<Rightarrow> bempty | Some i \<Rightarrow> i)
         = bget (case bget ix t of None \<Rightarrow> bempty | Some i \<Rightarrow> i)
             ++ map_of (rev (filter (\<lambda>(_, c). cr_table c = t) ps))"
proof (induction ps arbitrary: ix)
  case Nil
  then show ?case by simp
next
  case (Cons p ps)
  obtain u c where p: "p = (u, c)" by (cases p)
  have "bget (case bget (f ix (u, c)) t of None \<Rightarrow> bempty | Some i \<Rightarrow> i)
      = (if cr_table c = t
         then (bget (case bget ix t of None \<Rightarrow> bempty | Some i \<Rightarrow> i))(u \<mapsto> c)
         else bget (case bget ix t of None \<Rightarrow> bempty | Some i \<Rightarrow> i))"
    by (auto simp: f_def bget_bput Let_def)
  with Cons.IH [of "f ix (u, c)"] show ?case
    by (auto simp: p map_add_def fun_eq_iff split: option.splits)
qed

lemma entries_index_columns_of:
  "index_columns_of (index_of ids) t = filter (\<lambda>(_, c). cr_table c = t) (entries (ids_columns ids))"
proof -
  let ?es = "filter (\<lambda>(_, c). cr_table c = t) (entries (ids_columns ids))"
  let ?inner = "case bget (index_columns_by_table (ids_columns ids)) t of None \<Rightarrow> bempty | Some i \<Rightarrow> i"
  have sorted: "sorted_keys ?es" by (rule sorted_filter_keys [OF entries_sorted])
  have "bget ?inner = map_of (rev ?es)"
    unfolding index_columns_by_table_def by (subst inner_columns_by_table) (simp add: map_add_def fun_eq_iff split: option.splits)
  then have "bget ?inner = map_of ?es"
    by (simp add: map_of_rev [OF sorted_keys_distinct [OF sorted]])
  with entries_map_of_sorted [OF sorted, of ?inner] have "?es = entries ?inner" by simp
  moreover have "index_columns_of (index_of ids) t = entries ?inner"
    by (simp add: index_columns_of_def index_of_def split: option.splits)
  ultimately show ?thesis by simp
qed

lemma bget_ix_types: "bget (ix_types (index_of ids)) n = type_uid ids n"
  by (simp add: index_of_def btree_simps type_uid_def find_uid_map_of rev_map)

section \<open>Properties\<close>

text \<open>
  C37. Every lookup of the index built once by \<open>IdsFile::index\<close> answers what the linear scan
  it replaces answers, on every identity file, valid or not: the lowest uid holding the name
  for tables, columns, roles and types, the resolved name, and a table's columns in uid
  order.
\<close>

theorem index_answers_what_the_scans_answer:
  "bget (ix_tables (index_of ids)) t = table_uid ids t
   \<and> bget (ix_columns (index_of ids)) c = column_uid ids c
   \<and> bget (ix_roles (index_of ids)) r = role_uid ids r
   \<and> bget (ix_types (index_of ids)) y = type_uid ids y
   \<and> index_resolved_in (index_of ids) t recorded = resolved_in ids t recorded
   \<and> index_columns_of (index_of ids) t = filter (\<lambda>(_, c). cr_table c = t) (entries (ids_columns ids))"
proof -
  have tables: "bget (ix_tables (index_of ids)) t = table_uid ids t"
    by (simp add: index_of_def bget_index_first table_uid_def)
  then have "index_resolved_in (index_of ids) t recorded = resolved_in ids t recorded"
    by (simp add: index_resolved_in_def resolved_in_def)
  with tables show ?thesis
    by (simp add: bget_ix_types entries_index_columns_of)
      (simp add: index_of_def bget_index_first column_uid_def role_uid_def)
qed

end
