(* ===== verification/Ids_Validity.thy ===== *)
theory Ids_Validity
  imports Ids
begin

text \<open>
  What \<open>IdsFile::validate\<close> guarantees, stated without its loops (\<open>ids_valid\<close>), and that the
  operations on the file keep it.
\<close>

section \<open>The invariant\<close>

definition unique_by :: "('n \<Rightarrow> string) \<Rightarrow> (uid, 'n) btree \<Rightarrow> bool" where
  "unique_by raw m \<longleftrightarrow>
     (\<forall>u v x y. bget m u = Some x \<longrightarrow> bget m v = Some y \<longrightarrow> raw x = raw y \<longrightarrow> u = v)"

definition kinded :: "uid_kind \<Rightarrow> (uid, 'n) btree \<Rightarrow> bool" where
  "kinded k m \<longleftrightarrow> (\<forall>u. bhas m u \<longrightarrow> uid_kind_of u = k)"

definition names_valid :: "ids_file \<Rightarrow> bool" where
  "names_valid ids \<longleftrightarrow>
     unique_by table_raw (ids_tables ids) \<and> unique_by column_raw (ids_columns ids)
     \<and> unique_by (\<lambda>n. n) (ids_roles ids) \<and> unique_by type_raw (ids_types ids)
     \<and> unique_by (\<lambda>n. n) (ids_extensions ids)"

definition kinds_valid :: "ids_file \<Rightarrow> bool" where
  "kinds_valid ids \<longleftrightarrow>
     kinded TableUid (ids_tables ids) \<and> kinded ColumnUid (ids_columns ids)
     \<and> kinded RoleUid (ids_roles ids) \<and> kinded ExtensionUid (ids_extensions ids)
     \<and> kinded TypeUid (ids_types ids)"

definition tombstones_valid :: "ids_file \<Rightarrow> bool" where
  "tombstones_valid ids \<longleftrightarrow>
     (\<forall>u t. bget (ids_tombstones ids) u = Some t \<longrightarrow>
        (\<forall>r. tb_require t = Some r \<longrightarrow> \<not> requirement_bad u r) \<and> \<not> live_uid ids u)"

definition columns_valid :: "ids_file \<Rightarrow> bool" where
  "columns_valid ids \<longleftrightarrow>
     (\<forall>u c. bget (ids_columns ids) u = Some c \<longrightarrow> (\<exists>t. bget (ids_tables ids) t = Some (cr_table c)))"

definition intents_valid :: "ids_file \<Rightarrow> bool" where
  "intents_valid ids \<longleftrightarrow>
     (\<forall>u. bhas (ids_moves ids) u \<longrightarrow> bhas (ids_tables ids) u)
     \<and> (\<forall>u c. bget (ids_conversions ids) u = Some c \<longrightarrow> bhas (ids_columns ids) u \<and> \<not> conversion_bad c)"

definition base_valid :: "ids_file \<Rightarrow> bool" where
  "base_valid ids \<longleftrightarrow>
     ids_version ids = CURRENT_VERSION \<and> kinds_valid ids \<and> tombstones_valid ids \<and> names_valid ids
     \<and> columns_valid ids \<and> intents_valid ids"

definition replaced :: "uid \<times> rebuild \<Rightarrow> uid list" where
  "replaced p = members (rb_replacement (snd p))"

definition lineage_whole :: "rebuild \<Rightarrow> bool" where
  "lineage_whole r \<longleftrightarrow>
     (\<forall>to from. bget (rb_continues r) to = Some from \<longrightarrow>
        bhas (ri_tables (rb_replacement r)) to \<and> bhas (ri_tables (rb_source r)) from
        \<or> bhas (ri_columns (rb_replacement r)) to \<and> bhas (ri_columns (rb_source r)) from)
     \<and> inj_on (bget (rb_continues r)) {to. bhas (rb_continues r) to}"

definition rebuild_valid :: "ids_file \<Rightarrow> uid \<times> rebuild \<Rightarrow> bool" where
  "rebuild_valid ids p \<longleftrightarrow>
     (case p of (u, r) \<Rightarrow>
        rb_max_rows r \<noteq> 0
        \<and> length (rb_target_checksum r) = 64 \<and> list_all is_ascii_hexdigit (rb_target_checksum r)
        \<and> base_valid (as_ids (rb_source r)) \<and> base_valid (as_ids (rb_replacement r))
        \<and> bget (rb_continues r) (rb_replacement_root r) = Some u
        \<and> lineage_whole r
        \<and> (\<forall>v. bhas (rb_types r) v \<longrightarrow> bhas (ri_columns (rb_replacement r)) v)
        \<and> (\<forall>v c. bget (rb_conversions r) v = Some c \<longrightarrow>
              bhas (ri_columns (rb_replacement r)) v \<and> bhas (rb_continues r) v \<and> \<not> conversion_bad c)
        \<and> (\<forall>v \<in> set (members (rb_source r)). bhas (ids_tombstones ids) v)
        \<and> (\<forall>v \<in> set (members (rb_replacement r)). held_uid ids v \<and> v \<notin> set (members (rb_source r))))"

definition rebuilds_valid :: "ids_file \<Rightarrow> bool" where
  "rebuilds_valid ids \<longleftrightarrow>
     (\<forall>u r. bget (ids_rebuilds ids) u = Some r \<longrightarrow> rebuild_valid ids (u, r))
     \<and> distinct (concat (map replaced (entries (ids_rebuilds ids))))"

definition ids_valid :: "ids_file \<Rightarrow> bool" where
  "ids_valid ids \<longleftrightarrow> base_valid ids \<and> rebuilds_valid ids"

text \<open>Every stored name reads back through the reader of its kind.\<close>

definition names_readable :: "ids_file \<Rightarrow> bool" where
  "names_readable ids \<longleftrightarrow>
     (\<forall>u n. bget (ids_tables ids) u = Some n \<longrightarrow> table_ok n)
     \<and> (\<forall>u c. bget (ids_columns ids) u = Some c \<longrightarrow> column_ok c)
     \<and> (\<forall>u y. bget (ids_types ids) u = Some y \<longrightarrow> type_ok y)"

definition retitle :: "table_name \<Rightarrow> table_name \<Rightarrow> column_ref \<Rightarrow> column_ref" where
  "retitle from to r = (if cr_table r = from then ColumnRef to (cr_name r) else r)"

text \<open>The situation of a rename that changes something: \<open>u\<close> holds \<open>from\<close>, and nothing holds \<open>to\<close>.\<close>

definition renames :: "ids_file \<Rightarrow> table_name \<Rightarrow> table_name \<Rightarrow> uid \<Rightarrow> bool" where
  "renames ids from to u \<longleftrightarrow>
     ids_valid ids \<and> names_readable ids \<and> table_ok to \<and> table_uid ids to = None
     \<and> table_uid ids from = Some u"

text \<open>A file with two tables, three columns, a role and a retired table.\<close>

definition sample_ids :: ids_file where
  "sample_ids = ids_default\<lparr>
     ids_tables := bcollect [(Uid ''t_000001'', TableName ''dbo'' ''customer''), (Uid ''t_000002'', TableName ''dbo'' ''order'')],
     ids_columns := bcollect [(Uid ''c_000001'', ColumnRef (TableName ''dbo'' ''customer'') ''id''),
       (Uid ''c_000002'', ColumnRef (TableName ''dbo'' ''customer'') ''name''),
       (Uid ''c_000003'', ColumnRef (TableName ''dbo'' ''order'') ''id'')],
     ids_roles := bcollect [(Uid ''r_000001'', ''reader'')],
     ids_tombstones := bcollect [(Uid ''t_000009'', \<lparr>tb_was = ''dbo.old'', tb_dropped_at = ''2024-01-01T00:00:00Z'',
       tb_reason = ''unused'', tb_operator = ''ops'', tb_require = None\<rparr>)],
     ids_moves := bcollect [(Uid ''t_000001'', \<lparr>mv_max_rows = 10, mv_allowed_at = ''2024-01-01T00:00:00Z'',
       mv_reason = ''split'', mv_operator = ''ops''\<rparr>)]\<rparr>"

section \<open>Each check decides its part\<close>

lemma check_unique_ok:
  "check_unique seen ps = Inr () \<longleftrightarrow> distinct (map snd ps) \<and> (\<forall>p \<in> set ps. bget seen (snd p) = None)"
proof (induction seen ps rule: check_unique.induct)
  case (1 seen)
  then show ?case by simp
next
  case (2 seen u name ps)
  show ?case
  proof (cases "bget seen name")
    case None
    with 2 show ?thesis by (auto simp: bget_bput)
  next
    case (Some prev)
    then show ?thesis by auto
  qed
qed

lemma distinct_spellings: "distinct (map snd (spellings raw m)) \<longleftrightarrow> unique_by raw m"
proof -
  have "distinct (map snd (spellings raw m)) \<longleftrightarrow> inj_on (\<lambda>p. raw (snd p)) (set (entries m))"
    by (simp add: spellings_def distinct_map distinct_entries comp_def case_prod_unfold)
  also have "\<dots> \<longleftrightarrow> (\<forall>u x. bget m u = Some x \<longrightarrow> (\<forall>v y. bget m v = Some y \<longrightarrow> raw x = raw y \<longrightarrow> u = v \<and> x = y))"
    by (simp add: inj_on_def ball_entries)
  also have "\<dots> \<longleftrightarrow> unique_by raw m"
    unfolding unique_by_def by (metis option.inject)
  finally show ?thesis .
qed

lemma check_unique_spellings: "check_unique bempty (spellings raw m) = Inr () \<longleftrightarrow> unique_by raw m"
  by (simp add: check_unique_ok distinct_spellings)

lemma check_kind_ok: "check_kind k (bkeys m) = Inr () \<longleftrightarrow> kinded k m"
  by (simp add: check_kind_def try_each_ok set_bkeys kinded_def result_simps)

lemma unit_result: "r = Inr (u :: unit) \<longleftrightarrow> r = Inr ()"
  by simp

lemma check_kinds_ok: "check_kinds ids = Inr () \<longleftrightarrow> kinds_valid ids"
  by (auto simp: check_kinds_def result_simps check_kind_ok kinds_valid_def)

lemma check_names_ok: "check_names ids = Inr () \<longleftrightarrow> names_valid ids"
  by (auto simp: check_names_def result_simps check_unique_spellings names_valid_def)

lemma check_tombstones_ok: "check_tombstones ids = Inr () \<longleftrightarrow> tombstones_valid ids"
proof -
  have "(case q of None \<Rightarrow> True | Some r \<Rightarrow> \<not> requirement_bad u r) \<longleftrightarrow> (\<forall>r. q = Some r \<longrightarrow> \<not> requirement_bad u r)"
    for q u
    by (cases q) simp_all
  then show ?thesis
    by (simp add: check_tombstones_def try_each_ok result_simps ball_entries tombstones_valid_def)
qed

lemma check_columns_ok: "check_columns ids = Inr () \<longleftrightarrow> columns_valid ids"
  by (simp add: check_columns_def Let_def try_each_ok result_simps ball_entries columns_valid_def set_bvalues)

lemma check_moves_ok:
  "check_moves ids = Inr () \<longleftrightarrow> (\<forall>u. bhas (ids_moves ids) u \<longrightarrow> bhas (ids_tables ids) u)"
  by (simp add: check_moves_def try_each_ok result_simps set_bkeys)

lemma check_conversions_ok:
  "check_conversions ids = Inr () \<longleftrightarrow>
     (\<forall>u c. bget (ids_conversions ids) u = Some c \<longrightarrow> bhas (ids_columns ids) u \<and> \<not> conversion_bad c)"
  by (simp add: check_conversions_def try_each_ok result_simps ball_entries)

lemma validate_base_ok: "validate_base ids = Inr () \<longleftrightarrow> base_valid ids"
  by (auto simp: validate_base_def result_simps check_kinds_ok check_names_ok check_tombstones_ok
    check_columns_ok check_moves_ok check_conversions_ok base_valid_def intents_valid_def)

lemma reserve_ok:
  "reserve bad R us = Some R' \<longleftrightarrow>
     distinct us \<and> (\<forall>u \<in> set us. \<not> bad u \<and> u \<notin> R) \<and> R' = R \<union> set us"
  by (induction us arbitrary: R) auto

lemma pairings_whole_iff:
  "pairings_whole r taken ps \<longleftrightarrow>
     (\<forall>p \<in> set ps.
        bhas (ri_tables (rb_replacement r)) (fst p) \<and> bhas (ri_tables (rb_source r)) (snd p)
        \<or> bhas (ri_columns (rb_replacement r)) (fst p) \<and> bhas (ri_columns (rb_source r)) (snd p))
     \<and> distinct (map snd ps) \<and> set (map snd ps) \<inter> taken = {}"
  by (induction r taken ps rule: pairings_whole.induct) auto

lemma continues_are_whole_ok: "continues_are_whole r \<longleftrightarrow> lineage_whole r"
proof -
  have "distinct (map snd (entries m)) \<longleftrightarrow> inj_on (bget m) {k. bhas m k}" for m :: "(uid, uid) btree"
  proof -
    have "distinct (map snd (entries m)) \<longleftrightarrow> inj_on snd (set (entries m))"
      by (simp add: distinct_map distinct_entries)
    also have "\<dots> \<longleftrightarrow> inj_on (bget m) {k. bhas m k}"
      by (auto simp: inj_on_def ball_entries bhas_iff)
    finally show ?thesis .
  qed
  then show ?thesis
    by (simp add: continues_are_whole_def pairings_whole_iff ball_entries lineage_whole_def)
qed

lemma rebuild_checks_ok:
  "\<not> rebuild_conversions_bad r \<and> rebuild_record_ok ids u r
   \<and> (\<forall>v \<in> set (members (rb_replacement r)). held_uid ids v \<and> v \<notin> set (members (rb_source r)))
   \<longleftrightarrow> rebuild_valid ids (u, r)"
proof -
  have "is_ok (validate_base i) \<longleftrightarrow> base_valid i" for i
    by (simp add: is_ok_iff validate_base_ok)
  moreover have "rebuild_conversions_bad r \<longleftrightarrow> \<not> (\<forall>v c. bget (rb_conversions r) v = Some c \<longrightarrow>
      bhas (ri_columns (rb_replacement r)) v \<and> bhas (rb_continues r) v \<and> \<not> conversion_bad c)"
    by (auto simp: rebuild_conversions_bad_def list_ex_iff entries_bget conversion_bad_def split: prod.splits)
      (blast dest: entries_bget [THEN iffD2])+
  ultimately show ?thesis
    by (simp add: rebuild_valid_def rebuild_record_ok_def continues_are_whole_ok source_root_def
      list_ex_iff set_bkeys conj_ac)
qed

lemma check_rebuild_ok:
  "check_rebuild ids R p = Inr R' \<longleftrightarrow>
     rebuild_valid ids p \<and> distinct (replaced p) \<and> set (replaced p) \<inter> R = {}
     \<and> R' = R \<union> set (replaced p)"
proof (cases p)
  case (Pair u r)
  show ?thesis
    unfolding Pair rebuild_checks_ok [symmetric] replaced_def
    by (auto simp: check_rebuild_def result_simps reserve_ok)
qed

lemma check_rebuilds_fold:
  "(\<exists>R'. try_fold (check_rebuild ids) R ps = Inr R') \<longleftrightarrow>
     (\<forall>p \<in> set ps. rebuild_valid ids p)
     \<and> distinct (concat (map replaced ps)) \<and> set (concat (map replaced ps)) \<inter> R = {}"
proof (induction ps arbitrary: R)
  case Nil
  then show ?case by simp
next
  case (Cons p ps)
  show ?case
  proof (cases "rebuild_valid ids p \<and> distinct (replaced p) \<and> set (replaced p) \<inter> R = {}")
    case True
    then have "check_rebuild ids R p = Inr (R \<union> set (replaced p))"
      by (simp add: check_rebuild_ok)
    then have "(\<exists>R'. try_fold (check_rebuild ids) R (p # ps) = Inr R')
        \<longleftrightarrow> (\<exists>R'. try_fold (check_rebuild ids) (R \<union> set (replaced p)) ps = Inr R')"
      by simp
    with Cons.IH [of "R \<union> set (replaced p)"] True show ?thesis by auto
  next
    case False
    then show ?thesis by (auto simp: result_simps check_rebuild_ok)
  qed
qed

lemma check_rebuilds_ok: "check_rebuilds ids = Inr () \<longleftrightarrow> rebuilds_valid ids"
  using check_rebuilds_fold [of ids "{}" "entries (ids_rebuilds ids)"]
  by (simp add: check_rebuilds_def result_simps rebuilds_valid_def ball_entries)

lemma validate_ok: "validate ids = Inr () \<longleftrightarrow> ids_valid ids"
  by (simp add: validate_def result_simps validate_base_ok check_rebuilds_ok ids_valid_def)

lemma validate_as_ids: "validate (as_ids r) = validate_base (as_ids r)"
  by (simp add: validate_def check_rebuilds_def as_ids_def ids_default_def and_then_def split: sum.splits)

section \<open>Operations keep the invariant\<close>

lemma unique_by_retain: "unique_by raw m \<Longrightarrow> unique_by raw (bretain P m)"
  by (simp add: unique_by_def bget_bretain_Some)

lemma kinded_retain: "kinded k m \<Longrightarrow> kinded k (bretain P m)"
  by (auto simp: kinded_def bhas_iff bget_bretain_Some)

lemma bhas_retain: "bhas (bretain P m) k \<longleftrightarrow> (\<exists>v. bget m k = Some v \<and> P k v)"
  by (simp add: bhas_iff bget_bretain_Some)

lemma bhas_retain_weaken: "bhas (bretain P m) k \<Longrightarrow> bhas m k"
  by (auto simp: bhas_iff bget_bretain_Some)

lemma find_uid_unique: "unique_by raw m \<Longrightarrow> find_uid m n = Some u \<longleftrightarrow> bget m u = Some n"
  by (cases "find_uid m n") (auto simp: find_uid_None unique_by_def dest!: find_uid_Some)

lemma entries_bretain: "entries (bretain P m) = filter (\<lambda>(k, v). P k v) (entries m)"
  by (rule bretain.rep_eq)

lemma find_uid_retain:
  "find_uid (bretain (\<lambda>_ x. x \<notin> S) m) n = (if n \<in> S then None else find_uid m n)"
proof -
  have "find (\<lambda>(_, x). x = n) (filter (\<lambda>(_, x). x \<notin> S) ps)
      = (if n \<in> S then None else find (\<lambda>(_, x). x = n) ps)" for ps :: "(uid \<times> 'a) list"
    by (induction ps) auto
  then show ?thesis by (simp add: find_uid_def entries_bretain)
qed

lemma valid_unique:
  assumes "ids_valid ids"
  shows "unique_by table_raw (ids_tables ids)" "unique_by column_raw (ids_columns ids)"
    "unique_by (\<lambda>n. n) (ids_roles ids)" "unique_by type_raw (ids_types ids)"
    "unique_by (\<lambda>n. n) (ids_extensions ids)"
  using assms by (simp_all add: ids_valid_def base_valid_def names_valid_def)

lemma distinct_concat_filter:
  "distinct (concat (map f xs)) \<Longrightarrow> distinct (concat (map f (filter P xs)))"
  by (induction xs) auto

lemma without_base: "base_valid ids \<Longrightarrow> base_valid (ids_without ts ids)"
  unfolding base_valid_def
proof (elim conjE, intro conjI)
  assume valid: "kinds_valid ids" "tombstones_valid ids" "names_valid ids" "columns_valid ids" "intents_valid ids"
  show "kinds_valid (ids_without ts ids)" "names_valid (ids_without ts ids)"
    using valid by (simp_all add: kinds_valid_def names_valid_def ids_without_def Let_def
      kinded_retain unique_by_retain)
  show "tombstones_valid (ids_without ts ids)"
    using valid by (auto simp: tombstones_valid_def live_uid_def ids_without_def Let_def dest: bhas_retain_weaken)
  show "columns_valid (ids_without ts ids)"
    using valid by (fastforce simp: columns_valid_def ids_without_def Let_def bget_bretain_Some)
  show "intents_valid (ids_without ts ids)"
    using valid by (auto simp: intents_valid_def ids_without_def Let_def bhas_retain bget_bretain_Some)
qed (simp add: ids_without_def Let_def)

lemma without_rebuilds: "rebuilds_valid ids \<Longrightarrow> rebuilds_valid (ids_without ts ids)"
  unfolding rebuilds_valid_def
proof (elim conjE, intro conjI allI impI)
  assume "distinct (concat (map replaced (entries (ids_rebuilds ids))))"
  then show "distinct (concat (map replaced (entries (ids_rebuilds (ids_without ts ids)))))"
    by (simp add: ids_without_def Let_def entries_bretain distinct_concat_filter)
next
  fix u r
  assume valid: "\<forall>u r. bget (ids_rebuilds ids) u = Some r \<longrightarrow> rebuild_valid ids (u, r)"
    and "bget (ids_rebuilds (ids_without ts ids)) u = Some r"
  then have r: "rebuild_valid ids (u, r)"
    and held: "\<forall>v \<in> set (members (rb_replacement r)). held_uid (ids_without ts ids) v"
    by (auto simp: ids_without_def Let_def bget_bretain_Some list_all_iff set_bkeys members_def held_uid_def)
  have "ids_tombstones (ids_without ts ids) = ids_tombstones ids"
    by (simp add: ids_without_def Let_def)
  with r held show "rebuild_valid (ids_without ts ids) (u, r)"
    by (simp add: rebuild_valid_def)
qed

lemma rebuild_valid_cong:
  assumes "ids_tombstones ids' = ids_tombstones ids"
    and "\<And>u. bhas (ids_tables ids') u \<longleftrightarrow> bhas (ids_tables ids) u"
    and "\<And>u. bhas (ids_columns ids') u \<longleftrightarrow> bhas (ids_columns ids) u"
    and "ids_rebuilds ids' = ids_rebuilds ids"
  shows "rebuilds_valid ids' \<longleftrightarrow> rebuilds_valid ids"
  using assms by (simp add: rebuilds_valid_def rebuild_valid_def held_uid_def)

lemma without_valid: "ids_valid ids \<Longrightarrow> ids_valid (ids_without ts ids)"
  by (simp add: ids_valid_def without_base without_rebuilds)

lemmas without_defs = base_valid_def kinds_valid_def names_valid_def kinded_retain unique_by_retain
  columns_valid_def intents_valid_def tombstones_valid_def live_uid_def

lemma without_roles_valid:
  assumes "ids_valid ids"
  shows "ids_valid (ids_without_roles rs ids)"
proof -
  from assms have "rebuilds_valid (ids_without_roles rs ids)"
    by (subst rebuild_valid_cong [of _ ids]) (simp_all add: ids_without_roles_def ids_valid_def)
  with assms show ?thesis
    by (auto simp: ids_valid_def without_defs ids_without_roles_def dest: bhas_retain_weaken)
qed

lemma without_types_valid:
  assumes "ids_valid ids"
  shows "ids_valid (ids_without_types ys ids)"
proof -
  from assms have "rebuilds_valid (ids_without_types ys ids)"
    by (subst rebuild_valid_cong [of _ ids]) (simp_all add: ids_without_types_def ids_valid_def)
  with assms show ?thesis
    by (auto simp: ids_valid_def without_defs ids_without_types_def dest: bhas_retain_weaken)
qed

subsection \<open>Renaming a table\<close>

lemma rename_table_Some:
  "table_uid ids from = Some u \<Longrightarrow>
     rename_table from to ids = ids\<lparr>ids_tables := bput u to (ids_tables ids),
                                    ids_columns := bmap (retitle from to) (ids_columns ids)\<rparr>"
  by (simp add: rename_table_def retitle_def [abs_def])

lemma retitle_inj:
  assumes "cr_table c \<noteq> to" "cr_table d \<noteq> to"
  shows "retitle from to c = retitle from to d \<longleftrightarrow> c = d"
  using assms by (cases c; cases d) (auto simp: retitle_def)

lemma retitle_ok: "column_ok c \<Longrightarrow> table_ok to \<Longrightarrow> column_ok (retitle from to c)"
  by (simp add: retitle_def column_ok_def)

lemma unique_by_put:
  assumes "unique_by raw m" "\<And>v y. bget m v = Some y \<Longrightarrow> raw y \<noteq> raw x"
  shows "unique_by raw (bput u x m)"
  using assms unfolding unique_by_def bget_bput fun_upd_apply by (metis option.inject)

lemma renames_result:
  "renames ids from to u \<Longrightarrow>
     rename_table from to ids = ids\<lparr>ids_tables := bput u to (ids_tables ids),
                                    ids_columns := bmap (retitle from to) (ids_columns ids)\<rparr>"
  by (simp add: renames_def rename_table_Some)

lemma renames_no_to: "renames ids from to u \<Longrightarrow> bget (ids_tables ids) v \<noteq> Some to"
  by (simp add: renames_def table_uid_def find_uid_None)

lemma renames_from: "renames ids from to u \<Longrightarrow> bget (ids_tables ids) v = Some from \<longleftrightarrow> v = u"
  using find_uid_unique [OF valid_unique(1), of ids "from"] by (metis renames_def table_uid_def option.inject)

lemma valid_column_table:
  "ids_valid ids \<Longrightarrow> bget (ids_columns ids) v = Some c \<Longrightarrow> \<exists>t. bget (ids_tables ids) t = Some (cr_table c)"
  by (simp add: ids_valid_def base_valid_def columns_valid_def)

lemma renames_column_table:
  "renames ids from to u \<Longrightarrow> bget (ids_columns ids) v = Some c \<Longrightarrow> cr_table c \<noteq> to"
  using valid_column_table renames_no_to by (fastforce simp: renames_def)

lemma renames_readable: "renames ids from to u \<Longrightarrow> names_readable (rename_table from to ids)"
  by (auto simp: names_readable_def renames_result) (auto simp: renames_def names_readable_def bget_bput bget_bmap retitle_ok split: if_splits)

lemma renames_names:
  assumes R: "renames ids from to u"
  shows "names_valid (rename_table from to ids)"
proof -
  have valid: "ids_valid ids" and readable: "names_readable ids" and to: "table_ok to"
    using R by (simp_all add: renames_def)
  have "table_raw n \<noteq> table_raw to" if "bget (ids_tables ids) v = Some n" for v n
    using that readable to renames_no_to [OF R] table_text.raw_inj [of n to] by (auto simp: names_readable_def)
  then have "unique_by table_raw (bput u to (ids_tables ids))"
    by (rule unique_by_put [OF valid_unique(1) [OF valid]])
  moreover have "unique_by column_raw (bmap (retitle from to) (ids_columns ids))"
    unfolding unique_by_def bget_bmap
  proof (clarsimp)
    fix v w c d
    assume c: "bget (ids_columns ids) v = Some c" and d: "bget (ids_columns ids) w = Some d"
      and eq: "column_raw (retitle from to c) = column_raw (retitle from to d)"
    have "column_ok c" "column_ok d"
      using readable c d by (auto simp: names_readable_def)
    then have "retitle from to c = retitle from to d"
      by (intro column_text.raw_inj eq retitle_ok to)
    then have "c = d"
      using retitle_inj renames_column_table [OF R c] renames_column_table [OF R d] by blast
    then show "v = w"
      using valid_unique(2) [OF valid] c d by (auto simp: unique_by_def)
  qed
  ultimately show ?thesis
    using valid_unique [OF valid] by (simp add: names_valid_def renames_result [OF R])
qed

lemma renames_columns:
  assumes R: "renames ids from to u"
  shows "columns_valid (rename_table from to ids)"
proof -
  have "\<exists>t. bget (bput u to (ids_tables ids)) t = Some (cr_table (retitle from to c))"
    if c: "bget (ids_columns ids) v = Some c" for v c
  proof (cases "cr_table c = from")
    case True
    then show ?thesis by (auto simp: retitle_def bget_bput)
  next
    case False
    obtain t where t: "bget (ids_tables ids) t = Some (cr_table c)"
      using valid_column_table [OF _ c] R by (auto simp: renames_def)
    with False renames_from [OF R, of t] have "t \<noteq> u" by auto
    with t False show ?thesis by (auto simp: retitle_def bget_bput)
  qed
  then show ?thesis
    by (auto simp: columns_valid_def renames_result [OF R] bget_bmap)
qed

lemma renames_keys:
  assumes R: "renames ids from to u"
  shows "bhas (ids_tables (rename_table from to ids)) v \<longleftrightarrow> bhas (ids_tables ids) v"
    "bhas (ids_columns (rename_table from to ids)) v \<longleftrightarrow> bhas (ids_columns ids) v"
  using renames_from [OF R, of u] by (auto simp: renames_result [OF R] bhas_def [of "ids_tables ids"])

lemma renames_valid:
  assumes R: "renames ids from to u"
  shows "ids_valid (rename_table from to ids)"
proof -
  note result = renames_result [OF R]
  have valid: "ids_valid ids" using R by (simp add: renames_def)
  have "rebuilds_valid (rename_table from to ids) \<longleftrightarrow> rebuilds_valid ids"
    by (rule rebuild_valid_cong) (simp_all add: renames_keys [OF R], simp_all add: result)
  moreover have "kinds_valid (rename_table from to ids)" "tombstones_valid (rename_table from to ids)"
    "intents_valid (rename_table from to ids)"
    using valid unfolding ids_valid_def base_valid_def kinds_valid_def kinded_def
      tombstones_valid_def live_uid_def intents_valid_def renames_keys [OF R]
    by (simp_all add: result)
  ultimately show ?thesis
    using valid renames_names [OF R] renames_columns [OF R]
    by (simp add: ids_valid_def base_valid_def result)
qed

lemma option_eqI: "(\<And>v. x = Some v \<longleftrightarrow> y = Some v) \<Longrightarrow> x = y"
  by (cases x; cases y) auto

lemma renames_table_uid:
  assumes R: "renames ids from to u"
  shows "table_uid (rename_table from to ids) n
         = (if n = to then Some u else if n = from then None else table_uid ids n)"
proof (rule option_eqI)
  fix v
  have "table_uid (rename_table from to ids) n = Some v \<longleftrightarrow> bget (bput u to (ids_tables ids)) v = Some n"
    using find_uid_unique [OF valid_unique(1) [OF renames_valid [OF R]]]
    by (simp add: table_uid_def renames_result [OF R])
  moreover have "table_uid ids n = Some v \<longleftrightarrow> bget (ids_tables ids) v = Some n"
    using R by (simp add: table_uid_def renames_def find_uid_unique [OF valid_unique(1)])
  ultimately show "table_uid (rename_table from to ids) n = Some v
      \<longleftrightarrow> (if n = to then Some u else if n = from then None else table_uid ids n) = Some v"
    using renames_no_to [OF R, of v] renames_from [OF R, of v] by (auto simp: bget_bput)
qed

lemma renames_column_uid:
  assumes R: "renames ids from to u" and c: "cr_table c \<noteq> to"
  shows "column_uid (rename_table from to ids) (retitle from to c) = column_uid ids c"
proof (rule option_eqI)
  fix v
  have "column_uid (rename_table from to ids) (retitle from to c) = Some v
      \<longleftrightarrow> bget (bmap (retitle from to) (ids_columns ids)) v = Some (retitle from to c)"
    using find_uid_unique [OF valid_unique(2) [OF renames_valid [OF R]]]
    by (simp add: column_uid_def renames_result [OF R])
  also have "\<dots> \<longleftrightarrow> bget (ids_columns ids) v = Some c"
    using retitle_inj [OF renames_column_table [OF R] c] by (auto simp: bget_bmap)
  also have "\<dots> \<longleftrightarrow> column_uid ids c = Some v"
    using R by (simp add: column_uid_def renames_def find_uid_unique [OF valid_unique(2)])
  finally show "column_uid (rename_table from to ids) (retitle from to c) = Some v \<longleftrightarrow> column_uid ids c = Some v" .
qed

lemma renames_resolved: "renames ids from to u \<Longrightarrow> resolved_in (rename_table from to ids) to ids = from"
  using renames_from [of ids "from" to u u] by (simp add: resolved_in_def renames_table_uid)

lemma sample_valid: "ids_valid sample_ids"
proof -
  have "validate sample_ids = Inr ()" by code_simp
  then show ?thesis by (simp only: validate_ok)
qed

lemma sample_readable: "names_readable sample_ids"
proof -
  have "list_all table_ok (bvalues (ids_tables sample_ids))"
    "list_all column_ok (bvalues (ids_columns sample_ids))" "entries (ids_types sample_ids) = []"
    by code_simp+
  then show ?thesis
    by (auto simp: names_readable_def list_all_iff set_bvalues bget_entries [of "ids_types sample_ids"])
qed

section \<open>Properties\<close>

text \<open>
  C8. \<open>IdsFile::validate\<close> accepts exactly the files of which all of this holds: the supported
  version; every uid stands in the section of its kind; no tombstone is live, and its drop
  requirement fits it; no two uids share a spelled name; every column, move and conversion
  belongs to something live; every rebuild record has both ends consistent, its root paired
  with its key, a one-to-one pairing that keeps tables with tables and columns with columns,
  its sources retired and its replacements held and disjoint from every other record's. The
  recursive calls on a record's two ends are calls of the same check.
\<close>

theorem validate_accepts_exactly_the_consistent_files:
  "(validate ids = Inr () \<longleftrightarrow> ids_valid ids) \<and> validate (as_ids r) = validate_base (as_ids r)"
  by (simp add: validate_ok validate_as_ids)

text \<open>
  C34. In a file \<open>validate\<close> accepts, identity is one-to-one: the uid found for a name is the
  one uid that stores it, for all five kinds of object; a stored uid is of one kind only, and
  a retired uid is not live.
\<close>

theorem valid_file_is_one_to_one:
  assumes "validate ids = Inr ()"
  shows "(table_uid ids t = Some u \<longleftrightarrow> bget (ids_tables ids) u = Some t)
    \<and> (column_uid ids c = Some u \<longleftrightarrow> bget (ids_columns ids) u = Some c)
    \<and> (role_uid ids r = Some u \<longleftrightarrow> bget (ids_roles ids) u = Some r)
    \<and> (type_uid ids y = Some u \<longleftrightarrow> bget (ids_types ids) u = Some y)
    \<and> (extension_uid ids e = Some u \<longleftrightarrow> bget (ids_extensions ids) u = Some e)
    \<and> length (filter (\<lambda>held. held) [bhas (ids_tables ids) u, bhas (ids_columns ids) u, bhas (ids_roles ids) u,
         bhas (ids_types ids) u, bhas (ids_extensions ids) u, bhas (ids_tombstones ids) u])
       = (if contains_uid ids u then 1 else 0)"
proof -
  have valid: "ids_valid ids" using assms by (simp add: validate_ok)
  then have kinds: "kinds_valid ids" and tombs: "tombstones_valid ids"
    by (simp_all add: ids_valid_def base_valid_def)
  have "length (filter (\<lambda>held. held) [bhas (ids_tables ids) u, bhas (ids_columns ids) u, bhas (ids_roles ids) u,
         bhas (ids_types ids) u, bhas (ids_extensions ids) u, bhas (ids_tombstones ids) u])
       = (if contains_uid ids u then 1 else 0)"
    using kinds tombs
    by (auto simp: kinds_valid_def kinded_def tombstones_valid_def live_uid_def contains_uid_def
      bhas_iff [of "ids_tombstones ids"])
  then show ?thesis
    unfolding table_uid_def column_uid_def role_uid_def type_uid_def extension_uid_def
    by (simp add: find_uid_unique [OF valid_unique(1) [OF valid]] find_uid_unique [OF valid_unique(2) [OF valid]]
      find_uid_unique [OF valid_unique(3) [OF valid]] find_uid_unique [OF valid_unique(4) [OF valid]]
      find_uid_unique [OF valid_unique(5) [OF valid]])
qed

theorem valid_file_is_one_to_one_witness:
  "validate sample_ids = Inr () \<and> table_uid sample_ids (TableName ''dbo'' ''order'') = Some (Uid ''t_000002'')
   \<and> bget (ids_tables sample_ids) (Uid ''t_000002'') = Some (TableName ''dbo'' ''order'')"
proof -
  have valid: "validate sample_ids = Inr ()" by code_simp
  have "table_uid sample_ids (TableName ''dbo'' ''order'') = Some (Uid ''t_000002'')" by code_simp
  with valid_file_is_one_to_one [OF valid] valid show ?thesis by simp
qed



text \<open>
  Removing tables, roles or types from a valid file leaves a valid file that resolves
  exactly the other names as before; the tombstones stay.
\<close>

theorem removal_keeps_the_file_valid:
  assumes "validate ids = Inr ()"
  shows "validate (ids_without ts ids) = Inr () \<and> validate (ids_without_roles rs ids) = Inr ()
    \<and> validate (ids_without_types ys ids) = Inr ()
    \<and> table_uid (ids_without ts ids) n = (if n \<in> set ts then None else table_uid ids n)
    \<and> column_uid (ids_without ts ids) c = (if cr_table c \<in> set ts then None else column_uid ids c)
    \<and> role_uid (ids_without_roles rs ids) r = (if r \<in> set rs then None else role_uid ids r)
    \<and> type_uid (ids_without_types ys ids) y = (if y \<in> set ys then None else type_uid ids y)
    \<and> ids_tombstones (ids_without ts ids) = ids_tombstones ids"
proof -
  have valid: "ids_valid ids" using assms by (simp add: validate_ok)
  have "column_uid (ids_without ts ids) c = (if cr_table c \<in> set ts then None else column_uid ids c)"
    using find_uid_retain [of "{c. cr_table c \<in> set ts}" "ids_columns ids" c]
    by (simp add: column_uid_def ids_without_def Let_def)
  then show ?thesis
    using without_valid [OF valid] without_roles_valid [OF valid] without_types_valid [OF valid]
      find_uid_retain [of "set ts" "ids_tables ids" n]
      find_uid_retain [of "set rs" "ids_roles ids" r]
      find_uid_retain [of "set ys" "ids_types ids" y]
    by (simp add: validate_ok table_uid_def role_uid_def type_uid_def ids_without_roles_def ids_without_types_def)
      (simp add: ids_without_def Let_def)
qed

theorem removal_keeps_the_file_valid_witness:
  "validate (ids_without [TableName ''dbo'' ''customer''] sample_ids) = Inr ()
   \<and> table_uid (ids_without [TableName ''dbo'' ''customer''] sample_ids) (TableName ''dbo'' ''order'') = Some (Uid ''t_000002'')
   \<and> entries (ids_moves (ids_without [TableName ''dbo'' ''customer''] sample_ids)) = []"
proof -
  have "validate sample_ids = Inr ()" and old: "table_uid sample_ids (TableName ''dbo'' ''order'') = Some (Uid ''t_000002'')"
    by code_simp+
  moreover have "entries (ids_moves (ids_without [TableName ''dbo'' ''customer''] sample_ids)) = []" by code_simp
  ultimately show ?thesis
    using removal_keeps_the_file_valid [of sample_ids "[TableName ''dbo'' ''customer'']" _ _ "TableName ''dbo'' ''order''"]
    by simp
qed

end
