(* ===== verification/Ids_Tree.thy ===== *)
theory Ids_Tree
  imports Ids_Validity
begin

text \<open>
  The files of the identity tree (\<open>crates/pbps-model/src/ids_tree.rs\<close>): one file per
  declaration file, its canonical writer, its strict reader and the reader of a whole tree.

  \<open>serde_json\<close> is not part of the repository. The texts it writes for a value are the fields
  of \<open>json_out\<close>; the document it reads from a text is the parameter \<open>from_str\<close>, whose result
  carries what the section visitor of the source (\<open>visit_map\<close>) made of each section. An error
  that repeats a message of \<open>serde_json\<close> carries the message; the other messages are
  constructors.
\<close>

section \<open>Data\<close>

definition FORMAT :: "32 word" where
  "FORMAT = 1"

definition GENERATED :: string where
  "GENERATED =
      ''This file is written by pbps and records the identity of one declaration file. Do ''
      @ ''not edit it by hand: change the YAML declaration and run `pbps plan`. After a git ''
      @ ''merge conflict, resolve the YAML first, then run `pbps ids resolve`; `pbps ids fmt` ''
      @ ''restores the canonical form. This line is a wire constant and never changes: its ''
      @ ''length keeps git's rename detection working for small files in a merge.''"

datatype name_problem = EmptyName | NameProblem name_error | TypeProblem type_parse_error

datatype malformed_reason =
    SerdeMessage string
  | BadKey string uid_error
  | NotOneName
  | OnlyTableSections
  | NameUnreadable name_problem

text \<open>\<open>Panicked\<close> stands for an index expression of the source whose key is missing.\<close>

datatype tree_error =
    ConflictMarkers string
  | Malformed string malformed_reason
  | DuplicateKey string string
  | WrongFormat string "32 word"
  | TreeKindMismatch string uid
  | SentinelMissing string string
  | SentinelNotLast string string
  | DroppedWithLive string
  | DuplicateUid uid string string
  | Misplaced string string uid
  | BadName string string name_problem
  | TreeIds ids_error
  | NoPath uid
  | UnknownPath uid
  | PathCollision string uid uid
  | UnownedTombstone uid
  | Panicked

datatype ids_rec = Live string | Dead tombstone

record table_body =
  bd_table :: string
  bd_columns :: "(uid \<times> ids_rec) list"
  bd_partitions :: "(uid \<times> ids_rec) list"
  bd_moves :: "(uid \<times> row_move) list"
  bd_conversions :: "(uid \<times> conversion) list"
  bd_rebuilds :: "(uid \<times> rebuild) list"

datatype tree_body =
    BodyTable table_body
  | BodyRole string
  | BodyType string
  | BodyExtension string

record tree_file =
  tf_uid :: uid
  tf_body :: tree_body
  tf_dropped :: "tombstone option"

fun body_kind :: "tree_body \<Rightarrow> uid_kind" where
  "body_kind (BodyTable _) = TableUid"
| "body_kind (BodyRole _) = RoleUid"
| "body_kind (BodyType _) = TypeUid"
| "body_kind (BodyExtension _) = ExtensionUid"

definition new_table_body :: "string \<Rightarrow> table_body" where
  "new_table_body table =
     \<lparr>bd_table = table, bd_columns = [], bd_partitions = [], bd_moves = [], bd_conversions = [],
      bd_rebuilds = []\<rparr>"

section \<open>Writer\<close>

text \<open>What \<open>line\<close> returns for each type of value: \<open>serde_json\<close> with the \<open>Spaced\<close> formatter.\<close>

record json_out =
  js_str :: "string \<Rightarrow> string"
  js_tombstone :: "tombstone \<Rightarrow> string"
  js_move :: "row_move \<Rightarrow> string"
  js_conversion :: "conversion \<Rightarrow> string"
  js_rebuild :: "rebuild \<Rightarrow> string"

text \<open>\<open>#[serde(untagged)]\<close>: a record is written as what it holds.\<close>

fun js_rec :: "json_out \<Rightarrow> ids_rec \<Rightarrow> string" where
  "js_rec js (Live n) = js_str js n"
| "js_rec js (Dead t) = js_tombstone js t"

definition quoted :: "string \<Rightarrow> string" where
  "quoted s = [quote] @ s @ [quote]"

definition section_line :: "json_out \<Rightarrow> ('v \<Rightarrow> string) \<Rightarrow> uid \<times> 'v \<Rightarrow> string" where
  "section_line js wr p =
     ''    '' @ js_str js (as_str (fst p)) @ '': '' @ wr (snd p) @ '','' @ [newline, newline]"

definition section_text :: "json_out \<Rightarrow> ('v \<Rightarrow> string) \<Rightarrow> string \<Rightarrow> (uid \<times> 'v) list \<Rightarrow> string" where
  "section_text js wr name records =
     ''  '' @ quoted name @ '': {'' @ [newline, newline]
     @ concat (map (section_line js wr) records)
     @ ''    '' @ quoted ''_end'' @ '': true'' @ [newline, newline] @ ''  }''"

fun body_name :: "tree_body \<Rightarrow> string \<times> string" where
  "body_name (BodyTable t) = (''table'', bd_table t)"
| "body_name (BodyRole n) = (''role'', n)"
| "body_name (BodyType n) = (''type'', n)"
| "body_name (BodyExtension n) = (''extension'', n)"

definition optional_section :: "json_out \<Rightarrow> ('v \<Rightarrow> string) \<Rightarrow> string \<Rightarrow> (uid \<times> 'v) list \<Rightarrow> string list" where
  "optional_section js wr name records = (if records = [] then [] else [section_text js wr name records])"

definition top_lines :: "json_out \<Rightarrow> tree_file \<Rightarrow> string list" where
  "top_lines js f =
     [''  '' @ quoted ''_generated'' @ '': '' @ js_str js GENERATED,
      ''  '' @ quoted ''format'' @ '': 1'',
      ''  '' @ quoted ''uid'' @ '': '' @ js_str js (as_str (tf_uid f)),
      ''  '' @ quoted (fst (body_name (tf_body f))) @ '': '' @ js_str js (snd (body_name (tf_body f)))]
     @ (case tf_dropped f of
          None \<Rightarrow> []
        | Some t \<Rightarrow> [''  '' @ quoted ''dropped'' @ '': '' @ js_tombstone js t])
     @ (case tf_body f of
          BodyTable t \<Rightarrow>
            [section_text js (js_rec js) ''columns'' (bd_columns t)]
            @ optional_section js (js_rec js) ''partitions'' (bd_partitions t)
            @ optional_section js (js_move js) ''moves'' (bd_moves t)
            @ optional_section js (js_conversion js) ''conversions'' (bd_conversions t)
            @ optional_section js (js_rebuild js) ''rebuilds'' (bd_rebuilds t)
        | _ \<Rightarrow> [])"

definition render :: "json_out \<Rightarrow> tree_file \<Rightarrow> string" where
  "render js f =
     ''{'' @ [newline] @ join_with ('','' @ [newline]) (top_lines js f) @ [newline] @ ''}'' @ [newline]"

section \<open>Loader\<close>

datatype sec_end = EndMissing | EndLast | EndNotLast

record 'v section_read =
  sr_records :: "(string \<times> 'v) list"
  sr_end :: sec_end
  sr_duplicate :: "string option"

text \<open>A member value as the visitor asks for it: a boolean after \<open>_end\<close>, a record otherwise.\<close>

datatype 'v entry = Flag bool | Value 'v

datatype visit_error = WrongType string | EndNotTrue

definition end_key :: string where
  "end_key = ''_end''"

definition first_of :: "'a option \<Rightarrow> 'a \<Rightarrow> 'a option" where
  "first_of x y = (case x of None \<Rightarrow> Some y | Some _ \<Rightarrow> x)"

text \<open>One turn of the visitor's loop; \<open>seen\<close> is the set of keys so far.\<close>

definition visit_step ::
  "'v section_read \<times> string set \<Rightarrow> string \<times> 'v entry \<Rightarrow> (visit_error, 'v section_read \<times> string set) result" where
  "visit_step st kv =
     (case st of (s, seen) \<Rightarrow> case kv of (key, e) \<Rightarrow>
        if key = end_key
        then (case e of
                Flag b \<Rightarrow>
                  if \<not> b then Inl EndNotTrue
                  else let dup = (if sr_end s = EndMissing then sr_duplicate s
                                  else first_of (sr_duplicate s) key)
                       in Inr (s\<lparr>sr_duplicate := dup, sr_end := EndLast\<rparr>, seen)
              | Value _ \<Rightarrow> Inl (WrongType key))
        else (case e of
                Flag _ \<Rightarrow> Inl (WrongType key)
              | Value v \<Rightarrow>
                  let end' = (if sr_end s = EndLast then EndNotLast else sr_end s);
                      dup = (if key \<in> seen then first_of (sr_duplicate s) key else sr_duplicate s)
                  in Inr (\<lparr>sr_records = sr_records s @ [(key, v)], sr_end = end', sr_duplicate = dup\<rparr>,
                          insert key seen)))"

definition visit_map :: "(string \<times> 'v entry) list \<Rightarrow> (visit_error, 'v section_read) result" where
  "visit_map kvs =
     and_then (try_fold visit_step (\<lparr>sr_records = [], sr_end = EndMissing, sr_duplicate = None\<rparr>, {}) kvs)
       (\<lambda>st. Inr (fst st))"

record raw_file =
  raw_format :: "32 word"
  raw_uid :: uid
  raw_table :: "string option"
  raw_role :: "string option"
  raw_ty :: "string option"
  raw_extension :: "string option"
  raw_dropped :: "tombstone option"
  raw_columns :: "ids_rec section_read option"
  raw_partitions :: "ids_rec section_read option"
  raw_moves :: "row_move section_read option"
  raw_conversions :: "conversion section_read option"
  raw_rebuilds :: "rebuild section_read option"

definition backtick :: char where
  "backtick = CHR ''`''"

definition read_error :: "string \<Rightarrow> string \<Rightarrow> tree_error" where
  "read_error path message =
     (case Option.bind (strip_prefix (''duplicate field '' @ [backtick]) message) (split_once backtick) of
        Some (key, _) \<Rightarrow> DuplicateKey path key
      | None \<Rightarrow> Malformed path (SerdeMessage message))"

definition keyed_one :: "string \<Rightarrow> uid_kind \<Rightarrow> string \<times> 'v \<Rightarrow> (tree_error, uid \<times> 'v) result" where
  "keyed_one path kind kv =
     (case kv of (key, v) \<Rightarrow>
        and_then (map_err (\<lambda>e. Malformed path (BadKey key e)) (uid_from_str key)) (\<lambda>u.
        and_then (ensure (uid_kind_of u = kind) (TreeKindMismatch path u)) (\<lambda>_. Inr (u, v))))"

definition keyed ::
  "string \<Rightarrow> string \<Rightarrow> 'v section_read option \<Rightarrow> uid_kind \<Rightarrow> bool \<Rightarrow> (tree_error, (uid \<times> 'v) list) result" where
  "keyed path name sec kind required =
     (case sec of
        None \<Rightarrow> if required then Inl (SentinelMissing path name) else Inr []
      | Some s \<Rightarrow>
          (case sr_end s of
             EndMissing \<Rightarrow> Inl (SentinelMissing path name)
           | EndNotLast \<Rightarrow> Inl (SentinelNotLast path name)
           | EndLast \<Rightarrow>
               (case sr_duplicate s of
                  Some key \<Rightarrow> Inl (DuplicateKey path key)
                | None \<Rightarrow> try_map (keyed_one path kind) (sr_records s))))"

definition is_live :: "ids_rec \<Rightarrow> bool" where
  "is_live r = (case r of Live _ \<Rightarrow> True | Dead _ \<Rightarrow> False)"

definition live_uids :: "(uid \<times> ids_rec) list \<Rightarrow> uid set" where
  "live_uids recs = set (map fst (filter (\<lambda>p. is_live (snd p)) recs))"

definition nonempty_name :: "string \<Rightarrow> string \<Rightarrow> (tree_error, unit) result" where
  "nonempty_name path name = ensure (name \<noteq> []) (BadName path name EmptyName)"

definition readable_table :: "string \<Rightarrow> string \<Rightarrow> (tree_error, unit) result" where
  "readable_table path name =
     map_err (\<lambda>e. BadName path name (NameProblem e)) (and_then (table_from_str name) (\<lambda>_. Inr ()))"

definition readable_type :: "string \<Rightarrow> string \<Rightarrow> (tree_error, unit) result" where
  "readable_type path name =
     map_err (\<lambda>e. BadName path name (TypeProblem e)) (and_then (type_from_str name) (\<lambda>_. Inr ()))"

definition readable_column :: "string \<Rightarrow> string \<Rightarrow> (tree_error, unit) result" where
  "readable_column path name =
     and_then (nonempty_name path name) (\<lambda>_.
       map_err (\<lambda>e. BadName path name (NameProblem e)) (check_segment name))"

definition check_rec ::
  "(string \<Rightarrow> (tree_error, unit) result) \<Rightarrow> string \<Rightarrow> uid \<times> ids_rec \<Rightarrow> (tree_error, unit) result" where
  "check_rec live path p =
     (case snd p of Live name \<Rightarrow> live name | Dead t \<Rightarrow> nonempty_name path (tb_was t))"

definition check_file_names :: "string \<Rightarrow> tree_file \<Rightarrow> (tree_error, unit) result" where
  "check_file_names path f =
     and_then (case tf_dropped f of None \<Rightarrow> Inr () | Some t \<Rightarrow> nonempty_name path (tb_was t)) (\<lambda>_.
       let live = (tf_dropped f = None) in
       case tf_body f of
         BodyRole n \<Rightarrow> nonempty_name path n
       | BodyExtension n \<Rightarrow> nonempty_name path n
       | BodyType n \<Rightarrow> if live then readable_type path n else nonempty_name path n
       | BodyTable t \<Rightarrow>
           and_then (if live then readable_table path (bd_table t) else nonempty_name path (bd_table t)) (\<lambda>_.
           and_then (try_each (check_rec (readable_column path) path) (bd_columns t)) (\<lambda>_.
             try_each (check_rec (readable_table path) path) (bd_partitions t))))"

definition no_such :: "('v \<Rightarrow> uid \<Rightarrow> bool) \<Rightarrow> (uid \<Rightarrow> tree_error) \<Rightarrow> (uid \<times> 'v) list \<Rightarrow> (tree_error, unit) result" where
  "no_such bad err recs =
     (case find (\<lambda>(u, v). bad v u) recs of None \<Rightarrow> Inr () | Some (u, _) \<Rightarrow> Inl (err u))"

definition check_file :: "string \<Rightarrow> tree_file \<Rightarrow> (tree_error, unit) result" where
  "check_file path f =
     and_then (ensure (uid_kind_of (tf_uid f) = body_kind (tf_body f)) (TreeKindMismatch path (tf_uid f))) (\<lambda>_.
     and_then (check_file_names path f) (\<lambda>_.
     case tf_body f of
       BodyTable t \<Rightarrow>
         let columns = live_uids (bd_columns t); partitions = live_uids (bd_partitions t) in
         and_then (ensure (\<not> (tf_dropped f \<noteq> None
                       \<and> \<not> (columns = {} \<and> partitions = {} \<and> bd_moves t = [] \<and> bd_conversions t = [])))
                     (DroppedWithLive path)) (\<lambda>_.
         and_then (no_such (\<lambda>_ u. u \<notin> columns) (Misplaced path ''conversions'') (bd_conversions t)) (\<lambda>_.
         and_then (no_such (\<lambda>_ u. u \<noteq> tf_uid f \<and> u \<notin> partitions) (Misplaced path ''moves'') (bd_moves t)) (\<lambda>_.
           no_such (\<lambda>r _. rb_replacement_root r \<noteq> tf_uid f) (Misplaced path ''rebuilds'') (bd_rebuilds t))))
     | _ \<Rightarrow> Inr ()))"

definition conflict_line :: "string \<Rightarrow> bool" where
  "conflict_line l \<longleftrightarrow> starts_with l ''<<<<<<<'' \<or> starts_with l ''>>>>>>>'' \<or> trim_end l = ''=======''"

definition raw_body :: "string \<Rightarrow> raw_file \<Rightarrow> (tree_error, tree_body) result" where
  "raw_body path raw =
     (case raw_table raw of
        Some table \<Rightarrow>
          and_then (keyed path ''columns'' (raw_columns raw) ColumnUid True) (\<lambda>columns.
          and_then (keyed path ''partitions'' (raw_partitions raw) TableUid False) (\<lambda>partitions.
          and_then (keyed path ''moves'' (raw_moves raw) TableUid False) (\<lambda>moves.
          and_then (keyed path ''conversions'' (raw_conversions raw) ColumnUid False) (\<lambda>conversions.
          and_then (keyed path ''rebuilds'' (raw_rebuilds raw) TableUid False) (\<lambda>rebuilds.
            Inr (BodyTable \<lparr>bd_table = table, bd_columns = columns, bd_partitions = partitions,
              bd_moves = moves, bd_conversions = conversions, bd_rebuilds = rebuilds\<rparr>))))))
      | None \<Rightarrow>
          if raw_columns raw \<noteq> None \<or> raw_partitions raw \<noteq> None \<or> raw_moves raw \<noteq> None
             \<or> raw_conversions raw \<noteq> None \<or> raw_rebuilds raw \<noteq> None
          then Inl (Malformed path OnlyTableSections)
          else (case (raw_role raw, raw_ty raw, raw_extension raw) of
                  (Some n, _, _) \<Rightarrow> Inr (BodyRole n)
                | (_, Some n, _) \<Rightarrow> Inr (BodyType n)
                | (_, _, Some n) \<Rightarrow> Inr (BodyExtension n)
                | _ \<Rightarrow> Inl Panicked))"

definition parse_tree :: "(string \<Rightarrow> (string, raw_file) result) \<Rightarrow> string \<Rightarrow> string \<Rightarrow> (tree_error, tree_file) result" where
  "parse_tree from_str path text =
     and_then (ensure (\<not> list_ex conflict_line (str_lines text)) (ConflictMarkers path)) (\<lambda>_.
     and_then (map_err (read_error path) (from_str text)) (\<lambda>raw.
     and_then (ensure (raw_format raw = FORMAT) (WrongFormat path (raw_format raw))) (\<lambda>_.
     and_then (ensure (length (filter (\<lambda>n. n \<noteq> None) [raw_table raw, raw_role raw, raw_ty raw, raw_extension raw]) = 1)
                (Malformed path NotOneName)) (\<lambda>_.
     and_then (raw_body path raw) (\<lambda>body.
       let f = \<lparr>tf_uid = raw_uid raw, tf_body = body, tf_dropped = raw_dropped raw\<rparr>
       in and_then (check_file path f) (\<lambda>_. Inr f))))))"

section \<open>Reading a tree\<close>

type_synonym claims = "(string \<times> uid, string) btree"

definition claim :: "string \<Rightarrow> string \<Rightarrow> uid \<Rightarrow> claims \<Rightarrow> (tree_error, claims) result" where
  "claim path sec u seen =
     (case bget seen (sec, u) of
        Some first \<Rightarrow> Inl (DuplicateUid u first path)
      | None \<Rightarrow> Inr (bput (sec, u) path seen))"

text \<open>One of the \<open>for (uid, x)\<close> loops: each record is claimed, then stored.\<close>

definition claim_each ::
  "string \<Rightarrow> string \<Rightarrow> (uid \<Rightarrow> 'v \<Rightarrow> ids_file \<Rightarrow> (tree_error, ids_file) result) \<Rightarrow> (uid \<times> 'v) list
   \<Rightarrow> ids_file \<times> claims \<Rightarrow> (tree_error, ids_file \<times> claims) result" where
  "claim_each path sec store recs st =
     try_fold (\<lambda>(ids, seen) (u, v).
       and_then (claim path sec u seen) (\<lambda>seen'.
       and_then (store u v ids) (\<lambda>ids'. Inr (ids', seen')))) st recs"

definition put_tombstone :: "uid \<Rightarrow> tombstone \<Rightarrow> ids_file \<Rightarrow> ids_file" where
  "put_tombstone u t ids = ids\<lparr>ids_tombstones := bput u t (ids_tombstones ids)\<rparr>"

definition put_table :: "uid \<Rightarrow> table_name \<Rightarrow> ids_file \<Rightarrow> ids_file" where
  "put_table u n ids = ids\<lparr>ids_tables := bput u n (ids_tables ids)\<rparr>"

definition read_table_name :: "string \<Rightarrow> string \<Rightarrow> (tree_error, table_name) result" where
  "read_table_name path n = map_err (\<lambda>e. Malformed path (NameUnreadable (NameProblem e))) (table_from_str n)"

definition store_column :: "table_name \<Rightarrow> uid \<Rightarrow> ids_rec \<Rightarrow> ids_file \<Rightarrow> (tree_error, ids_file) result" where
  "store_column table u r ids =
     (case r of
        Live local \<Rightarrow> Inr (ids\<lparr>ids_columns := bput u (ColumnRef table local) (ids_columns ids)\<rparr>)
      | Dead t \<Rightarrow> Inr (put_tombstone u t ids))"

definition store_partition :: "string \<Rightarrow> uid \<Rightarrow> ids_rec \<Rightarrow> ids_file \<Rightarrow> (tree_error, ids_file) result" where
  "store_partition path u r ids =
     (case r of
        Live n \<Rightarrow> and_then (read_table_name path n) (\<lambda>t. Inr (put_table u t ids))
      | Dead t \<Rightarrow> Inr (put_tombstone u t ids))"

definition assemble_table ::
  "string \<Rightarrow> tree_file \<Rightarrow> table_body \<Rightarrow> ids_file \<times> claims \<Rightarrow> (tree_error, ids_file \<times> claims) result" where
  "assemble_table path f t st =
     and_then (if tf_dropped f = None then read_table_name path (bd_table t) else Inr (TableName [] [])) (\<lambda>table.
     and_then (claim_each path ''identity'' (store_column table) (bd_columns t)
                (if tf_dropped f = None then put_table (tf_uid f) table (fst st) else fst st, snd st)) (\<lambda>st.
     and_then (claim_each path ''identity'' (store_partition path) (bd_partitions t) st) (\<lambda>st.
     and_then (claim_each path ''moves''
                (\<lambda>u m ids. Inr (ids\<lparr>ids_moves := bput u m (ids_moves ids)\<rparr>)) (bd_moves t) st) (\<lambda>st.
     and_then (claim_each path ''conversions''
                (\<lambda>u c ids. Inr (ids\<lparr>ids_conversions := bput u c (ids_conversions ids)\<rparr>)) (bd_conversions t) st) (\<lambda>st.
       claim_each path ''rebuilds''
         (\<lambda>u r ids. Inr (ids\<lparr>ids_rebuilds := bput u r (ids_rebuilds ids)\<rparr>)) (bd_rebuilds t) st)))))"

definition assemble_body ::
  "string \<Rightarrow> tree_file \<Rightarrow> ids_file \<times> claims \<Rightarrow> (tree_error, ids_file \<times> claims) result" where
  "assemble_body path f st =
     (let (ids, seen) = st; live = (tf_dropped f = None) in
      case tf_body f of
        BodyRole n \<Rightarrow> Inr (if live then ids\<lparr>ids_roles := bput (tf_uid f) n (ids_roles ids)\<rparr> else ids, seen)
      | BodyExtension n \<Rightarrow>
          Inr (if live then ids\<lparr>ids_extensions := bput (tf_uid f) n (ids_extensions ids)\<rparr> else ids, seen)
      | BodyType n \<Rightarrow>
          if live
          then and_then (map_err (\<lambda>e. Malformed path (NameUnreadable (TypeProblem e))) (type_from_str n))
                 (\<lambda>y. Inr (ids\<lparr>ids_types := bput (tf_uid f) y (ids_types ids)\<rparr>, seen))
          else Inr (ids, seen)
      | BodyTable t \<Rightarrow> assemble_table path f t (ids, seen))"

definition assemble_file ::
  "string \<Rightarrow> tree_file \<Rightarrow> ids_file \<times> claims \<Rightarrow> (tree_error, ids_file \<times> claims) result" where
  "assemble_file path f st =
     and_then (claim path ''identity'' (tf_uid f) (snd st)) (\<lambda>seen.
     and_then (assemble_body path f (fst st, seen)) (\<lambda>st.
       Inr (case tf_dropped f of None \<Rightarrow> st | Some t \<Rightarrow> (put_tombstone (tf_uid f) t (fst st), snd st))))"

definition assemble ::
  "(string \<Rightarrow> (string, raw_file) result) \<Rightarrow> (string, string) btree \<Rightarrow> (tree_error, ids_file) result" where
  "assemble from_str files =
     and_then (try_fold (\<lambda>st (path, text).
                 and_then (parse_tree from_str path text) (\<lambda>f. assemble_file path f st))
                 (ids_default, bempty) (entries files)) (\<lambda>st.
     and_then (map_err TreeIds (validate (fst st))) (\<lambda>_. Inr (fst st)))"

end
