(* ===== verification/Ids_Split.thy ===== *)
theory Ids_Split
  imports Ids_Tree
begin

text \<open>
  Writing the identity mapping as a tree (\<open>split\<close>, \<open>Placement\<close>, \<open>ordered\<close>, \<open>next_order\<close> of
  \<open>crates/pbps-model/src/ids_tree.rs\<close>).
\<close>

section \<open>Placement\<close>

record placement =
  pl_paths :: "(uid, string) btree"
  pl_children :: "(uid, uid) btree"
  pl_order :: "(uid, uid list) btree"
  pl_owners :: "(uid, uid) btree"

definition USIZE_MAX :: "64 word" where
  "USIZE_MAX = 0xFFFFFFFFFFFFFFFF"

definition rank_of :: "uid list \<Rightarrow> uid \<Rightarrow> 64 word" where
  "rank_of order u =
     (case bget (bcollect (zip order [0..<length order])) u of None \<Rightarrow> USIZE_MAX | Some i \<Rightarrow> of_nat i)"

definition ordered :: "(uid \<times> 'v) list \<Rightarrow> uid list option \<Rightarrow> (uid \<times> 'v) list" where
  "ordered records order =
     sort_key (\<lambda>p. (rank_of (case order of None \<Rightarrow> [] | Some us \<Rightarrow> us) (fst p), fst p)) records"

section \<open>Objects and their files\<close>

definition tomb_body :: "uid \<times> tombstone \<Rightarrow> (uid \<times> tree_body \<times> tombstone option) option" where
  "tomb_body p =
     (case p of (u, t) \<Rightarrow>
        (case uid_kind_of u of
           TableUid \<Rightarrow> Some (u, BodyTable (new_table_body (tb_was t)), Some t)
         | RoleUid \<Rightarrow> Some (u, BodyRole (tb_was t), Some t)
         | TypeUid \<Rightarrow> Some (u, BodyType (tb_was t), Some t)
         | ExtensionUid \<Rightarrow> Some (u, BodyExtension (tb_was t), Some t)
         | ColumnUid \<Rightarrow> None))"

definition tree_objects :: "ids_file \<Rightarrow> (uid \<times> tree_body \<times> tombstone option) list" where
  "tree_objects ids =
     map (\<lambda>(u, n). (u, BodyTable (new_table_body (table_raw n)), None)) (entries (ids_tables ids))
     @ map (\<lambda>(u, n). (u, BodyRole n, None)) (entries (ids_roles ids))
     @ map (\<lambda>(u, n). (u, BodyType (type_raw n), None)) (entries (ids_types ids))
     @ map (\<lambda>(u, n). (u, BodyExtension n, None)) (entries (ids_extensions ids))
     @ List.map_filter tomb_body (entries (ids_tombstones ids))"

definition primary :: "placement \<Rightarrow> uid \<Rightarrow> bool" where
  "primary pl u = bhas (pl_paths pl) u"

definition is_table_body :: "tree_body \<Rightarrow> bool" where
  "is_table_body b = (case b of BodyTable _ \<Rightarrow> True | _ \<Rightarrow> False)"

definition place_object ::
  "placement \<Rightarrow> (uid, tree_file) btree \<Rightarrow> uid \<times> tree_body \<times> tombstone option \<Rightarrow> (tree_error, (uid, tree_file) btree) result" where
  "place_object pl files obj =
     (case obj of (u, body, dropped) \<Rightarrow>
        if primary pl u
        then Inr (bput u \<lparr>tf_uid = u, tf_body = body, tf_dropped = dropped\<rparr> files)
        else if \<not> (is_table_body body \<and> bhas (pl_children pl) u) then Inl (NoPath u)
        else Inr files)"

definition place_objects :: "placement \<Rightarrow> ids_file \<Rightarrow> (tree_error, (uid, tree_file) btree) result" where
  "place_objects pl ids =
     and_then (try_fold (place_object pl) bempty (tree_objects ids)) (\<lambda>files.
       case find (\<lambda>u. \<not> bhas files u) (bkeys (pl_paths pl)) of
         Some u \<Rightarrow> Inl (UnknownPath u)
       | None \<Rightarrow> Inr files)"

section \<open>Which file a record belongs to\<close>

definition tables_by_name :: "ids_file \<Rightarrow> (table_name, uid list) btree" where
  "tables_by_name ids =
     foldl (\<lambda>m (u, t).
         case (uid_kind_of u, table_from_str (tb_was t)) of
           (TableUid, Inr name) \<Rightarrow> bpush name u m
         | _ \<Rightarrow> m)
       (foldl (\<lambda>m (u, n). bpush n u m) bempty (entries (ids_tables ids)))
       (entries (ids_tombstones ids))"

definition live_by_name :: "ids_file \<Rightarrow> (table_name, uid) btree" where
  "live_by_name ids = bcollect (map (\<lambda>(u, n). (n, u)) (entries (ids_tables ids)))"

definition table_file :: "(uid, tree_file) btree \<Rightarrow> uid \<Rightarrow> (tree_error, unit) result" where
  "table_file files u =
     (case bget files u of
        Some f \<Rightarrow> ensure (is_table_body (tf_body f)) (NoPath u)
      | None \<Rightarrow> Inl (NoPath u))"

definition move_home :: "placement \<Rightarrow> uid \<Rightarrow> uid option" where
  "move_home pl u =
     (if primary pl u then Some u
      else case bget (pl_children pl) u of
             Some p \<Rightarrow> if primary pl p then Some p else None
           | None \<Rightarrow> None)"

definition column_owner ::
  "ids_file \<Rightarrow> (uid, tree_file) btree \<Rightarrow> uid \<times> column_ref \<Rightarrow> (tree_error, uid) result" where
  "column_owner ids files p =
     (case p of (u, c) \<Rightarrow>
        and_then (ok_or (bget (live_by_name ids) (cr_table c)) (NoPath u)) (\<lambda>owner.
        and_then (table_file files owner) (\<lambda>_. Inr owner)))"

text \<open>Where a tombstone of a column or of a partition child goes; other tombstones are files.\<close>

datatype tomb_place = InColumns uid | InPartitions uid | OwnFile

definition column_tomb_owner ::
  "placement \<Rightarrow> ids_file \<Rightarrow> uid \<Rightarrow> tombstone \<Rightarrow> (tree_error, uid) result" where
  "column_tomb_owner pl ids u t =
     (case bget (pl_owners pl) u of
        Some owner \<Rightarrow> Inr owner
      | None \<Rightarrow>
          (case column_from_str (tb_was t) of
             Inl _ \<Rightarrow> Inl (UnownedTombstone u)
           | Inr c \<Rightarrow>
               (case bget (tables_by_name ids) (cr_table c) of
                  Some [only] \<Rightarrow> Inr only
                | _ \<Rightarrow> Inl (UnownedTombstone u))))"

definition tomb_home ::
  "placement \<Rightarrow> ids_file \<Rightarrow> (uid, tree_file) btree \<Rightarrow> uid \<times> tombstone \<Rightarrow> (tree_error, tomb_place) result" where
  "tomb_home pl ids files p =
     (case p of (u, t) \<Rightarrow>
        if uid_kind_of u = ColumnUid
        then and_then (column_tomb_owner pl ids u t) (\<lambda>owner.
             and_then (table_file files owner) (\<lambda>_. Inr (InColumns owner)))
        else if uid_kind_of u = TableUid \<and> \<not> primary pl u
        then and_then (ok_or (bget (pl_children pl) u) (NoPath u)) (\<lambda>parent.
             and_then (table_file files parent) (\<lambda>_. Inr (InPartitions parent)))
        else Inr OwnFile)"

definition conversion_owner :: "ids_file \<Rightarrow> uid \<times> conversion \<Rightarrow> (tree_error, uid) result" where
  "conversion_owner ids p =
     and_then (ok_or (bget (ids_columns ids) (fst p)) Panicked) (\<lambda>c.
       ok_or (bget (live_by_name ids) (cr_table c)) Panicked)"

type_synonym 'v by_file = "(uid, (uid \<times> 'v) list) btree"

text \<open>A loop that looks up where each record goes and appends it there.\<close>

definition push_each ::
  "('a \<Rightarrow> (tree_error, uid) result) \<Rightarrow> ('a \<Rightarrow> uid \<times> 'v) \<Rightarrow> 'v by_file \<Rightarrow> 'a list \<Rightarrow> (tree_error, 'v by_file) result" where
  "push_each home record m xs =
     try_fold (\<lambda>m x. and_then (home x) (\<lambda>owner. Inr (bpush owner (record x) m))) m xs"

definition push_tomb ::
  "placement \<Rightarrow> ids_file \<Rightarrow> (uid, tree_file) btree \<Rightarrow> ids_rec by_file \<times> ids_rec by_file \<Rightarrow> uid \<times> tombstone
   \<Rightarrow> (tree_error, ids_rec by_file \<times> ids_rec by_file) result" where
  "push_tomb pl ids files st p =
     and_then (tomb_home pl ids files p) (\<lambda>place.
       Inr (case place of
              InColumns owner \<Rightarrow> (bpush owner (fst p, Dead (snd p)) (fst st), snd st)
            | InPartitions parent \<Rightarrow> (fst st, bpush parent (fst p, Dead (snd p)) (snd st))
            | OwnFile \<Rightarrow> st))"

text \<open>The loop over \<open>placement.children\<close>: the live ones join their parent's partitions.\<close>

definition push_children ::
  "placement \<Rightarrow> ids_file \<Rightarrow> (uid, tree_file) btree \<Rightarrow> ids_rec by_file \<Rightarrow> (tree_error, ids_rec by_file) result" where
  "push_children pl ids files m =
     try_fold (\<lambda>m (child, parent).
       case bget (ids_tables ids) child of
         None \<Rightarrow> Inr m
       | Some n \<Rightarrow> and_then (table_file files parent) (\<lambda>_. Inr (bpush parent (child, Live (table_raw n)) m)))
       m (entries (pl_children pl))"

record tree_parts =
  tp_files :: "(uid, tree_file) btree"
  tp_columns :: "ids_rec by_file"
  tp_partitions :: "ids_rec by_file"
  tp_moves :: "row_move by_file"
  tp_conversions :: "conversion by_file"
  tp_rebuilds :: "rebuild by_file"

definition split_parts :: "ids_file \<Rightarrow> placement \<Rightarrow> (tree_error, tree_parts) result" where
  "split_parts ids pl =
     and_then (map_err TreeIds (validate ids)) (\<lambda>_.
     and_then (place_objects pl ids) (\<lambda>files.
     and_then (push_each (column_owner ids files) (\<lambda>(u, c). (u, Live (cr_name c))) bempty
                (entries (ids_columns ids))) (\<lambda>columns.
     and_then (try_fold (push_tomb pl ids files) (columns, bempty) (entries (ids_tombstones ids))) (\<lambda>(columns, partitions).
     and_then (push_children pl ids files partitions) (\<lambda>partitions.
     and_then (push_each (\<lambda>(u, _). ok_or (move_home pl u) (NoPath u)) (\<lambda>p. p) bempty (entries (ids_moves ids))) (\<lambda>moves.
     and_then (push_each (conversion_owner ids) (\<lambda>p. p) bempty (entries (ids_conversions ids))) (\<lambda>conversions.
     and_then (push_each (\<lambda>(_, r). and_then (table_file files (rb_replacement_root r)) (\<lambda>_. Inr (rb_replacement_root r)))
                (\<lambda>p. p) bempty (entries (ids_rebuilds ids))) (\<lambda>rebuilds.
       Inr \<lparr>tp_files = files, tp_columns = columns, tp_partitions = partitions, tp_moves = moves,
            tp_conversions = conversions, tp_rebuilds = rebuilds\<rparr>))))))))"

section \<open>The written files\<close>

definition fill_body :: "placement \<Rightarrow> tree_parts \<Rightarrow> uid \<Rightarrow> tree_body \<Rightarrow> tree_body" where
  "fill_body pl parts u body =
     (case body of
        BodyTable t \<Rightarrow> BodyTable (t\<lparr>
          bd_columns := ordered (bget_list (tp_columns parts) u) (bget (pl_order pl) u),
          bd_partitions := ordered (bget_list (tp_partitions parts) u) None,
          bd_moves := ordered (bget_list (tp_moves parts) u) None,
          bd_conversions := ordered (bget_list (tp_conversions parts) u) None,
          bd_rebuilds := ordered (bget_list (tp_rebuilds parts) u) None\<rparr>)
      | b \<Rightarrow> b)"

definition write_file ::
  "placement \<Rightarrow> tree_parts \<Rightarrow> (string, uid) btree \<times> (string \<times> tree_file) list \<Rightarrow> uid \<times> tree_file
   \<Rightarrow> (tree_error, (string, uid) btree \<times> (string \<times> tree_file) list) result" where
  "write_file pl parts st uf =
     (case st of (owners, out) \<Rightarrow> case uf of (u, f) \<Rightarrow>
        and_then (ok_or (bget (pl_paths pl) u) Panicked) (\<lambda>path.
        and_then (case bget owners path of
                    Some other \<Rightarrow> Inl (PathCollision path other u)
                  | None \<Rightarrow> Inr (bput path u owners)) (\<lambda>owners.
          let f = f\<lparr>tf_body := fill_body pl parts u (tf_body f)\<rparr>
          in and_then (check_file path f) (\<lambda>_. Inr (owners, out @ [(path, f)])))))"

text \<open>The files \<open>split\<close> writes, before they are rendered, with their paths.\<close>

definition split_files :: "ids_file \<Rightarrow> placement \<Rightarrow> (tree_error, (string \<times> tree_file) list) result" where
  "split_files ids pl =
     and_then (split_parts ids pl) (\<lambda>parts.
     and_then (try_fold (write_file pl parts) (bempty, []) (entries (tp_files parts))) (\<lambda>st. Inr (snd st)))"

definition split_tree :: "json_out \<Rightarrow> ids_file \<Rightarrow> placement \<Rightarrow> (tree_error, (string, string) btree) result" where
  "split_tree js ids pl =
     and_then (split_files ids pl) (\<lambda>files. Inr (bcollect (map (\<lambda>(path, f). (path, render js f)) files)))"

section \<open>Record order\<close>

fun list_position :: "('a \<Rightarrow> bool) \<Rightarrow> 'a list \<Rightarrow> nat option" where
  "list_position P [] = None"
| "list_position P (x # xs) = (if P x then Some 0 else map_option Suc (list_position P xs))"

definition list_insert :: "nat \<Rightarrow> 'a \<Rightarrow> 'a list \<Rightarrow> 'a list" where
  "list_insert i x xs = take i xs @ [x] @ drop i xs"

definition insert_declared :: "uid list \<Rightarrow> uid list \<Rightarrow> nat \<times> uid \<Rightarrow> uid list" where
  "insert_declared declared order p =
     (case p of (i, u) \<Rightarrow>
        if u \<in> set order then order
        else let at = (case (if i = 0 then None else list_position (\<lambda>v. v = declared ! (i - 1)) order) of
                         None \<Rightarrow> 0 | Some q \<Rightarrow> q + 1)
             in list_insert at u order)"

definition next_order :: "uid list \<Rightarrow> uid list \<Rightarrow> uid set \<Rightarrow> uid list" where
  "next_order existing declared retired =
     (let want = set declared;
          order = filter (\<lambda>u. u \<in> want \<or> u \<in> retired) existing;
          order = foldl (insert_declared declared) order (zip [0..<length declared] declared);
          slots = filter (\<lambda>i. order ! i \<in> want) [0..<length order]
      in foldl (\<lambda>order (slot, u). order[slot := u]) order (zip slots declared))"

end
