(* ===== verification/Tree_Text.thy ===== *)
theory Tree_Text
  imports Ids_Split
begin

text \<open>
  What the reader of one identity file accepts, and that it reads back what the writer wrote.
\<close>

section \<open>The document of a written file\<close>

text \<open>The members of a section in the order \<open>section_text\<close> writes them.\<close>

definition written :: "(uid \<times> 'v) list \<Rightarrow> (string \<times> 'v entry) list" where
  "written recs = map (\<lambda>(u, v). (as_str u, Value v)) recs @ [(end_key, Flag True)]"

definition visited :: "(string \<times> 'v entry) list \<Rightarrow> 'v section_read option" where
  "visited kvs = (case visit_map kvs of Inl _ \<Rightarrow> None | Inr s \<Rightarrow> Some s)"

definition optional_visited :: "(uid \<times> 'v) list \<Rightarrow> 'v section_read option" where
  "optional_visited recs = (if recs = [] then None else visited (written recs))"

definition table_part :: "(table_body \<Rightarrow> 'a option) \<Rightarrow> tree_file \<Rightarrow> 'a option" where
  "table_part g f = (case tf_body f of BodyTable t \<Rightarrow> g t | _ \<Rightarrow> None)"

definition raw_of :: "tree_file \<Rightarrow> raw_file" where
  "raw_of f =
     \<lparr>raw_format = FORMAT, raw_uid = tf_uid f,
      raw_table = table_part (\<lambda>t. Some (bd_table t)) f,
      raw_role = (case tf_body f of BodyRole n \<Rightarrow> Some n | _ \<Rightarrow> None),
      raw_ty = (case tf_body f of BodyType n \<Rightarrow> Some n | _ \<Rightarrow> None),
      raw_extension = (case tf_body f of BodyExtension n \<Rightarrow> Some n | _ \<Rightarrow> None),
      raw_dropped = tf_dropped f,
      raw_columns = table_part (\<lambda>t. visited (written (bd_columns t))) f,
      raw_partitions = table_part (\<lambda>t. optional_visited (bd_partitions t)) f,
      raw_moves = table_part (\<lambda>t. optional_visited (bd_moves t)) f,
      raw_conversions = table_part (\<lambda>t. optional_visited (bd_conversions t)) f,
      raw_rebuilds = table_part (\<lambda>t. optional_visited (bd_rebuilds t)) f\<rparr>"

text \<open>What the sections of a file must be for its text to carry them.\<close>

definition section_ok :: "uid_kind \<Rightarrow> (uid \<times> 'v) list \<Rightarrow> bool" where
  "section_ok k recs \<longleftrightarrow> distinct (map fst recs) \<and> (\<forall>p \<in> set recs. uid_wf (fst p) \<and> uid_kind_of (fst p) = k)"

definition sections_ok :: "tree_file \<Rightarrow> bool" where
  "sections_ok f \<longleftrightarrow>
     (case tf_body f of
        BodyTable t \<Rightarrow>
          section_ok ColumnUid (bd_columns t) \<and> section_ok TableUid (bd_partitions t)
          \<and> section_ok TableUid (bd_moves t) \<and> section_ok ColumnUid (bd_conversions t)
          \<and> section_ok TableUid (bd_rebuilds t)
      | _ \<Rightarrow> True)"

text \<open>The written values are single lines: JSON escapes every control character.\<close>

definition single_line :: "json_out \<Rightarrow> bool" where
  "single_line js \<longleftrightarrow>
     (\<forall>s. newline \<notin> set (js_str js s)) \<and> (\<forall>t. newline \<notin> set (js_tombstone js t))
     \<and> (\<forall>m. newline \<notin> set (js_move js m)) \<and> (\<forall>c. newline \<notin> set (js_conversion js c))
     \<and> (\<forall>r. newline \<notin> set (js_rebuild js r))"

text \<open>
  The JSON grammar of an object, as far as the layout needs it: members separated by commas,
  with white space around every token. A member is a key text and what its value text may be.
\<close>

definition json_space :: "string \<Rightarrow> bool" where
  "json_space w \<longleftrightarrow> set w \<subseteq> {CHR '' '', newline}"

definition json_member :: "string \<times> (string \<Rightarrow> bool) \<Rightarrow> string \<Rightarrow> bool" where
  "json_member m t \<longleftrightarrow>
     (\<exists>w1 w2 w3 w4 v. json_space w1 \<and> json_space w2 \<and> json_space w3 \<and> json_space w4
        \<and> snd m v \<and> t = w1 @ fst m @ w2 @ '':'' @ w3 @ v @ w4)"

definition json_object :: "(string \<times> (string \<Rightarrow> bool)) list \<Rightarrow> string \<Rightarrow> bool" where
  "json_object ms t \<longleftrightarrow>
     (\<exists>w1 w2 ts. json_space w1 \<and> json_space w2 \<and> list_all2 json_member ms ts
        \<and> t = w1 @ ''{'' @ join_with '','' ts @ ''}'' @ w2)"

definition section_members :: "json_out \<Rightarrow> ('v \<Rightarrow> string) \<Rightarrow> (uid \<times> 'v) list \<Rightarrow> (string \<times> (string \<Rightarrow> bool)) list" where
  "section_members js wr recs =
     map (\<lambda>(u, v). (js_str js (as_str u), \<lambda>t. t = wr v)) recs @ [(quoted ''_end'', \<lambda>t. t = ''true'')]"

definition optional_member ::
  "json_out \<Rightarrow> ('v \<Rightarrow> string) \<Rightarrow> string \<Rightarrow> (uid \<times> 'v) list \<Rightarrow> (string \<times> (string \<Rightarrow> bool)) list" where
  "optional_member js wr name recs =
     (if recs = [] then [] else [(quoted name, json_object (section_members js wr recs))])"

definition file_members :: "json_out \<Rightarrow> tree_file \<Rightarrow> (string \<times> (string \<Rightarrow> bool)) list" where
  "file_members js f =
     [(quoted ''_generated'', \<lambda>t. t = js_str js GENERATED),
      (quoted ''format'', \<lambda>t. t = ''1''),
      (quoted ''uid'', \<lambda>t. t = js_str js (as_str (tf_uid f))),
      (quoted (fst (body_name (tf_body f))), \<lambda>t. t = js_str js (snd (body_name (tf_body f))))]
     @ (case tf_dropped f of None \<Rightarrow> [] | Some d \<Rightarrow> [(quoted ''dropped'', \<lambda>t. t = js_tombstone js d)])
     @ (case tf_body f of
          BodyTable t \<Rightarrow>
            [(quoted ''columns'', json_object (section_members js (js_rec js) (bd_columns t)))]
            @ optional_member js (js_rec js) ''partitions'' (bd_partitions t)
            @ optional_member js (js_move js) ''moves'' (bd_moves t)
            @ optional_member js (js_conversion js) ''conversions'' (bd_conversions t)
            @ optional_member js (js_rebuild js) ''rebuilds'' (bd_rebuilds t)
        | _ \<Rightarrow> [])"

text \<open>A table file with a live and a retired column, and a writer of single values.\<close>

definition js_plain :: "string \<Rightarrow> string" where
  "js_plain s = quoted (filter (\<lambda>c. c \<noteq> newline) s)"

definition sample_json :: json_out where
  "sample_json = \<lparr>js_str = js_plain, js_tombstone = (\<lambda>t. ''{'' @ quoted ''was'' @ '': '' @ js_plain (tb_was t) @ ''}''),
     js_move = (\<lambda>_. ''{}''), js_conversion = (\<lambda>_. ''{}''), js_rebuild = (\<lambda>_. ''{}'')\<rparr>"

definition sample_file :: tree_file where
  "sample_file = \<lparr>tf_uid = Uid ''t_000001'',
     tf_body = BodyTable ((new_table_body ''dbo.customer'')\<lparr>bd_columns := [(Uid ''c_000001'', Live ''id''),
       (Uid ''c_000002'', Dead \<lparr>tb_was = ''dbo.customer.name'', tb_dropped_at = ''2024-01-01T00:00:00Z'',
          tb_reason = ''unused'', tb_operator = ''ops'', tb_require = None\<rparr>)]\<rparr>),
     tf_dropped = None\<rparr>"

section \<open>Sections\<close>

definition typed :: "string \<times> 'v entry \<Rightarrow> bool" where
  "typed kv \<longleftrightarrow> (if fst kv = end_key then snd kv = Flag True else (\<exists>v. snd kv = Value v))"

definition section_values :: "(string \<times> 'v entry) list \<Rightarrow> (string \<times> 'v) list" where
  "section_values kvs = List.map_filter (\<lambda>(k, e). case e of Value v \<Rightarrow> Some (k, v) | Flag _ \<Rightarrow> None) kvs"

lemma section_values_append: "section_values (xs @ ys) = section_values xs @ section_values ys"
  by (simp add: section_values_def map_filter_def)

lemma first_of_not_None [simp]: "first_of x y \<noteq> None"
  by (simp add: first_of_def split: option.splits)

lemma visit_fold:
  assumes "try_fold visit_step (\<lparr>sr_records = [], sr_end = EndMissing, sr_duplicate = None\<rparr>, {}) kvs = Inr (s, seen)"
  shows "(\<forall>kv \<in> set kvs. typed kv) \<and> sr_records s = section_values kvs
    \<and> seen = fst ` set kvs - {end_key}
    \<and> (sr_end s = EndMissing \<longleftrightarrow> end_key \<notin> fst ` set kvs)
    \<and> (sr_end s = EndLast \<longleftrightarrow> kvs \<noteq> [] \<and> fst (last kvs) = end_key)
    \<and> (sr_duplicate s = None \<longleftrightarrow> distinct (map fst kvs))"
  using assms
proof (induction kvs arbitrary: s seen rule: rev_induct)
  case Nil
  then show ?case by (auto simp: section_values_def map_filter_def)
next
  case (snoc kv kvs)
  obtain k e where kv: "kv = (k, e)" by (cases kv)
  from snoc.prems obtain s0 seen0 where
    "try_fold visit_step (\<lparr>sr_records = [], sr_end = EndMissing, sr_duplicate = None\<rparr>, {}) kvs = Inr (s0, seen0)"
    and step: "visit_step (s0, seen0) (k, e) = Inr (s, seen)"
    by (auto simp: try_fold_append result_simps kv)
  note IH = snoc.IH [OF this(1)]
  show ?case
  proof (cases e)
    case (Flag b)
    with step have k: "k = end_key" and b: "b"
      and s: "seen = seen0" "sr_records s = sr_records s0" "sr_end s = EndLast"
        "sr_duplicate s = (if sr_end s0 = EndMissing then sr_duplicate s0 else first_of (sr_duplicate s0) end_key)"
      by (auto simp: visit_step_def Let_def split: if_splits)
    have "section_values [kv] = []" by (simp add: kv Flag section_values_def map_filter_def)
    with IH s k b Flag show ?thesis
      by (auto simp: kv typed_def section_values_append)
  next
    case (Value v)
    with step have k: "k \<noteq> end_key"
      and s: "seen = insert k seen0" "sr_records s = sr_records s0 @ [(k, v)]"
        "sr_end s = (if sr_end s0 = EndLast then EndNotLast else sr_end s0)"
        "sr_duplicate s = (if k \<in> seen0 then first_of (sr_duplicate s0) k else sr_duplicate s0)"
      by (auto simp: visit_step_def Let_def split: if_splits)
    have "section_values [kv] = [(k, v)]" by (simp add: kv Value section_values_def map_filter_def)
    with IH s k Value show ?thesis
      by (auto simp: kv typed_def section_values_append)
  qed
qed

lemma visit_total:
  "(\<forall>kv \<in> set kvs. typed kv) \<Longrightarrow> \<exists>st'. try_fold visit_step st kvs = Inr st'"
proof (induction kvs arbitrary: st)
  case (Cons kv kvs)
  obtain s seen k e where eqs: "st = (s, seen)" "kv = (k, e)" by (cases st; cases kv) auto
  from Cons.prems have "\<exists>st'. visit_step st kv = Inr st'"
    by (auto simp: eqs visit_step_def typed_def Let_def)
  with Cons show ?case by auto
qed simp

lemma typed_values:
  "(\<forall>kv \<in> set kvs. typed kv) \<Longrightarrow> end_key \<notin> fst ` set kvs \<Longrightarrow>
     kvs = map (\<lambda>(k, v). (k, Value v)) (section_values kvs)"
  by (induction kvs) (auto simp: typed_def section_values_def map_filter_def)

lemma section_values_written: "section_values (written recs) = map (\<lambda>(u, v). (as_str u, v)) recs"
  by (induction recs) (auto simp: written_def section_values_def map_filter_def)

lemma end_key_not_uid: "uid_wf u \<Longrightarrow> as_str u \<noteq> end_key"
proof
  assume "uid_wf u" "as_str u = end_key"
  then obtain k rest where "end_key = uid_prefix k @ rest" "length rest = LEN" by (auto simp: uid_wf_def)
  then have "length end_key = length (uid_prefix k) + LEN" by (metis length_append)
  then show False by (simp add: end_key_def LEN_def)
qed

lemma keyed_one_ok:
  "keyed_one path kind kv = Inr (u, v) \<longleftrightarrow> kv = (as_str u, v) \<and> uid_wf u \<and> uid_kind_of u = kind"
  by (cases kv) (auto simp: keyed_one_def result_simps uid_from_str_ok)

lemma keyed_all_ok:
  "try_map (keyed_one path kind) kvs = Inr recs \<longleftrightarrow>
     kvs = map (\<lambda>(u, v). (as_str u, v)) recs \<and> (\<forall>p \<in> set recs. uid_wf (fst p) \<and> uid_kind_of (fst p) = kind)"
  unfolding try_map_ok
proof (induction recs arbitrary: kvs)
  case (Cons p recs)
  then show ?case by (cases p) (auto simp: list_all2_Cons2 keyed_one_ok)
qed simp

lemma keyed_Some_ok:
  "keyed path name (Some s) kind required = Inr recs \<longleftrightarrow>
     sr_end s = EndLast \<and> sr_duplicate s = None \<and> try_map (keyed_one path kind) (sr_records s) = Inr recs"
  by (cases "sr_end s"; cases "sr_duplicate s") (simp_all add: keyed_def)

lemma section_accepted:
  "(\<exists>s. visit_map kvs = Inr s \<and> keyed path name (Some s) kind required = Inr recs)
   \<longleftrightarrow> kvs = written recs \<and> section_ok kind recs"
proof
  assume "\<exists>s. visit_map kvs = Inr s \<and> keyed path name (Some s) kind required = Inr recs"
  then obtain s seen where fold: "try_fold visit_step (\<lparr>sr_records = [], sr_end = EndMissing, sr_duplicate = None\<rparr>, {}) kvs = Inr (s, seen)"
    and k: "sr_end s = EndLast" "sr_duplicate s = None" "try_map (keyed_one path kind) (sr_records s) = Inr recs"
    by (auto simp: visit_map_def result_simps keyed_Some_ok)
  note fold = visit_fold [OF fold]
  from fold k obtain kvs' kv where kvs: "kvs = kvs' @ [kv]" "fst kv = end_key"
    by (cases kvs rule: rev_cases) auto
  with fold k have d: "distinct (map fst kvs)" "\<forall>kv \<in> set kvs. typed kv" by auto
  with kvs have "end_key \<notin> fst ` set kvs'" "kv = (end_key, Flag True)"
    by (auto simp: typed_def prod_eq_iff)
  moreover from this d kvs have "kvs' = map (\<lambda>(k, v). (k, Value v)) (section_values kvs')"
    by (intro typed_values) auto
  moreover from calculation k fold have "section_values kvs' = map (\<lambda>(u, v). (as_str u, v)) recs"
    and wf: "\<forall>p \<in> set recs. uid_wf (fst p) \<and> uid_kind_of (fst p) = kind"
    by (auto simp: keyed_all_ok kvs section_values_append section_values_def map_filter_def)
  ultimately have eq: "kvs = written recs"
    using kvs by (simp add: written_def comp_def case_prod_unfold)
  from d(1) have "distinct (map fst recs)"
    by (auto simp: eq written_def comp_def case_prod_unfold distinct_map inj_on_def)
  with eq wf show "kvs = written recs \<and> section_ok kind recs" by (simp add: section_ok_def)
next
  assume ok: "kvs = written recs \<and> section_ok kind recs"
  then have wf: "\<forall>p \<in> set recs. uid_wf (fst p) \<and> uid_kind_of (fst p) = kind" by (simp add: section_ok_def)
  then have typed: "\<forall>kv \<in> set kvs. typed kv"
    using ok end_key_not_uid by (force simp: written_def typed_def)
  then obtain s seen where fold: "try_fold visit_step (\<lparr>sr_records = [], sr_end = EndMissing, sr_duplicate = None\<rparr>, {}) kvs = Inr (s, seen)"
    using visit_total by (metis surj_pair)
  note facts = visit_fold [OF fold]
  have "distinct (map fst kvs)"
    using ok wf end_key_not_uid
    by (auto simp: section_ok_def written_def comp_def case_prod_unfold distinct_map inj_on_def uid.expand)
      (metis fst_conv)
  with facts ok have "sr_end s = EndLast" "sr_duplicate s = None" by (simp_all add: written_def)
  moreover have "try_map (keyed_one path kind) (sr_records s) = Inr recs"
    using facts ok wf by (simp add: keyed_all_ok section_values_written)
  ultimately show "\<exists>s. visit_map kvs = Inr s \<and> keyed path name (Some s) kind required = Inr recs"
    using fold by (simp add: visit_map_def keyed_Some_ok)
qed

lemma keyed_written: "section_ok kind recs \<Longrightarrow> keyed path name (visited (written recs)) kind required = Inr recs"
  using section_accepted [of "written recs" path name kind required recs] by (auto simp: visited_def)

lemma keyed_optional: "section_ok kind recs \<Longrightarrow> keyed path name (optional_visited recs) kind False = Inr recs"
  by (cases "recs = []") (auto simp: optional_visited_def keyed_written, simp add: keyed_def)

section \<open>No conflict markers\<close>

definition calm :: "string \<Rightarrow> bool" where
  "calm l \<longleftrightarrow> l = [] \<or> hd l \<notin> {CHR ''<'', CHR ''>'', CHR ''=''}"

definition calm_text :: "string \<Rightarrow> bool" where
  "calm_text s \<longleftrightarrow> list_all calm (split_on newline s)"

lemma split_on_glue: "split_on c (a @ c # b) = split_on c a @ split_on c b"
  by (induction a) (auto split: list.splits)

lemma calm_text_glue: "calm_text (a @ newline # b) \<longleftrightarrow> calm_text a \<and> calm_text b"
  by (simp add: calm_text_def split_on_glue)

lemma calm_text_single: "newline \<notin> set a \<Longrightarrow> calm_text a \<longleftrightarrow> calm a"
  by (simp add: calm_text_def split_on_single)

lemma split_on_extend:
  "c \<notin> set b \<Longrightarrow> split_on c (a @ b) = butlast (split_on c a) @ [last (split_on c a) @ b]"
  by (induction a) (auto simp: split_on_single split: list.splits)

lemma calm_text_extend:
  assumes "calm_text a" "newline \<notin> set b" "calm b"
  shows "calm_text (a @ b)"
proof -
  have "list_all calm (butlast (split_on newline a))" "calm (last (split_on newline a))"
    using assms(1) by (auto simp: calm_text_def list_all_iff dest: in_set_butlastD)
  moreover from this(2) assms(3) have "calm (last (split_on newline a) @ b)"
    by (auto simp: calm_def hd_append)
  ultimately show ?thesis
    using assms(2) by (simp add: calm_text_def split_on_extend)
qed

lemma calm_text_join:
  "\<forall>x \<in> set xs. calm_text x \<Longrightarrow> calm_text (join_with ('','' @ [newline]) xs)"
proof (induction "'','' @ [newline]" xs rule: join_with.induct)
  case (3 x y ys)
  then have "calm_text (join_with ('','' @ [newline]) (y # ys))" "calm_text (x @ '','')"
    by (simp_all add: calm_text_extend calm_def newline_def)
  then show ?case using calm_text_glue [of "x @ '',''" "join_with ('','' @ [newline]) (y # ys)"] by simp
qed (simp_all add: calm_text_def calm_def)

lemma strip_suffix_Some: "strip_suffix p s = Some r \<longleftrightarrow> s = r @ p"
  by (auto simp: strip_suffix_def suffix_def)

lemma trim_end_prefix: "prefix (trim_end s) s"
proof -
  have "suffix (strip_all ws s) s" for ws s
  proof (induction ws s rule: strip_all.induct)
    case (1 ws s)
    show ?case
    proof (cases "find (\<lambda>w. w \<noteq> [] \<and> prefix w s) ws")
      case None
      then show ?thesis by (subst strip_all.simps) simp
    next
      case (Some w)
      with 1 have "suffix (strip_all ws (drop (length w) s)) (drop (length w) s)" by blast
      then have "suffix (strip_all ws (drop (length w) s)) s"
        by (rule suffix_order.trans) (rule suffix_drop)
      then show ?thesis by (subst strip_all.simps) (simp add: Some)
    qed
  qed
  from this [of "map rev white_space" "rev s"] show ?thesis
    by (simp add: trim_end_def suffix_to_prefix)
qed

lemma calm_not_conflict: "calm l \<Longrightarrow> \<not> conflict_line l"
proof
  assume "calm l" "conflict_line l"
  then obtain p where "prefix p l" "p \<in> {''<<<<<<<'', ''>>>>>>>'', ''=======''}"
    using trim_end_prefix [of l] by (auto simp: conflict_line_def starts_with_def)
  with \<open>calm l\<close> show False by (auto simp: prefix_def calm_def)
qed

lemma calm_strip_cr: "calm l \<Longrightarrow> calm (strip_cr l)"
  by (auto simp: strip_cr_def strip_suffix_Some calm_def hd_append split: option.splits)

lemma calm_text_no_conflict: "calm_text s \<Longrightarrow> \<not> list_ex conflict_line (str_lines s)"
proof -
  assume calm: "calm_text s"
  have "calm l" if "l \<in> set (str_lines s)" for l
    using that calm
    by (auto simp: str_lines_def Let_def calm_text_def list_all_iff calm_strip_cr dest: in_set_butlastD split: if_splits)
  then show ?thesis using calm_not_conflict by (auto simp: list_ex_iff)
qed

section \<open>One file reads back\<close>

lemma calm_section:
  assumes "single_line js" "\<And>v. newline \<notin> set (wr v)" "newline \<notin> set name"
  shows "calm_text (section_text js wr name recs)"
proof -
  have two: "calm_text (a @ newline # newline # rest)" if "newline \<notin> set a" "calm a" "calm_text rest" for a rest
    using that calm_text_glue [of a "newline # rest"] calm_text_glue [of "[]" rest]
    by (simp add: calm_text_single calm_def)
  have line: "calm_text (section_line js wr p @ rest)" if "calm_text rest" for p rest
    using two [OF _ _ that, of "''    '' @ js_str js (as_str (fst p)) @ '': '' @ wr (snd p) @ '',''"] assms
    by (simp add: section_line_def single_line_def calm_def newline_def)
  have "calm_text (concat (map (section_line js wr) recs) @ rest)" if "calm_text rest" for rest
    by (induction recs) (simp_all add: that line)
  moreover have "calm_text (''    '' @ quoted ''_end'' @ '': true'' @ [newline, newline] @ ''  }'')"
    using two [of "''    '' @ quoted ''_end'' @ '': true''" "''  }''"]
    by (simp add: quoted_def quote_def newline_def calm_text_single calm_def)
  ultimately show ?thesis
    using two [of "''  '' @ quoted name @ '': {''"] assms(3)
    by (simp add: section_text_def quoted_def quote_def calm_def newline_def)
qed

lemma calm_line: "newline \<notin> set a \<Longrightarrow> calm_text (CHR '' '' # a)"
  by (simp add: calm_text_single calm_def newline_def)

lemma calm_top_lines:
  assumes "single_line js" "x \<in> set (top_lines js f)"
  shows "calm_text x"
proof -
  have no_nl: "newline \<notin> set (js_rec js r)" for r
    using assms(1) by (cases r) (simp_all add: single_line_def)
  have "newline \<notin> set (fst (body_name (tf_body f)))"
    by (cases "tf_body f") (simp_all add: newline_def)
  with assms no_nl show ?thesis
    by (auto simp: top_lines_def optional_section_def single_line_def quoted_def quote_def newline_def
      intro!: calm_section [OF assms(1)] calm_line split: option.splits tree_body.splits if_splits)
qed

lemma render_no_conflict:
  assumes "single_line js"
  shows "\<not> list_ex conflict_line (str_lines (render js f))"
proof -
  have "calm_text (join_with ('','' @ [newline]) (top_lines js f))"
    using calm_top_lines [OF assms] by (intro calm_text_join) blast
  then have "calm_text (render js f)"
    using calm_text_glue [of "''{''" "join_with ('','' @ [newline]) (top_lines js f) @ newline # ''}'' @ [newline]"]
      calm_text_glue [of "join_with ('','' @ [newline]) (top_lines js f)" "''}'' @ [newline]"]
      calm_text_glue [of "''}''" "[]"]
    by (simp add: render_def calm_text_single calm_def newline_def)
  then show ?thesis by (rule calm_text_no_conflict)
qed

lemma parse_render:
  assumes "single_line js" "from_str (render js f) = Inr (raw_of f)" "sections_ok f" "check_file path f = Inr ()"
  shows "parse_tree from_str path (render js f) = Inr f"
proof -
  have body: "raw_body path (raw_of f) = Inr (tf_body f)"
    using assms(3)
    by (cases "tf_body f")
      (simp_all add: raw_body_def raw_of_def table_part_def sections_ok_def keyed_written keyed_optional)
  have "length (filter (\<lambda>n. n \<noteq> None) [raw_table (raw_of f), raw_role (raw_of f), raw_ty (raw_of f), raw_extension (raw_of f)]) = 1"
    by (cases "tf_body f") (simp_all add: raw_of_def table_part_def)
  moreover have "raw_format (raw_of f) = FORMAT" "raw_uid (raw_of f) = tf_uid f" "raw_dropped (raw_of f) = tf_dropped f"
    by (simp_all add: raw_of_def)
  ultimately show ?thesis
    using render_no_conflict [OF assms(1)] body assms(2,4)
    by (cases f) (simp add: parse_tree_def map_err_def Let_def del: filter.simps)
qed

section \<open>The layout is JSON\<close>

lemma json_memberI:
  "json_space w1 \<Longrightarrow> json_space w4 \<Longrightarrow> snd m v \<Longrightarrow> t = w1 @ fst m @ '': '' @ v @ w4 \<Longrightarrow> json_member m t"
  unfolding json_member_def
  by (rule exI [of _ w1], rule exI [of _ "[]"], rule exI [of _ "'' ''"], rule exI [of _ w4])
    (simp add: json_space_def)

lemma json_space_simps [simp]: "json_space []" "json_space (a @ b) \<longleftrightarrow> json_space a \<and> json_space b"
  "json_space (c # a) \<longleftrightarrow> (c = CHR '' '' \<or> c = newline) \<and> json_space a"
  by (auto simp: json_space_def)

lemma json_member_pad: "json_member m t \<Longrightarrow> json_space w \<Longrightarrow> json_space w' \<Longrightarrow> json_member m (w @ t @ w')"
proof -
  assume w: "json_space w" "json_space w'" and "json_member m t"
  then obtain w1 w2 w3 w4 v where t: "json_space w1" "json_space w2" "json_space w3" "json_space w4" "snd m v"
    "t = w1 @ fst m @ w2 @ '':'' @ w3 @ v @ w4" unfolding json_member_def by blast
  show ?thesis
    unfolding json_member_def
    by (rule exI [of _ "w @ w1"], rule exI [of _ w2], rule exI [of _ w3], rule exI [of _ "w4 @ w'"], rule exI [of _ v])
      (simp add: t w)
qed

text \<open>White space before the first item and after the last belongs to those items.\<close>

lemma json_object_join:
  assumes ts: "list_all2 json_member ms ts" and ne: "ts \<noteq> []" and ws: "json_space w" "json_space w'" "json_space w''"
  shows "json_object ms (''{'' @ w @ join_with ('','' @ w'') ts @ w' @ ''}'')"
proof -
  have "\<exists>ts'. list_all2 json_member ms ts' \<and> ts' \<noteq> [] \<and> u @ join_with ('','' @ w'') ts @ w' = join_with '','' ts'"
    if "json_space u" for u
    using ts ne that
  proof (induction arbitrary: u)
    case (Cons m ms t ts)
    show ?case
    proof (cases "ts = []")
      case True
      with Cons.hyps Cons.prems ws show ?thesis
        by (intro exI [of _ "[u @ t @ w']"]) (auto simp: json_member_pad)
    next
      case False
      from Cons.IH [OF False ws(3)] obtain ts' where ts': "list_all2 json_member ms ts'" "ts' \<noteq> []"
        "w'' @ join_with ('','' @ w'') ts @ w' = join_with '','' ts'" by auto
      have "json_member m (u @ t)" using json_member_pad [OF Cons.hyps(1) Cons.prems(2), of "[]"] by simp
      with ts' False show ?thesis
        by (intro exI [of _ "(u @ t) # ts'"]) (simp add: join_with_Cons)
    qed
  qed simp
  from this [OF ws(1)] obtain ts' where ts': "list_all2 json_member ms ts'"
    and eq: "w @ join_with ('','' @ w'') ts @ w' = join_with '','' ts'" by blast
  have "''{'' @ w @ join_with ('','' @ w'') ts @ w' @ ''}'' = [] @ ''{'' @ join_with '','' ts' @ ''}'' @ []"
    unfolding eq [symmetric] by simp
  with ts' show ?thesis
    unfolding json_object_def using json_space_simps(1) by blast
qed

lemma section_is_json:
  "\<exists>v. json_object (section_members js wr recs) v \<and> section_text js wr name recs = ''  '' @ quoted name @ '': '' @ v"
proof -
  let ?items = "map (\<lambda>p. ''    '' @ js_str js (as_str (fst p)) @ '': '' @ wr (snd p)) recs @ [''    '' @ quoted ''_end'' @ '': true'']"
  have items: "list_all2 json_member (section_members js wr recs) ?items"
    unfolding section_members_def
  proof (rule list_all2_appendI)
    show "list_all2 json_member (map (\<lambda>(u, v). (js_str js (as_str u), \<lambda>t. t = wr v)) recs)
      (map (\<lambda>p. ''    '' @ js_str js (as_str (fst p)) @ '': '' @ wr (snd p)) recs)"
      by (auto simp: list_all2_map1 list_all2_map2 intro!: list_all2_refl json_memberI [of "''    ''" "[]"])
  qed (auto intro!: json_memberI [of "''    ''" "[]"])
  have "join_with ('','' @ [newline, newline]) ?items
      = concat (map (section_line js wr) recs) @ ''    '' @ quoted ''_end'' @ '': true''"
    by (induction recs) (simp_all add: join_with_Cons section_line_def)
  with json_object_join [OF items, of "[newline, newline]" "[newline, newline] @ ''  ''" "[newline, newline]"]
  show ?thesis
    by (intro exI conjI) (assumption | simp add: section_text_def)+
qed

lemma member_line: "json_member (k, \<lambda>t. t = v) (''  '' @ k @ '': '' @ v)"
  by (rule json_memberI [of "''  ''" "[]"]) auto

lemma member_section: "json_member (quoted name, json_object (section_members js wr recs)) (section_text js wr name recs)"
  using section_is_json [of js wr recs name] by (auto intro: json_memberI [of "''  ''" "[]"])

lemma member_optional:
  "list_all2 json_member (optional_member js wr name recs) (optional_section js wr name recs)"
  by (simp add: optional_member_def optional_section_def member_section)

lemma top_lines_are_members: "list_all2 json_member (file_members js f) (top_lines js f)"
  unfolding file_members_def top_lines_def
  by (intro list_all2_appendI)
    (auto simp: member_section member_line [simplified] member_line [of "quoted ''format''" "''1''", simplified]
      intro!: list_all2_appendI member_optional split: option.split tree_body.split)

lemma sample_single_line: "single_line sample_json"
  by (auto simp: single_line_def sample_json_def js_plain_def quoted_def quote_def newline_def)

lemma uid_wf_code: "uid_wf u \<longleftrightarrow> is_ok (uid_from_str (as_str u))"
  by (cases u) (auto simp: is_ok_iff uid_from_str_ok)

lemma sample_wf: "uid_wf (Uid ''c_000001'')" "uid_wf (Uid ''c_000002'')"
  unfolding uid_wf_code by code_simp+

lemma keyed_visited_ok: "keyed path name (visited (written recs)) kind True = Inr recs \<Longrightarrow> section_ok kind recs"
  using section_accepted [of "written recs" path name kind True recs]
  by (cases "visit_map (written recs)") (auto simp: visited_def keyed_def [of _ _ None])

lemma keyed_optional_ok: "keyed path name (optional_visited recs) kind False = Inr recs \<Longrightarrow> section_ok kind recs"
proof (cases "recs = []")
  case False
  assume "keyed path name (optional_visited recs) kind False = Inr recs"
  with False section_accepted [of "written recs" path name kind False recs] show ?thesis
    by (cases "visit_map (written recs)") (auto simp: optional_visited_def visited_def keyed_def [of _ _ None])
qed (simp add: section_ok_def)

lemma raw_body_sections:
  assumes "raw_body path (raw_of f) = Inr (tf_body f)"
  shows "sections_ok f"
proof (cases "tf_body f")
  case (BodyTable t)
  with assms show ?thesis
    by (cases t) (auto simp: sections_ok_def raw_body_def raw_of_def table_part_def result_simps
      intro: keyed_visited_ok keyed_optional_ok)
qed (simp_all add: sections_ok_def)

section \<open>Properties\<close>

text \<open>
  C36. The bytes \<open>render\<close> writes are a JSON object, whatever the texts \<open>serde_json\<close> gives for
  the single values: the constant line, the format, the uid, the name under the key of its
  kind, the tombstone of a dropped object, then the sections of a table, each an object with
  one member per record in order and the \<open>_end\<close> member last; \<open>columns\<close> is always there, the
  other sections only when they have records. And when those texts hold no line feed, no line
  of the file is one the reader takes for a conflict marker.
\<close>

theorem render_writes_json_without_conflict_markers:
  "(\<exists>t. json_object (file_members js f) t \<and> render js f = t @ [newline])
   \<and> (single_line js \<longrightarrow> \<not> list_ex conflict_line (str_lines (render js f)))"
proof -
  have "top_lines js f \<noteq> []" by (simp add: top_lines_def)
  from json_object_join [OF top_lines_are_members this, of "[newline]" "[newline]" "[newline]"]
  have "\<exists>t. json_object (file_members js f) t \<and> render js f = t @ [newline]"
    by (intro exI conjI) (assumption | simp add: render_def)+
  then show ?thesis using render_no_conflict by blast
qed

theorem render_writes_json_without_conflict_markers_witness:
  "\<not> list_ex conflict_line (str_lines (render sample_json sample_file))"
  using render_writes_json_without_conflict_markers [of sample_json sample_file] sample_single_line by blast

text \<open>
  A section is accepted exactly when it is what the writer writes: uid-keyed records, all
  of the right kind, well-formed and pairwise different, then the \<open>_end\<close> member, once and
  last. A section that lost its end, had records added after it, was joined with another or
  repeats a uid is refused.
\<close>

theorem section_reader_accepts_exactly_what_is_written:
  "(\<exists>s. visit_map kvs = Inr s \<and> keyed path name (Some s) kind required = Inr recs)
   \<longleftrightarrow> kvs = map (\<lambda>(u, v). (as_str u, Value v)) recs @ [(''_end'', Flag True)]
     \<and> distinct (map fst recs) \<and> (\<forall>p. p \<in> set recs \<longrightarrow> uid_wf (fst p) \<and> uid_kind_of (fst p) = kind)"
  unfolding section_accepted by (auto simp: written_def section_ok_def end_key_def)

theorem section_reader_accepts_exactly_what_is_written_witness:
  "\<not> (\<exists>s. visit_map [(''_end'', Flag True), (''c_000001'', Value (1 :: int))] = Inr s
       \<and> keyed ''p'' ''columns'' (Some s) ColumnUid True = Inr [(Uid ''c_000001'', 1)])
   \<and> (\<exists>s. visit_map [(''c_000001'', Value (1 :: int)), (''_end'', Flag True)] = Inr s
       \<and> keyed ''p'' ''columns'' (Some s) ColumnUid True = Inr [(Uid ''c_000001'', 1)])"
proof -
  show ?thesis
    unfolding section_reader_accepts_exactly_what_is_written
    using sample_wf by (simp add: uid_kind_of_def starts_with_def)
qed



end
