(* ===== verification/Tree_Assemble.thy ===== *)
theory Tree_Assemble
  imports Tree_Text
begin

text \<open>
  What \<open>assemble\<close> makes of a set of files: as long as no uid is claimed twice, the mapping that
  holds exactly what the files hold, whatever the order of the files.
\<close>

section \<open>What a file contributes\<close>

definition bputs :: "('k::linorder \<times> 'v) list \<Rightarrow> ('k, 'v) btree \<Rightarrow> ('k, 'v) btree" where
  "bputs ps m = foldl (\<lambda>m (k, v). bput k v m) m ps"

definition live_recs :: "(uid \<times> ids_rec) list \<Rightarrow> (uid \<times> string) list" where
  "live_recs recs = List.map_filter (\<lambda>(u, r). case r of Live n \<Rightarrow> Some (u, n) | Dead _ \<Rightarrow> None) recs"

definition dead_recs :: "(uid \<times> ids_rec) list \<Rightarrow> (uid \<times> tombstone) list" where
  "dead_recs recs = List.map_filter (\<lambda>(u, r). case r of Live _ \<Rightarrow> None | Dead t \<Rightarrow> Some (u, t)) recs"

definition the_table :: "string \<Rightarrow> table_name" where
  "the_table s = (case table_from_str s of Inl _ \<Rightarrow> TableName [] [] | Inr n \<Rightarrow> n)"

definition the_type :: "string \<Rightarrow> type_ref" where
  "the_type s = (case type_from_str s of Inl _ \<Rightarrow> TypeRef [] [] | Inr n \<Rightarrow> n)"

definition from_table :: "tree_file \<Rightarrow> (table_body \<Rightarrow> 'a list) \<Rightarrow> 'a list" where
  "from_table f g = (case tf_body f of BodyTable t \<Rightarrow> g t | _ \<Rightarrow> [])"

definition if_live :: "tree_file \<Rightarrow> 'a list \<Rightarrow> 'a list" where
  "if_live f xs = (if tf_dropped f = None then xs else [])"

definition file_tables :: "tree_file \<Rightarrow> (uid \<times> table_name) list" where
  "file_tables f = from_table f (\<lambda>t.
     if_live f [(tf_uid f, the_table (bd_table t))] @ map (\<lambda>(u, n). (u, the_table n)) (live_recs (bd_partitions t)))"

definition file_columns :: "tree_file \<Rightarrow> (uid \<times> column_ref) list" where
  "file_columns f = from_table f (\<lambda>t. map (\<lambda>(u, n). (u, ColumnRef (the_table (bd_table t)) n)) (live_recs (bd_columns t)))"

definition file_roles :: "tree_file \<Rightarrow> (uid \<times> role_name) list" where
  "file_roles f = if_live f (case tf_body f of BodyRole n \<Rightarrow> [(tf_uid f, n)] | _ \<Rightarrow> [])"

definition file_types :: "tree_file \<Rightarrow> (uid \<times> type_ref) list" where
  "file_types f = if_live f (case tf_body f of BodyType n \<Rightarrow> [(tf_uid f, the_type n)] | _ \<Rightarrow> [])"

definition file_extensions :: "tree_file \<Rightarrow> (uid \<times> object_local_name) list" where
  "file_extensions f = if_live f (case tf_body f of BodyExtension n \<Rightarrow> [(tf_uid f, n)] | _ \<Rightarrow> [])"

definition file_tombstones :: "tree_file \<Rightarrow> (uid \<times> tombstone) list" where
  "file_tombstones f = from_table f (\<lambda>t. dead_recs (bd_columns t) @ dead_recs (bd_partitions t))
     @ (case tf_dropped f of None \<Rightarrow> [] | Some t \<Rightarrow> [(tf_uid f, t)])"

definition file_claims :: "tree_file \<Rightarrow> (string \<times> uid) list" where
  "file_claims f = (''identity'', tf_uid f) # from_table f (\<lambda>t.
     map (\<lambda>p. (''identity'', fst p)) (bd_columns t) @ map (\<lambda>p. (''identity'', fst p)) (bd_partitions t)
     @ map (\<lambda>p. (''moves'', fst p)) (bd_moves t) @ map (\<lambda>p. (''conversions'', fst p)) (bd_conversions t)
     @ map (\<lambda>p. (''rebuilds'', fst p)) (bd_rebuilds t))"

definition add_file :: "tree_file \<Rightarrow> ids_file \<Rightarrow> ids_file" where
  "add_file f ids = ids\<lparr>
     ids_tables := bputs (file_tables f) (ids_tables ids),
     ids_columns := bputs (file_columns f) (ids_columns ids),
     ids_roles := bputs (file_roles f) (ids_roles ids),
     ids_types := bputs (file_types f) (ids_types ids),
     ids_extensions := bputs (file_extensions f) (ids_extensions ids),
     ids_tombstones := bputs (file_tombstones f) (ids_tombstones ids),
     ids_moves := bputs (from_table f bd_moves) (ids_moves ids),
     ids_rebuilds := bputs (from_table f bd_rebuilds) (ids_rebuilds ids),
     ids_conversions := bputs (from_table f bd_conversions) (ids_conversions ids)\<rparr>"

text \<open>The names a checked file holds are readable.\<close>

definition file_names_ok :: "tree_file \<Rightarrow> bool" where
  "file_names_ok f \<longleftrightarrow>
     (case tf_body f of
        BodyTable t \<Rightarrow>
          (tf_dropped f = None \<longrightarrow> is_ok (table_from_str (bd_table t)))
          \<and> (tf_dropped f \<noteq> None \<longrightarrow> live_recs (bd_columns t) = [])
          \<and> (\<forall>p \<in> set (live_recs (bd_partitions t)). is_ok (table_from_str (snd p)))
      | BodyType n \<Rightarrow> tf_dropped f = None \<longrightarrow> is_ok (type_from_str n)
      | _ \<Rightarrow> True)"

section \<open>Loops\<close>

lemma bputs_simps [simp]: "bputs [] m = m" "bputs ((k, v) # ps) m = bputs ps (bput k v m)"
  by (simp_all add: bputs_def)

lemma bputs_append: "bputs (ps @ qs) m = bputs qs (bputs ps m)"
  by (simp add: bputs_def)

lemma bget_bputs: "bget (bputs ps m) = bget m ++ map_of (rev ps)"
  using bt.get_collect [of ps m] by (simp add: bputs_def bt.collect_def)

lemma bputs_entries:
  assumes "set ps = set (entries m)"
  shows "bputs ps bempty = m"
proof (rule btree_eqI, rule ext)
  fix k
  show "bget (bputs ps bempty) k = bget m k"
  proof (cases "map_of (rev ps) k")
    case None
    then have "k \<notin> fst ` set (entries m)" by (simp add: map_of_eq_None_iff assms)
    then have "bget m k = None" by (metis bget_entries map_of_eq_None_iff)
    with None show ?thesis by (simp add: bget_bputs map_add_def)
  next
    case (Some v)
    then have "(k, v) \<in> set (entries m)" using map_of_SomeD [OF Some] assms by simp
    with Some show ?thesis by (simp add: bget_bputs map_add_def entries_bget)
  qed
qed

lemma live_recs_Cons [simp]:
  "live_recs [] = []" "live_recs ((u, Live n) # rs) = (u, n) # live_recs rs" "live_recs ((u, Dead t) # rs) = live_recs rs"
  by (simp_all add: live_recs_def map_filter_def)

lemma dead_recs_Cons [simp]:
  "dead_recs [] = []" "dead_recs ((u, Live n) # rs) = dead_recs rs" "dead_recs ((u, Dead t) # rs) = (u, t) # dead_recs rs"
  by (simp_all add: dead_recs_def map_filter_def)

lemma set_live_recs: "(u, n) \<in> set (live_recs rs) \<longleftrightarrow> (u, Live n) \<in> set rs"
proof (induction rs)
  case (Cons p rs)
  then show ?case by (cases p; cases "snd p") auto
qed simp

lemma set_dead_recs: "(u, t) \<in> set (dead_recs rs) \<longleftrightarrow> (u, Dead t) \<in> set rs"
proof (induction rs)
  case (Cons p rs)
  then show ?case by (cases p; cases "snd p") auto
qed simp

definition claimed :: "claims \<Rightarrow> (string \<times> uid) set" where
  "claimed seen = dom (bget seen)"

lemma claimed_simps [simp]: "claimed bempty = {}"
  by (auto simp: claimed_def)

lemma claim_ok: "(sec, u) \<notin> claimed seen \<Longrightarrow>
   \<exists>seen'. claim path sec u seen = Inr seen' \<and> claimed seen' = insert (sec, u) (claimed seen)"
  by (auto simp: claim_def claimed_def bget_bput domIff split: option.splits)

lemma claim_each_ok:
  assumes "distinct (map fst recs)" "\<forall>p \<in> set recs. (sec, fst p) \<notin> claimed seen"
    and "\<And>u v ids. (u, v) \<in> set recs \<Longrightarrow> store u v ids = Inr (st u v ids)"
  shows "\<exists>seen'. claim_each path sec store recs (ids, seen) = Inr (foldl (\<lambda>ids (u, v). st u v ids) ids recs, seen')
    \<and> claimed seen' = claimed seen \<union> (\<lambda>p. (sec, fst p)) ` set recs"
  using assms
proof (induction recs arbitrary: ids seen)
  case Nil
  then show ?case by (simp add: claim_each_def)
next
  case (Cons p recs)
  obtain u v where p: "p = (u, v)" by (cases p)
  from Cons.prems obtain seen1 where seen1: "claim path sec u seen = Inr seen1" "claimed seen1 = insert (sec, u) (claimed seen)"
    using claim_ok [of sec u seen path] by (auto simp: p)
  have "\<exists>seen'. claim_each path sec store recs (st u v ids, seen1)
      = Inr (foldl (\<lambda>ids (u, v). st u v ids) (st u v ids) recs, seen')
      \<and> claimed seen' = claimed seen1 \<union> (\<lambda>p. (sec, fst p)) ` set recs"
    using Cons.prems by (intro Cons.IH) (auto simp: seen1 p image_iff)
  moreover have "store u v ids = Inr (st u v ids)" using Cons.prems by (simp add: p)
  ultimately show ?case
    by (auto simp: p claim_each_def seen1)
qed

lemma foldl_columns:
  "foldl (\<lambda>ids (u, r). case r of Live n \<Rightarrow> ids\<lparr>ids_columns := bput u (ColumnRef table n) (ids_columns ids)\<rparr>
                             | Dead t \<Rightarrow> put_tombstone u t ids) ids recs
   = ids\<lparr>ids_columns := bputs (map (\<lambda>(u, n). (u, ColumnRef table n)) (live_recs recs)) (ids_columns ids),
         ids_tombstones := bputs (dead_recs recs) (ids_tombstones ids)\<rparr>"
proof (induction recs arbitrary: ids)
  case (Cons p recs)
  then show ?case by (cases p; cases "snd p") (simp_all add: put_tombstone_def)
qed simp

lemma foldl_partitions:
  "foldl (\<lambda>ids (u, r). case r of Live n \<Rightarrow> put_table u (the_table n) ids | Dead t \<Rightarrow> put_tombstone u t ids) ids recs
   = ids\<lparr>ids_tables := bputs (map (\<lambda>(u, n). (u, the_table n)) (live_recs recs)) (ids_tables ids),
         ids_tombstones := bputs (dead_recs recs) (ids_tombstones ids)\<rparr>"
proof (induction recs arbitrary: ids)
  case (Cons p recs)
  then show ?case by (cases p; cases "snd p") (simp_all add: put_tombstone_def put_table_def)
qed simp

lemma foldl_intent:
  "foldl (\<lambda>ids (u, v). ids\<lparr>ids_moves := bput u v (ids_moves ids)\<rparr>) ids ms
     = ids\<lparr>ids_moves := bputs ms (ids_moves ids)\<rparr>"
  "foldl (\<lambda>ids (u, v). ids\<lparr>ids_conversions := bput u v (ids_conversions ids)\<rparr>) ids cs
     = ids\<lparr>ids_conversions := bputs cs (ids_conversions ids)\<rparr>"
  "foldl (\<lambda>ids (u, v). ids\<lparr>ids_rebuilds := bput u v (ids_rebuilds ids)\<rparr>) ids rs
     = ids\<lparr>ids_rebuilds := bputs rs (ids_rebuilds ids)\<rparr>"
  by (induction ms arbitrary: ids, auto) (induction cs arbitrary: ids, auto, induction rs arbitrary: ids, auto)

lemma read_table_name_ok: "is_ok (table_from_str n) \<Longrightarrow> read_table_name path n = Inr (the_table n)"
  by (auto simp: read_table_name_def the_table_def map_err_def is_ok_iff)

lemma distinct_fst_tagged: "distinct (map (\<lambda>p. (sec, fst p)) ps) \<longleftrightarrow> distinct (map fst ps)"
  by (simp add: distinct_map inj_on_def)

lemma file_claims_table:
  assumes "tf_body f = BodyTable t" "distinct (file_claims f)"
  shows "distinct (map fst (bd_columns t))" "distinct (map fst (bd_partitions t))" "distinct (map fst (bd_moves t))"
    "distinct (map fst (bd_conversions t))" "distinct (map fst (bd_rebuilds t))"
    "fst ` set (bd_columns t) \<inter> fst ` set (bd_partitions t) = {}"
  using assms by (auto simp: file_claims_def from_table_def distinct_fst_tagged)

lemma store_column_ok: "store_column table u r ids
    = Inr (case r of Live n \<Rightarrow> ids\<lparr>ids_columns := bput u (ColumnRef table n) (ids_columns ids)\<rparr> | Dead t \<Rightarrow> put_tombstone u t ids)"
  by (cases r) (simp_all add: store_column_def)

lemma store_partition_ok:
  assumes "\<forall>p \<in> set (live_recs recs). is_ok (table_from_str (snd p))" "(u, r) \<in> set recs"
  shows "store_partition path u r ids
    = Inr (case r of Live n \<Rightarrow> put_table u (the_table n) ids | Dead t \<Rightarrow> put_tombstone u t ids)"
proof (cases r)
  case (Live n)
  with assms have "is_ok (table_from_str n)" using set_live_recs [of u n recs] by fastforce
  with Live show ?thesis by (simp add: store_partition_def read_table_name_ok)
qed (simp add: store_partition_def)

definition tagged :: "string \<Rightarrow> (uid \<times> 'v) list \<Rightarrow> (string \<times> uid) set" where
  "tagged sec recs = (\<lambda>p. (sec, fst p)) ` set recs"

text \<open>A step of the reader that ends with the mapping \<open>ids\<close> and the claims \<open>C\<close>.\<close>

definition claims_to :: "(tree_error, ids_file \<times> claims) result \<Rightarrow> ids_file \<Rightarrow> (string \<times> uid) set \<Rightarrow> bool" where
  "claims_to r ids C \<longleftrightarrow> (\<exists>seen. r = Inr (ids, seen) \<and> claimed seen = C)"

lemma claims_to_then:
  "claims_to r ids C \<Longrightarrow> (\<And>seen. claimed seen = C \<Longrightarrow> claims_to (g (ids, seen)) ids' C') \<Longrightarrow>
   claims_to (and_then r g) ids' C'"
  by (auto simp: claims_to_def)

lemma claims_to_eq: "claims_to r ids C \<Longrightarrow> ids = ids' \<Longrightarrow> C = C' \<Longrightarrow> claims_to r ids' C'"
  by simp

lemma claims_to_each:
  assumes "distinct (map fst recs)" "tagged sec recs \<inter> claimed seen = {}"
    and "\<And>u v ids. (u, v) \<in> set recs \<Longrightarrow> store u v ids = Inr (st u v ids)"
  shows "claims_to (claim_each path sec store recs (ids, seen)) (foldl (\<lambda>ids (u, v). st u v ids) ids recs)
    (claimed seen \<union> tagged sec recs)"
proof -
  have "\<forall>p \<in> set recs. (sec, fst p) \<notin> claimed seen" using assms(2) by (auto simp: tagged_def)
  from claim_each_ok [where store = store and st = st, OF assms(1) this assms(3)] show ?thesis
    by (simp add: claims_to_def tagged_def)
qed

lemma columns_run:
  assumes "distinct (map fst recs)" "tagged sec recs \<inter> claimed seen = {}"
  shows "claims_to (claim_each path sec (store_column table) recs (ids, seen))
    (ids\<lparr>ids_columns := bputs (map (\<lambda>(u, n). (u, ColumnRef table n)) (live_recs recs)) (ids_columns ids),
         ids_tombstones := bputs (dead_recs recs) (ids_tombstones ids)\<rparr>) (claimed seen \<union> tagged sec recs)"
  by (rule claims_to_eq [OF claims_to_each [OF assms store_column_ok] foldl_columns refl])

lemma partitions_run:
  assumes "distinct (map fst recs)" "tagged sec recs \<inter> claimed seen = {}"
    "\<forall>p \<in> set (live_recs recs). is_ok (table_from_str (snd p))"
  shows "claims_to (claim_each path sec (store_partition path) recs (ids, seen))
    (ids\<lparr>ids_tables := bputs (map (\<lambda>(u, n). (u, the_table n)) (live_recs recs)) (ids_tables ids),
         ids_tombstones := bputs (dead_recs recs) (ids_tombstones ids)\<rparr>) (claimed seen \<union> tagged sec recs)"
  by (rule claims_to_eq [OF claims_to_each [OF assms(1,2) store_partition_ok [OF assms(3)]] foldl_partitions refl])

lemma moves_run:
  assumes "distinct (map fst recs)" "tagged sec recs \<inter> claimed seen = {}"
  shows "claims_to (claim_each path sec (\<lambda>u v ids. Inr (ids\<lparr>ids_moves := bput u v (ids_moves ids)\<rparr>)) recs (ids, seen))
    (ids\<lparr>ids_moves := bputs recs (ids_moves ids)\<rparr>) (claimed seen \<union> tagged sec recs)"
  by (rule claims_to_eq [OF claims_to_each [OF assms refl] foldl_intent(1) refl])

lemma conversions_run:
  assumes "distinct (map fst recs)" "tagged sec recs \<inter> claimed seen = {}"
  shows "claims_to (claim_each path sec (\<lambda>u v ids. Inr (ids\<lparr>ids_conversions := bput u v (ids_conversions ids)\<rparr>)) recs (ids, seen))
    (ids\<lparr>ids_conversions := bputs recs (ids_conversions ids)\<rparr>) (claimed seen \<union> tagged sec recs)"
  by (rule claims_to_eq [OF claims_to_each [OF assms refl] foldl_intent(2) refl])

lemma rebuilds_run:
  assumes "distinct (map fst recs)" "tagged sec recs \<inter> claimed seen = {}"
  shows "claims_to (claim_each path sec (\<lambda>u v ids. Inr (ids\<lparr>ids_rebuilds := bput u v (ids_rebuilds ids)\<rparr>)) recs (ids, seen))
    (ids\<lparr>ids_rebuilds := bputs recs (ids_rebuilds ids)\<rparr>) (claimed seen \<union> tagged sec recs)"
  by (rule claims_to_eq [OF claims_to_each [OF assms refl] foldl_intent(3) refl])

lemma file_claims_tagged:
  assumes "tf_body f = BodyTable t"
  shows "set (tl (file_claims f)) = tagged ''identity'' (bd_columns t) \<union> tagged ''identity'' (bd_partitions t)
    \<union> tagged ''moves'' (bd_moves t) \<union> tagged ''conversions'' (bd_conversions t) \<union> tagged ''rebuilds'' (bd_rebuilds t)"
  by (auto simp: file_claims_def from_table_def assms tagged_def)

lemma tagged_disjoint [simp]: "sec \<noteq> sec' \<Longrightarrow> tagged sec recs \<inter> tagged sec' recs' = {}"
  by (auto simp: tagged_def)

lemma tagged_disjoint_same: "fst ` set recs \<inter> fst ` set recs' = {} \<Longrightarrow> tagged sec recs \<inter> tagged sec recs' = {}"
  by (auto simp: tagged_def)

text \<open>The state after the sections of a table file.\<close>

lemma assemble_table_ok:
  assumes body: "tf_body f = BodyTable t" and ok: "file_names_ok f"
    and d: "distinct (file_claims f)" and fresh: "set (tl (file_claims f)) \<inter> claimed seen = {}"
  shows "claims_to (assemble_table path f t (ids, seen))
      (ids\<lparr>ids_tables := bputs (file_tables f) (ids_tables ids),
           ids_columns := bputs (file_columns f) (ids_columns ids),
           ids_tombstones := bputs (dead_recs (bd_columns t) @ dead_recs (bd_partitions t)) (ids_tombstones ids),
           ids_moves := bputs (bd_moves t) (ids_moves ids),
           ids_rebuilds := bputs (bd_rebuilds t) (ids_rebuilds ids),
           ids_conversions := bputs (bd_conversions t) (ids_conversions ids)\<rparr>)
    (claimed seen \<union> set (tl (file_claims f)))"
proof -
  note dist = file_claims_table [OF body d]
  note fresh' = fresh [unfolded file_claims_tagged [OF body]]
  note apart = tagged_disjoint_same [OF dist(6), of "''identity''"]
  have names: "\<forall>p \<in> set (live_recs (bd_partitions t)). is_ok (table_from_str (snd p))"
    using ok by (simp add: file_names_ok_def body)
  define table where "table = (if tf_dropped f = None then the_table (bd_table t) else TableName [] [])"
  have name: "(if tf_dropped f = None then read_table_name path (bd_table t) else Inr (TableName [] [])) = Inr table"
    using ok by (auto simp: table_def file_names_ok_def body read_table_name_ok)
  have columns: "map (\<lambda>(u, n). (u, ColumnRef table n)) (live_recs (bd_columns t)) = file_columns f"
    using ok by (auto simp: file_columns_def from_table_def body table_def file_names_ok_def)
  define ids1 where "ids1 = (if tf_dropped f = None then put_table (tf_uid f) table ids else ids)"
  have tables: "bputs (map (\<lambda>(u, n). (u, the_table n)) (live_recs (bd_partitions t))) (ids_tables ids1)
      = bputs (file_tables f) (ids_tables ids)"
    by (simp add: file_tables_def from_table_def body ids1_def put_table_def table_def if_live_def)
  show ?thesis
    unfolding assemble_table_def name and_then_simps fst_conv snd_conv ids1_def [symmetric]
    apply (rule claims_to_then, rule columns_run, rule dist(1))
     apply (use fresh' in blast)
    apply (rule claims_to_then, rule partitions_run, rule dist(2))
      apply (use fresh' apart in blast)
     apply (rule names)
    apply (rule claims_to_then, rule moves_run, rule dist(3))
     apply (use fresh' in \<open>auto simp: tagged_def\<close>) [1]
    apply (rule claims_to_then, rule conversions_run, rule dist(4))
     apply (use fresh' in \<open>auto simp: tagged_def\<close>) [1]
    apply (rule claims_to_eq, rule rebuilds_run, rule dist(5))
      apply (use fresh' in \<open>auto simp: tagged_def\<close>) [1]
     apply (simp add: tables columns bputs_append, simp add: ids1_def put_table_def)
    apply (auto simp: file_claims_tagged [OF body])
    done
qed

lemma assemble_file_ok:
  assumes ok: "file_names_ok f" and d: "distinct (file_claims f)" and fresh: "set (file_claims f) \<inter> claimed seen = {}"
  shows "claims_to (assemble_file path f (ids, seen)) (add_file f ids) (claimed seen \<union> set (file_claims f))"
proof -
  obtain rest where rest: "file_claims f = (''identity'', tf_uid f) # rest" by (simp add: file_claims_def)
  then have tl: "tl (file_claims f) = rest" by simp
  have "(''identity'', tf_uid f) \<notin> claimed seen" using fresh by (simp add: rest)
  then obtain s1 where s1: "claim path ''identity'' (tf_uid f) seen = Inr s1" "claimed s1 = insert (''identity'', tf_uid f) (claimed seen)"
    using claim_ok by blast
  have fresh1: "set (tl (file_claims f)) \<inter> claimed s1 = {}"
    using fresh d by (simp add: rest s1(2))
  show ?thesis
  proof (cases "tf_body f")
    case (BodyTable t)
    from assemble_table_ok [OF BodyTable ok d fresh1, of path ids] obtain s2 where
      "assemble_table path f t (ids, s1) = Inr (ids\<lparr>ids_tables := bputs (file_tables f) (ids_tables ids),
           ids_columns := bputs (file_columns f) (ids_columns ids),
           ids_tombstones := bputs (dead_recs (bd_columns t) @ dead_recs (bd_partitions t)) (ids_tombstones ids),
           ids_moves := bputs (bd_moves t) (ids_moves ids),
           ids_rebuilds := bputs (bd_rebuilds t) (ids_rebuilds ids),
           ids_conversions := bputs (bd_conversions t) (ids_conversions ids)\<rparr>, s2)"
      "claimed s2 = claimed s1 \<union> set (tl (file_claims f))" unfolding claims_to_def by blast
    moreover have "claimed s1 \<union> set (tl (file_claims f)) = claimed seen \<union> set (file_claims f)"
      by (simp add: rest s1(2))
    ultimately show ?thesis
      by (auto simp: claims_to_def assemble_file_def s1(1) assemble_body_def BodyTable add_file_def
        file_tombstones_def from_table_def bputs_append put_tombstone_def
        file_roles_def file_types_def file_extensions_def if_live_def split: option.splits)
  next
    case (BodyType n)
    have "tf_dropped f = None \<Longrightarrow> type_from_str n = Inr (the_type n)"
      using ok by (auto simp: file_names_ok_def BodyType is_ok_iff the_type_def)
    then show ?thesis
      by (auto simp: claims_to_def assemble_file_def s1 assemble_body_def BodyType add_file_def file_claims_def
        file_tombstones_def from_table_def put_tombstone_def file_tables_def file_columns_def
        file_roles_def file_types_def file_extensions_def if_live_def map_err_def split: option.splits)
  qed (auto simp: claims_to_def assemble_file_def s1 assemble_body_def add_file_def file_claims_def
        file_tombstones_def from_table_def put_tombstone_def file_tables_def file_columns_def
        file_roles_def file_types_def file_extensions_def if_live_def split: option.splits)
qed

section \<open>The whole tree\<close>

definition disjoint_claims :: "(string \<times> tree_file) list \<Rightarrow> bool" where
  "disjoint_claims files \<longleftrightarrow>
     (\<forall>(p, f) \<in> set files. distinct (file_claims f))
     \<and> (\<forall>(p, f) \<in> set files. \<forall>(q, g) \<in> set files. p \<noteq> q \<longrightarrow> set (file_claims f) \<inter> set (file_claims g) = {})"

lemma disjoint_claims_mono: "disjoint_claims files \<Longrightarrow> set files' \<subseteq> set files \<Longrightarrow> disjoint_claims files'"
  unfolding disjoint_claims_def by blast

definition add_files :: "(string \<times> tree_file) list \<Rightarrow> ids_file \<Rightarrow> ids_file" where
  "add_files files ids = foldl (\<lambda>ids (_, f). add_file f ids) ids files"

lemma assemble_files_ok:
  assumes "distinct (map fst files)" "disjoint_claims files" "\<forall>(p, f) \<in> set files. file_names_ok f"
    and "\<forall>(p, f) \<in> set files. set (file_claims f) \<inter> claimed seen = {}"
  shows "\<exists>C. claims_to (try_fold (\<lambda>st (path, f). assemble_file path f st) (ids, seen) files) (add_files files ids) C"
  using assms
proof (induction files arbitrary: ids seen)
  case Nil
  then show ?case by (simp add: claims_to_def add_files_def)
next
  case (Cons pf files)
  obtain p f where pf: "pf = (p, f)" by (cases pf)
  have d: "disjoint_claims files" "distinct (file_claims f)"
    using disjoint_claims_mono [OF Cons.prems(2), of files] Cons.prems(2) by (auto simp: disjoint_claims_def [of "_ # _"] pf)
  have apart: "\<forall>(q, g) \<in> set files. set (file_claims f) \<inter> set (file_claims g) = {}"
  proof (clarify)
    fix q g assume g: "(q, g) \<in> set files"
    then have "p \<noteq> q" using Cons.prems(1) by (force simp: pf)
    with g Cons.prems(2) show "set (file_claims f) \<inter> set (file_claims g) = {}"
      by (simp add: disjoint_claims_def pf) blast
  qed
  have "claims_to (assemble_file p f (ids, seen)) (add_file f ids) (claimed seen \<union> set (file_claims f))"
    using Cons.prems by (intro assemble_file_ok d) (auto simp: pf)
  then obtain s1 where s1: "assemble_file p f (ids, seen) = Inr (add_file f ids, s1)"
    "claimed s1 = claimed seen \<union> set (file_claims f)" unfolding claims_to_def by blast
  have "\<forall>(q, g) \<in> set files. set (file_claims g) \<inter> claimed s1 = {}"
    using Cons.prems(4) apart by (auto simp: s1(2) Int_Un_distrib Int_commute)
  with Cons.IH [OF _ d(1), of s1 "add_file f ids"] Cons.prems show ?case
    by (simp add: pf s1(1) add_files_def)
qed

lemma add_files_fields:
  "ids_tables (add_files files ids) = bputs (concat (map (file_tables \<circ> snd) files)) (ids_tables ids)"
  "ids_columns (add_files files ids) = bputs (concat (map (file_columns \<circ> snd) files)) (ids_columns ids)"
  "ids_roles (add_files files ids) = bputs (concat (map (file_roles \<circ> snd) files)) (ids_roles ids)"
  "ids_types (add_files files ids) = bputs (concat (map (file_types \<circ> snd) files)) (ids_types ids)"
  "ids_extensions (add_files files ids) = bputs (concat (map (file_extensions \<circ> snd) files)) (ids_extensions ids)"
  "ids_tombstones (add_files files ids) = bputs (concat (map (file_tombstones \<circ> snd) files)) (ids_tombstones ids)"
  "ids_moves (add_files files ids) = bputs (concat (map (\<lambda>p. from_table (snd p) bd_moves) files)) (ids_moves ids)"
  "ids_rebuilds (add_files files ids) = bputs (concat (map (\<lambda>p. from_table (snd p) bd_rebuilds) files)) (ids_rebuilds ids)"
  "ids_conversions (add_files files ids) = bputs (concat (map (\<lambda>p. from_table (snd p) bd_conversions) files)) (ids_conversions ids)"
  "ids_version (add_files files ids) = ids_version ids"
  unfolding add_files_def
  by (induction files arbitrary: ids) (simp_all add: bputs_append add_file_def split: prod.splits)

text \<open>The files hold the mapping \<open>ids\<close>: together they contribute its entries and nothing else.\<close>

definition files_hold :: "(string \<times> tree_file) list \<Rightarrow> ids_file \<Rightarrow> bool" where
  "files_hold files ids \<longleftrightarrow>
     (\<Union>(_, f) \<in> set files. set (file_tables f)) = set (entries (ids_tables ids))
     \<and> (\<Union>(_, f) \<in> set files. set (file_columns f)) = set (entries (ids_columns ids))
     \<and> (\<Union>(_, f) \<in> set files. set (file_roles f)) = set (entries (ids_roles ids))
     \<and> (\<Union>(_, f) \<in> set files. set (file_types f)) = set (entries (ids_types ids))
     \<and> (\<Union>(_, f) \<in> set files. set (file_extensions f)) = set (entries (ids_extensions ids))
     \<and> (\<Union>(_, f) \<in> set files. set (file_tombstones f)) = set (entries (ids_tombstones ids))
     \<and> (\<Union>(_, f) \<in> set files. set (from_table f bd_moves)) = set (entries (ids_moves ids))
     \<and> (\<Union>(_, f) \<in> set files. set (from_table f bd_rebuilds)) = set (entries (ids_rebuilds ids))
     \<and> (\<Union>(_, f) \<in> set files. set (from_table f bd_conversions)) = set (entries (ids_conversions ids))
     \<and> ids_version ids = CURRENT_VERSION"

lemma add_files_hold: "files_hold files ids \<Longrightarrow> add_files files ids_default = ids"
  unfolding files_hold_def
  by (intro ids_file.equality)
    (auto simp: add_files_fields ids_default_def comp_def case_prod_unfold intro!: bputs_entries)

lemma assemble_holds:
  assumes ids: "ids_valid ids" and hold: "files_hold (entries files) ids"
    and claims: "disjoint_claims (entries files)" and names: "\<forall>(p, f) \<in> set (entries files). file_names_ok f"
    and read: "\<forall>(p, f) \<in> set (entries files). parse_tree from_str p (render js f) = Inr f"
  shows "assemble from_str (bmap (render js) files) = Inr ids"
proof -
  have entries: "entries (bmap (render js) files) = map (\<lambda>(p, f). (p, render js f)) (entries files)"
    by (rule bmap.rep_eq)
  have "try_fold (\<lambda>st (path, text). and_then (parse_tree from_str path text) (\<lambda>f. assemble_file path f st)) st
          (map (\<lambda>(p, f). (p, render js f)) fs) = try_fold (\<lambda>st (path, f). assemble_file path f st) st fs"
    if "set fs \<subseteq> set (entries files)" for fs st
    using that
  proof (induction fs arbitrary: st)
    case (Cons pf fs)
    then have "parse_tree from_str (fst pf) (render js (snd pf)) = Inr (snd pf)" using read by (auto simp: case_prod_unfold)
    with Cons show ?case by (simp add: case_prod_unfold)
  qed simp
  then have "try_fold (\<lambda>st (path, text). and_then (parse_tree from_str path text) (\<lambda>f. assemble_file path f st))
          (ids_default, bempty) (entries (bmap (render js) files))
      = try_fold (\<lambda>st (path, f). assemble_file path f st) (ids_default, bempty) (entries files)"
    by (simp add: entries)
  moreover obtain seen where
    "try_fold (\<lambda>st (path, f). assemble_file path f st) (ids_default, bempty) (entries files) = Inr (ids, seen)"
    using assemble_files_ok [OF _ claims names, of bempty ids_default] distinct_bkeys [of files]
    by (auto simp: claims_to_def bkeys_def add_files_hold [OF hold])
  ultimately show ?thesis
    using ids by (simp add: assemble_def validate_ok [symmetric] map_err_def)
qed

end
