(* ===== verification/Tree_Split.thy ===== *)
theory Tree_Split
  imports Tree_Assemble
begin

text \<open>
  What \<open>split\<close> puts in each file: every record of the mapping, once, in the file its owner has.
\<close>

section \<open>Loops\<close>

lemma push_each_ok:
  assumes "push_each home record m xs = Inr m'"
  shows "(\<forall>x \<in> set xs. \<exists>owner. home x = Inr owner)
    \<and> (\<forall>owner. bget_list m' owner = bget_list m owner @ map record (filter (\<lambda>x. home x = Inr owner) xs))"
  using assms unfolding push_each_def
proof (induction xs arbitrary: m)
  case (Cons x xs)
  from Cons.prems obtain owner where "home x = Inr owner" by (auto simp: result_simps)
  with Cons show ?case by (fastforce simp: bget_bpush)
qed simp

lemma push_tomb_ok:
  assumes "try_fold (push_tomb pl ids files) (cs, ps) ts = Inr (cs', ps')"
  shows "(\<forall>p \<in> set ts. \<exists>place. tomb_home pl ids files p = Inr place)
    \<and> (\<forall>owner. bget_list cs' owner = bget_list cs owner
         @ map (\<lambda>(u, t). (u, Dead t)) (filter (\<lambda>p. tomb_home pl ids files p = Inr (InColumns owner)) ts))
    \<and> (\<forall>owner. bget_list ps' owner = bget_list ps owner
         @ map (\<lambda>(u, t). (u, Dead t)) (filter (\<lambda>p. tomb_home pl ids files p = Inr (InPartitions owner)) ts))"
  using assms
proof (induction ts arbitrary: cs ps)
  case (Cons p ts)
  obtain u t where p: "p = (u, t)" by (cases p)
  from Cons.prems obtain place where place: "tomb_home pl ids files p = Inr place" by (auto simp: push_tomb_def result_simps)
  define st1 where "st1 = (case place of
              InColumns owner \<Rightarrow> (bpush owner (u, Dead t) cs, ps)
            | InPartitions parent \<Rightarrow> (cs, bpush parent (u, Dead t) ps)
            | OwnFile \<Rightarrow> (cs, ps))"
  have "push_tomb pl ids files (cs, ps) p = Inr st1"
    using place by (cases place) (simp_all add: push_tomb_def st1_def p)
  with Cons.prems have "try_fold (push_tomb pl ids files) (fst st1, snd st1) ts = Inr (cs', ps')" by simp
  note IH = Cons.IH [OF this]
  show ?case
    using place IH by (cases place) (auto simp: st1_def p bget_bpush)
qed simp

lemma push_children_ok:
  assumes "push_children pl ids files m = Inr m'"
  shows "(\<forall>child parent. bget (pl_children pl) child = Some parent \<longrightarrow> bhas (ids_tables ids) child \<longrightarrow>
           table_file files parent = Inr ())
    \<and> (\<forall>owner. set (bget_list m' owner) = set (bget_list m owner)
         \<union> {(child, Live (table_raw n)) | child n. bget (pl_children pl) child = Some owner \<and> bget (ids_tables ids) child = Some n})
    \<and> (\<forall>owner. map fst (bget_list m' owner) = map fst (bget_list m owner)
         @ map fst (filter (\<lambda>p. snd p = owner \<and> bhas (ids_tables ids) (fst p)) (entries (pl_children pl))))"
proof -
  let ?step = "\<lambda>m (child, parent). case bget (ids_tables ids) child of
         None \<Rightarrow> Inr m
       | Some n \<Rightarrow> and_then (table_file files parent) (\<lambda>_. Inr (bpush parent (child, Live (table_raw n)) m))"
  have "(\<forall>(child, parent) \<in> set cs. bhas (ids_tables ids) child \<longrightarrow> table_file files parent = Inr ())
    \<and> (\<forall>owner. set (bget_list m' owner) = set (bget_list m owner)
         \<union> {(child, Live (table_raw n)) | child n. (child, owner) \<in> set cs \<and> bget (ids_tables ids) child = Some n})
    \<and> (\<forall>owner. map fst (bget_list m' owner) = map fst (bget_list m owner)
         @ map fst (filter (\<lambda>p. snd p = owner \<and> bhas (ids_tables ids) (fst p)) cs))"
    if "try_fold ?step m cs = Inr m'" for cs
    using that
  proof (induction cs arbitrary: m)
    case (Cons cp cs)
    obtain c p where cp: "cp = (c, p)" by (cases cp)
    show ?case
    proof (cases "bget (ids_tables ids) c")
      case None
      with Cons.prems have "try_fold ?step m cs = Inr m'" by (simp add: cp)
      from Cons.IH [OF this] None show ?thesis by (auto simp: cp bhas_def)
    next
      case (Some n)
      with Cons.prems have "table_file files p = Inr ()" "try_fold ?step (bpush p (c, Live (table_raw n)) m) cs = Inr m'"
        by (auto simp: cp result_simps)
      with Cons.IH [OF this(2)] Some show ?thesis by (auto simp: cp bhas_def bget_bpush)
    qed
  qed simp
  from this [OF assms [unfolded push_children_def]] show ?thesis
    by (simp add: entries_bget Ball_def split_paired_All)
qed

section \<open>Files\<close>

text \<open>The object of a uid, as \<open>split\<close> lists it.\<close>

definition object_at :: "ids_file \<Rightarrow> uid \<Rightarrow> tree_body \<Rightarrow> tombstone option \<Rightarrow> bool" where
  "object_at ids u body dropped \<longleftrightarrow>
     dropped = None \<and> (\<exists>n. bget (ids_tables ids) u = Some n \<and> body = BodyTable (new_table_body (table_raw n)))
     \<or> dropped = None \<and> (\<exists>n. bget (ids_roles ids) u = Some n \<and> body = BodyRole n)
     \<or> dropped = None \<and> (\<exists>n. bget (ids_types ids) u = Some n \<and> body = BodyType (type_raw n))
     \<or> dropped = None \<and> (\<exists>n. bget (ids_extensions ids) u = Some n \<and> body = BodyExtension n)
     \<or> (\<exists>t. bget (ids_tombstones ids) u = Some t \<and> tomb_body (u, t) = Some (u, body, dropped))"

lemma tomb_body_uid: "tomb_body (u, t) = Some (v, b, d) \<Longrightarrow> v = u \<and> d = Some t"
  by (auto simp: tomb_body_def split: uid_kind.splits)

lemma tomb_body_kind: "tomb_body (u, t) = Some (v, b, d) \<Longrightarrow> uid_kind_of u = body_kind b"
  by (cases "uid_kind_of u") (auto simp: tomb_body_def)

lemma set_map_filter_iff: "y \<in> set (List.map_filter g xs) \<longleftrightarrow> (\<exists>x \<in> set xs. g x = Some y)"
  by (induction xs) (auto simp: map_filter_simps split: option.splits)

lemma set_map_entries:
  "(u, b, d) \<in> (\<lambda>(u, n). (u, g n, None)) ` set (entries m) \<longleftrightarrow> d = None \<and> (\<exists>n. bget m u = Some n \<and> b = g n)"
  by (force simp: image_iff entries_bget [symmetric])

lemma set_tree_objects: "(u, b, d) \<in> set (tree_objects ids) \<longleftrightarrow> object_at ids u b d"
proof -
  have "(u, b, d) \<in> set (List.map_filter tomb_body (entries (ids_tombstones ids)))
      \<longleftrightarrow> (\<exists>t. bget (ids_tombstones ids) u = Some t \<and> tomb_body (u, t) = Some (u, b, d))"
    unfolding set_map_filter_iff Bex_def split_paired_Ex entries_bget using tomb_body_uid by blast
  then show ?thesis by (simp add: tree_objects_def object_at_def set_map_entries)
qed

lemma object_kind:
  assumes "ids_valid ids" "object_at ids u b d"
  shows "uid_kind_of u = body_kind b"
  using assms
  by (auto simp: object_at_def ids_valid_def base_valid_def kinds_valid_def kinded_def bhas_iff dest: tomb_body_kind)

lemma object_unique:
  assumes "ids_valid ids" "object_at ids u b d" "object_at ids u b' d'"
  shows "b = b' \<and> d = d'"
proof -
  have dead: "\<not> live_uid ids u" if "bget (ids_tombstones ids) u = Some t" for t
    using assms(1) that by (simp add: ids_valid_def base_valid_def tombstones_valid_def)
  have "body_kind b = body_kind b'" using object_kind assms by metis
  with assms(2,3) dead show ?thesis
    unfolding object_at_def live_uid_def bhas_iff by (auto dest: tomb_body_uid)
qed

lemma place_objects_ok:
  assumes valid: "ids_valid ids" and place: "place_objects pl ids = Inr files"
  shows "bget files u = Some f \<longleftrightarrow>
      primary pl u \<and> object_at ids u (tf_body f) (tf_dropped f) \<and> tf_uid f = u"
    and "object_at ids u b d \<Longrightarrow> primary pl u \<or> is_table_body b \<and> bhas (pl_children pl) u"
    and "primary pl u \<Longrightarrow> bhas files u"
proof -
  have fold: "(\<forall>(u, b, d) \<in> set objs. primary pl u \<or> is_table_body b \<and> bhas (pl_children pl) u)
      \<and> (\<forall>u f. bget m' u = Some f \<longrightarrow> bget m u = Some f
            \<or> primary pl u \<and> (u, tf_body f, tf_dropped f) \<in> set objs \<and> tf_uid f = u)
      \<and> (\<forall>u. bhas m' u \<longleftrightarrow> bhas m u \<or> primary pl u \<and> u \<in> fst ` set objs)"
    if "try_fold (place_object pl) m objs = Inr m'" for objs m m'
    using that
  proof (induction objs arbitrary: m)
    case (Cons obj objs)
    obtain u b d where obj: "obj = (u, b, d)" by (cases obj)
    show ?case
    proof (cases "primary pl u")
      case True
      then have "place_object pl m obj = Inr (bput u \<lparr>tf_uid = u, tf_body = b, tf_dropped = d\<rparr> m)"
        by (simp add: obj place_object_def)
      with Cons.prems have "try_fold (place_object pl) (bput u \<lparr>tf_uid = u, tf_body = b, tf_dropped = d\<rparr> m) objs = Inr m'"
        by simp
      note IH = Cons.IH [OF this]
      show ?thesis
      proof (intro conjI)
        show "\<forall>(u, b, d) \<in> set (obj # objs). primary pl u \<or> is_table_body b \<and> bhas (pl_children pl) u"
          using IH True by (simp add: obj)
        show "\<forall>v f. bget m' v = Some f \<longrightarrow> bget m v = Some f
            \<or> primary pl v \<and> (v, tf_body f, tf_dropped f) \<in> set (obj # objs) \<and> tf_uid f = v"
        proof (intro allI impI)
          fix v f assume "bget m' v = Some f"
          with conjunct1 [OF conjunct2 [OF IH]]
          have "bget (bput u \<lparr>tf_uid = u, tf_body = b, tf_dropped = d\<rparr> m) v = Some f
              \<or> primary pl v \<and> (v, tf_body f, tf_dropped f) \<in> set objs \<and> tf_uid f = v" by blast
          with True show "bget m v = Some f
              \<or> primary pl v \<and> (v, tf_body f, tf_dropped f) \<in> set (obj # objs) \<and> tf_uid f = v"
            by (auto simp: obj bget_bput split: if_splits)
        qed
        show "\<forall>v. bhas m' v \<longleftrightarrow> bhas m v \<or> primary pl v \<and> v \<in> fst ` set (obj # objs)"
          using conjunct2 [OF conjunct2 [OF IH]] True by (auto simp: obj)
      qed
    next
      case False
      then have "place_object pl m obj = (if is_table_body b \<and> bhas (pl_children pl) u then Inr m else Inl (NoPath u))"
        by (simp add: obj place_object_def)
      with Cons.prems have "is_table_body b \<and> bhas (pl_children pl) u" "try_fold (place_object pl) m objs = Inr m'"
        by (auto split: if_splits)
      with Cons.IH [OF this(2)] False show ?thesis by (auto simp: obj)
    qed
  qed simp
  from place have run: "try_fold (place_object pl) bempty (tree_objects ids) = Inr files"
    and all: "find (\<lambda>u. \<not> bhas files u) (bkeys (pl_paths pl)) = None"
    by (auto simp: place_objects_def result_simps split: option.splits)
  note fold' = fold [OF run]
  show child: "object_at ids u b d \<Longrightarrow> primary pl u \<or> is_table_body b \<and> bhas (pl_children pl) u" for u b d
    using conjunct1 [OF fold'] by (auto simp: set_tree_objects [symmetric])
  show has: "primary pl u \<Longrightarrow> bhas files u" for u
    using all by (auto simp: find_None_iff set_bkeys primary_def)
  show "bget files u = Some f \<longleftrightarrow> primary pl u \<and> object_at ids u (tf_body f) (tf_dropped f) \<and> tf_uid f = u"
  proof
    show "bget files u = Some f \<Longrightarrow> primary pl u \<and> object_at ids u (tf_body f) (tf_dropped f) \<and> tf_uid f = u"
      using conjunct1 [OF conjunct2 [OF fold']] by (simp add: set_tree_objects)
    assume f: "primary pl u \<and> object_at ids u (tf_body f) (tf_dropped f) \<and> tf_uid f = u"
    then obtain g where g: "bget files u = Some g" using has by (auto simp: bhas_iff)
    with conjunct1 [OF conjunct2 [OF fold']] have "object_at ids u (tf_body g) (tf_dropped g)" "tf_uid g = u"
      by (auto simp: set_tree_objects)
    with f object_unique [OF valid] have "f = g" by (metis tree_file.surjective unit.exhaust tree_file.more_def)
    with g show "bget files u = Some f" by simp
  qed
qed

section \<open>Records\<close>

lemma split_parts_cases:
  assumes "split_parts ids pl = Inr parts"
  obtains columns partitions where "ids_valid ids" "place_objects pl ids = Inr (tp_files parts)"
    "push_each (column_owner ids (tp_files parts)) (\<lambda>(u, c). (u, Live (cr_name c))) bempty (entries (ids_columns ids)) = Inr columns"
    "try_fold (push_tomb pl ids (tp_files parts)) (columns, bempty) (entries (ids_tombstones ids)) = Inr (tp_columns parts, partitions)"
    "push_children pl ids (tp_files parts) partitions = Inr (tp_partitions parts)"
    "push_each (\<lambda>(u, _). ok_or (move_home pl u) (NoPath u)) (\<lambda>p. p) bempty (entries (ids_moves ids)) = Inr (tp_moves parts)"
    "push_each (conversion_owner ids) (\<lambda>p. p) bempty (entries (ids_conversions ids)) = Inr (tp_conversions parts)"
    "push_each (\<lambda>(_, r). and_then (table_file (tp_files parts) (rb_replacement_root r)) (\<lambda>_. Inr (rb_replacement_root r)))
       (\<lambda>p. p) bempty (entries (ids_rebuilds ids)) = Inr (tp_rebuilds parts)"
  using assms by (auto simp: split_parts_def result_simps validate_ok)

lemma distinct_filter_entries: "distinct (map fst (filter P (entries m)))"
  using distinct_bkeys [of m] by (simp add: bkeys_def distinct_map_filter)

lemma fst_filter_entries: "u \<in> fst ` set (filter P (entries m)) \<Longrightarrow> bhas m u"
  by (auto simp: bhas_iff entries_bget)

lemma set_push:
  "(\<forall>owner. bget_list m owner = map (\<lambda>(u, x). (u, g x)) (filter (\<lambda>x. home x = Inr owner) (entries e)))
   \<Longrightarrow> (u, y) \<in> set (bget_list m owner) \<longleftrightarrow> (\<exists>x. bget e u = Some x \<and> y = g x \<and> home (u, x) = Inr owner)"
  by (auto simp: image_iff entries_bget [symmetric])

lemma valid_dead:
  assumes "ids_valid ids" "bget (ids_tombstones ids) u = Some t"
  shows "bget (ids_tables ids) u = None" "bget (ids_columns ids) u = None" "bget (ids_roles ids) u = None"
    "bget (ids_types ids) u = None" "bget (ids_extensions ids) u = None"
proof -
  have "\<not> live_uid ids u" using assms by (simp add: ids_valid_def base_valid_def tombstones_valid_def)
  then show "bget (ids_tables ids) u = None" "bget (ids_columns ids) u = None" "bget (ids_roles ids) u = None"
    "bget (ids_types ids) u = None" "bget (ids_extensions ids) u = None"
    by (simp_all add: live_uid_def bhas_def)
qed

lemma split_columns:
  assumes "split_parts ids pl = Inr parts"
  shows "(u, Live n) \<in> set (bget_list (tp_columns parts) owner) \<longleftrightarrow>
      (\<exists>c. bget (ids_columns ids) u = Some c \<and> cr_name c = n \<and> column_owner ids (tp_files parts) (u, c) = Inr owner)"
    and "(u, Dead t) \<in> set (bget_list (tp_columns parts) owner) \<longleftrightarrow>
      bget (ids_tombstones ids) u = Some t \<and> tomb_home pl ids (tp_files parts) (u, t) = Inr (InColumns owner)"
    and "distinct (map fst (bget_list (tp_columns parts) owner))"
    and "bget (ids_columns ids) u = Some c \<Longrightarrow> \<exists>owner. column_owner ids (tp_files parts) (u, c) = Inr owner"
proof -
  from assms obtain columns partitions where valid: "ids_valid ids" and
    c: "push_each (column_owner ids (tp_files parts)) (\<lambda>(u, c). (u, Live (cr_name c))) bempty (entries (ids_columns ids)) = Inr columns"
    and t: "try_fold (push_tomb pl ids (tp_files parts)) (columns, bempty) (entries (ids_tombstones ids)) = Inr (tp_columns parts, partitions)"
    by (rule split_parts_cases)
  note c = push_each_ok [OF c] and t = push_tomb_ok [OF t]
  have cols: "bget_list (tp_columns parts) owner
      = map (\<lambda>(u, c). (u, Live (cr_name c))) (filter (\<lambda>x. column_owner ids (tp_files parts) x = Inr owner) (entries (ids_columns ids)))
      @ map (\<lambda>(u, t). (u, Dead t)) (filter (\<lambda>p. tomb_home pl ids (tp_files parts) p = Inr (InColumns owner)) (entries (ids_tombstones ids)))"
    using c t by simp
  show "(u, Live n) \<in> set (bget_list (tp_columns parts) owner) \<longleftrightarrow>
      (\<exists>c. bget (ids_columns ids) u = Some c \<and> cr_name c = n \<and> column_owner ids (tp_files parts) (u, c) = Inr owner)"
    unfolding cols by (auto simp: image_iff entries_bget [symmetric])
  show "(u, Dead t) \<in> set (bget_list (tp_columns parts) owner) \<longleftrightarrow>
      bget (ids_tombstones ids) u = Some t \<and> tomb_home pl ids (tp_files parts) (u, t) = Inr (InColumns owner)"
    unfolding cols by (auto simp: image_iff entries_bget [symmetric])
  show "distinct (map fst (bget_list (tp_columns parts) owner))"
    unfolding cols using valid_dead(2) [OF valid]
    by (fastforce simp: comp_def case_prod_unfold distinct_filter_entries entries_bget)
  show "bget (ids_columns ids) u = Some c \<Longrightarrow> \<exists>owner. column_owner ids (tp_files parts) (u, c) = Inr owner"
    using c by (auto simp: entries_bget [symmetric])
qed

lemma split_partitions:
  assumes "split_parts ids pl = Inr parts"
  shows "(u, Live n) \<in> set (bget_list (tp_partitions parts) owner) \<longleftrightarrow>
      bget (pl_children pl) u = Some owner \<and> (\<exists>t. bget (ids_tables ids) u = Some t \<and> n = table_raw t)"
    and "(u, Dead t) \<in> set (bget_list (tp_partitions parts) owner) \<longleftrightarrow>
      bget (ids_tombstones ids) u = Some t \<and> tomb_home pl ids (tp_files parts) (u, t) = Inr (InPartitions owner)"
    and "distinct (map fst (bget_list (tp_partitions parts) owner))"
    and "bget (pl_children pl) u = Some p \<Longrightarrow> bhas (ids_tables ids) u \<Longrightarrow> table_file (tp_files parts) p = Inr ()"
    and "bget (ids_tombstones ids) u = Some t \<Longrightarrow> \<exists>place. tomb_home pl ids (tp_files parts) (u, t) = Inr place"
proof -
  from assms obtain columns partitions where valid: "ids_valid ids" and
    t: "try_fold (push_tomb pl ids (tp_files parts)) (columns, bempty) (entries (ids_tombstones ids)) = Inr (tp_columns parts, partitions)"
    and p: "push_children pl ids (tp_files parts) partitions = Inr (tp_partitions parts)"
    by (rule split_parts_cases)
  note t = push_tomb_ok [OF t] and p = push_children_ok [OF p]
  let ?dead = "\<lambda>owner. filter (\<lambda>p. tomb_home pl ids (tp_files parts) p = Inr (InPartitions owner)) (entries (ids_tombstones ids))"
  have parts: "bget_list partitions owner = map (\<lambda>(u, t). (u, Dead t)) (?dead owner)" for owner
    using t by simp
  have set: "set (bget_list (tp_partitions parts) owner) = set (bget_list partitions owner)
         \<union> {(child, Live (table_raw n)) | child n. bget (pl_children pl) child = Some owner \<and> bget (ids_tables ids) child = Some n}"
    using p by blast
  show "(u, Live n) \<in> set (bget_list (tp_partitions parts) owner) \<longleftrightarrow>
      bget (pl_children pl) u = Some owner \<and> (\<exists>t. bget (ids_tables ids) u = Some t \<and> n = table_raw t)"
    unfolding set parts by auto
  show "(u, Dead t) \<in> set (bget_list (tp_partitions parts) owner) \<longleftrightarrow>
      bget (ids_tombstones ids) u = Some t \<and> tomb_home pl ids (tp_files parts) (u, t) = Inr (InPartitions owner)"
    unfolding set parts by (auto simp: image_iff entries_bget [symmetric])
  have "map fst (bget_list (tp_partitions parts) owner) = map fst (?dead owner)
       @ map fst (filter (\<lambda>p. snd p = owner \<and> bhas (ids_tables ids) (fst p)) (entries (pl_children pl)))"
    using p parts by (simp add: comp_def case_prod_unfold)
  then show "distinct (map fst (bget_list (tp_partitions parts) owner))"
    using valid_dead(1) [OF valid] by (fastforce simp: distinct_filter_entries entries_bget bhas_iff)
  show "bget (pl_children pl) u = Some p \<Longrightarrow> bhas (ids_tables ids) u \<Longrightarrow> table_file (tp_files parts) p = Inr ()"
    using p by blast
  show "bget (ids_tombstones ids) u = Some t \<Longrightarrow> \<exists>place. tomb_home pl ids (tp_files parts) (u, t) = Inr place"
    using t by (auto simp: entries_bget [symmetric])
qed

lemma split_intents:
  assumes "split_parts ids pl = Inr parts"
  shows "(u, m) \<in> set (bget_list (tp_moves parts) owner) \<longleftrightarrow> bget (ids_moves ids) u = Some m \<and> move_home pl u = Some owner"
    and "(u, c) \<in> set (bget_list (tp_conversions parts) owner) \<longleftrightarrow>
      bget (ids_conversions ids) u = Some c \<and> conversion_owner ids (u, c) = Inr owner"
    and "(u, r) \<in> set (bget_list (tp_rebuilds parts) owner) \<longleftrightarrow>
      bget (ids_rebuilds ids) u = Some r \<and> table_file (tp_files parts) owner = Inr () \<and> rb_replacement_root r = owner"
    and "distinct (map fst (bget_list (tp_moves parts) owner))" "distinct (map fst (bget_list (tp_conversions parts) owner))"
      "distinct (map fst (bget_list (tp_rebuilds parts) owner))"
    and "bget (ids_moves ids) u = Some m \<Longrightarrow> \<exists>owner. move_home pl u = Some owner"
    and "bget (ids_conversions ids) u = Some c \<Longrightarrow> \<exists>owner. conversion_owner ids (u, c) = Inr owner"
    and "bget (ids_rebuilds ids) u = Some r \<Longrightarrow> table_file (tp_files parts) (rb_replacement_root r) = Inr ()"
proof -
  from assms obtain columns :: "ids_rec by_file" where
    m: "push_each (\<lambda>(u, _). ok_or (move_home pl u) (NoPath u)) (\<lambda>p. p) bempty (entries (ids_moves ids)) = Inr (tp_moves parts)"
    and c: "push_each (conversion_owner ids) (\<lambda>p. p) bempty (entries (ids_conversions ids)) = Inr (tp_conversions parts)"
    and r: "push_each (\<lambda>(_, r). and_then (table_file (tp_files parts) (rb_replacement_root r)) (\<lambda>_. Inr (rb_replacement_root r)))
       (\<lambda>p. p) bempty (entries (ids_rebuilds ids)) = Inr (tp_rebuilds parts)"
    by (rule split_parts_cases)
  note m = push_each_ok [OF m] and c = push_each_ok [OF c] and r = push_each_ok [OF r]
  show "(u, m) \<in> set (bget_list (tp_moves parts) owner) \<longleftrightarrow> bget (ids_moves ids) u = Some m \<and> move_home pl u = Some owner"
    using m by (simp add: entries_bget result_simps)
  show "(u, c) \<in> set (bget_list (tp_conversions parts) owner) \<longleftrightarrow>
      bget (ids_conversions ids) u = Some c \<and> conversion_owner ids (u, c) = Inr owner"
    using c by (simp add: entries_bget)
  show "(u, r) \<in> set (bget_list (tp_rebuilds parts) owner) \<longleftrightarrow>
      bget (ids_rebuilds ids) u = Some r \<and> table_file (tp_files parts) owner = Inr () \<and> rb_replacement_root r = owner"
    using r by (auto simp: entries_bget result_simps)
  show "distinct (map fst (bget_list (tp_moves parts) owner))" "distinct (map fst (bget_list (tp_conversions parts) owner))"
      "distinct (map fst (bget_list (tp_rebuilds parts) owner))"
    using m c r by (simp_all add: distinct_filter_entries)
  show "bget (ids_moves ids) u = Some m \<Longrightarrow> \<exists>owner. move_home pl u = Some owner"
    using m by (auto simp: entries_bget [symmetric] result_simps)
  show "bget (ids_conversions ids) u = Some c \<Longrightarrow> \<exists>owner. conversion_owner ids (u, c) = Inr owner"
    using c by (auto simp: entries_bget [symmetric])
  show "bget (ids_rebuilds ids) u = Some r \<Longrightarrow> table_file (tp_files parts) (rb_replacement_root r) = Inr ()"
    using r by (fastforce simp: entries_bget [symmetric] result_simps)
qed

section \<open>The written files\<close>

definition filled :: "placement \<Rightarrow> tree_parts \<Rightarrow> uid \<Rightarrow> tree_file \<Rightarrow> tree_file" where
  "filled pl parts u f = f\<lparr>tf_body := fill_body pl parts u (tf_body f)\<rparr>"

lemma write_file_ok:
  "write_file pl parts (owners, out) (u, f) = Inr st \<longleftrightarrow>
     (\<exists>path. bget (pl_paths pl) u = Some path \<and> bget owners path = None
        \<and> check_file path (filled pl parts u f) = Inr ()
        \<and> st = (bput path u owners, out @ [(path, filled pl parts u f)]))"
  by (auto simp: write_file_def result_simps Let_def filled_def split: option.splits)

lemma write_files_ok:
  assumes "try_fold (write_file pl parts) (owners, out) ufs = Inr (owners', out')"
    and "dom (bget owners) = set (map fst out)" "distinct (map fst out)"
  shows "distinct (map fst out')
    \<and> set out' = set out \<union> {(path, filled pl parts u f) | path u f. (u, f) \<in> set ufs \<and> bget (pl_paths pl) u = Some path}
    \<and> (\<forall>(u, f) \<in> set ufs. \<exists>path. bget (pl_paths pl) u = Some path \<and> check_file path (filled pl parts u f) = Inr ())"
  using assms
proof (induction ufs arbitrary: owners out)
  case Nil
  then show ?case by auto
next
  case (Cons uf ufs)
  obtain u f where uf: "uf = (u, f)" by (cases uf)
  from Cons.prems(1) obtain path where path: "bget (pl_paths pl) u = Some path" "bget owners path = None"
    "check_file path (filled pl parts u f) = Inr ()"
    and rest: "try_fold (write_file pl parts) (bput path u owners, out @ [(path, filled pl parts u f)]) ufs = Inr (owners', out')"
    by (auto simp: uf write_file_ok result_simps)
  have "dom (bget (bput path u owners)) = set (map fst (out @ [(path, filled pl parts u f)]))"
    using Cons.prems(2) by (auto simp: bget_bput)
  moreover have "distinct (map fst (out @ [(path, filled pl parts u f)]))"
    using Cons.prems(2,3) path(2) by (auto simp: domIff)
  ultimately have IH: "distinct (map fst out')
    \<and> set out' = set (out @ [(path, filled pl parts u f)]) \<union> {(path, filled pl parts u f) | path u f. (u, f) \<in> set ufs \<and> bget (pl_paths pl) u = Some path}
    \<and> (\<forall>(u, f) \<in> set ufs. \<exists>path. bget (pl_paths pl) u = Some path \<and> check_file path (filled pl parts u f) = Inr ())"
    by (rule Cons.IH [OF rest])
  then show ?case using path by (auto simp: uf)
qed

lemma split_files_ok:
  assumes "split_files ids pl = Inr files"
  obtains parts where "split_parts ids pl = Inr parts" "distinct (map fst files)"
    "\<And>path g. (path, g) \<in> set files \<longleftrightarrow>
       (\<exists>u f. bget (tp_files parts) u = Some f \<and> bget (pl_paths pl) u = Some path \<and> g = filled pl parts u f)"
    "\<And>u f. bget (tp_files parts) u = Some f \<Longrightarrow>
       \<exists>path. bget (pl_paths pl) u = Some path \<and> check_file path (filled pl parts u f) = Inr ()"
proof -
  from assms obtain parts owners where parts: "split_parts ids pl = Inr parts"
    and run: "try_fold (write_file pl parts) (bempty, []) (entries (tp_files parts)) = Inr (owners, files)"
    by (auto simp: split_files_def result_simps)
  have "dom (bget bempty) = set (map fst ([] :: (string \<times> tree_file) list))" by auto
  note w = write_files_ok [OF run this, simplified]
  show ?thesis
    by (rule that [OF parts]) (use w in \<open>auto simp: entries_bget case_prod_unfold Ball_def\<close>)
qed

end
