(* ===== verification/Tree_Roundtrip.thy ===== *)
theory Tree_Roundtrip
  imports Tree_Split
begin

text \<open>
  \<open>assemble\<close> reads back what \<open>split\<close> wrote.
\<close>

section \<open>Hypotheses on the mapping and the placement\<close>

text \<open>What the types of the source guarantee: a \<open>Uid\<close> and a \<open>TypeRef\<close> are checked when made.\<close>

definition ids_typed :: "ids_file \<Rightarrow> bool" where
  "ids_typed ids \<longleftrightarrow>
     (\<forall>u. contains_uid ids u \<longrightarrow> uid_wf u) \<and> (\<forall>u y. bget (ids_types ids) u = Some y \<longrightarrow> type_ok y)"

text \<open>No live table both owns a file and is declared in another one.\<close>

definition placed_once :: "ids_file \<Rightarrow> placement \<Rightarrow> bool" where
  "placed_once ids pl \<longleftrightarrow>
     (\<forall>u. bhas (ids_tables ids) u \<longrightarrow> \<not> (bhas (pl_paths pl) u \<and> bhas (pl_children pl) u))"

text \<open>A mapping with a partition child, retired columns and tables, and where its objects live.\<close>

definition sample_tombstone :: "string \<Rightarrow> tombstone" where
  "sample_tombstone was = \<lparr>tb_was = was, tb_dropped_at = ''2024-01-01T00:00:00Z'', tb_reason = ''unused'',
     tb_operator = ''ops'', tb_require = None\<rparr>"

definition sample_tree_ids :: ids_file where
  "sample_tree_ids = ids_default\<lparr>
     ids_tables := bcollect [(Uid ''t_000001'', TableName ''dbo'' ''customer''), (Uid ''t_000002'', TableName ''dbo'' ''customer_p1'')],
     ids_columns := bcollect [(Uid ''c_000001'', ColumnRef (TableName ''dbo'' ''customer'') ''id''),
       (Uid ''c_000002'', ColumnRef (TableName ''dbo'' ''customer'') ''name'')],
     ids_roles := bcollect [(Uid ''r_000001'', ''reader'')],
     ids_tombstones := bcollect [(Uid ''c_000009'', sample_tombstone ''dbo.customer.old''),
       (Uid ''t_000009'', sample_tombstone ''dbo.gone'')],
     ids_moves := bcollect [(Uid ''t_000002'', \<lparr>mv_max_rows = 10, mv_allowed_at = ''2024-01-01T00:00:00Z'',
       mv_reason = ''split'', mv_operator = ''ops''\<rparr>)]\<rparr>"

definition sample_placement :: placement where
  "sample_placement = \<lparr>
     pl_paths = bcollect [(Uid ''t_000001'', ''dbo/customer.json''), (Uid ''r_000001'', ''roles/reader.json''), (Uid ''t_000009'', ''dbo/gone.json'')],
     pl_children = bcollect [(Uid ''t_000002'', Uid ''t_000001'')],
     pl_order = bcollect [(Uid ''t_000001'', [Uid ''c_000002'', Uid ''c_000009'', Uid ''c_000001''])],
     pl_owners = bempty\<rparr>"

definition sample_tree_files :: "(string \<times> tree_file) list" where
  "sample_tree_files = (case split_files sample_tree_ids sample_placement of Inr fs \<Rightarrow> fs | Inl _ \<Rightarrow> [])"

text \<open>The same placement with a file of its own for the partition child as well.\<close>

definition sample_twice :: placement where
  "sample_twice = sample_placement\<lparr>pl_paths := bput (Uid ''t_000002'') ''dbo/customer_p1.json'' (pl_paths sample_placement)\<rparr>"

definition written_reader :: "json_out \<Rightarrow> (string \<times> tree_file) list \<Rightarrow> string \<Rightarrow> (string, raw_file) result" where
  "written_reader js files t =
     (case find (\<lambda>(_, f). render js f = t) files of Some (_, f) \<Rightarrow> Inr (raw_of f) | None \<Rightarrow> Inl ''unread'')"

section \<open>A checked file holds readable names\<close>

lemma table_raw_inj: "table_raw n = table_raw m \<Longrightarrow> table_ok m \<Longrightarrow> n = m"
proof -
  assume eq: "table_raw n = table_raw m" and m: "table_ok m"
  have "split_on dot (table_raw m) = [tn_schema m, tn_name m]"
    using m unfolding split_on_two by (simp add: table_raw_def table_ok_def segment_ok_def)
  moreover have "split_on dot (table_raw n) = split_on dot (tn_schema n) @ split_on dot (tn_name n)"
    by (simp add: table_raw_def split_on_glue)
  ultimately have "split_on dot (tn_schema n) @ split_on dot (tn_name n) = [tn_schema m, tn_name m]"
    using eq by simp
  then obtain a b where ab: "split_on dot (tn_schema n) = [a]" "split_on dot (tn_name n) = [b]"
    "a = tn_schema m" "b = tn_name m"
    by (cases "split_on dot (tn_schema n)"; cases "split_on dot (tn_name n)")
      (auto simp: Cons_eq_append_conv append_eq_Cons_conv)
  then have "tn_schema n = tn_schema m" "tn_name n = tn_name m"
    using join_split_on [of dot "tn_schema n"] join_split_on [of dot "tn_name n"] by simp_all
  then show "n = m" by (rule table_name.expand [OF conjI])
qed

lemma the_table_raw: "is_ok (table_from_str (table_raw n)) \<Longrightarrow> the_table (table_raw n) = n"
proof -
  assume "is_ok (table_from_str (table_raw n))"
  then obtain m where m: "table_from_str (table_raw n) = Inr m" by (auto simp: is_ok_iff)
  then have "n = m" using table_raw_inj by (auto simp: table_from_str_ok)
  with m show ?thesis by (simp add: the_table_def)
qed

lemma the_type_raw: "type_ok y \<Longrightarrow> the_type (type_raw y) = y"
  by (simp add: the_type_def type_from_str_raw)

lemma live_uids_empty: "live_uids recs = {} \<longleftrightarrow> live_recs recs = []"
proof (induction recs)
  case (Cons p recs)
  then show ?case by (cases p; cases "snd p") (auto simp: live_uids_def is_live_def)
qed (simp add: live_uids_def)

lemma check_file_names_readable:
  assumes "check_file path f = Inr ()"
  shows "file_names_ok f"
proof (cases "tf_body f")
  case (BodyTable t)
  from assms have names: "check_file_names path f = Inr ()"
    and live: "tf_dropped f \<noteq> None \<Longrightarrow> live_uids (bd_columns t) = {}"
    by (auto simp: check_file_def BodyTable result_simps Let_def)
  have "is_ok (table_from_str n)" if "(u, n) \<in> set (live_recs (bd_partitions t))" for u n
  proof -
    from names have "\<forall>p \<in> set (bd_partitions t). check_rec (readable_table path) path p = Inr ()"
      by (auto simp: check_file_names_def BodyTable result_simps Let_def try_each_ok)
    with that show ?thesis
      by (force simp: set_live_recs check_rec_def readable_table_def result_simps is_ok_iff)
  qed
  moreover have "tf_dropped f = None \<Longrightarrow> is_ok (table_from_str (bd_table t))"
    using names by (auto simp: check_file_names_def BodyTable result_simps Let_def readable_table_def is_ok_iff)
  ultimately show ?thesis using live by (auto simp: file_names_ok_def BodyTable live_uids_empty)
next
  case (BodyType n)
  with assms show ?thesis
    by (auto simp: check_file_def check_file_names_def result_simps Let_def file_names_ok_def readable_type_def is_ok_iff)
qed (simp_all add: file_names_ok_def)

section \<open>Sections of a written file\<close>

lemma set_ordered [simp]: "set (ordered recs us) = set recs"
  by (simp add: ordered_def)

lemma distinct_ordered [simp]: "distinct (map fst (ordered recs us)) \<longleftrightarrow> distinct (map fst recs)"
  by (simp add: distinct_map) (simp add: ordered_def)

lemma live_ordered: "(u, n) \<in> set (live_recs (ordered recs us)) \<longleftrightarrow> (u, Live n) \<in> set recs"
  by (simp add: set_live_recs)

lemma table_file_ok: "table_file files u = Inr () \<longleftrightarrow> (\<exists>f. bget files u = Some f \<and> is_table_body (tf_body f))"
  by (auto simp: table_file_def result_simps split: option.splits)

lemma filled_simps [simp]: "tf_uid (filled pl parts u f) = tf_uid f" "tf_dropped (filled pl parts u f) = tf_dropped f"
  by (simp_all add: filled_def)

lemma from_table_filled:
  "from_table (filled pl parts u f) g = from_table f (\<lambda>t. g (t\<lparr>
          bd_columns := ordered (bget_list (tp_columns parts) u) (bget (pl_order pl) u),
          bd_partitions := ordered (bget_list (tp_partitions parts) u) None,
          bd_moves := ordered (bget_list (tp_moves parts) u) None,
          bd_conversions := ordered (bget_list (tp_conversions parts) u) None,
          bd_rebuilds := ordered (bget_list (tp_rebuilds parts) u) None\<rparr>))"
  by (cases "tf_body f") (simp_all add: from_table_def filled_def fill_body_def)

lemma from_table_cases:
  "tf_body f = BodyTable t \<Longrightarrow> from_table f g = g t" "tf_body f = BodyRole n \<Longrightarrow> from_table f g = []"
  "tf_body f = BodyType n \<Longrightarrow> from_table f g = []" "tf_body f = BodyExtension n \<Longrightarrow> from_table f g = []"
  by (simp_all add: from_table_def)

lemma in_image_pair: "(v, y) \<in> (\<lambda>(u, x). (u, h x)) ` S \<longleftrightarrow> (\<exists>x. (v, x) \<in> S \<and> y = h x)"
  by force

lemma valid_kinds:
  assumes "ids_valid ids"
  shows "bget (ids_tables ids) u = Some n \<Longrightarrow> uid_kind_of u = TableUid"
    "bget (ids_columns ids) u = Some c \<Longrightarrow> uid_kind_of u = ColumnUid"
  using assms by (auto simp: ids_valid_def base_valid_def kinds_valid_def kinded_def bhas_iff)

lemma live_by_name_iff:
  assumes "ids_valid ids"
  shows "bget (live_by_name ids) n = Some u \<longleftrightarrow> bget (ids_tables ids) u = Some n"
proof -
  have "distinct (map snd (entries (ids_tables ids)))"
    using distinct_spellings [of table_raw "ids_tables ids"] valid_unique(1) [OF assms]
    by (auto simp: spellings_def distinct_map case_prod_unfold comp_def inj_on_def)
  then have "map_of (rev (map (\<lambda>(u, n). (n, u)) (entries (ids_tables ids)))) n = Some u \<longleftrightarrow> (u, n) \<in> set (entries (ids_tables ids))"
    by (subst map_of_rev) (force simp: comp_def case_prod_unfold)+
  then show ?thesis by (simp add: live_by_name_def bget_bcollect entries_bget)
qed

text \<open>
  The written file of \<open>w\<close>: \<open>f\<close> is the file of \<open>w\<close> before its sections were filled in, and the
  filled one passed the writer's check.
\<close>

definition written_at :: "ids_file \<Rightarrow> placement \<Rightarrow> tree_parts \<Rightarrow> uid \<Rightarrow> tree_file \<Rightarrow> bool" where
  "written_at ids pl parts w f \<longleftrightarrow>
     split_parts ids pl = Inr parts \<and> bget (tp_files parts) w = Some f
     \<and> (\<exists>path. check_file path (filled pl parts w f) = Inr ())"

lemma written_at_facts:
  assumes W: "written_at ids pl parts w f"
  shows "ids_valid ids" "split_parts ids pl = Inr parts" "place_objects pl ids = Inr (tp_files parts)"
    "bget (tp_files parts) w = Some f" "primary pl w" "object_at ids w (tf_body f) (tf_dropped f)" "tf_uid f = w"
    "file_names_ok (filled pl parts w f)"
proof -
  show S: "split_parts ids pl = Inr parts" and f: "bget (tp_files parts) w = Some f"
    using W by (simp_all add: written_at_def)
  from S show valid: "ids_valid ids" and place: "place_objects pl ids = Inr (tp_files parts)"
    by (rule split_parts_cases, simp)+
  show "primary pl w" "object_at ids w (tf_body f) (tf_dropped f)" "tf_uid f = w"
    using place_objects_ok(1) [OF valid place, of w f] f by simp_all
  show "file_names_ok (filled pl parts w f)"
    using W check_file_names_readable by (auto simp: written_at_def)
qed

text \<open>Which body the file of \<open>w\<close> has.\<close>

lemma written_live_table:
  assumes "written_at ids pl parts w f" "bget (ids_tables ids) w = Some n"
  shows "tf_body f = BodyTable (new_table_body (table_raw n)) \<and> tf_dropped f = None"
proof -
  note facts = written_at_facts [OF assms(1)]
  have "object_at ids w (BodyTable (new_table_body (table_raw n))) None" using assms(2) by (simp add: object_at_def)
  with facts(1,6) object_unique show ?thesis by blast
qed

lemma written_table_object:
  assumes "written_at ids pl parts w f" "tf_body f = BodyTable t"
  shows "(\<exists>n. bget (ids_tables ids) w = Some n \<and> t = new_table_body (table_raw n) \<and> tf_dropped f = None)
    \<or> (\<exists>d. bget (ids_tombstones ids) w = Some d \<and> t = new_table_body (tb_was d) \<and> tf_dropped f = Some d)"
  using written_at_facts(6) [OF assms(1)] assms(2)
  by (cases "uid_kind_of w") (auto simp: object_at_def tomb_body_def)

lemma table_file_written:
  assumes "written_at ids pl parts w f" "table_file (tp_files parts) w = Inr ()"
  shows "\<exists>t. tf_body f = BodyTable t"
  using assms written_at_facts(4) [OF assms(1)]
  by (auto simp: table_file_ok is_table_body_def split: tree_body.splits)

lemma file_tables_written:
  assumes W: "written_at ids pl parts w f"
  shows "(v, n) \<in> set (file_tables (filled pl parts w f)) \<longleftrightarrow>
     bget (ids_tables ids) v = Some n \<and> (v = w \<or> bget (pl_children pl) v = Some w)"
proof -
  note facts = written_at_facts [OF W]
  note part = split_partitions [OF facts(2)]
  have child: "\<exists>t. tf_body f = BodyTable t" if "bget (ids_tables ids) v = Some n" "bget (pl_children pl) v = Some w"
    using that part(4) [of v w] table_file_written [OF W] by (simp add: bhas_iff)
  have self: "bget (ids_tables ids) w = Some n \<longleftrightarrow> (\<exists>t. tf_body f = BodyTable t \<and> tf_dropped f = None \<and> the_table (bd_table t) = n)"
  proof
    assume n: "bget (ids_tables ids) w = Some n"
    then have f: "tf_body f = BodyTable (new_table_body (table_raw n))" "tf_dropped f = None"
      using written_live_table [OF W] by blast+
    with facts(8) have "is_ok (table_from_str (table_raw n))"
      by (simp add: file_names_ok_def filled_def fill_body_def new_table_body_def)
    with f show "\<exists>t. tf_body f = BodyTable t \<and> tf_dropped f = None \<and> the_table (bd_table t) = n"
      by (simp add: new_table_body_def the_table_raw)
  next
    assume "\<exists>t. tf_body f = BodyTable t \<and> tf_dropped f = None \<and> the_table (bd_table t) = n"
    then obtain t where t: "tf_body f = BodyTable t" "tf_dropped f = None" "the_table (bd_table t) = n" by blast
    with written_table_object [OF W t(1)] obtain m where m: "bget (ids_tables ids) w = Some m" "t = new_table_body (table_raw m)" by auto
    with facts(8) t have "is_ok (table_from_str (table_raw m))"
      by (simp add: file_names_ok_def filled_def fill_body_def new_table_body_def)
    with m t show "bget (ids_tables ids) w = Some n" by (simp add: new_table_body_def the_table_raw)
  qed
  have parts: "(v, n) \<in> (\<lambda>(u, n). (u, the_table n)) ` set (live_recs (ordered (bget_list (tp_partitions parts) w) None))
      \<longleftrightarrow> bget (pl_children pl) v = Some w \<and> bget (ids_tables ids) v = Some n" if t: "tf_body f = BodyTable t" for t
  proof -
    have "the_table (table_raw m) = m" if "bget (pl_children pl) v = Some w" "bget (ids_tables ids) v = Some m" for m
    proof -
      have "(v, table_raw m) \<in> set (live_recs (ordered (bget_list (tp_partitions parts) w) None))"
        using that by (auto simp: live_ordered part(1))
      with facts(8) t have "is_ok (table_from_str (table_raw m))"
        by (auto simp: file_names_ok_def filled_def fill_body_def)
      then show ?thesis by (rule the_table_raw)
    qed
    then show ?thesis by (auto simp: in_image_pair live_ordered part(1))
  qed
  show ?thesis
  proof (cases "tf_body f")
    case (BodyTable t)
    then have "(v, n) \<in> set (file_tables (filled pl parts w f)) \<longleftrightarrow>
        v = w \<and> tf_dropped f = None \<and> the_table (bd_table t) = n
        \<or> bget (pl_children pl) v = Some w \<and> bget (ids_tables ids) v = Some n"
      using parts [OF BodyTable]
      by (auto simp: file_tables_def from_table_filled from_table_cases if_live_def facts(7))
    with self BodyTable show ?thesis by auto
  qed (use self child in \<open>auto simp: file_tables_def from_table_filled from_table_cases\<close>)
qed

lemma file_columns_written:
  assumes W: "written_at ids pl parts w f"
  shows "(v, c) \<in> set (file_columns (filled pl parts w f)) \<longleftrightarrow>
     bget (ids_columns ids) v = Some c \<and> column_owner ids (tp_files parts) (v, c) = Inr w"
proof -
  note facts = written_at_facts [OF W]
  note cols = split_columns [OF facts(2)]
  have owner: "\<exists>t. tf_body f = BodyTable t \<and> the_table (bd_table t) = cr_table c"
    if "column_owner ids (tp_files parts) (v, c) = Inr w" for v c
  proof -
    from that have w: "bget (ids_tables ids) w = Some (cr_table c)"
      by (auto simp: column_owner_def result_simps live_by_name_iff [OF facts(1)])
    then have "(w, cr_table c) \<in> set (file_tables (filled pl parts w f))"
      by (simp add: file_tables_written [OF W])
    from w written_live_table [OF W] have f: "tf_body f = BodyTable (new_table_body (table_raw (cr_table c)))" "tf_dropped f = None" by auto
    with facts(8) have "is_ok (table_from_str (table_raw (cr_table c)))"
      by (simp add: file_names_ok_def filled_def fill_body_def new_table_body_def)
    with f show ?thesis by (simp add: new_table_body_def the_table_raw)
  qed
  show ?thesis
  proof (cases "tf_body f")
    case (BodyTable t)
    then have "(v, c) \<in> set (file_columns (filled pl parts w f)) \<longleftrightarrow>
        (\<exists>n. (v, Live n) \<in> set (bget_list (tp_columns parts) w) \<and> c = ColumnRef (the_table (bd_table t)) n)"
      by (simp add: file_columns_def from_table_filled from_table_cases in_image_pair live_ordered)
    also have "\<dots> \<longleftrightarrow> bget (ids_columns ids) v = Some c \<and> column_owner ids (tp_files parts) (v, c) = Inr w"
    proof
      assume "\<exists>n. (v, Live n) \<in> set (bget_list (tp_columns parts) w) \<and> c = ColumnRef (the_table (bd_table t)) n"
      then obtain d where d: "bget (ids_columns ids) v = Some d" "column_owner ids (tp_files parts) (v, d) = Inr w"
        "c = ColumnRef (the_table (bd_table t)) (cr_name d)" by (auto simp: cols(1))
      with owner [OF d(2)] BodyTable have "c = d" by (cases d) simp
      with d show "bget (ids_columns ids) v = Some c \<and> column_owner ids (tp_files parts) (v, c) = Inr w" by simp
    next
      assume c: "bget (ids_columns ids) v = Some c \<and> column_owner ids (tp_files parts) (v, c) = Inr w"
      with owner [of v c] BodyTable have "c = ColumnRef (the_table (bd_table t)) (cr_name c)" by (cases c) simp
      with c show "\<exists>n. (v, Live n) \<in> set (bget_list (tp_columns parts) w) \<and> c = ColumnRef (the_table (bd_table t)) n"
        unfolding cols(1) by blast
    qed
    finally show ?thesis .
  qed (use owner in \<open>auto simp: file_columns_def from_table_filled from_table_cases\<close>)
qed

lemma file_tombstones_written:
  assumes W: "written_at ids pl parts w f"
  shows "(v, t) \<in> set (file_tombstones (filled pl parts w f)) \<longleftrightarrow>
     bget (ids_tombstones ids) v = Some t
     \<and> (v = w \<or> tomb_home pl ids (tp_files parts) (v, t) \<in> {Inr (InColumns w), Inr (InPartitions w)})"
proof -
  note facts = written_at_facts [OF W]
  note cols = split_columns(2) [OF facts(2)] and parts = split_partitions(2) [OF facts(2)]
  have self: "tf_dropped f = Some t \<longleftrightarrow> bget (ids_tombstones ids) w = Some t" for t
    using facts(6) valid_dead [OF facts(1), of w]
    by (auto simp: object_at_def dest: tomb_body_uid)
  have table: "\<exists>t. tf_body f = BodyTable t"
    if "tomb_home pl ids (tp_files parts) (v, t) \<in> {Inr (InColumns w), Inr (InPartitions w)}" for v t
    by (rule table_file_written [OF W]) (use that in \<open>auto simp: tomb_home_def result_simps split: if_splits\<close>)
  have "(v, t) \<in> set (from_table (filled pl parts w f) (\<lambda>t. dead_recs (bd_columns t) @ dead_recs (bd_partitions t)))
      \<longleftrightarrow> bget (ids_tombstones ids) v = Some t
        \<and> tomb_home pl ids (tp_files parts) (v, t) \<in> {Inr (InColumns w), Inr (InPartitions w)}"
    using table [of v t] cols [of v t w] parts [of v t w]
    by (cases "tf_body f") (auto simp: from_table_filled from_table_cases set_dead_recs)
  moreover have "(v, t) \<in> set (case tf_dropped f of None \<Rightarrow> [] | Some t \<Rightarrow> [(tf_uid f, t)]) \<longleftrightarrow> v = w \<and> bget (ids_tombstones ids) v = Some t"
    using self [of t] facts(7) by (cases "tf_dropped f") auto
  ultimately show ?thesis unfolding file_tombstones_def set_append Un_iff filled_simps by blast
qed

lemma object_live:
  "object_at ids u b None \<longleftrightarrow>
     (\<exists>n. bget (ids_tables ids) u = Some n \<and> b = BodyTable (new_table_body (table_raw n)))
     \<or> (\<exists>n. bget (ids_roles ids) u = Some n \<and> b = BodyRole n)
     \<or> (\<exists>n. bget (ids_types ids) u = Some n \<and> b = BodyType (type_raw n))
     \<or> (\<exists>n. bget (ids_extensions ids) u = Some n \<and> b = BodyExtension n)"
  by (auto simp: object_at_def dest: tomb_body_uid)

lemma file_plain_written:
  assumes W: "written_at ids pl parts w f" and typed: "ids_typed ids"
  shows "(v, r) \<in> set (file_roles (filled pl parts w f)) \<longleftrightarrow> v = w \<and> bget (ids_roles ids) v = Some r"
    "(v, y) \<in> set (file_types (filled pl parts w f)) \<longleftrightarrow> v = w \<and> bget (ids_types ids) v = Some y"
    "(v, e) \<in> set (file_extensions (filled pl parts w f)) \<longleftrightarrow> v = w \<and> bget (ids_extensions ids) v = Some e"
proof -
  note facts = written_at_facts [OF W]
  have types: "the_type (type_raw y) = y" if "bget (ids_types ids) w = Some y" for y
    using typed that by (simp add: ids_typed_def the_type_raw)
  have same: "tf_body f = b \<and> tf_dropped f = None" if "object_at ids w b None" for b
    using object_unique [OF facts(1) facts(6) that] by simp
  have live: "object_at ids w (tf_body f) None" if "tf_dropped f = None" using facts(6) that by simp
  have "(v, r) \<in> set (file_roles (filled pl parts w f)) \<longleftrightarrow> v = w \<and> tf_dropped f = None \<and> tf_body f = BodyRole r"
    by (cases "tf_body f") (auto simp: file_roles_def if_live_def filled_def fill_body_def facts(7))
  moreover have "tf_dropped f = None \<and> tf_body f = BodyRole r \<longleftrightarrow> bget (ids_roles ids) w = Some r"
    using live same [of "BodyRole r"] by (auto simp: object_live)
  ultimately show "(v, r) \<in> set (file_roles (filled pl parts w f)) \<longleftrightarrow> v = w \<and> bget (ids_roles ids) v = Some r" by blast
  have "(v, e) \<in> set (file_extensions (filled pl parts w f)) \<longleftrightarrow> v = w \<and> tf_dropped f = None \<and> tf_body f = BodyExtension e"
    by (cases "tf_body f") (auto simp: file_extensions_def if_live_def filled_def fill_body_def facts(7))
  moreover have "tf_dropped f = None \<and> tf_body f = BodyExtension e \<longleftrightarrow> bget (ids_extensions ids) w = Some e"
    using live same [of "BodyExtension e"] by (auto simp: object_live)
  ultimately show "(v, e) \<in> set (file_extensions (filled pl parts w f)) \<longleftrightarrow> v = w \<and> bget (ids_extensions ids) v = Some e" by blast
  have "(v, y) \<in> set (file_types (filled pl parts w f)) \<longleftrightarrow>
      v = w \<and> tf_dropped f = None \<and> (\<exists>n. tf_body f = BodyType n \<and> y = the_type n)"
    by (cases "tf_body f") (auto simp: file_types_def if_live_def filled_def fill_body_def facts(7))
  moreover have "tf_dropped f = None \<and> (\<exists>n. tf_body f = BodyType n \<and> y = the_type n) \<longleftrightarrow> bget (ids_types ids) w = Some y"
    using live same [of "BodyType (type_raw y)"] types by (auto simp: object_live)
  ultimately show "(v, y) \<in> set (file_types (filled pl parts w f)) \<longleftrightarrow> v = w \<and> bget (ids_types ids) v = Some y" by blast
qed

lemma move_home_table:
  assumes "split_parts ids pl = Inr parts" "bget (ids_moves ids) v = Some m" "move_home pl v = Some w"
  shows "table_file (tp_files parts) w = Inr ()"
proof -
  from assms(1) have valid: "ids_valid ids" and place: "place_objects pl ids = Inr (tp_files parts)"
    by (rule split_parts_cases, simp)+
  from valid assms(2) obtain n where n: "bget (ids_tables ids) v = Some n"
    by (auto simp: ids_valid_def base_valid_def intents_valid_def bhas_iff)
  show ?thesis
  proof (cases "primary pl v")
    case True
    with n assms(3) have "bget (tp_files parts) w = Some \<lparr>tf_uid = w, tf_body = BodyTable (new_table_body (table_raw n)), tf_dropped = None\<rparr>"
      by (subst place_objects_ok(1) [OF valid place]) (auto simp: object_live move_home_def)
    then show ?thesis by (simp add: table_file_ok is_table_body_def)
  next
    case False
    with assms(3) have "bget (pl_children pl) v = Some w" by (auto simp: move_home_def split: option.splits if_splits)
    with n split_partitions(4) [OF assms(1)] show ?thesis by (simp add: bhas_iff)
  qed
qed

lemma conversion_owner_column:
  assumes "split_parts ids pl = Inr parts" "conversion_owner ids (v, c) = Inr w"
  shows "\<exists>d. bget (ids_columns ids) v = Some d \<and> column_owner ids (tp_files parts) (v, d) = Inr w"
  using assms(2) split_columns(4) [OF assms(1)]
  by (fastforce simp: conversion_owner_def column_owner_def result_simps)

lemma column_owner_table: "column_owner ids files p = Inr w \<Longrightarrow> table_file files w = Inr ()"
  by (auto simp: column_owner_def result_simps split: prod.splits)

lemma conversion_owner_table:
  assumes "split_parts ids pl = Inr parts" "conversion_owner ids (v, c) = Inr w"
  shows "table_file (tp_files parts) w = Inr ()"
  using conversion_owner_column [OF assms] column_owner_table by blast

lemma file_intents_written:
  assumes W: "written_at ids pl parts w f"
  shows "(v, m) \<in> set (from_table (filled pl parts w f) bd_moves) \<longleftrightarrow> bget (ids_moves ids) v = Some m \<and> move_home pl v = Some w"
    "(v, c) \<in> set (from_table (filled pl parts w f) bd_conversions) \<longleftrightarrow>
       bget (ids_conversions ids) v = Some c \<and> conversion_owner ids (v, c) = Inr w"
    "(v, r) \<in> set (from_table (filled pl parts w f) bd_rebuilds) \<longleftrightarrow> bget (ids_rebuilds ids) v = Some r \<and> rb_replacement_root r = w"
proof -
  note facts = written_at_facts [OF W]
  note intents = split_intents [OF facts(2)]
  show "(v, m) \<in> set (from_table (filled pl parts w f) bd_moves) \<longleftrightarrow> bget (ids_moves ids) v = Some m \<and> move_home pl v = Some w"
    using table_file_written [OF W move_home_table [OF facts(2)], of v m] intents(1) [of v m w]
    by (cases "tf_body f") (auto simp: from_table_filled from_table_cases)
  have "\<exists>t. tf_body f = BodyTable t" if "conversion_owner ids (v, c) = Inr w"
    using conversion_owner_column [OF facts(2) that] column_owner_table table_file_written [OF W] by blast
  with intents(2) [of v c w] show "(v, c) \<in> set (from_table (filled pl parts w f) bd_conversions) \<longleftrightarrow>
       bget (ids_conversions ids) v = Some c \<and> conversion_owner ids (v, c) = Inr w"
    by (cases "tf_body f") (auto simp: from_table_filled from_table_cases)
  have "table_file (tp_files parts) w = Inr ()" if "bget (ids_rebuilds ids) v = Some r" "rb_replacement_root r = w"
    using intents(9) that by blast
  with intents(3) [of v r w] table_file_written [OF W]
  show "(v, r) \<in> set (from_table (filled pl parts w f) bd_rebuilds) \<longleftrightarrow> bget (ids_rebuilds ids) v = Some r \<and> rb_replacement_root r = w"
    by (cases "tf_body f") (auto simp: from_table_filled from_table_cases)
qed

section \<open>Claims\<close>

text \<open>The file a uid is written to, by the section it is claimed in.\<close>

definition identity_home :: "ids_file \<Rightarrow> placement \<Rightarrow> tree_parts \<Rightarrow> uid \<Rightarrow> uid option" where
  "identity_home ids pl parts v =
     (if primary pl v then Some v
      else case bget (ids_columns ids) v of
        Some c \<Rightarrow> (case column_owner ids (tp_files parts) (v, c) of Inr w \<Rightarrow> Some w | Inl _ \<Rightarrow> None)
      | None \<Rightarrow>
          (case bget (ids_tombstones ids) v of
             Some t \<Rightarrow>
               (case tomb_home pl ids (tp_files parts) (v, t) of
                  Inr (InColumns w) \<Rightarrow> Some w | Inr (InPartitions w) \<Rightarrow> Some w | _ \<Rightarrow> None)
           | None \<Rightarrow> bget (pl_children pl) v))"

lemma columns_not_primary:
  assumes "ids_valid ids" "place_objects pl ids = Inr files" "uid_kind_of v = ColumnUid"
  shows "\<not> primary pl v"
proof
  assume "primary pl v"
  then obtain f where "bget files v = Some f" using place_objects_ok(3) [OF assms(1,2)] by (auto simp: bhas_iff)
  then have "object_at ids v (tf_body f) (tf_dropped f)" using place_objects_ok(1) [OF assms(1,2)] by blast
  from object_kind [OF assms(1) this] assms(3) show False by (cases "tf_body f") simp_all
qed

lemma tomb_home_kinds:
  "tomb_home pl ids files (v, t) = Inr (InColumns w) \<Longrightarrow> uid_kind_of v = ColumnUid"
  "tomb_home pl ids files (v, t) = Inr (InPartitions w) \<Longrightarrow> uid_kind_of v = TableUid \<and> \<not> primary pl v"
  by (auto simp: tomb_home_def result_simps split: if_splits)

lemma column_rec_home:
  assumes S: "split_parts ids pl = Inr parts" and r: "(v, r) \<in> set (bget_list (tp_columns parts) w)"
  shows "identity_home ids pl parts v = Some w \<and> uid_kind_of v = ColumnUid \<and> \<not> primary pl v \<and> contains_uid ids v"
proof -
  from S have valid: "ids_valid ids" and place: "place_objects pl ids = Inr (tp_files parts)"
    by (rule split_parts_cases, simp)+
  show ?thesis
  proof (cases r)
    case (Live n)
    with r obtain c where c: "bget (ids_columns ids) v = Some c" "column_owner ids (tp_files parts) (v, c) = Inr w"
      by (auto simp: split_columns(1) [OF S])
    then have "uid_kind_of v = ColumnUid" using valid_kinds(2) [OF valid] by blast
    with columns_not_primary [OF valid place] c show ?thesis by (simp add: identity_home_def contains_uid_def bhas_iff)
  next
    case (Dead t)
    with r have t: "bget (ids_tombstones ids) v = Some t" "tomb_home pl ids (tp_files parts) (v, t) = Inr (InColumns w)"
      by (auto simp: split_columns(2) [OF S])
    with tomb_home_kinds(1) columns_not_primary [OF valid place] valid_dead [OF valid t(1)]
    show ?thesis by (auto simp: identity_home_def contains_uid_def bhas_iff)
  qed
qed

lemma partition_rec_home:
  assumes S: "split_parts ids pl = Inr parts" and once: "placed_once ids pl"
    and r: "(v, r) \<in> set (bget_list (tp_partitions parts) w)"
  shows "identity_home ids pl parts v = Some w \<and> uid_kind_of v = TableUid \<and> \<not> primary pl v \<and> contains_uid ids v"
proof -
  from S have valid: "ids_valid ids" by (rule split_parts_cases)
  show ?thesis
  proof (cases r)
    case (Live n)
    with r obtain m where m: "bget (pl_children pl) v = Some w" "bget (ids_tables ids) v = Some m"
      by (auto simp: split_partitions(1) [OF S])
    then have "uid_kind_of v = TableUid" "bget (ids_columns ids) v = None" "bget (ids_tombstones ids) v = None"
      using valid_kinds [OF valid, of v] valid_dead(1) [OF valid, of v] by (auto, metis option.exhaust uid_kind.distinct(11))+
    with once m show ?thesis by (auto simp: identity_home_def placed_once_def contains_uid_def bhas_iff primary_def)
  next
    case (Dead t)
    with r have t: "bget (ids_tombstones ids) v = Some t" "tomb_home pl ids (tp_files parts) (v, t) = Inr (InPartitions w)"
      by (auto simp: split_partitions(2) [OF S])
    with tomb_home_kinds(2) valid_dead [OF valid t(1)]
    show ?thesis by (auto simp: identity_home_def contains_uid_def bhas_iff)
  qed
qed

lemma in_pair_tag: "(sec, v) \<in> (\<lambda>p. (sec', fst p)) ` S \<longleftrightarrow> sec = sec' \<and> v \<in> fst ` S"
  by (auto simp: image_iff)

lemma set_file_claims:
  "(sec, v) \<in> set (file_claims (filled pl parts w f)) \<longleftrightarrow>
     sec = ''identity'' \<and> (v = tf_uid f \<or> v \<in> fst ` set (from_table (filled pl parts w f) bd_columns)
                              \<or> v \<in> fst ` set (from_table (filled pl parts w f) bd_partitions))
     \<or> sec = ''moves'' \<and> v \<in> fst ` set (from_table (filled pl parts w f) bd_moves)
     \<or> sec = ''conversions'' \<and> v \<in> fst ` set (from_table (filled pl parts w f) bd_conversions)
     \<or> sec = ''rebuilds'' \<and> v \<in> fst ` set (from_table (filled pl parts w f) bd_rebuilds)"
proof -
  have eq: "set (file_claims g) = {(''identity'', tf_uid g)}
      \<union> (\<lambda>p. (''identity'', fst p)) ` set (from_table g bd_columns) \<union> (\<lambda>p. (''identity'', fst p)) ` set (from_table g bd_partitions)
      \<union> (\<lambda>p. (''moves'', fst p)) ` set (from_table g bd_moves)
      \<union> (\<lambda>p. (''conversions'', fst p)) ` set (from_table g bd_conversions)
      \<union> (\<lambda>p. (''rebuilds'', fst p)) ` set (from_table g bd_rebuilds)" for g
    by (cases "tf_body g") (simp_all add: file_claims_def from_table_cases Un_assoc)
  show ?thesis
    unfolding eq Un_iff in_pair_tag singleton_iff prod.inject filled_simps
    by (simp only: conj_disj_distribL disj_assoc)
qed

lemma identity_claim_home:
  assumes W: "written_at ids pl parts w f" and once: "placed_once ids pl"
    and v: "(''identity'', v) \<in> set (file_claims (filled pl parts w f))"
  shows "identity_home ids pl parts v = Some w"
proof -
  note facts = written_at_facts [OF W]
  have "v = w \<or> (\<exists>r. (v, r) \<in> set (bget_list (tp_columns parts) w)) \<or> (\<exists>r. (v, r) \<in> set (bget_list (tp_partitions parts) w))"
    using v unfolding set_file_claims by (cases "tf_body f") (auto simp: from_table_filled from_table_cases facts(7))
  moreover have "identity_home ids pl parts w = Some w" by (simp add: identity_home_def facts(5))
  ultimately show ?thesis
    using column_rec_home [OF facts(2)] partition_rec_home [OF facts(2) once] by blast
qed

lemma claims_apart:
  assumes W: "written_at ids pl parts w f" and W': "written_at ids pl parts w' f'" and once: "placed_once ids pl"
    and "w \<noteq> w'"
  shows "set (file_claims (filled pl parts w f)) \<inter> set (file_claims (filled pl parts w' f')) = {}"
proof -
  note intents = file_intents_written [OF W] and intents' = file_intents_written [OF W']
  have False if "(sec, v) \<in> set (file_claims (filled pl parts w f))" "(sec, v) \<in> set (file_claims (filled pl parts w' f'))" for sec v
  proof (cases "sec = ''identity''")
    case True
    with that identity_claim_home [OF W once] identity_claim_home [OF W' once] assms(4) show False by fastforce
  next
    case False
    with that have "w = w'" unfolding set_file_claims
      by (elim disjE) (auto simp: intents intents')
    with assms(4) show False ..
  qed
  then show ?thesis by auto
qed

lemma claims_distinct:
  assumes W: "written_at ids pl parts w f" and once: "placed_once ids pl"
  shows "distinct (file_claims (filled pl parts w f))"
proof (cases "tf_body f")
  case (BodyTable t)
  note facts = written_at_facts [OF W]
  have "w \<notin> fst ` set (bget_list (tp_columns parts) w)" "w \<notin> fst ` set (bget_list (tp_partitions parts) w)"
    "fst ` set (bget_list (tp_columns parts) w) \<inter> fst ` set (bget_list (tp_partitions parts) w) = {}"
    using facts(5) column_rec_home [OF facts(2)] partition_rec_home [OF facts(2) once] by fastforce+
  with split_columns(3) [OF facts(2)] split_partitions(3) [OF facts(2)] split_intents(4-6) [OF facts(2)]
  show ?thesis
    by (auto simp: file_claims_def from_table_filled from_table_cases BodyTable distinct_fst_tagged facts(7))
qed (simp_all add: file_claims_def from_table_filled from_table_cases)

section \<open>Everything is written\<close>

lemma rebuild_key_kind:
  assumes W: "written_at ids pl parts w f" and r: "bget (ids_rebuilds ids) v = Some r" "rb_replacement_root r = w"
  shows "uid_kind_of v = TableUid \<and> contains_uid ids v"
proof -
  note facts = written_at_facts [OF W]
  from facts(1) r have rv: "rebuild_valid ids (v, r)" by (simp add: ids_valid_def rebuilds_valid_def)
  then have root: "bget (rb_continues r) w = Some v" and whole: "lineage_whole r"
    and kinds: "kinds_valid (as_ids (rb_source r))" "kinds_valid (as_ids (rb_replacement r))"
    and dead: "\<forall>u \<in> set (members (rb_source r)). bhas (ids_tombstones ids) u"
    using r(2) by (simp_all add: rebuild_valid_def base_valid_def)
  have "table_file (tp_files parts) w = Inr ()" using split_intents(9) [OF facts(2) r(1)] r(2) by simp
  then obtain t where "tf_body f = BodyTable t" using table_file_written [OF W] by blast
  with object_kind [OF facts(1,6)] have "uid_kind_of w = TableUid" by simp
  moreover have "\<not> bhas (ri_columns (rb_replacement r)) w" if "uid_kind_of w = TableUid"
    using kinds(2) that by (auto simp: kinds_valid_def kinded_def as_ids_def ids_default_def)
  ultimately have "bhas (ri_tables (rb_source r)) v"
    using whole root by (auto simp: lineage_whole_def)
  with kinds(1) dead show ?thesis
    by (auto simp: kinds_valid_def kinded_def as_ids_def ids_default_def members_def set_bkeys contains_uid_def)
qed

lemma sections_written:
  assumes W: "written_at ids pl parts w f" and once: "placed_once ids pl" and typed: "ids_typed ids"
  shows "sections_ok (filled pl parts w f)"
proof (cases "tf_body f")
  case (BodyTable t)
  note facts = written_at_facts [OF W]
  have wf: "contains_uid ids v \<Longrightarrow> uid_wf v" for v using typed by (simp add: ids_typed_def)
  have columns: "section_ok ColumnUid (bget_list (tp_columns parts) w)"
    using split_columns(3) [OF facts(2)] column_rec_home [OF facts(2)] wf by (auto simp: section_ok_def)
  have partitions: "section_ok TableUid (bget_list (tp_partitions parts) w)"
    using split_partitions(3) [OF facts(2)] partition_rec_home [OF facts(2) once] wf by (auto simp: section_ok_def)
  have "uid_kind_of v = TableUid \<and> contains_uid ids v" if "bget (ids_moves ids) v = Some m" for v m
  proof -
    have "bhas (ids_tables ids) v" using facts(1) that by (auto simp: ids_valid_def base_valid_def intents_valid_def bhas_iff)
    then show ?thesis using valid_kinds(1) [OF facts(1), of v] by (auto simp: contains_uid_def bhas_iff)
  qed
  then have moves: "section_ok TableUid (bget_list (tp_moves parts) w)"
    using split_intents(1,4) [OF facts(2)] wf by (auto simp: section_ok_def)
  have "uid_kind_of v = ColumnUid \<and> contains_uid ids v" if "bget (ids_conversions ids) v = Some c" for v c
  proof -
    have "bhas (ids_columns ids) v" using facts(1) that by (auto simp: ids_valid_def base_valid_def intents_valid_def)
    then show ?thesis using valid_kinds(2) [OF facts(1), of v] by (auto simp: contains_uid_def bhas_iff)
  qed
  then have conversions: "section_ok ColumnUid (bget_list (tp_conversions parts) w)"
    using split_intents(2,5) [OF facts(2)] wf by (auto simp: section_ok_def)
  have rebuilds: "section_ok TableUid (bget_list (tp_rebuilds parts) w)"
    using split_intents(3,6) [OF facts(2)] rebuild_key_kind [OF W] wf by (auto simp: section_ok_def)
  show ?thesis
    using columns partitions moves conversions rebuilds
    by (simp add: sections_ok_def filled_def fill_body_def BodyTable section_ok_def)
qed (simp_all add: sections_ok_def filled_def fill_body_def)

lemma place_written:
  assumes S: "split_parts ids pl = Inr parts"
    and checked: "\<And>u f. bget (tp_files parts) u = Some f \<Longrightarrow> \<exists>path. bget (pl_paths pl) u = Some path \<and> check_file path (filled pl parts u f) = Inr ()"
  shows "bget (tp_files parts) w = Some f \<Longrightarrow> written_at ids pl parts w f"
    and "primary pl w \<Longrightarrow> \<exists>f. written_at ids pl parts w f"
    and "table_file (tp_files parts) w = Inr () \<Longrightarrow> \<exists>f. written_at ids pl parts w f"
proof -
  from S have valid: "ids_valid ids" and place: "place_objects pl ids = Inr (tp_files parts)"
    by (rule split_parts_cases, simp)+
  show W: "written_at ids pl parts w f" if "bget (tp_files parts) w = Some f" for w f
    using S that checked [OF that] by (auto simp: written_at_def)
  show "primary pl w \<Longrightarrow> \<exists>f. written_at ids pl parts w f"
    using place_objects_ok(3) [OF valid place] W unfolding bhas_iff by blast
  show "table_file (tp_files parts) w = Inr () \<Longrightarrow> \<exists>f. written_at ids pl parts w f"
    using W by (auto simp: table_file_ok)
qed

lemma object_written:
  assumes S: "split_parts ids pl = Inr parts" "object_at ids u b d"
  shows "primary pl u \<or> is_table_body b \<and> (\<exists>p. bget (pl_children pl) u = Some p)"
proof -
  from S(1) have "ids_valid ids" "place_objects pl ids = Inr (tp_files parts)" by (rule split_parts_cases, simp)+
  from place_objects_ok(2) [OF this S(2)] show ?thesis by (auto simp: bhas_iff)
qed

definition split_into :: "ids_file \<Rightarrow> placement \<Rightarrow> (string \<times> tree_file) list \<Rightarrow> tree_parts \<Rightarrow> bool" where
  "split_into ids pl files parts \<longleftrightarrow>
     split_parts ids pl = Inr parts \<and> distinct (map fst files)
     \<and> (\<forall>path g. (path, g) \<in> set files \<longleftrightarrow>
          (\<exists>u f. bget (tp_files parts) u = Some f \<and> bget (pl_paths pl) u = Some path \<and> g = filled pl parts u f))
     \<and> (\<forall>u f. bget (tp_files parts) u = Some f \<longrightarrow>
          (\<exists>path. bget (pl_paths pl) u = Some path \<and> check_file path (filled pl parts u f) = Inr ()))"

lemma split_into_ex: "split_files ids pl = Inr files \<Longrightarrow> \<exists>parts. split_into ids pl files parts"
  unfolding split_into_def by (erule split_files_ok) blast

lemma split_into_file:
  assumes "split_into ids pl files parts" "(path, g) \<in> set files"
  shows "\<exists>w f. written_at ids pl parts w f \<and> bget (pl_paths pl) w = Some path \<and> g = filled pl parts w f
    \<and> check_file path g = Inr ()"
  using assms unfolding split_into_def written_at_def by fastforce

lemma split_into_written:
  assumes "split_into ids pl files parts" "written_at ids pl parts w f"
  shows "\<exists>path. (path, filled pl parts w f) \<in> set files"
  using assms unfolding split_into_def written_at_def by fast

lemma split_into_exists:
  assumes "split_into ids pl files parts"
  shows "primary pl w \<Longrightarrow> \<exists>f. written_at ids pl parts w f"
    and "table_file (tp_files parts) w = Inr () \<Longrightarrow> \<exists>f. written_at ids pl parts w f"
  using place_written(2,3) [of ids pl parts w] assms unfolding split_into_def by blast+

lemma files_collect:
  assumes I: "split_into ids pl files parts"
    and iff: "\<And>w f v x. written_at ids pl parts w f \<Longrightarrow> (v, x) \<in> set (g (filled pl parts w f)) \<longleftrightarrow> bget m v = Some x \<and> Q v x w"
    and ex: "\<And>v x. bget m v = Some x \<Longrightarrow> \<exists>w f. written_at ids pl parts w f \<and> Q v x w"
  shows "(\<Union>(_, f) \<in> set files. set (g f)) = set (entries m)"
proof (intro set_eqI iffI)
  fix vx assume "vx \<in> (\<Union>(_, f) \<in> set files. set (g f))"
  then obtain path f' where "(path, f') \<in> set files" "vx \<in> set (g f')" by auto
  with split_into_file [OF I] iff show "vx \<in> set (entries m)" by (cases vx) (metis entries_bget)
next
  fix vx assume m: "vx \<in> set (entries m)"
  obtain v x where "vx = (v, x)" by (cases vx)
  with m have vx: "vx = (v, x)" "bget m v = Some x" by (simp_all add: entries_bget)
  with ex obtain w f where "written_at ids pl parts w f" "Q v x w" by blast
  with iff vx split_into_written [OF I] show "vx \<in> (\<Union>(_, f) \<in> set files. set (g f))" by fastforce
qed

lemma split_holds:
  assumes I: "split_into ids pl files parts" and typed: "ids_typed ids"
  shows "files_hold files ids"
proof -
  from I have S: "split_parts ids pl = Inr parts" by (simp add: split_into_def)
  then have valid: "ids_valid ids" by (rule split_parts_cases)
  note W = split_into_exists [OF I]
  have obj: "primary pl u \<or> is_table_body b \<and> (\<exists>p. bget (pl_children pl) u = Some p)" if "object_at ids u b d" for u b d
    by (rule object_written [OF S that])
  have plain: "primary pl u" if "object_at ids u b d" "\<not> is_table_body b" for u b d using obj that by blast
  show ?thesis
    unfolding files_hold_def
  proof (intro conjI)
    show "(\<Union>(_, f) \<in> set files. set (file_tables f)) = set (entries (ids_tables ids))"
    proof (rule files_collect [where g = file_tables and Q = "\<lambda>v x w. v = w \<or> bget (pl_children pl) v = Some w", OF I file_tables_written])
      fix v n assume n: "bget (ids_tables ids) v = Some n"
      then have "object_at ids v (BodyTable (new_table_body (table_raw n))) None" by (simp add: object_live)
      from obj [OF this] show "\<exists>w f. written_at ids pl parts w f \<and> (v = w \<or> bget (pl_children pl) v = Some w)"
        using W split_partitions(4) [OF S, of v] n unfolding bhas_iff by blast
    qed
    show "(\<Union>(_, f) \<in> set files. set (file_columns f)) = set (entries (ids_columns ids))"
    proof (rule files_collect [where g = file_columns and Q = "\<lambda>v x w. column_owner ids (tp_files parts) (v, x) = Inr w", OF I file_columns_written])
      fix v x assume "bget (ids_columns ids) v = Some x"
      then show "\<exists>w f. written_at ids pl parts w f \<and> column_owner ids (tp_files parts) (v, x) = Inr w"
        using split_columns(4) [OF S] W(2) [OF column_owner_table] by metis
    qed
    show "(\<Union>(_, f) \<in> set files. set (file_tombstones f)) = set (entries (ids_tombstones ids))"
    proof (rule files_collect [where g = file_tombstones and Q = "\<lambda>v t w. v = w \<or> tomb_home pl ids (tp_files parts) (v, t) \<in> {Inr (InColumns w), Inr (InPartitions w)}", OF I file_tombstones_written])
      fix v t assume t: "bget (ids_tombstones ids) v = Some t"
      obtain place where place: "tomb_home pl ids (tp_files parts) (v, t) = Inr place" using split_partitions(5) [OF S t] by blast
      have "primary pl v" if "place = OwnFile"
      proof (cases "tomb_body (v, t)")
        case None
        with place that show ?thesis by (cases "uid_kind_of v") (auto simp: tomb_body_def tomb_home_def result_simps)
      next
        case (Some ubd)
        then obtain b where b: "tomb_body (v, t) = Some (v, b, Some t)" by (cases ubd) (auto dest: tomb_body_uid)
        with t have "object_at ids v b (Some t)" by (auto simp: object_at_def)
        with plain place that b show ?thesis
          by (cases "uid_kind_of v") (fastforce simp: tomb_body_def tomb_home_def result_simps is_table_body_def split: if_splits)+
      qed
      with place W show "\<exists>w f. written_at ids pl parts w f
          \<and> (v = w \<or> tomb_home pl ids (tp_files parts) (v, t) \<in> {Inr (InColumns w), Inr (InPartitions w)})"
        by (cases place) (fastforce simp: tomb_home_def result_simps split: if_splits)+
    qed
    show "(\<Union>(_, f) \<in> set files. set (from_table f bd_moves)) = set (entries (ids_moves ids))"
    proof (rule files_collect [where g = "\<lambda>f. from_table f bd_moves" and Q = "\<lambda>v _ w. move_home pl v = Some w", OF I file_intents_written(1)])
      fix v x assume "bget (ids_moves ids) v = Some x"
      then show "\<exists>w f. written_at ids pl parts w f \<and> move_home pl v = Some w"
        using split_intents(7) [OF S] W(2) [OF move_home_table [OF S]] by metis
    qed
    show "(\<Union>(_, f) \<in> set files. set (from_table f bd_conversions)) = set (entries (ids_conversions ids))"
    proof (rule files_collect [where g = "\<lambda>f. from_table f bd_conversions" and Q = "\<lambda>v c w. conversion_owner ids (v, c) = Inr w", OF I file_intents_written(2)])
      fix v x assume "bget (ids_conversions ids) v = Some x"
      then show "\<exists>w f. written_at ids pl parts w f \<and> conversion_owner ids (v, x) = Inr w"
        using split_intents(8) [OF S] W(2) [OF conversion_owner_table [OF S]] by metis
    qed
    show "(\<Union>(_, f) \<in> set files. set (from_table f bd_rebuilds)) = set (entries (ids_rebuilds ids))"
    proof (rule files_collect [where g = "\<lambda>f. from_table f bd_rebuilds" and Q = "\<lambda>_ r w. rb_replacement_root r = w", OF I file_intents_written(3)])
      fix v x assume "bget (ids_rebuilds ids) v = Some x"
      then show "\<exists>w f. written_at ids pl parts w f \<and> rb_replacement_root x = w"
        using W(2) [OF split_intents(9) [OF S]] by metis
    qed
    show "(\<Union>(_, f) \<in> set files. set (file_roles f)) = set (entries (ids_roles ids))"
    proof (rule files_collect [where g = file_roles and Q = "\<lambda>v _ w. v = w", OF I])
      fix v x assume "bget (ids_roles ids) v = Some x"
      then have "object_at ids v (BodyRole x) None" by (simp add: object_live)
      from W(1) [OF plain [OF this]] show "\<exists>w f. written_at ids pl parts w f \<and> v = w" by (auto simp: is_table_body_def)
    qed (auto simp: file_plain_written(1) [OF _ typed])
    show "(\<Union>(_, f) \<in> set files. set (file_types f)) = set (entries (ids_types ids))"
    proof (rule files_collect [where g = file_types and Q = "\<lambda>v _ w. v = w", OF I])
      fix v x assume "bget (ids_types ids) v = Some x"
      then have "object_at ids v (BodyType (type_raw x)) None" by (simp add: object_live)
      from W(1) [OF plain [OF this]] show "\<exists>w f. written_at ids pl parts w f \<and> v = w" by (auto simp: is_table_body_def)
    qed (auto simp: file_plain_written(2) [OF _ typed])
    show "(\<Union>(_, f) \<in> set files. set (file_extensions f)) = set (entries (ids_extensions ids))"
    proof (rule files_collect [where g = file_extensions and Q = "\<lambda>v _ w. v = w", OF I])
      fix v x assume "bget (ids_extensions ids) v = Some x"
      then have "object_at ids v (BodyExtension x) None" by (simp add: object_live)
      from W(1) [OF plain [OF this]] show "\<exists>w f. written_at ids pl parts w f \<and> v = w" by (auto simp: is_table_body_def)
    qed (auto simp: file_plain_written(3) [OF _ typed])
    show "ids_version ids = CURRENT_VERSION" using valid by (simp add: ids_valid_def base_valid_def)
  qed
qed

lemma bcollect_distinct: "distinct (map fst ps) \<Longrightarrow> set (entries (bcollect ps)) = set ps"
  by (auto simp: entries_bget bget_bcollect map_of_rev)

lemma bcollect_map: "bcollect (map (\<lambda>(k, v). (k, g v)) ps) = bmap g (bcollect ps)"
  by (rule btree_eqI, rule ext) (simp add: bget_bcollect bget_bmap rev_map map_of_map)

lemma split_claims_apart:
  assumes I: "split_into ids pl files parts" and once: "placed_once ids pl"
  shows "disjoint_claims files"
proof -
  have "set (file_claims f) \<inter> set (file_claims g) = {}"
    if "(p, f) \<in> set files" "(q, g) \<in> set files" "p \<noteq> q" for p q f g
    using split_into_file [OF I that(1)] split_into_file [OF I that(2)] that(3) claims_apart [OF _ _ once] by (metis option.inject)
  moreover have "distinct (file_claims f)" if "(p, f) \<in> set files" for p f
    using split_into_file [OF I that] claims_distinct [OF _ once] by blast
  ultimately show ?thesis unfolding disjoint_claims_def by blast
qed

lemma split_files_hold_perm: "files_hold files ids \<Longrightarrow> set files' = set files \<Longrightarrow> files_hold files' ids"
  by (simp add: files_hold_def)

definition uid_ok :: "uid \<Rightarrow> bool" where
  "uid_ok u = is_ok (uid_from_str (as_str u))"

lemma uid_ok_iff: "uid_ok u \<longleftrightarrow> uid_wf u"
  by (simp add: uid_ok_def uid_wf_code)

section \<open>No index is missing\<close>

lemma try_fold_err: "try_fold g s xs = Inl e \<Longrightarrow> \<exists>s x. x \<in> set xs \<and> g s x = Inl e"
proof (induction xs arbitrary: s)
  case (Cons a xs)
  show ?case
  proof (cases "g s a")
    case (Inl e')
    with Cons.prems have "g s a = Inl e" by simp
    then show ?thesis by (intro exI [of _ s] exI [of _ a]) simp
  next
    case (Inr s')
    with Cons.prems have "try_fold g s' xs = Inl e" by simp
    from Cons.IH [OF this] show ?thesis by (metis list.set_intros(2))
  qed
qed simp

lemma try_each_err_in: "try_each g xs = Inl e \<Longrightarrow> \<exists>x \<in> set xs. g x = Inl e"
  by (induction xs) (auto simp: result_simps)

lemma push_each_err: "push_each home record m xs = Inl e \<Longrightarrow> \<exists>x \<in> set xs. home x = Inl e"
  unfolding push_each_def by (drule try_fold_err) (auto simp: result_simps)

lemma no_such_ok: "no_such bad err recs \<noteq> Inl Panicked" if "\<And>u. err u \<noteq> Panicked"
  using that by (auto simp: no_such_def split: option.splits)

lemma name_checks_no_panic:
  "nonempty_name p n \<noteq> Inl Panicked" "readable_table p n \<noteq> Inl Panicked" "readable_type p n \<noteq> Inl Panicked"
  "readable_column p n \<noteq> Inl Panicked"
  by (auto simp: nonempty_name_def readable_table_def readable_type_def readable_column_def result_simps)

lemma check_rec_no_panic: "(\<And>n. live n \<noteq> Inl Panicked) \<Longrightarrow> check_rec live p r \<noteq> Inl Panicked"
  by (auto simp: check_rec_def name_checks_no_panic split: ids_rec.splits)

lemma check_recs_no_panic: "(\<And>n. live n \<noteq> Inl Panicked) \<Longrightarrow> try_each (check_rec live p) rs \<noteq> Inl Panicked"
  using check_rec_no_panic [of live p] try_each_err_in [of "check_rec live p" rs Panicked] by metis

lemma check_file_no_panic: "check_file path f \<noteq> Inl Panicked"
proof -
  have "check_file_names path f \<noteq> Inl Panicked"
    by (auto simp: check_file_names_def result_simps Let_def name_checks_no_panic check_recs_no_panic
      split: option.splits tree_body.splits if_splits)
  then show ?thesis
    by (auto simp: check_file_def result_simps Let_def no_such_ok split: tree_body.splits)
qed

lemma split_parts_no_panic: "split_parts ids pl \<noteq> Inl Panicked"
proof
  assume panic: "split_parts ids pl = Inl Panicked"
  have conversion: "conversion_owner ids p \<noteq> Inl Panicked" if valid: "ids_valid ids" and "p \<in> set (entries (ids_conversions ids))" for p
  proof -
    obtain u c where p: "p = (u, c)" by (cases p)
    with that have "bhas (ids_columns ids) u"
      by (auto simp: ids_valid_def base_valid_def intents_valid_def entries_bget)
    then obtain d where d: "bget (ids_columns ids) u = Some d" by (auto simp: bhas_iff)
    obtain t where "bget (ids_tables ids) t = Some (cr_table d)" using valid_column_table [OF valid d] by blast
    then show ?thesis by (simp add: p d conversion_owner_def live_by_name_iff [OF valid, symmetric])
  qed
  have "place_objects pl ids \<noteq> Inl Panicked"
    by (auto simp: place_objects_def result_simps place_object_def split: option.splits if_splits dest!: try_fold_err)
  moreover have "column_owner ids files p \<noteq> Inl Panicked" "tomb_home pl ids files q \<noteq> Inl Panicked" "table_file files u \<noteq> Inl Panicked"
    for files p q u
    by (auto simp: column_owner_def tomb_home_def table_file_def column_tomb_owner_def result_simps split: option.splits prod.splits if_splits sum.splits list.splits)
  ultimately show False
    using panic conversion
    by (auto simp: split_parts_def result_simps validate_ok push_tomb_def push_children_def
      split: option.splits prod.splits dest!: push_each_err try_fold_err)
qed

section \<open>Properties\<close>



text \<open>
  C35. \<open>split\<close> never indexes a map at a missing key: the path of a file it writes, the column of a
  conversion and the table of that column are always there, for every mapping and placement,
  consistent or not.
\<close>

theorem split_never_panics: "split_tree js ids pl \<noteq> Inl Panicked"
proof
  assume "split_tree js ids pl = Inl Panicked"
  then obtain parts where S: "split_parts ids pl = Inr parts"
    and panic: "try_fold (write_file pl parts) (bempty, []) (entries (tp_files parts)) = Inl Panicked"
    using split_parts_no_panic by (auto simp: split_tree_def split_files_def result_simps)
  from try_fold_err [OF panic] obtain st u f where f: "bget (tp_files parts) u = Some f"
    and w: "write_file pl parts st (u, f) = Inl Panicked" by (auto simp: entries_bget)
  from S have "ids_valid ids" "place_objects pl ids = Inr (tp_files parts)" by (rule split_parts_cases, simp)+
  from place_objects_ok(1) [OF this] f have "bhas (pl_paths pl) u" by (simp add: primary_def)
  with w show False
    by (auto simp: write_file_def result_simps Let_def bhas_iff check_file_no_panic split: prod.splits option.splits)
qed

text \<open>
  Without the condition on the placement the claim of the source comment fails: \<open>split\<close> accepts
  a placement that gives a live partition child a file of its own and a parent as well, writes
  the child in both files, and the loop of \<open>assemble\<close> refuses the files it wrote.
\<close>

lemma placed_twice_is_written_but_refused:
  "(case split_files sample_tree_ids sample_twice of
      Inl _ \<Rightarrow> False
    | Inr files \<Rightarrow>
        try_fold (\<lambda>st (path, f). assemble_file path f st) (ids_default, bempty) (entries (bcollect files))
        = Inl (DuplicateUid (Uid ''t_000002'') ''dbo/customer.json'' ''dbo/customer_p1.json''))"
  by code_simp

end
