(* ===== verification/Record_Order.thy ===== *)
theory Record_Order
  imports Ids_Split
begin

text \<open>
  The order of a table's column records after its declaration changed (\<open>next_order\<close>): the
  live records take the declared order, tombstones keep their places.
\<close>

section \<open>Filling slots\<close>

fun fill :: "('a \<Rightarrow> bool) \<Rightarrow> 'a list \<Rightarrow> 'a list \<Rightarrow> 'a list" where
  "fill P [] ds = []"
| "fill P (x # xs) ds =
     (if P x then case ds of [] \<Rightarrow> x # xs | d # ds' \<Rightarrow> d # fill P xs ds' else x # fill P xs ds)"

lemma slots_Cons:
  "filter (\<lambda>i. P ((x # xs) ! i)) [0..<length (x # xs)]
   = (if P x then [0] else []) @ map Suc (filter (\<lambda>i. P (xs ! i)) [0..<length xs])"
proof -
  have "[0..<length (x # xs)] = 0 # map Suc [0..<length xs]"
    by (simp add: map_Suc_upt upt_conv_Cons del: upt_Suc)
  then show ?thesis by (simp add: filter_map comp_def)
qed

lemma update_shift:
  "foldl (\<lambda>order (slot, u). order[slot := u]) (x # xs) (zip (map Suc is) ds)
   = x # foldl (\<lambda>order (slot, u). order[slot := u]) xs (zip is ds)"
proof (induction "is" arbitrary: xs ds)
  case (Cons i "is")
  then show ?case by (cases ds) simp_all
qed simp

lemma update_slots:
  "foldl (\<lambda>order (slot, u). order[slot := u]) xs (zip (filter (\<lambda>i. P (xs ! i)) [0..<length xs]) ds) = fill P xs ds"
proof (induction xs arbitrary: ds)
  case (Cons x xs)
  show ?case
  proof (cases "P x")
    case True
    then show ?thesis by (cases ds) (simp_all only: slots_Cons, simp_all add: update_shift Cons.IH)
  next
    case False
    then show ?thesis by (simp only: slots_Cons) (simp add: update_shift Cons.IH)
  qed
qed simp

lemma filter_fill:
  assumes "length (filter P xs) = length ds" "\<forall>d \<in> set ds. P d"
  shows "filter P (fill P xs ds) = ds"
  using assms
proof (induction xs arbitrary: ds)
  case (Cons x xs)
  then show ?case by (cases ds) auto
qed simp

lemma filter_fill_other:
  assumes "\<forall>x. P x \<longrightarrow> \<not> Q x" "\<forall>d \<in> set ds. P d"
  shows "filter Q (fill P xs ds) = filter Q xs"
  using assms
proof (induction xs arbitrary: ds)
  case (Cons x xs)
  then show ?case by (cases ds) auto
qed simp

lemma fill_same: "fill P xs (filter P xs) = xs"
  by (induction xs) auto

lemma length_fill [simp]: "length (fill P xs ds) = length xs"
proof (induction xs arbitrary: ds)
  case (Cons x xs)
  then show ?case by (cases ds) auto
qed simp

lemma distinct_parts: "distinct (filter P xs) \<Longrightarrow> distinct (filter (\<lambda>x. \<not> P x) xs) \<Longrightarrow> distinct xs"
proof (induction xs)
  case (Cons x xs)
  then show ?case by (cases "P x") auto
qed simp

section \<open>Inserting what is missing\<close>

lemma set_list_insert: "set (list_insert i x xs) = insert x (set xs)"
  unfolding list_insert_def by (metis append_Cons append_Nil append_take_drop_id insert_commute list.simps(15) set_append Un_insert_right)

lemma filter_list_insert: "\<not> P x \<Longrightarrow> filter P (list_insert i x xs) = filter P xs"
  by (simp add: list_insert_def) (metis append_take_drop_id filter_append)

lemma distinct_list_insert: "x \<notin> set xs \<Longrightarrow> distinct xs \<Longrightarrow> distinct (list_insert i x xs)"
  by (auto simp: list_insert_def dest: in_set_takeD in_set_dropD)
    (metis append_take_drop_id disjoint_iff distinct_append)

lemma insert_declared_facts:
  assumes "distinct order"
  shows "distinct (insert_declared declared order (i, u))"
    "set (insert_declared declared order (i, u)) = insert u (set order)"
    "\<not> P u \<Longrightarrow> filter P (insert_declared declared order (i, u)) = filter P order"
  using assms
  by (auto simp: insert_declared_def Let_def set_list_insert filter_list_insert distinct_list_insert)

lemma insert_all_facts:
  assumes "distinct order" "\<forall>p \<in> set ps. \<not> P (snd p)"
  shows "distinct (foldl (insert_declared declared) order ps)
    \<and> set (foldl (insert_declared declared) order ps) = set order \<union> snd ` set ps
    \<and> filter P (foldl (insert_declared declared) order ps) = filter P order"
  using assms
proof (induction ps arbitrary: order)
  case (Cons p ps)
  obtain i u where p: "p = (i, u)" by (cases p)
  note step = insert_declared_facts [where declared = declared and i = i and u = u, OF Cons.prems(1)]
  have "\<not> P u" using Cons.prems by (simp add: p)
  with Cons.IH [OF step(1)] Cons.prems step show ?case by (auto simp: p)
qed simp

lemma next_order_fill:
  "next_order existing declared retired
   = fill (\<lambda>u. u \<in> set declared)
       (foldl (insert_declared declared) (filter (\<lambda>u. u \<in> set declared \<or> u \<in> retired) existing)
          (zip [0..<length declared] declared)) declared"
  unfolding next_order_def Let_def by (rule update_slots [where P = "\<lambda>u. u \<in> set declared"])

lemma set_enumerated: "snd ` set (zip [0..<length xs] xs) = set xs"
  by (metis length_upt map_snd_zip minus_nat.diff_0 set_map)

section \<open>Properties\<close>

text \<open>
  C29. The order of a table's records after an edit: exactly the declared columns and the
  retired records of the file, each once; the live ones in the order of the declaration; the
  tombstones in the order they had. When the live records on disk already have the declared
  order, nothing moves.
\<close>

theorem next_order_follows_the_declaration:
  assumes "distinct existing" "distinct declared" "set declared \<inter> retired = {}"
  shows "distinct (next_order existing declared retired)
    \<and> set (next_order existing declared retired) = set declared \<union> (set existing \<inter> retired)
    \<and> filter (\<lambda>u. u \<in> set declared) (next_order existing declared retired) = declared
    \<and> filter (\<lambda>u. u \<in> retired) (next_order existing declared retired) = filter (\<lambda>u. u \<in> retired) existing
    \<and> (filter (\<lambda>u. u \<in> set declared) existing = declared \<longrightarrow>
         next_order existing declared retired = filter (\<lambda>u. u \<in> set declared \<or> u \<in> retired) existing)"
proof -
  let ?want = "\<lambda>u. u \<in> set declared" and ?kept = "filter (\<lambda>u. u \<in> set declared \<or> u \<in> retired) existing"
  define order where "order = foldl (insert_declared declared) ?kept (zip [0..<length declared] declared)"
  have out: "next_order existing declared retired = fill ?want order declared"
    by (simp add: next_order_fill order_def)
  have "\<forall>p \<in> set (zip [0..<length declared] declared). \<not> \<not> ?want (snd p)"
    using set_enumerated [of declared] by force
  from insert_all_facts [where order = ?kept and declared = declared, OF distinct_filter [OF assms(1)] this]
  have ins: "distinct order" "set order = set ?kept \<union> set declared" "filter (\<lambda>u. \<not> ?want u) order = filter (\<lambda>u. \<not> ?want u) ?kept"
    unfolding order_def set_enumerated by blast+
  have "set (filter ?want order) = set declared" using ins(2) by auto
  then have len: "length (filter ?want order) = length declared"
    using ins(1) assms(2) by (metis distinct_card distinct_filter)
  have live: "filter ?want (fill ?want order declared) = declared" by (rule filter_fill [OF len]) simp
  have rest: "filter (\<lambda>u. \<not> ?want u) (fill ?want order declared) = filter (\<lambda>u. \<not> ?want u) order"
    by (rule filter_fill_other) simp_all
  have "distinct (fill ?want order declared)"
    by (rule distinct_parts [of ?want]) (unfold live rest, rule assms(2), rule distinct_filter [OF ins(1)])
  moreover have "set (fill ?want order declared) = set declared \<union> (set existing \<inter> retired)"
  proof -
    have "set (fill ?want order declared) = set (filter ?want (fill ?want order declared)) \<union> set (filter (\<lambda>u. \<not> ?want u) (fill ?want order declared))" by auto
    also have "\<dots> = set declared \<union> (set existing \<inter> retired)" unfolding live rest ins(3) using assms(3) by auto
    finally show ?thesis .
  qed
  moreover have "filter (\<lambda>u. u \<in> retired) (fill ?want order declared) = filter (\<lambda>u. u \<in> retired) existing"
  proof -
    have "filter (\<lambda>u. u \<in> retired) xs = filter (\<lambda>u. u \<in> retired) (filter (\<lambda>u. \<not> ?want u) xs)" for xs
      using assms(3) by (induction xs) auto
    then have "filter (\<lambda>u. u \<in> retired) (fill ?want order declared) = filter (\<lambda>u. u \<in> retired) (filter (\<lambda>u. \<not> ?want u) ?kept)"
      using rest ins(3) by metis
    also have "\<dots> = filter (\<lambda>u. u \<in> retired) existing" using assms(3) by (induction existing) auto
    finally show ?thesis .
  qed
  moreover have "fill ?want order declared = ?kept" if same: "filter ?want existing = declared"
  proof -
    have all: "set declared \<subseteq> set ?kept"
    proof
      fix u assume "u \<in> set declared"
      then have "u \<in> set (filter ?want existing)" by (simp only: same)
      then show "u \<in> set ?kept" by simp
    qed
    have "foldl (insert_declared declared) ?kept ps = ?kept" if "snd ` set ps \<subseteq> set ?kept" for ps
      using that by (induction ps) (auto simp: insert_declared_def)
    with all have "order = ?kept" by (simp only: order_def set_enumerated)
    moreover have "filter ?want ?kept = filter ?want existing" by (induction existing) auto
    ultimately show ?thesis using fill_same [of ?want ?kept] by (simp only: same)
  qed
  ultimately show ?thesis unfolding out using live by blast
qed

theorem next_order_follows_the_declaration_witness:
  "next_order [Uid ''c_000001'', Uid ''c_000009'', Uid ''c_000002''] [Uid ''c_000002'', Uid ''c_000003'', Uid ''c_000001''] {Uid ''c_000009''}
     = [Uid ''c_000002'', Uid ''c_000009'', Uid ''c_000003'', Uid ''c_000001'']
   \<and> distinct (next_order [Uid ''c_000001'', Uid ''c_000009'', Uid ''c_000002''] [Uid ''c_000002'', Uid ''c_000003'', Uid ''c_000001''] {Uid ''c_000009''})"
proof -
  have "next_order [Uid ''c_000001'', Uid ''c_000009'', Uid ''c_000002''] [Uid ''c_000002'', Uid ''c_000003'', Uid ''c_000001''] {Uid ''c_000009''}
     = [Uid ''c_000002'', Uid ''c_000009'', Uid ''c_000003'', Uid ''c_000001'']" by code_simp
  moreover have "distinct [Uid ''c_000001'', Uid ''c_000009'', Uid ''c_000002'']" "distinct [Uid ''c_000002'', Uid ''c_000003'', Uid ''c_000001'']"
    "set [Uid ''c_000002'', Uid ''c_000003'', Uid ''c_000001''] \<inter> {Uid ''c_000009''} = {}" by simp_all
  ultimately show ?thesis using next_order_follows_the_declaration by blast
qed

end
