(* ===== verification/Ids_Merge.thy ===== *)
theory Ids_Merge
  imports Record_Order Tree_Split Tree_Text
begin

text \<open>
  The three-way merge of one identity file (\<open>crates/pbps-model/src/ids_merge.rs\<close>). The texts
  a conflict shows are \<open>serde_json\<close>'s and come as parameters; \<open>PartialEq\<close> is a parameter of the
  generic functions, because a rebuild record compares its collations without regard to case.
\<close>

section \<open>Equality of the compared values\<close>

definition collation_eq :: "collation \<Rightarrow> collation \<Rightarrow> bool" where
  "collation_eq a b = eq_ignore_ascii_case (collation_str a) (collation_str b)"

definition opt_eq :: "('a \<Rightarrow> 'a \<Rightarrow> bool) \<Rightarrow> 'a option \<Rightarrow> 'a option \<Rightarrow> bool" where
  "opt_eq eq x y = (case (x, y) of (None, None) \<Rightarrow> True | (Some a, Some b) \<Rightarrow> eq a b | _ \<Rightarrow> False)"

definition shape_eq :: "column_shape \<Rightarrow> column_shape \<Rightarrow> bool" where
  "shape_eq a b \<longleftrightarrow> sh_ty a = sh_ty b \<and> opt_eq collation_eq (sh_collation a) (sh_collation b)"

definition pairs_eq :: "('v \<Rightarrow> 'v \<Rightarrow> bool) \<Rightarrow> (uid \<times> 'v) list \<Rightarrow> (uid \<times> 'v) list \<Rightarrow> bool" where
  "pairs_eq eq ps qs = list_all2 (\<lambda>p q. fst p = fst q \<and> eq (snd p) (snd q)) ps qs"

definition rebuild_eq :: "rebuild \<Rightarrow> rebuild \<Rightarrow> bool" where
  "rebuild_eq r s \<longleftrightarrow>
     rb_source r = rb_source s \<and> rb_replacement r = rb_replacement s
     \<and> rb_replacement_root r = rb_replacement_root s \<and> rb_continues r = rb_continues s
     \<and> rb_target_checksum r = rb_target_checksum s \<and> rb_max_rows r = rb_max_rows s
     \<and> rb_allowed_at r = rb_allowed_at s \<and> rb_reason r = rb_reason s \<and> rb_operator r = rb_operator s
     \<and> pairs_eq shape_eq (entries (rb_types r)) (entries (rb_types s))
     \<and> rb_conversions r = rb_conversions s"

definition body_eq :: "tree_body \<Rightarrow> tree_body \<Rightarrow> bool" where
  "body_eq a b \<longleftrightarrow>
     (case (a, b) of
        (BodyTable s, BodyTable t) \<Rightarrow>
          bd_table s = bd_table t \<and> bd_columns s = bd_columns t \<and> bd_partitions s = bd_partitions t
          \<and> bd_moves s = bd_moves t \<and> bd_conversions s = bd_conversions t
          \<and> pairs_eq rebuild_eq (bd_rebuilds s) (bd_rebuilds t)
      | _ \<Rightarrow> a = b)"

definition file_eq :: "tree_file \<Rightarrow> tree_file \<Rightarrow> bool" where
  "file_eq f g \<longleftrightarrow> tf_uid f = tf_uid g \<and> body_eq (tf_body f) (tf_body g) \<and> tf_dropped f = tf_dropped g"

section \<open>The merge\<close>

record yaml_view =
  yv_name :: "string option"
  yv_columns :: "string list"

record merge_conflict =
  cf_uid :: uid
  cf_section :: string
  cf_ours :: string
  cf_theirs :: string
  cf_remedy :: string

definition REMEDY :: string where
  "REMEDY = ''state the intent (`renamed_from` in the YAML, `pbps rename`, `pbps drop`), ''
     @ ''then run `pbps ids resolve` again''"

definition show_opt :: "('a \<Rightarrow> string) \<Rightarrow> 'a option \<Rightarrow> string" where
  "show_opt to_json v = (case v of None \<Rightarrow> ''(absent)'' | Some x \<Rightarrow> to_json x)"

definition pick :: "('a \<Rightarrow> 'a \<Rightarrow> bool) \<Rightarrow> 'a option \<Rightarrow> 'a option \<Rightarrow> 'a option \<Rightarrow> (unit, 'a option) result" where
  "pick eq base ours theirs =
     (if opt_eq eq ours theirs \<or> opt_eq eq theirs base then Inr ours
      else if opt_eq eq ours base then Inr theirs
      else Inl ())"

definition merge_record ::
  "string \<Rightarrow> ('v \<Rightarrow> 'v \<Rightarrow> bool) \<Rightarrow> ('v \<Rightarrow> string) \<Rightarrow> ('v \<Rightarrow> 'v \<Rightarrow> 'v option)
   \<Rightarrow> (uid, 'v) btree \<Rightarrow> (uid, 'v) btree \<Rightarrow> (uid, 'v) btree
   \<Rightarrow> (uid \<times> 'v) list \<times> merge_conflict list \<Rightarrow> uid \<Rightarrow> (uid \<times> 'v) list \<times> merge_conflict list" where
  "merge_record section eq to_json decide b o' t st u =
     (let ov = bget o' u; tv = bget t u;
          conflict = \<lparr>cf_uid = u, cf_section = section, cf_ours = show_opt to_json ov,
                      cf_theirs = show_opt to_json tv, cf_remedy = REMEDY\<rparr>;
          (chosen, new) =
            (case pick eq (bget b u) ov tv of
               Inr v \<Rightarrow> (v, [])
             | Inl _ \<Rightarrow>
                 (case (case (ov, tv) of (Some x, Some y) \<Rightarrow> decide x y | _ \<Rightarrow> None) of
                    Some z \<Rightarrow> (Some z, [])
                  | None \<Rightarrow> (None, [conflict])))
      in (fst st @ (case chosen of None \<Rightarrow> [] | Some v \<Rightarrow> [(u, v)]), snd st @ new))"

definition merge_uids :: "(uid \<times> 'v) list \<Rightarrow> (uid \<times> 'v) list \<Rightarrow> uid list" where
  "merge_uids ours theirs = map fst ours @ filter (\<lambda>u. \<not> bhas (bcollect ours) u) (map fst theirs)"

definition merge_records ::
  "string \<Rightarrow> ('v \<Rightarrow> 'v \<Rightarrow> bool) \<Rightarrow> ('v \<Rightarrow> string) \<Rightarrow> (uid \<times> 'v) list \<Rightarrow> (uid \<times> 'v) list \<Rightarrow> (uid \<times> 'v) list
   \<Rightarrow> ('v \<Rightarrow> 'v \<Rightarrow> 'v option) \<Rightarrow> merge_conflict list \<Rightarrow> (uid \<times> 'v) list \<times> merge_conflict list" where
  "merge_records section eq to_json base ours theirs decide conflicts =
     foldl (merge_record section eq to_json decide (bcollect base) (bcollect ours) (bcollect theirs))
       ([], conflicts) (merge_uids ours theirs)"

definition settle ::
  "uid \<Rightarrow> string \<Rightarrow> (string \<Rightarrow> string) \<Rightarrow> string option \<Rightarrow> string \<Rightarrow> string \<Rightarrow> string option
   \<Rightarrow> merge_conflict list \<Rightarrow> string \<times> merge_conflict list" where
  "settle u section to_json base ours theirs yaml conflicts =
     (case pick (=) base (Some ours) (Some theirs) of
        Inr v \<Rightarrow> (case v of None \<Rightarrow> ours | Some x \<Rightarrow> x, conflicts)
      | Inl _ \<Rightarrow>
          let conflict = \<lparr>cf_uid = u, cf_section = section, cf_ours = show_opt to_json (Some ours),
                          cf_theirs = show_opt to_json (Some theirs), cf_remedy = REMEDY\<rparr> in
          (case yaml of
             Some y \<Rightarrow> if y = ours \<or> y = theirs then (y, conflicts) else (ours, conflicts @ [conflict])
           | None \<Rightarrow> (ours, conflicts @ [conflict])))"

definition by_yaml :: "yaml_view \<Rightarrow> ids_rec \<Rightarrow> ids_rec \<Rightarrow> ids_rec option" where
  "by_yaml yaml a b =
     (case (a, b) of
        (Live x, Live y) \<Rightarrow>
          (case (x \<in> set (yv_columns yaml), y \<in> set (yv_columns yaml)) of
             (True, False) \<Rightarrow> Some a
           | (False, True) \<Rightarrow> Some b
           | _ \<Rightarrow> None)
      | _ \<Rightarrow> None)"

definition never :: "'v \<Rightarrow> 'v \<Rightarrow> 'v option" where
  "never _ _ = None"

definition sort_uids :: "(uid \<times> 'v) list \<Rightarrow> (uid \<times> 'v) list" where
  "sort_uids records = sort_key fst records"

definition restore_order :: "(uid \<times> ids_rec) list \<Rightarrow> yaml_view \<Rightarrow> (uid \<times> ids_rec) list" where
  "restore_order columns yaml =
     (let existing = map fst columns;
          retired = set (map fst (filter (\<lambda>p. \<not> is_live (snd p)) columns));
          live = bcollect (map (\<lambda>(u, n). (n, u)) (live_recs columns));
          declared = List.map_filter (bget live) (yv_columns yaml);
          order = next_order existing declared retired
      in sort_key (\<lambda>p. rank_of order (fst p)) columns)"

definition merge_table ::
  "json_out \<Rightarrow> string \<Rightarrow> table_body \<Rightarrow> table_body \<Rightarrow> table_body \<Rightarrow> yaml_view \<Rightarrow> merge_conflict list
   \<Rightarrow> table_body \<times> merge_conflict list" where
  "merge_table js name base ours theirs yaml conflicts =
     (let (columns, conflicts) = merge_records ''columns'' (=) (js_rec js) (bd_columns base) (bd_columns ours)
            (bd_columns theirs) (by_yaml yaml) conflicts;
          (partitions, conflicts) = merge_records ''partitions'' (=) (js_rec js) (bd_partitions base)
            (bd_partitions ours) (bd_partitions theirs) never conflicts;
          (moves, conflicts) = merge_records ''moves'' (=) (js_move js) (bd_moves base) (bd_moves ours)
            (bd_moves theirs) never conflicts;
          (conversions, conflicts) = merge_records ''conversions'' (=) (js_conversion js) (bd_conversions base)
            (bd_conversions ours) (bd_conversions theirs) never conflicts;
          (rebuilds, conflicts) = merge_records ''rebuilds'' rebuild_eq (js_rebuild js) (bd_rebuilds base)
            (bd_rebuilds ours) (bd_rebuilds theirs) never conflicts;
          columns = (if yv_columns yaml = [] then columns else restore_order columns yaml)
      in (\<lparr>bd_table = name, bd_columns = columns, bd_partitions = partitions, bd_moves = sort_uids moves,
           bd_conversions = sort_uids conversions, bd_rebuilds = sort_uids rebuilds\<rparr>, conflicts))"

definition show_file :: "tree_file \<Rightarrow> string" where
  "show_file f = as_str (tf_uid f) @ '' '' @ snd (body_name (tf_body f))"

definition one_sided ::
  "tree_file option \<Rightarrow> tree_file \<Rightarrow> bool \<Rightarrow> (merge_conflict list, tree_file option) result" where
  "one_sided base only deleted_side_is_ours =
     (if opt_eq file_eq (Some only) base then Inr None
      else if base = None then Inr (Some only)
      else let gone = ''(deleted)''; kept = show_file only;
               (ours, theirs) = (if deleted_side_is_ours then (gone, kept) else (kept, gone))
           in Inl [\<lparr>cf_uid = tf_uid only, cf_section = ''file'', cf_ours = ours, cf_theirs = theirs, cf_remedy = REMEDY\<rparr>])"

definition empty_table_body :: table_body where
  "empty_table_body = new_table_body []"

definition merge_bodies ::
  "json_out \<Rightarrow> string \<Rightarrow> tree_file option \<Rightarrow> tree_file \<Rightarrow> tree_file \<Rightarrow> yaml_view \<Rightarrow> merge_conflict list
   \<Rightarrow> tree_body \<times> merge_conflict list" where
  "merge_bodies js name base ours theirs yaml conflicts =
     (case (tf_body ours, tf_body theirs) of
        (BodyTable o', BodyTable t) \<Rightarrow>
          let b = (case map_option tf_body base of Some (BodyTable b) \<Rightarrow> b | _ \<Rightarrow> empty_table_body);
              (body, conflicts) = merge_table js name b o' t yaml conflicts
          in (BodyTable body, conflicts)
      | (BodyRole _, _) \<Rightarrow> (BodyRole name, conflicts)
      | (BodyType _, _) \<Rightarrow> (BodyType name, conflicts)
      | _ \<Rightarrow> (BodyExtension name, conflicts))"

definition merge_both ::
  "json_out \<Rightarrow> tree_file option \<Rightarrow> tree_file \<Rightarrow> tree_file \<Rightarrow> yaml_view \<Rightarrow> (merge_conflict list, tree_file option) result" where
  "merge_both js base ours theirs yaml =
     (let u = tf_uid ours;
          base = (case base of Some b \<Rightarrow> if tf_uid b = u then Some b else None | None \<Rightarrow> None);
          (name, conflicts) = settle u ''name'' (js_str js) (map_option (\<lambda>b. snd (body_name (tf_body b))) base)
            (snd (body_name (tf_body ours))) (snd (body_name (tf_body theirs))) (yv_name yaml) [];
          (dropped, conflicts) =
            (case pick (=) (Option.bind base tf_dropped) (tf_dropped ours) (tf_dropped theirs) of
               Inr v \<Rightarrow> (v, conflicts)
             | Inl _ \<Rightarrow> (None, conflicts @ [\<lparr>cf_uid = u, cf_section = ''dropped'',
                 cf_ours = show_opt (js_tombstone js) (tf_dropped ours),
                 cf_theirs = show_opt (js_tombstone js) (tf_dropped theirs), cf_remedy = REMEDY\<rparr>]));
          (body, conflicts) = merge_bodies js name base ours theirs yaml conflicts
      in if conflicts = [] then Inr (Some \<lparr>tf_uid = u, tf_body = body, tf_dropped = dropped\<rparr>)
         else Inl conflicts)"

definition merge_file ::
  "json_out \<Rightarrow> tree_file option \<Rightarrow> tree_file option \<Rightarrow> tree_file option \<Rightarrow> yaml_view
   \<Rightarrow> (merge_conflict list, tree_file option) result" where
  "merge_file js base ours theirs yaml =
     (case (ours, theirs) of
        (None, None) \<Rightarrow> Inr None
      | (Some only, None) \<Rightarrow> one_sided base only False
      | (None, Some only) \<Rightarrow> one_sided base only True
      | (Some o', Some t) \<Rightarrow>
          if tf_uid o' \<noteq> tf_uid t \<or> fst (body_name (tf_body o')) \<noteq> fst (body_name (tf_body t))
          then Inl [\<lparr>cf_uid = tf_uid o', cf_section = ''uid'', cf_ours = show_file o', cf_theirs = show_file t,
                     cf_remedy = REMEDY\<rparr>]
          else merge_both js base o' t yaml)"

section \<open>Specification\<close>

text \<open>What becomes of one record: \<open>Inl ()\<close> is a conflict, \<open>Inr None\<close> an absent record.\<close>

definition three_way ::
  "('v \<Rightarrow> 'v \<Rightarrow> bool) \<Rightarrow> ('v \<Rightarrow> 'v \<Rightarrow> 'v option) \<Rightarrow> 'v option \<Rightarrow> 'v option \<Rightarrow> 'v option \<Rightarrow> (unit, 'v option) result" where
  "three_way eq decide b o' t =
     (if opt_eq eq o' t \<or> opt_eq eq t b then Inr o'
      else if opt_eq eq o' b then Inr t
      else case (o', t) of
             (Some x, Some y) \<Rightarrow> (case decide x y of Some z \<Rightarrow> Inr (Some z) | None \<Rightarrow> Inl ())
           | _ \<Rightarrow> Inl ())"

definition section_way ::
  "('v \<Rightarrow> 'v \<Rightarrow> bool) \<Rightarrow> ('v \<Rightarrow> 'v \<Rightarrow> 'v option) \<Rightarrow> (uid \<times> 'v) list \<Rightarrow> (uid \<times> 'v) list \<Rightarrow> (uid \<times> 'v) list
   \<Rightarrow> uid \<Rightarrow> (unit, 'v option) result" where
  "section_way eq decide base ours theirs u =
     three_way eq decide (map_of base u) (map_of ours u) (map_of theirs u)"

definition merged_section ::
  "('v \<Rightarrow> 'v \<Rightarrow> bool) \<Rightarrow> ('v \<Rightarrow> 'v \<Rightarrow> 'v option) \<Rightarrow> (uid \<times> 'v) list \<Rightarrow> (uid \<times> 'v) list \<Rightarrow> (uid \<times> 'v) list
   \<Rightarrow> (uid \<times> 'v) list \<Rightarrow> bool" where
  "merged_section eq decide base ours theirs merged \<longleftrightarrow>
     distinct (map fst merged) \<and> (\<forall>u. section_way eq decide base ours theirs u = Inr (map_of merged u))"

definition name_way :: "string option \<Rightarrow> string \<Rightarrow> string \<Rightarrow> string option \<Rightarrow> (unit, string) result" where
  "name_way base ours theirs yaml =
     (if ours = theirs \<or> base = Some theirs then Inr ours
      else if base = Some ours then Inr theirs
      else if yaml = Some ours \<or> yaml = Some theirs then Inr (the yaml)
      else Inl ())"

definition record_conflict :: "string \<Rightarrow> ('v \<Rightarrow> string) \<Rightarrow> (uid \<times> 'v) list \<Rightarrow> (uid \<times> 'v) list \<Rightarrow> uid \<Rightarrow> merge_conflict" where
  "record_conflict section to_json ours theirs u =
     \<lparr>cf_uid = u, cf_section = section, cf_ours = show_opt to_json (map_of ours u),
      cf_theirs = show_opt to_json (map_of theirs u), cf_remedy = REMEDY\<rparr>"

definition section_conflicts ::
  "string \<Rightarrow> ('v \<Rightarrow> 'v \<Rightarrow> bool) \<Rightarrow> ('v \<Rightarrow> string) \<Rightarrow> ('v \<Rightarrow> 'v \<Rightarrow> 'v option) \<Rightarrow> (uid \<times> 'v) list
   \<Rightarrow> (uid \<times> 'v) list \<Rightarrow> (uid \<times> 'v) list \<Rightarrow> merge_conflict set" where
  "section_conflicts section eq to_json decide base ours theirs =
     record_conflict section to_json ours theirs ` {u. section_way eq decide base ours theirs u = Inl ()}"

definition table_conflicts :: "json_out \<Rightarrow> yaml_view \<Rightarrow> table_body \<Rightarrow> table_body \<Rightarrow> table_body \<Rightarrow> merge_conflict set" where
  "table_conflicts js yaml b o' t =
     section_conflicts ''columns'' (=) (js_rec js) (by_yaml yaml) (bd_columns b) (bd_columns o') (bd_columns t)
     \<union> section_conflicts ''partitions'' (=) (js_rec js) never (bd_partitions b) (bd_partitions o') (bd_partitions t)
     \<union> section_conflicts ''moves'' (=) (js_move js) never (bd_moves b) (bd_moves o') (bd_moves t)
     \<union> section_conflicts ''conversions'' (=) (js_conversion js) never (bd_conversions b) (bd_conversions o') (bd_conversions t)
     \<union> section_conflicts ''rebuilds'' rebuild_eq (js_rebuild js) never (bd_rebuilds b) (bd_rebuilds o') (bd_rebuilds t)"

definition merged_table :: "yaml_view \<Rightarrow> table_body \<Rightarrow> table_body \<Rightarrow> table_body \<Rightarrow> table_body \<Rightarrow> bool" where
  "merged_table yaml b o' t m \<longleftrightarrow>
     merged_section (=) (by_yaml yaml) (bd_columns b) (bd_columns o') (bd_columns t) (bd_columns m)
     \<and> merged_section (=) never (bd_partitions b) (bd_partitions o') (bd_partitions t) (bd_partitions m)
     \<and> merged_section (=) never (bd_moves b) (bd_moves o') (bd_moves t) (bd_moves m)
     \<and> merged_section (=) never (bd_conversions b) (bd_conversions o') (bd_conversions t) (bd_conversions m)
     \<and> merged_section rebuild_eq never (bd_rebuilds b) (bd_rebuilds o') (bd_rebuilds t) (bd_rebuilds m)"

text \<open>A file's table, empty for another kind; its name; and the common ancestor the merge uses.\<close>

definition table_of :: "tree_file option \<Rightarrow> table_body" where
  "table_of f = (case map_option tf_body f of Some (BodyTable t) \<Rightarrow> t | _ \<Rightarrow> empty_table_body)"

definition file_name :: "tree_file \<Rightarrow> string" where
  "file_name f = snd (body_name (tf_body f))"

definition file_kind :: "tree_file \<Rightarrow> string" where
  "file_kind f = fst (body_name (tf_body f))"

definition ancestor :: "tree_file option \<Rightarrow> tree_file \<Rightarrow> tree_file option" where
  "ancestor base ours = (case base of Some b \<Rightarrow> if tf_uid b = tf_uid ours then Some b else None | None \<Rightarrow> None)"

definition file_conflicts ::
  "json_out \<Rightarrow> yaml_view \<Rightarrow> tree_file option \<Rightarrow> tree_file \<Rightarrow> tree_file \<Rightarrow> merge_conflict set" where
  "file_conflicts js yaml base ours theirs =
     (if name_way (map_option file_name base) (file_name ours) (file_name theirs) (yv_name yaml) = Inl ()
      then {\<lparr>cf_uid = tf_uid ours, cf_section = ''name'', cf_ours = js_str js (file_name ours),
             cf_theirs = js_str js (file_name theirs), cf_remedy = REMEDY\<rparr>} else {})
     \<union> (if three_way (=) never (Option.bind base tf_dropped) (tf_dropped ours) (tf_dropped theirs) = Inl ()
        then {\<lparr>cf_uid = tf_uid ours, cf_section = ''dropped'', cf_ours = show_opt (js_tombstone js) (tf_dropped ours),
               cf_theirs = show_opt (js_tombstone js) (tf_dropped theirs), cf_remedy = REMEDY\<rparr>} else {})
     \<union> table_conflicts js yaml (table_of base) (table_of (Some ours)) (table_of (Some theirs))"

definition merged_file :: "yaml_view \<Rightarrow> tree_file option \<Rightarrow> tree_file \<Rightarrow> tree_file \<Rightarrow> tree_file \<Rightarrow> bool" where
  "merged_file yaml base ours theirs f \<longleftrightarrow>
     tf_uid f = tf_uid ours \<and> file_kind f = file_kind ours
     \<and> name_way (map_option file_name base) (file_name ours) (file_name theirs) (yv_name yaml) = Inr (file_name f)
     \<and> three_way (=) never (Option.bind base tf_dropped) (tf_dropped ours) (tf_dropped theirs) = Inr (tf_dropped f)
     \<and> merged_table yaml (table_of base) (table_of (Some ours)) (table_of (Some theirs)) (table_of (Some f))"

text \<open>Two files that hold the same records; the order of a section is not compared.\<close>

definition same_sections :: "table_body \<Rightarrow> table_body \<Rightarrow> bool" where
  "same_sections s t \<longleftrightarrow>
     map_of (bd_columns s) = map_of (bd_columns t) \<and> map_of (bd_partitions s) = map_of (bd_partitions t)
     \<and> map_of (bd_moves s) = map_of (bd_moves t) \<and> map_of (bd_conversions s) = map_of (bd_conversions t)
     \<and> (\<forall>u. opt_eq rebuild_eq (map_of (bd_rebuilds s) u) (map_of (bd_rebuilds t) u))"

definition same_records :: "tree_file \<Rightarrow> tree_file \<Rightarrow> bool" where
  "same_records f g \<longleftrightarrow>
     tf_uid f = tf_uid g \<and> file_kind f = file_kind g \<and> file_name f = file_name g \<and> tf_dropped f = tf_dropped g
     \<and> same_sections (table_of (Some f)) (table_of (Some g))"

text \<open>The sections a reader hands over: no uid twice.\<close>

definition keys_distinct :: "table_body \<Rightarrow> bool" where
  "keys_distinct t \<longleftrightarrow>
     distinct (map fst (bd_columns t)) \<and> distinct (map fst (bd_partitions t)) \<and> distinct (map fst (bd_moves t))
     \<and> distinct (map fst (bd_conversions t)) \<and> distinct (map fst (bd_rebuilds t))"

section \<open>Equality as the merge uses it\<close>

locale part_eq =
  fixes eq :: "'a \<Rightarrow> 'a \<Rightarrow> bool"
  assumes eq_refl: "eq x x"
    and eq_sym: "eq x y \<Longrightarrow> eq y x"
    and eq_trans: "eq x y \<Longrightarrow> eq y z \<Longrightarrow> eq x z"
begin

lemma opt_refl: "opt_eq eq x x"
  by (cases x) (simp_all add: opt_eq_def eq_refl)

lemma opt_sym: "opt_eq eq x y \<Longrightarrow> opt_eq eq y x"
  by (cases x; cases y) (simp_all add: opt_eq_def eq_sym)

lemma opt_trans: "opt_eq eq x y \<Longrightarrow> opt_eq eq y z \<Longrightarrow> opt_eq eq x z"
  by (cases x; cases y; cases z) (auto simp: opt_eq_def intro: eq_trans)

lemma three_way_same: "three_way eq decide b x x = Inr x"
  by (simp add: three_way_def opt_refl)

lemma three_way_theirs_unchanged: "three_way eq decide x y x = Inr y"
  by (simp add: three_way_def opt_refl)

lemma three_way_ours_unchanged: "\<exists>y'. three_way eq decide x x y = Inr y' \<and> opt_eq eq y' y"
  by (auto simp: three_way_def opt_refl intro: opt_sym)

text \<open>Neither side is preferred.\<close>

lemma three_way_swap:
  assumes "\<And>x y. decide x y = decide y x"
  shows "three_way eq decide b x y = Inl () \<longleftrightarrow> three_way eq decide b y x = Inl ()"
    and "three_way eq decide b x y = Inr v \<Longrightarrow> \<exists>w. three_way eq decide b y x = Inr w \<and> opt_eq eq v w"
proof -
  have swap: "opt_eq eq x y \<longleftrightarrow> opt_eq eq y x" using opt_sym by blast
  have both: "opt_eq eq x b \<Longrightarrow> opt_eq eq y b \<Longrightarrow> opt_eq eq x y" using opt_sym opt_trans by blast
  show "three_way eq decide b x y = Inl () \<longleftrightarrow> three_way eq decide b y x = Inl ()"
    using swap assms by (cases x; cases y) (auto simp: three_way_def split: option.splits if_splits)
  show "\<exists>w. three_way eq decide b y x = Inr w \<and> opt_eq eq v w" if "three_way eq decide b x y = Inr v"
  proof (cases "opt_eq eq x y")
    case True
    with that swap show ?thesis by (auto simp: three_way_def)
  next
    case False
    show ?thesis
    proof (cases "opt_eq eq x b \<or> opt_eq eq y b")
      case True
      with False that swap both opt_refl show ?thesis by (auto simp: three_way_def split: if_splits)
    next
      case neither: False
      then have "three_way eq decide b y x = three_way eq decide b x y"
        using False swap assms by (cases x; cases y) (simp_all add: three_way_def)
      with that opt_refl show ?thesis by auto
    qed
  qed
qed

lemma section_conflicts_swap:
  assumes "\<And>x y. decide x y = decide y x"
  shows "section_conflicts section eq to_json decide b xs ys = {} \<longleftrightarrow> section_conflicts section eq to_json decide b ys xs = {}"
  by (simp add: section_conflicts_def section_way_def three_way_swap(1) [OF assms])

lemma merged_section_swap:
  assumes "\<And>x y. decide x y = decide y x"
    and "merged_section eq decide b xs ys m" "merged_section eq decide b ys xs m'"
  shows "opt_eq eq (map_of m u) (map_of m' u)"
  using three_way_swap(2) [where decide = decide and b = "map_of b u" and x = "map_of xs u" and y = "map_of ys u"
      and v = "map_of m u"] assms
  by (auto simp: merged_section_def section_way_def)

lemma merged_section_ours_unchanged:
  assumes "merged_section eq decide b b ys m"
  shows "opt_eq eq (map_of m u) (map_of ys u)"
  using three_way_ours_unchanged [where decide = decide and x = "map_of b u" and y = "map_of ys u"] assms
  by (auto simp: merged_section_def section_way_def)

lemma merged_section_theirs_unchanged:
  assumes "merged_section eq decide b xs b m"
  shows "opt_eq eq (map_of m u) (map_of xs u)"
  using three_way_theirs_unchanged [where decide = decide and x = "map_of b u" and y = "map_of xs u"] assms opt_refl
  by (auto simp: merged_section_def section_way_def)

lemma unchanged_no_conflict:
  "section_conflicts section eq to_json decide b b ys = {}" "section_conflicts section eq to_json decide b xs b = {}"
  by (simp_all add: section_conflicts_def section_way_def three_way_def opt_refl)

end

interpretation plain: part_eq "(=)"
  by unfold_locales simp_all

lemma opt_eq_plain: "opt_eq (=) x y \<longleftrightarrow> x = y"
  by (cases x; cases y) (simp_all add: opt_eq_def)

lemma collation_part: "part_eq collation_eq"
  by unfold_locales (auto simp: collation_eq_def intro: eq_ignore_ascii_case_equiv)

interpretation collation: part_eq collation_eq
  by (rule collation_part)

interpretation shape: part_eq shape_eq
  by unfold_locales (auto simp: shape_eq_def intro: collation.opt_refl collation.opt_sym collation.opt_trans)

lemma pairs_eq_part:
  assumes "part_eq eq"
  shows "pairs_eq eq ps ps" "pairs_eq eq ps qs \<Longrightarrow> pairs_eq eq qs ps" "pairs_eq eq ps qs \<Longrightarrow> pairs_eq eq qs rs \<Longrightarrow> pairs_eq eq ps rs"
proof -
  have refl: "eq x x" and sym: "eq x y \<Longrightarrow> eq y x" and trans: "eq x y \<Longrightarrow> eq y z \<Longrightarrow> eq x z" for x y z
    using assms unfolding part_eq_def by blast+
  show "pairs_eq eq ps ps" unfolding pairs_eq_def by (rule list_all2_refl) (simp add: refl)
  show "pairs_eq eq ps qs \<Longrightarrow> pairs_eq eq qs ps"
    unfolding pairs_eq_def by (induction rule: list_all2_induct) (auto simp: sym)
  show "pairs_eq eq ps qs \<Longrightarrow> pairs_eq eq qs rs \<Longrightarrow> pairs_eq eq ps rs"
    by (auto simp: pairs_eq_def list_all2_conv_all_nth) (blast intro: trans)
qed

lemmas shapes_eq = pairs_eq_part [OF shape.part_eq_axioms]

interpretation rebuild: part_eq rebuild_eq
  by unfold_locales (auto simp: rebuild_eq_def intro: shapes_eq)

section \<open>One section\<close>

lemma bget_bcollect_distinct: "distinct (map fst ps) \<Longrightarrow> bget (bcollect ps) = map_of ps"
  by (simp add: bget_bcollect map_of_rev)

lemma merge_record_way:
  "merge_record section eq to_json decide b o' t st u =
     (fst st @ (case three_way eq decide (bget b u) (bget o' u) (bget t u) of Inr (Some v) \<Rightarrow> [(u, v)] | _ \<Rightarrow> []),
      snd st @ (case three_way eq decide (bget b u) (bget o' u) (bget t u) of
         Inr _ \<Rightarrow> []
       | Inl _ \<Rightarrow> [\<lparr>cf_uid = u, cf_section = section, cf_ours = show_opt to_json (bget o' u),
                    cf_theirs = show_opt to_json (bget t u), cf_remedy = REMEDY\<rparr>]))"
  by (auto simp: merge_record_def pick_def three_way_def Let_def split: option.splits)

lemma foldl_merge_record:
  "foldl (merge_record section eq to_json decide b o' t) st us =
     (fst st @ List.map_filter (\<lambda>u. case three_way eq decide (bget b u) (bget o' u) (bget t u) of
         Inr v \<Rightarrow> map_option (Pair u) v | Inl _ \<Rightarrow> None) us,
      snd st @ map (\<lambda>u. \<lparr>cf_uid = u, cf_section = section, cf_ours = show_opt to_json (bget o' u),
                    cf_theirs = show_opt to_json (bget t u), cf_remedy = REMEDY\<rparr>)
        (filter (\<lambda>u. three_way eq decide (bget b u) (bget o' u) (bget t u) = Inl ()) us))"
proof (induction us arbitrary: st)
  case (Cons u us)
  show ?case
    unfolding foldl.simps(2) Cons.IH
    by (cases "three_way eq decide (bget b u) (bget o' u) (bget t u)")
      (auto simp: merge_record_way map_filter_simps split: option.splits)
qed (simp add: map_filter_simps)

lemma merge_uids_facts:
  assumes "distinct (map fst ours)" "distinct (map fst theirs)"
  shows "distinct (merge_uids ours theirs)" "set (merge_uids ours theirs) = fst ` set ours \<union> fst ` set theirs"
proof -
  have "bhas (bcollect ours) u \<longleftrightarrow> u \<in> fst ` set ours" for u
    by (simp add: bhas_def bget_bcollect map_of_eq_None_iff)
  then show "distinct (merge_uids ours theirs)" "set (merge_uids ours theirs) = fst ` set ours \<union> fst ` set theirs"
    using assms by (auto simp: merge_uids_def)
qed

lemma merge_records_way:
  assumes d: "distinct (map fst ours)" "distinct (map fst theirs)" "distinct (map fst base)"
  shows "\<exists>merged new. merge_records section eq to_json base ours theirs decide conflicts = (merged, conflicts @ new)
    \<and> distinct (map fst merged)
    \<and> (\<forall>u. map_of merged u = (case section_way eq decide base ours theirs u of Inr v \<Rightarrow> v | Inl _ \<Rightarrow> None))
    \<and> set new = section_conflicts section eq to_json decide base ours theirs"
proof -
  let ?us = "merge_uids ours theirs" and ?way = "section_way eq decide base ours theirs"
  define merged where "merged = List.map_filter (\<lambda>u. case ?way u of Inr v \<Rightarrow> map_option (Pair u) v | Inl _ \<Rightarrow> None) ?us"
  define new where "new = map (record_conflict section to_json ours theirs) (filter (\<lambda>u. ?way u = Inl ()) ?us)"
  have run: "merge_records section eq to_json base ours theirs decide conflicts = (merged, conflicts @ new)"
    unfolding merge_records_def foldl_merge_record merged_def new_def section_way_def
    by (simp add: bget_bcollect_distinct d record_conflict_def)
  have outside: "?way u = Inr None" if "u \<notin> set ?us" for u
    using that by (simp add: merge_uids_facts(2) [OF d(1,2)] section_way_def three_way_def opt_eq_def map_of_eq_None_iff [symmetric])
  have "map fst (List.map_filter (\<lambda>u. case w u of Inr v \<Rightarrow> map_option (Pair u) v | Inl _ \<Rightarrow> None) us)
      = filter (\<lambda>u. \<exists>v. w u = Inr (Some v)) us" for w :: "uid \<Rightarrow> (unit, 'a option) result" and us
    by (induction us) (auto simp: map_filter_simps split: sum.splits option.splits)
  then have d': "distinct (map fst merged)" using merge_uids_facts(1) [OF d(1,2)] by (simp add: merged_def)
  have "(case ?way x of Inr w \<Rightarrow> map_option (Pair x) w | Inl _ \<Rightarrow> None) = Some (u, v) \<longleftrightarrow> x = u \<and> ?way x = Inr (Some v)" for x u v
    by (cases "?way x") auto
  then have "(u, v) \<in> set merged \<longleftrightarrow> u \<in> set ?us \<and> ?way u = Inr (Some v)" for u v
    unfolding merged_def set_map_filter_iff by auto
  then have "map_of merged u = Some v \<longleftrightarrow> ?way u = Inr (Some v)" for u v
    using outside [of u] d' by (cases "u \<in> set ?us") auto
  then have "map_of merged u = (case ?way u of Inr v \<Rightarrow> v | Inl _ \<Rightarrow> None)" for u
    by (cases "?way u"; cases "map_of merged u") (auto, metis option.exhaust)
  moreover have "set new = section_conflicts section eq to_json decide base ours theirs"
  proof -
    have "{u \<in> set ?us. ?way u = Inl ()} = {u. ?way u = Inl ()}" using outside by fastforce
    then show ?thesis by (simp add: new_def section_conflicts_def)
  qed
  ultimately show ?thesis using run d' by blast
qed

section \<open>A table and a file\<close>

lemma sort_key_records:
  assumes "distinct (map fst ps)"
  shows "map_of (sort_key f ps) = map_of ps" "distinct (map fst (sort_key f ps))"
proof -
  show "distinct (map fst (sort_key f ps))" using assms by (simp add: distinct_map)
  then show "map_of (sort_key f ps) = map_of ps" using assms by (subst map_of_inject_set) simp_all
qed

lemma restore_order_records:
  assumes "distinct (map fst ps)"
  shows "map_of (restore_order ps yaml) = map_of ps" "distinct (map fst (restore_order ps yaml))"
  unfolding restore_order_def Let_def by (rule sort_key_records [OF assms])+

lemma sort_uids_records:
  assumes "distinct (map fst ps)"
  shows "map_of (sort_uids ps) = map_of ps" "distinct (map fst (sort_uids ps))"
  unfolding sort_uids_def by (rule sort_key_records [OF assms])+

text \<open>What one section leaves: the records, and the conflicts after those there were.\<close>

definition section_left ::
  "string \<Rightarrow> ('v \<Rightarrow> 'v \<Rightarrow> bool) \<Rightarrow> ('v \<Rightarrow> string) \<Rightarrow> ('v \<Rightarrow> 'v \<Rightarrow> 'v option) \<Rightarrow> (uid \<times> 'v) list
   \<Rightarrow> (uid \<times> 'v) list \<Rightarrow> (uid \<times> 'v) list \<Rightarrow> (uid \<times> 'v) list \<Rightarrow> merge_conflict list \<Rightarrow> bool" where
  "section_left section eq to_json decide base ours theirs merged new \<longleftrightarrow>
     distinct (map fst merged) \<and> set new = section_conflicts section eq to_json decide base ours theirs
     \<and> (new = [] \<longrightarrow> merged_section eq decide base ours theirs merged)"

lemma merge_records_left:
  assumes "distinct (map fst ours)" "distinct (map fst theirs)" "distinct (map fst base)"
  obtains merged new where
    "merge_records section eq to_json base ours theirs decide conflicts = (merged, conflicts @ new)"
    "section_left section eq to_json decide base ours theirs merged new"
proof -
  from merge_records_way [OF assms] obtain merged new where
    run: "merge_records section eq to_json base ours theirs decide conflicts = (merged, conflicts @ new)"
    and d: "distinct (map fst merged)" and new: "set new = section_conflicts section eq to_json decide base ours theirs"
    and way: "\<And>u. map_of merged u = (case section_way eq decide base ours theirs u of Inr v \<Rightarrow> v | Inl _ \<Rightarrow> None)"
    by blast
  have "merged_section eq decide base ours theirs merged" if "new = []"
    unfolding merged_section_def
  proof (intro conjI allI d)
    fix u
    from that new have "section_way eq decide base ours theirs u \<noteq> Inl ()" by (auto simp: section_conflicts_def)
    then show "section_way eq decide base ours theirs u = Inr (map_of merged u)"
      unfolding way by (cases "section_way eq decide base ours theirs u") auto
  qed
  with run d new show ?thesis by (intro that) (auto simp: section_left_def)
qed

lemma merged_section_permuted:
  "merged_section eq decide base ours theirs m \<Longrightarrow> map_of m' = map_of m \<Longrightarrow> distinct (map fst m')
   \<Longrightarrow> merged_section eq decide base ours theirs m'"
  by (simp add: merged_section_def)

lemma merge_table_way:
  assumes "keys_distinct b" "keys_distinct o'" "keys_distinct t"
  obtains body new where
    "merge_table js name b o' t yaml conflicts = (body, conflicts @ new)" "bd_table body = name"
    "set new = table_conflicts js yaml b o' t" "new = [] \<Longrightarrow> merged_table yaml b o' t body"
proof -
  note d = assms [unfolded keys_distinct_def]
  obtain cs n1 where 1: "merge_records ''columns'' (=) (js_rec js) (bd_columns b) (bd_columns o') (bd_columns t)
      (by_yaml yaml) conflicts = (cs, conflicts @ n1)"
    "section_left ''columns'' (=) (js_rec js) (by_yaml yaml) (bd_columns b) (bd_columns o') (bd_columns t) cs n1"
    using d by (blast intro: merge_records_left)
  obtain ps n2 where 2: "merge_records ''partitions'' (=) (js_rec js) (bd_partitions b) (bd_partitions o') (bd_partitions t)
      never (conflicts @ n1) = (ps, (conflicts @ n1) @ n2)"
    "section_left ''partitions'' (=) (js_rec js) never (bd_partitions b) (bd_partitions o') (bd_partitions t) ps n2"
    using d by (blast intro: merge_records_left)
  obtain ms n3 where 3: "merge_records ''moves'' (=) (js_move js) (bd_moves b) (bd_moves o') (bd_moves t)
      never ((conflicts @ n1) @ n2) = (ms, ((conflicts @ n1) @ n2) @ n3)"
    "section_left ''moves'' (=) (js_move js) never (bd_moves b) (bd_moves o') (bd_moves t) ms n3"
    using d by (blast intro: merge_records_left)
  obtain vs n4 where 4: "merge_records ''conversions'' (=) (js_conversion js) (bd_conversions b) (bd_conversions o')
      (bd_conversions t) never (((conflicts @ n1) @ n2) @ n3) = (vs, (((conflicts @ n1) @ n2) @ n3) @ n4)"
    "section_left ''conversions'' (=) (js_conversion js) never (bd_conversions b) (bd_conversions o') (bd_conversions t) vs n4"
    using d by (blast intro: merge_records_left)
  obtain rs n5 where 5: "merge_records ''rebuilds'' rebuild_eq (js_rebuild js) (bd_rebuilds b) (bd_rebuilds o')
      (bd_rebuilds t) never ((((conflicts @ n1) @ n2) @ n3) @ n4) = (rs, ((((conflicts @ n1) @ n2) @ n3) @ n4) @ n5)"
    "section_left ''rebuilds'' rebuild_eq (js_rebuild js) never (bd_rebuilds b) (bd_rebuilds o') (bd_rebuilds t) rs n5"
    using d by (blast intro: merge_records_left)
  let ?cs = "if yv_columns yaml = [] then cs else restore_order cs yaml"
  let ?body = "\<lparr>bd_table = name, bd_columns = ?cs, bd_partitions = ps, bd_moves = sort_uids ms,
    bd_conversions = sort_uids vs, bd_rebuilds = sort_uids rs\<rparr>"
  note left = 1(2) 2(2) 3(2) 4(2) 5(2)
  have run: "merge_table js name b o' t yaml conflicts = (?body, conflicts @ (n1 @ n2 @ n3 @ n4 @ n5))"
    by (simp add: merge_table_def 1(1) 2(1) 3(1) [unfolded append_assoc] 4(1) [unfolded append_assoc]
        5(1) [unfolded append_assoc])
  have new: "set (n1 @ n2 @ n3 @ n4 @ n5) = table_conflicts js yaml b o' t"
    using left by (simp add: table_conflicts_def section_left_def Un_assoc)
  have "merged_table yaml b o' t ?body" if "n1 @ n2 @ n3 @ n4 @ n5 = []"
    using that left unfolding merged_table_def section_left_def
    by (auto intro: merged_section_permuted sort_uids_records restore_order_records)
  then show ?thesis using run new by (intro that [of ?body "n1 @ n2 @ n3 @ n4 @ n5"]) (auto simp del: append_assoc)
qed

lemma settle_way:
  "settle u section to_json base ours theirs yaml conflicts =
     (case name_way base ours theirs yaml of
        Inr n \<Rightarrow> (n, conflicts)
      | Inl _ \<Rightarrow> (ours, conflicts @ [\<lparr>cf_uid = u, cf_section = section, cf_ours = to_json ours,
                                       cf_theirs = to_json theirs, cf_remedy = REMEDY\<rparr>]))"
  by (auto simp: settle_def pick_def name_way_def show_opt_def opt_eq_plain Let_def split: option.splits)

lemma pick_never:
  "pick eq b o' t = three_way eq never b o' t"
  by (auto simp: pick_def three_way_def never_def split: option.splits)

lemma no_records_no_conflict:
  "table_conflicts js yaml b empty_table_body empty_table_body = {}"
  "merged_table yaml b empty_table_body empty_table_body empty_table_body"
  by (simp_all add: table_conflicts_def section_conflicts_def merged_table_def merged_section_def section_way_def
      empty_table_body_def new_table_body_def three_way_def opt_eq_def)

lemma merge_bodies_way:
  assumes kind: "file_kind ours = file_kind theirs"
    and d: "keys_distinct (table_of base)" "keys_distinct (table_of (Some ours))" "keys_distinct (table_of (Some theirs))"
  obtains body new where
    "merge_bodies js name base ours theirs yaml conflicts = (body, conflicts @ new)"
    "body_name body = (file_kind ours, name)"
    "set new = table_conflicts js yaml (table_of base) (table_of (Some ours)) (table_of (Some theirs))"
    "\<And>u x. new = [] \<Longrightarrow> merged_table yaml (table_of base) (table_of (Some ours)) (table_of (Some theirs))
        (table_of (Some \<lparr>tf_uid = u, tf_body = body, tf_dropped = x\<rparr>))"
proof (cases "tf_body ours")
  case (BodyTable s)
  with kind obtain t where t: "tf_body theirs = BodyTable t" by (cases "tf_body theirs") (auto simp: file_kind_def)
  have "merge_bodies js name base ours theirs yaml conflicts =
      (case merge_table js name (table_of base) s t yaml conflicts of (body, cs) \<Rightarrow> (BodyTable body, cs))"
    by (simp add: merge_bodies_def BodyTable t table_of_def)
  moreover have "table_of (Some ours) = s" "table_of (Some theirs) = t" by (simp_all add: table_of_def BodyTable t)
  ultimately show ?thesis
    using merge_table_way [OF d, of js name yaml conflicts] that BodyTable
    by (auto simp: file_kind_def table_of_def split: prod.splits)
next
  case (BodyRole n)
  with kind obtain n' where "tf_body theirs = BodyRole n'" by (cases "tf_body theirs") (auto simp: file_kind_def)
  with BodyRole show ?thesis
    by (intro that [of "BodyRole name" "[]"])
      (simp_all add: merge_bodies_def file_kind_def table_of_def no_records_no_conflict)
next
  case (BodyType n)
  with kind obtain n' where "tf_body theirs = BodyType n'" by (cases "tf_body theirs") (auto simp: file_kind_def)
  with BodyType show ?thesis
    by (intro that [of "BodyType name" "[]"])
      (simp_all add: merge_bodies_def file_kind_def table_of_def no_records_no_conflict)
next
  case (BodyExtension n)
  with kind obtain n' where "tf_body theirs = BodyExtension n'" by (cases "tf_body theirs") (auto simp: file_kind_def)
  with BodyExtension show ?thesis
    by (intro that [of "BodyExtension name" "[]"])
      (simp_all add: merge_bodies_def file_kind_def table_of_def no_records_no_conflict)
qed

lemma merge_both_way:
  assumes kind: "file_kind ours = file_kind theirs"
    and d: "keys_distinct (table_of (ancestor base ours))" "keys_distinct (table_of (Some ours))"
      "keys_distinct (table_of (Some theirs))"
  shows "case merge_both js base ours theirs yaml of
      Inl cs \<Rightarrow> cs \<noteq> [] \<and> set cs = file_conflicts js yaml (ancestor base ours) ours theirs
    | Inr None \<Rightarrow> False
    | Inr (Some f) \<Rightarrow> file_conflicts js yaml (ancestor base ours) ours theirs = {}
        \<and> merged_file yaml (ancestor base ours) ours theirs f"
proof -
  let ?b = "ancestor base ours"
  obtain name c1 where 1: "settle (tf_uid ours) ''name'' (js_str js) (map_option file_name ?b) (file_name ours)
      (file_name theirs) (yv_name yaml) [] = (name, c1)" by (rule prod.exhaust)
  obtain dropped c2 where 2: "(case pick (=) (Option.bind ?b tf_dropped) (tf_dropped ours) (tf_dropped theirs) of
       Inr v \<Rightarrow> (v, c1)
     | Inl _ \<Rightarrow> (None, c1 @ [\<lparr>cf_uid = tf_uid ours, cf_section = ''dropped'',
         cf_ours = show_opt (js_tombstone js) (tf_dropped ours),
         cf_theirs = show_opt (js_tombstone js) (tf_dropped theirs), cf_remedy = REMEDY\<rparr>])) = (dropped, c2)"
    by (rule prod.exhaust)
  obtain body c3 where 3: "merge_bodies js name ?b ours theirs yaml c2 = (body, c2 @ c3)"
    and name: "body_name body = (file_kind ours, name)"
    and c3: "set c3 = table_conflicts js yaml (table_of ?b) (table_of (Some ours)) (table_of (Some theirs))"
    and body: "\<And>u x. c3 = [] \<Longrightarrow> merged_table yaml (table_of ?b) (table_of (Some ours)) (table_of (Some theirs))
        (table_of (Some \<lparr>tf_uid = u, tf_body = body, tf_dropped = x\<rparr>))"
    by (rule merge_bodies_way [OF kind d]) blast
  have run: "merge_both js base ours theirs yaml =
      (if c2 @ c3 = [] then Inr (Some \<lparr>tf_uid = tf_uid ours, tf_body = body, tf_dropped = dropped\<rparr>) else Inl (c2 @ c3))"
    using 1 2 3 unfolding merge_both_def Let_def ancestor_def [symmetric] file_name_def [symmetric] by simp
  let ?name = "name_way (map_option file_name ?b) (file_name ours) (file_name theirs) (yv_name yaml)"
  let ?drop = "three_way (=) never (Option.bind ?b tf_dropped) (tf_dropped ours) (tf_dropped theirs)"
  have c1: "set c1 = (if ?name = Inl () then {\<lparr>cf_uid = tf_uid ours, cf_section = ''name'', cf_ours = js_str js (file_name ours),
      cf_theirs = js_str js (file_name theirs), cf_remedy = REMEDY\<rparr>} else {})" "c1 = [] \<Longrightarrow> ?name = Inr name"
    using 1 unfolding settle_way by (cases ?name; auto)+
  have c2: "set c2 = set c1 \<union> (if ?drop = Inl () then {\<lparr>cf_uid = tf_uid ours, cf_section = ''dropped'',
      cf_ours = show_opt (js_tombstone js) (tf_dropped ours), cf_theirs = show_opt (js_tombstone js) (tf_dropped theirs),
      cf_remedy = REMEDY\<rparr>} else {})" "c2 = [] \<Longrightarrow> c1 = [] \<and> ?drop = Inr dropped"
    using 2 unfolding pick_never by (cases ?drop; auto)+
  have all: "set (c2 @ c3) = file_conflicts js yaml ?b ours theirs"
    unfolding file_conflicts_def set_append c3 c2(1) c1(1) by (rule refl)
  have "merged_file yaml ?b ours theirs \<lparr>tf_uid = tf_uid ours, tf_body = body, tf_dropped = dropped\<rparr>" if "c2 @ c3 = []"
    using that c1(2) c2(2) body name by (simp add: merged_file_def file_kind_def file_name_def)
  with run all show ?thesis by auto
qed

section \<open>Neither side is preferred\<close>

lemma by_yaml_sym: "by_yaml yaml a b = by_yaml yaml b a"
  by (cases a; cases b) (simp_all add: by_yaml_def split: bool.splits)

lemma never_sym: "never a b = never b a"
  by (simp add: never_def)

lemma name_way_swap: "name_way base ours theirs yaml = name_way base theirs ours yaml"
  by (auto simp: name_way_def)

lemma table_conflicts_swap: "table_conflicts js yaml b s t = {} \<longleftrightarrow> table_conflicts js yaml b t s = {}"
  unfolding table_conflicts_def Un_empty
  by (simp add: plain.section_conflicts_swap [of "by_yaml yaml", OF by_yaml_sym, of _ _ _ "bd_columns s"]
      plain.section_conflicts_swap [of never, OF never_sym, of _ _ _ "bd_partitions s"]
      plain.section_conflicts_swap [of never, OF never_sym, of _ _ _ "bd_moves s"]
      plain.section_conflicts_swap [of never, OF never_sym, of _ _ _ "bd_conversions s"]
      rebuild.section_conflicts_swap [of never, OF never_sym, of _ _ _ "bd_rebuilds s"])

lemma merged_section_swap_plain:
  assumes "\<And>x y. decide x y = decide y x" "merged_section (=) decide b xs ys m" "merged_section (=) decide b ys xs m'"
  shows "map_of m = map_of m'"
  using plain.merged_section_swap [OF assms] by (auto simp: opt_eq_plain)

lemma merged_tableD:
  assumes "merged_table yaml b s t m"
  shows "merged_section (=) (by_yaml yaml) (bd_columns b) (bd_columns s) (bd_columns t) (bd_columns m)"
    "merged_section (=) never (bd_partitions b) (bd_partitions s) (bd_partitions t) (bd_partitions m)"
    "merged_section (=) never (bd_moves b) (bd_moves s) (bd_moves t) (bd_moves m)"
    "merged_section (=) never (bd_conversions b) (bd_conversions s) (bd_conversions t) (bd_conversions m)"
    "merged_section rebuild_eq never (bd_rebuilds b) (bd_rebuilds s) (bd_rebuilds t) (bd_rebuilds m)"
  using assms by (simp_all add: merged_table_def)

lemma merged_table_swap:
  assumes m: "merged_table yaml b s t m" and m': "merged_table yaml b t s m'"
  shows "same_sections m m'"
  unfolding same_sections_def
  by (intro conjI allI merged_section_swap_plain [OF by_yaml_sym merged_tableD(1) [OF m] merged_tableD(1) [OF m']]
      merged_section_swap_plain [OF never_sym merged_tableD(2) [OF m] merged_tableD(2) [OF m']]
      merged_section_swap_plain [OF never_sym merged_tableD(3) [OF m] merged_tableD(3) [OF m']]
      merged_section_swap_plain [OF never_sym merged_tableD(4) [OF m] merged_tableD(4) [OF m']]
      rebuild.merged_section_swap [OF never_sym merged_tableD(5) [OF m] merged_tableD(5) [OF m']])

lemma file_conflicts_swap:
  assumes "tf_uid x = tf_uid y"
  shows "file_conflicts js yaml b x y = {} \<longleftrightarrow> file_conflicts js yaml b y x = {}"
  unfolding file_conflicts_def Un_empty table_conflicts_swap [of js yaml _ "table_of (Some x)"]
  by (simp add: name_way_swap [of _ "file_name x"] plain.three_way_swap(1) [of never, OF never_sym, of _ "tf_dropped x"])

lemma merged_file_swap:
  assumes "merged_file yaml b x y f" "merged_file yaml b y x g" "tf_uid x = tf_uid y" "file_kind x = file_kind y"
  shows "same_records f g"
  using assms name_way_swap [of _ "file_name x"] plain.three_way_swap(2) [of never, OF never_sym, of _ "tf_dropped x"]
    merged_table_swap
  unfolding merged_file_def same_records_def opt_eq_plain by (metis sum.inject(2))

lemma ancestor_cong: "tf_uid x = tf_uid y \<Longrightarrow> ancestor b x = ancestor b y"
  by (simp add: ancestor_def split: option.splits)

lemma keys_distinct_ancestor: "keys_distinct (table_of b) \<Longrightarrow> keys_distinct (table_of (ancestor b x))"
  by (auto simp: ancestor_def table_of_def keys_distinct_def empty_table_body_def new_table_body_def split: option.splits)

section \<open>An unchanged side\<close>

lemma merged_section_unchanged_plain:
  "merged_section (=) decide b b ys m \<Longrightarrow> map_of m = map_of ys" "merged_section (=) decide b xs b m \<Longrightarrow> map_of m = map_of xs"
  using plain.merged_section_ours_unchanged plain.merged_section_theirs_unchanged by (fastforce simp: opt_eq_plain)+

lemma unchanged_table:
  "merged_table yaml b b t m \<Longrightarrow> same_sections m t" "merged_table yaml b s b m \<Longrightarrow> same_sections m s"
  unfolding merged_table_def same_sections_def
  by (auto dest: merged_section_unchanged_plain
      intro: rebuild.merged_section_ours_unchanged rebuild.merged_section_theirs_unchanged)

lemma unchanged_file_no_conflict:
  "file_conflicts js yaml (Some b) b y = {}" "file_conflicts js yaml (Some b) x b = {}"
  by (simp_all add: file_conflicts_def table_conflicts_def plain.unchanged_no_conflict rebuild.unchanged_no_conflict
      name_way_def three_way_def opt_eq_plain)

lemma unchanged_file:
  "merged_file yaml (Some b) b y f \<Longrightarrow> tf_uid b = tf_uid y \<Longrightarrow> file_kind b = file_kind y \<Longrightarrow> same_records f y"
  "merged_file yaml (Some b) x b f \<Longrightarrow> same_records f x"
  by (auto simp: merged_file_def same_records_def name_way_def three_way_def opt_eq_plain unchanged_table split: if_splits)

lemma file_eq_refl: "file_eq f f"
  by (cases "tf_body f") (simp_all add: file_eq_def body_eq_def pairs_eq_part(1) [OF rebuild.part_eq_axioms])

lemma same_records_refl: "same_records f f"
  by (simp add: same_records_def same_sections_def rebuild.opt_refl)

lemma opt_eq_refl_records: "opt_eq same_records x x"
  by (cases x) (simp_all add: opt_eq_def same_records_refl)

section \<open>Properties\<close>

text \<open>The customers table after two branches: one renamed a column, the other added one and retired another.\<close>

definition merge_sample :: "(uid \<times> ids_rec) list \<Rightarrow> tree_file" where
  "merge_sample cols = \<lparr>tf_uid = Uid ''t_000001'',
     tf_body = BodyTable ((new_table_body ''dbo.customer'')\<lparr>bd_columns := cols\<rparr>), tf_dropped = None\<rparr>"

definition merge_sample_yaml :: yaml_view where
  "merge_sample_yaml = \<lparr>yv_name = Some ''dbo.customer'', yv_columns = [''key'', ''phone'', ''name'']\<rparr>"

text \<open>C4. The merge is three-way by uid: of two files of one identity, either every part (the name, the drop mark
  and each record of each section) has a three-way result, and the merged file holds exactly those results; or the
  conflicts reported are exactly the parts both sides changed differently and the YAML does not decide.\<close>

theorem merge_is_three_way_by_uid:
  assumes "tf_uid ours = tf_uid theirs" "file_kind ours = file_kind theirs"
    and "keys_distinct (table_of base)" "keys_distinct (table_of (Some ours))" "keys_distinct (table_of (Some theirs))"
  shows "case merge_file js base (Some ours) (Some theirs) yaml of
      Inl cs \<Rightarrow> cs \<noteq> [] \<and> set cs = file_conflicts js yaml (ancestor base ours) ours theirs
    | Inr None \<Rightarrow> False
    | Inr (Some f) \<Rightarrow> file_conflicts js yaml (ancestor base ours) ours theirs = {}
        \<and> merged_file yaml (ancestor base ours) ours theirs f"
proof -
  have "merge_file js base (Some ours) (Some theirs) yaml = merge_both js base ours theirs yaml"
    using assms(1,2) by (simp add: merge_file_def file_kind_def)
  then show ?thesis using merge_both_way [OF assms(2) keys_distinct_ancestor [OF assms(3)] assms(4,5)] by simp
qed

theorem merge_is_three_way_by_uid_witness:
  "merge_file sample_json (Some (merge_sample [(Uid ''c_000001'', Live ''id''), (Uid ''c_000002'', Live ''name'')]))
     (Some (merge_sample [(Uid ''c_000001'', Live ''key''), (Uid ''c_000002'', Live ''name'')]))
     (Some (merge_sample [(Uid ''c_000001'', Live ''id''), (Uid ''c_000002'', Live ''name''), (Uid ''c_000003'', Live ''phone'')]))
     merge_sample_yaml
   = Inr (Some (merge_sample [(Uid ''c_000001'', Live ''key''), (Uid ''c_000003'', Live ''phone''), (Uid ''c_000002'', Live ''name'')]))
   \<and> merged_file merge_sample_yaml
     (Some (merge_sample [(Uid ''c_000001'', Live ''id''), (Uid ''c_000002'', Live ''name'')]))
     (merge_sample [(Uid ''c_000001'', Live ''key''), (Uid ''c_000002'', Live ''name'')])
     (merge_sample [(Uid ''c_000001'', Live ''id''), (Uid ''c_000002'', Live ''name''), (Uid ''c_000003'', Live ''phone'')])
     (merge_sample [(Uid ''c_000001'', Live ''key''), (Uid ''c_000003'', Live ''phone''), (Uid ''c_000002'', Live ''name'')])"
proof -
  let ?b = "merge_sample [(Uid ''c_000001'', Live ''id''), (Uid ''c_000002'', Live ''name'')]"
    and ?o = "merge_sample [(Uid ''c_000001'', Live ''key''), (Uid ''c_000002'', Live ''name'')]"
    and ?t = "merge_sample [(Uid ''c_000001'', Live ''id''), (Uid ''c_000002'', Live ''name''), (Uid ''c_000003'', Live ''phone'')]"
    and ?m = "merge_sample [(Uid ''c_000001'', Live ''key''), (Uid ''c_000003'', Live ''phone''), (Uid ''c_000002'', Live ''name'')]"
  have run: "merge_file sample_json (Some ?b) (Some ?o) (Some ?t) merge_sample_yaml = Inr (Some ?m)" by code_simp
  have anc: "ancestor (Some ?b) ?o = Some ?b" by (simp add: ancestor_def merge_sample_def)
  have "tf_uid ?o = tf_uid ?t" "file_kind ?o = file_kind ?t" "keys_distinct (table_of (Some ?b))"
    "keys_distinct (table_of (Some ?o))" "keys_distinct (table_of (Some ?t))" by code_simp+
  from merge_is_three_way_by_uid [OF this, of sample_json merge_sample_yaml] run show ?thesis by (simp add: anc)
qed

text \<open>C18. The merge prefers neither side: exchanging ours and theirs, deleted files included, never turns a
  conflict into a result, and two results hold the same name, the same drop mark and the same record for every uid.\<close>

theorem merge_prefers_neither_side:
  assumes "keys_distinct (table_of base)" "keys_distinct (table_of x)" "keys_distinct (table_of y)"
  shows "case merge_file js base x y yaml of
      Inl cs \<Rightarrow> (\<exists>cs'. merge_file js base y x yaml = Inl cs')
    | Inr f \<Rightarrow> (\<exists>g. merge_file js base y x yaml = Inr g \<and> opt_eq same_records f g)"
proof (cases "\<exists>f g. x = Some f \<and> y = Some g \<and> tf_uid f = tf_uid g \<and> file_kind f = file_kind g")
  case True
  then obtain f g where x: "x = Some f" and y: "y = Some g" and uid: "tf_uid f = tf_uid g" and kind: "file_kind f = file_kind g"
    by blast
  have run: "merge_file js base (Some f) (Some g) yaml = merge_both js base f g yaml"
    "merge_file js base (Some g) (Some f) yaml = merge_both js base g f yaml"
    using uid kind by (simp_all add: merge_file_def file_kind_def)
  show ?thesis
    using merge_both_way [OF kind keys_distinct_ancestor, of base js yaml] merge_both_way [OF kind [symmetric] keys_distinct_ancestor, of base js yaml]
      assms file_conflicts_swap [OF uid, of js yaml "ancestor base f"] merged_file_swap [of yaml "ancestor base f" f g] uid kind
    unfolding x y run ancestor_cong [OF uid [symmetric]]
    by (cases "merge_both js base f g yaml"; cases "merge_both js base g f yaml") (auto simp: opt_eq_def split: option.splits)
next
  case False
  then show ?thesis
    by (cases x; cases y) (auto simp: merge_file_def file_kind_def one_sided_def opt_eq_refl_records Let_def)
qed

theorem merge_prefers_neither_side_witness:
  "\<exists>g. merge_file sample_json (Some (merge_sample [(Uid ''c_000001'', Live ''id'')]))
       (Some (merge_sample [(Uid ''c_000001'', Live ''id''), (Uid ''c_000002'', Live ''phone'')]))
       (Some (merge_sample [(Uid ''c_000001'', Live ''key'')])) merge_sample_yaml = Inr g
     \<and> opt_eq same_records (Some (merge_sample [(Uid ''c_000001'', Live ''key''), (Uid ''c_000002'', Live ''phone'')])) g"
proof -
  let ?b = "Some (merge_sample [(Uid ''c_000001'', Live ''id'')])"
    and ?x = "Some (merge_sample [(Uid ''c_000001'', Live ''key'')])"
    and ?y = "Some (merge_sample [(Uid ''c_000001'', Live ''id''), (Uid ''c_000002'', Live ''phone'')])"
    and ?m = "Some (merge_sample [(Uid ''c_000001'', Live ''key''), (Uid ''c_000002'', Live ''phone'')])"
  have run: "merge_file sample_json ?b ?x ?y merge_sample_yaml = Inr ?m" by code_simp
  have "keys_distinct (table_of ?b)" "keys_distinct (table_of ?x)" "keys_distinct (table_of ?y)" by code_simp+
  from merge_prefers_neither_side [OF this, of sample_json merge_sample_yaml] show ?thesis unfolding run by simp
qed

text \<open>A side that did not change a file yields to the side that did, on either side: what follows holds the
  records the other side has, or no file where the other side deleted it or never had it. A file one side deleted
  and the other changed is refused.\<close>

theorem an_unchanged_side_yields:
  assumes d: "keys_distinct (table_of base)" "keys_distinct (table_of y)"
    and same: "\<And>b f. base = Some b \<Longrightarrow> y = Some f \<Longrightarrow> tf_uid b = tf_uid f \<and> file_kind b = file_kind f"
  shows "(\<exists>r. merge_file js base base y yaml = Inr r \<and> opt_eq same_records r y)
    \<and> (\<exists>r. merge_file js base y base yaml = Inr r \<and> opt_eq same_records r y)
    \<and> (base \<noteq> None \<and> y \<noteq> None \<and> \<not> opt_eq file_eq y base \<longrightarrow>
        (\<exists>cs. merge_file js base None y yaml = Inl cs) \<and> (\<exists>cs. merge_file js base y None yaml = Inl cs))"
proof (cases "\<exists>b f. base = Some b \<and> y = Some f")
  case True
  then obtain b f where base: "base = Some b" and y: "y = Some f" by blast
  with same have uid: "tf_uid b = tf_uid f" and kind: "file_kind b = file_kind f" by blast+
  have run: "merge_file js (Some b) (Some b) (Some f) yaml = merge_both js (Some b) b f yaml"
    "merge_file js (Some b) (Some f) (Some b) yaml = merge_both js (Some b) f b yaml"
    using uid kind by (simp_all add: merge_file_def file_kind_def)
  have anc: "ancestor (Some b) b = Some b" "ancestor (Some b) f = Some b" by (simp_all add: ancestor_def uid)
  have db: "keys_distinct (table_of (ancestor (Some b) b))" "keys_distinct (table_of (ancestor (Some b) f))"
    "keys_distinct (table_of (Some b))" "keys_distinct (table_of (Some f))" using d by (simp_all add: anc base y)
  have "\<exists>r. merge_both js (Some b) b f yaml = Inr (Some r) \<and> same_records r f"
    using merge_both_way [OF kind db(1,3,4), of js yaml] unchanged_file(1) [of yaml b f, OF _ uid kind]
    unfolding anc unchanged_file_no_conflict by (auto split: sum.splits option.splits)
  moreover have "\<exists>r. merge_both js (Some b) f b yaml = Inr (Some r) \<and> same_records r f"
    using merge_both_way [OF kind [symmetric] db(2,4,3), of js yaml] unchanged_file(2) [of yaml b f]
    unfolding anc unchanged_file_no_conflict by (auto split: sum.splits option.splits)
  moreover have "\<exists>cs. merge_file js (Some b) None (Some f) yaml = Inl cs" "\<exists>cs. merge_file js (Some b) (Some f) None yaml = Inl cs"
    if "\<not> opt_eq file_eq (Some f) (Some b)" using that by (simp_all add: merge_file_def one_sided_def Let_def)
  ultimately show ?thesis unfolding base y run by (fastforce simp: opt_eq_def [of same_records])
next
  case False
  then show ?thesis
    by (cases base; cases y) (auto simp: merge_file_def one_sided_def opt_eq_def file_eq_refl same_records_refl Let_def)
qed

theorem an_unchanged_side_yields_witness:
  "\<exists>r. merge_file sample_json (Some (merge_sample [(Uid ''c_000001'', Live ''id'')]))
       (Some (merge_sample [(Uid ''c_000001'', Live ''id'')])) (Some (merge_sample [(Uid ''c_000001'', Live ''key'')]))
       merge_sample_yaml = Inr r \<and> opt_eq same_records r (Some (merge_sample [(Uid ''c_000001'', Live ''key'')]))"
proof -
  have "keys_distinct (table_of (Some (merge_sample [(Uid ''c_000001'', Live ''id'')])))"
    "keys_distinct (table_of (Some (merge_sample [(Uid ''c_000001'', Live ''key'')])))" by code_simp+
  then show ?thesis
    by (rule an_unchanged_side_yields [THEN conjunct1]) (auto simp: merge_sample_def file_kind_def)
qed

end
