(* ===== verification/Ids_Check.thy ===== *)
theory Ids_Check
  imports Tree_Roundtrip
begin

text \<open>
  The validator of the identity tree (\<open>crates/pbps-model/src/ids_check.rs\<close>): every way a tree
  can be wrong, as findings. The wording of a finding is a constructor of \<open>message\<close> with the
  values the format string shows. \<open>str::to_lowercase\<close>, a table of the Unicode standard, is the
  parameter \<open>lower\<close>.
\<close>

section \<open>Data\<close>

datatype code =
    YamlWithoutIds | Orphan | NameMismatch | DuplicateUidCode | DroppedButDeclared | LiveColumnInDropped
  | DuplicateNameCode | PathCollisionCode | CaseCollision | ConflictMarkersCode | MalformedCode
  | SentinelMissingCode | FormatCode | LegacyLayout | LegacyBesideTree | NotCanonical | InvalidMapping

fun code_rank :: "code \<Rightarrow> nat" where
  "code_rank YamlWithoutIds = 0"
| "code_rank Orphan = 1"
| "code_rank NameMismatch = 2"
| "code_rank DuplicateUidCode = 3"
| "code_rank DroppedButDeclared = 4"
| "code_rank LiveColumnInDropped = 5"
| "code_rank DuplicateNameCode = 6"
| "code_rank PathCollisionCode = 7"
| "code_rank CaseCollision = 8"
| "code_rank ConflictMarkersCode = 9"
| "code_rank MalformedCode = 10"
| "code_rank SentinelMissingCode = 11"
| "code_rank FormatCode = 12"
| "code_rank LegacyLayout = 13"
| "code_rank LegacyBesideTree = 14"
| "code_rank NotCanonical = 15"
| "code_rank InvalidMapping = 16"

lemma code_rank_inject: "code_rank a = code_rank b \<Longrightarrow> a = b"
  by (cases a; cases b) simp_all

text \<open>\<open>derive(Ord)\<close>: the order of the variants.\<close>

instantiation code :: linorder
begin

definition less_eq_code :: "code \<Rightarrow> code \<Rightarrow> bool" where
  "less_eq_code a b \<longleftrightarrow> code_rank a \<le> code_rank b"

definition less_code :: "code \<Rightarrow> code \<Rightarrow> bool" where
  "less_code a b \<longleftrightarrow> code_rank a < code_rank b"

instance
  by standard (auto simp: less_eq_code_def less_code_def code_rank_inject)

end

fun code_str :: "code \<Rightarrow> string" where
  "code_str YamlWithoutIds = ''ids.yaml-without-ids''"
| "code_str Orphan = ''ids.orphan''"
| "code_str NameMismatch = ''ids.name-mismatch''"
| "code_str DuplicateUidCode = ''ids.duplicate-uid''"
| "code_str DroppedButDeclared = ''ids.dropped-but-declared''"
| "code_str LiveColumnInDropped = ''ids.live-column-in-dropped''"
| "code_str DuplicateNameCode = ''ids.duplicate-name''"
| "code_str PathCollisionCode = ''ids.path-collision''"
| "code_str CaseCollision = ''ids.case-collision''"
| "code_str ConflictMarkersCode = ''ids.conflict-markers''"
| "code_str MalformedCode = ''ids.malformed''"
| "code_str SentinelMissingCode = ''ids.sentinel-missing''"
| "code_str FormatCode = ''ids.format''"
| "code_str LegacyLayout = ''ids.legacy-layout''"
| "code_str LegacyBesideTree = ''ids.legacy-beside-tree''"
| "code_str NotCanonical = ''ids.not-canonical''"
| "code_str InvalidMapping = ''ids.invalid-mapping''"

datatype message =
    OldLayout string
  | OldBesideTree string
  | NotInCanonicalForm string
  | Refusal tree_error
  | AppearsIn uid string string
  | AppearsTwiceIn uid string
  | NamedTwice ids_error string string
  | RefusedMapping ids_error
  | NotUnder string string
  | NoDeclarationFor string string
  | NoIdentityFile string string string
  | MarkedDropped string string
  | SaysOther string string string string
  | BothMapTo "string list" string
  | DifferOnlyInCase "string list"

record finding =
  fd_code :: code
  fd_path :: string
  fd_message :: message
  fd_remedy :: string

record decl =
  dc_yaml :: string
  dc_kind :: uid_kind
  dc_name :: string
  dc_renamed_from :: "string option"

record layout =
  ly_schema_dir :: string
  ly_ids_dir :: string

record check_input =
  in_layout :: layout
  in_declared :: "decl list"
  in_ids :: "(string, string) btree"
  in_legacy_file :: bool

section \<open>The checks\<close>

definition mirrored :: "layout \<Rightarrow> string \<Rightarrow> string option" where
  "mirrored l yaml =
     Option.bind (Option.bind (strip_prefix (ly_schema_dir l) yaml) (strip_prefix ''/'')) (\<lambda>rel.
     Option.bind (or_else (strip_suffix ''.yml'' rel) (strip_suffix ''.yaml'' rel)) (\<lambda>stem.
       if stem \<noteq> [] then Some (stem @ ''.json'') else None))"

definition shown :: "layout \<Rightarrow> string \<Rightarrow> string" where
  "shown l rel = ly_ids_dir l @ ''/'' @ rel"

definition add_finding :: "code \<Rightarrow> string \<Rightarrow> message \<Rightarrow> string \<Rightarrow> finding list \<Rightarrow> finding list" where
  "add_finding c path msg remedy out = out @ [\<lparr>fd_code = c, fd_path = path, fd_message = msg, fd_remedy = remedy\<rparr>]"

definition RESTORE :: string where
  "RESTORE = ''`pbps ids resolve`, or restore the file from git''"

definition KEEP_ONE :: string where
  "KEEP_ONE = ''keep one entry, delete the other, run `pbps ids fmt`''"

definition DROPPED_REMEDY :: string where
  "DROPPED_REMEDY = ''restore the table with a new uid (`pbps plan` after moving the old file aside), ''
     @ ''or remove the declaration''"

definition MISMATCH_REMEDY :: string where
  "MISMATCH_REMEDY = ''`pbps rename <old> <new>`, or add `renamed_from`''"

definition check_legacy :: "check_input \<Rightarrow> finding list \<Rightarrow> finding list" where
  "check_legacy inp out =
     (let dir = ly_ids_dir (in_layout inp) in
      if \<not> in_legacy_file inp then out
      else if bis_empty (in_ids inp)
      then add_finding LegacyLayout ''schema.ids.json'' (OldLayout dir) ''pbps ids migrate'' out
      else add_finding LegacyBesideTree ''schema.ids.json'' (OldBesideTree dir)
             ''delete the old file after checking `git diff`'' out)"

definition refused_code :: "tree_error \<Rightarrow> code \<times> string" where
  "refused_code e =
     (case e of
        ConflictMarkers _ \<Rightarrow> (ConflictMarkersCode, ''resolve the YAML, then `pbps ids resolve`'')
      | SentinelMissing _ _ \<Rightarrow> (SentinelMissingCode, RESTORE)
      | SentinelNotLast _ _ \<Rightarrow> (SentinelMissingCode, RESTORE)
      | WrongFormat _ _ \<Rightarrow> (FormatCode, RESTORE)
      | DroppedWithLive _ \<Rightarrow> (LiveColumnInDropped, ''`pbps ids resolve`'')
      | DuplicateKey _ key \<Rightarrow> if is_ok (uid_from_str key) then (DuplicateUidCode, KEEP_ONE) else (MalformedCode, RESTORE)
      | _ \<Rightarrow> (MalformedCode, RESTORE))"

definition refused :: "string \<Rightarrow> tree_error \<Rightarrow> finding list \<Rightarrow> finding list" where
  "refused path e out = add_finding (fst (refused_code e)) path (Refusal e) (snd (refused_code e)) out"

definition read_one ::
  "(string \<Rightarrow> (string, raw_file) result) \<Rightarrow> json_out \<Rightarrow> layout \<Rightarrow> (string, tree_file) btree \<times> finding list
   \<Rightarrow> string \<times> string \<Rightarrow> (string, tree_file) btree \<times> finding list" where
  "read_one from_str js l st p =
     (case st of (parsed, out) \<Rightarrow> case p of (rel, text) \<Rightarrow>
        let path = shown l rel in
        case parse_tree from_str path text of
          Inr f \<Rightarrow> (bput rel f parsed,
                    if render js f \<noteq> text
                    then add_finding NotCanonical path (NotInCanonicalForm path) ''pbps ids fmt'' out else out)
        | Inl e \<Rightarrow> (parsed, refused path e out))"

definition read_files ::
  "(string \<Rightarrow> (string, raw_file) result) \<Rightarrow> json_out \<Rightarrow> layout \<Rightarrow> (string, string) btree \<Rightarrow> finding list
   \<Rightarrow> (string, tree_file) btree \<times> finding list" where
  "read_files from_str js l ids out = foldl (read_one from_str js l) (bempty, out) (entries ids)"

text \<open>What one file claims, in the order of the closure calls.\<close>

definition uid_claims :: "tree_file \<Rightarrow> (string \<times> uid) list" where
  "uid_claims f =
     (''identity'', tf_uid f) #
     (case tf_body f of
        BodyTable t \<Rightarrow>
          map (\<lambda>(u, _). (''identity'', u)) (bd_columns t @ bd_partitions t)
          @ map (\<lambda>(u, _). (''moves'', u)) (bd_moves t)
          @ map (\<lambda>(u, _). (''conversions'', u)) (bd_conversions t)
          @ map (\<lambda>(u, _). (''rebuilds'', u)) (bd_rebuilds t)
      | _ \<Rightarrow> [])"

definition all_claims :: "(string, tree_file) btree \<Rightarrow> (string \<times> uid, string list) btree" where
  "all_claims parsed =
     foldl (\<lambda>seen (rel, f). foldl (\<lambda>seen key. bpush key rel seen) seen (uid_claims f)) bempty (entries parsed)"

definition uid_message :: "uid \<Rightarrow> string list \<Rightarrow> message option" where
  "uid_message u paths =
     (case paths of
        [] \<Rightarrow> None
      | a # rest \<Rightarrow>
          (case rest of
             [b] \<Rightarrow> if a \<noteq> b then Some (AppearsIn u a b) else Some (AppearsTwiceIn u a)
           | _ \<Rightarrow> Some (AppearsTwiceIn u a)))"

definition check_uids :: "layout \<Rightarrow> (string, tree_file) btree \<Rightarrow> finding list \<Rightarrow> bool \<times> finding list" where
  "check_uids l parsed out =
     foldl (\<lambda>(unique, out) ((sec, u), paths).
       let ps = map (shown l) paths in
       (False, case uid_message u ps of
                 None \<Rightarrow> out
               | Some m \<Rightarrow> add_finding DuplicateUidCode (hd ps) m KEEP_ONE out))
       (True, out) (filter (\<lambda>(_, ps). length ps > 1) (entries (all_claims parsed)))"

definition holds_uid :: "tree_file \<Rightarrow> uid \<Rightarrow> bool" where
  "holds_uid f u \<longleftrightarrow>
     tf_uid f = u
     \<or> (case tf_body f of
          BodyTable t \<Rightarrow> list_ex (\<lambda>(v, _). v = u) (bd_columns t @ bd_partitions t)
                         \<or> list_ex (\<lambda>(v, _). v = u) (bd_rebuilds t)
        | _ \<Rightarrow> False)"

definition invalid_uid :: "ids_error \<Rightarrow> uid option" where
  "invalid_uid e =
     (case e of
        LiveAndTombstoned u \<Rightarrow> Some u
      | KindMismatch u \<Rightarrow> Some u
      | OrphanColumn u _ \<Rightarrow> Some u
      | OrphanMove u \<Rightarrow> Some u
      | InvalidRebuild u \<Rightarrow> Some u
      | OrphanConversion u \<Rightarrow> Some u
      | InvalidConversion u \<Rightarrow> Some u
      | InvalidDropRequirement u \<Rightarrow> Some u
      | NotHeld u _ \<Rightarrow> Some u
      | UnsupportedVersion _ _ \<Rightarrow> None
      | DuplicateName _ _ _ \<Rightarrow> None)"

definition THE_TREE :: string where
  "THE_TREE = ''the identity tree''"

definition owner :: "layout \<Rightarrow> (string, tree_file) btree \<Rightarrow> uid \<Rightarrow> string" where
  "owner l parsed u =
     (case find (\<lambda>(_, f). holds_uid f u) (entries parsed) of None \<Rightarrow> THE_TREE | Some (p, _) \<Rightarrow> shown l p)"

definition check_mapping ::
  "(string \<Rightarrow> (string, raw_file) result) \<Rightarrow> layout \<Rightarrow> (string, string) btree \<Rightarrow> (string, tree_file) btree
   \<Rightarrow> finding list \<Rightarrow> finding list" where
  "check_mapping from_str l ids parsed out =
     (case assemble from_str ids of
        Inr _ \<Rightarrow> out
      | Inl (TreeIds inner) \<Rightarrow>
          (case inner of
             DuplicateName a b _ \<Rightarrow>
               add_finding DuplicateNameCode (owner l parsed a) (NamedTwice inner (owner l parsed a) (owner l parsed b))
                 ''delete one of the two entries'' out
           | _ \<Rightarrow>
               add_finding InvalidMapping (case invalid_uid inner of None \<Rightarrow> THE_TREE | Some u \<Rightarrow> owner l parsed u)
                 (RefusedMapping inner) RESTORE out)
      | Inl _ \<Rightarrow> out)"

definition agrees :: "decl \<Rightarrow> string \<Rightarrow> bool" where
  "agrees d recorded \<longleftrightarrow> dc_name d = recorded \<or> dc_renamed_from d = Some recorded"

definition checked_name :: "tree_file \<Rightarrow> string" where
  "checked_name f =
     (case tf_body f of BodyTable t \<Rightarrow> bd_table t | BodyRole n \<Rightarrow> n | BodyType n \<Rightarrow> n | BodyExtension n \<Rightarrow> n)"

definition relocatable :: "decl \<Rightarrow> (string \<times> tree_file) list \<Rightarrow> bool" where
  "relocatable d unpaired \<longleftrightarrow>
     length (filter (\<lambda>(_, f). body_kind (tf_body f) = dc_kind d \<and> agrees d (checked_name f)) unpaired) = 1"

definition declare_one ::
  "layout \<Rightarrow> (string, decl) btree \<times> finding list \<Rightarrow> decl \<Rightarrow> (string, decl) btree \<times> finding list" where
  "declare_one l st d =
     (case st of (declared, out) \<Rightarrow>
        case mirrored l (dc_yaml d) of
          Some rel \<Rightarrow> (bentry rel d declared, out)
        | None \<Rightarrow> (declared, add_finding MalformedCode (dc_yaml d) (NotUnder (dc_yaml d) (ly_schema_dir l))
                     ''move the declaration under the schema directory'' out))"

definition unpaired_files :: "(string, decl) btree \<Rightarrow> (string, tree_file) btree \<Rightarrow> (string \<times> tree_file) list" where
  "unpaired_files declared parsed =
     filter (\<lambda>(rel, f). tf_dropped f = None \<and> \<not> bhas declared rel) (entries parsed)"

definition report_orphan :: "layout \<Rightarrow> finding list \<Rightarrow> string \<times> tree_file \<Rightarrow> finding list" where
  "report_orphan l out p =
     (case p of (rel, f) \<Rightarrow>
        add_finding Orphan (shown l rel) (NoDeclarationFor (shown l rel) (checked_name f))
          ''moved the file: `pbps plan`; removed it: `pbps drop <name> --reason ...`'' out)"

definition compare_declared ::
  "layout \<Rightarrow> (string, string) btree \<Rightarrow> (string, tree_file) btree \<Rightarrow> (string \<times> tree_file) list \<Rightarrow> finding list
   \<Rightarrow> string \<times> decl \<Rightarrow> finding list" where
  "compare_declared l ids parsed unpaired out p =
     (case p of (rel, d) \<Rightarrow>
        let path = shown l rel in
        case bget parsed rel of
          None \<Rightarrow>
            if \<not> bhas ids rel \<and> \<not> relocatable d unpaired
            then add_finding YamlWithoutIds (dc_yaml d) (NoIdentityFile (dc_name d) (dc_yaml d) path) ''pbps plan'' out
            else out
        | Some f \<Rightarrow>
            if tf_dropped f \<noteq> None
            then add_finding DroppedButDeclared path (MarkedDropped path (dc_yaml d))
                   DROPPED_REMEDY out
            else if body_kind (tf_body f) \<noteq> dc_kind d \<or> \<not> agrees d (checked_name f)
            then add_finding NameMismatch path (SaysOther path (checked_name f) (dc_yaml d) (dc_name d))
                   MISMATCH_REMEDY out
            else out)"

definition check_declarations ::
  "check_input \<Rightarrow> (string, tree_file) btree \<Rightarrow> finding list \<Rightarrow> finding list" where
  "check_declarations inp parsed out =
     (let l = in_layout inp;
          (declared, out) = foldl (declare_one l) (bempty, out) (in_declared inp);
          unpaired = unpaired_files declared parsed;
          out = foldl (report_orphan l) out unpaired
      in foldl (compare_declared l (in_ids inp) parsed unpaired) out (entries declared))"

definition mirrored_paths :: "check_input \<Rightarrow> (string \<times> string) list" where
  "mirrored_paths inp =
     List.map_filter (\<lambda>d. map_option (\<lambda>rel. (rel, dc_yaml d)) (mirrored (in_layout inp) (dc_yaml d))) (in_declared inp)"

definition fold_path :: "(string \<Rightarrow> string) \<Rightarrow> layout \<Rightarrow> (string, string set) btree \<Rightarrow> string \<Rightarrow> (string, string set) btree" where
  "fold_path lower l m rel =
     (let s = shown l rel in bput (lower s) (insert s (case bget m (lower s) of None \<Rightarrow> {} | Some x \<Rightarrow> x)) m)"

definition check_collisions :: "(string \<Rightarrow> string) \<Rightarrow> check_input \<Rightarrow> finding list \<Rightarrow> finding list" where
  "check_collisions lower inp out =
     (let l = in_layout inp;
          by_ids = foldl (\<lambda>m (rel, yaml). bpush rel yaml m) bempty (mirrored_paths inp);
          out = foldl (\<lambda>out (rel, yamls). add_finding PathCollisionCode (hd yamls) (BothMapTo yamls (shown l rel)) ''rename one'' out)
                  out (filter (\<lambda>(_, ys). length ys > 1) (entries by_ids));
          folded = foldl (fold_path lower l) bempty (map fst (mirrored_paths inp) @ bkeys (in_ids inp))
      in foldl (\<lambda>out s. let xs = sorted_list_of_set s in
                  add_finding CaseCollision (hd xs) (DifferOnlyInCase xs) ''rename one'' out)
           out (filter (\<lambda>s. card s > 1) (bvalues folded)))"

definition check_tree ::
  "(string \<Rightarrow> (string, raw_file) result) \<Rightarrow> json_out \<Rightarrow> (string \<Rightarrow> string) \<Rightarrow> check_input \<Rightarrow> finding list" where
  "check_tree from_str js lower inp =
     (let l = in_layout inp;
          out = check_legacy inp [];
          (parsed, out) = read_files from_str js l (in_ids inp) out;
          clean = (length (entries parsed) = length (entries (in_ids inp)));
          (unique, out) = check_uids l parsed out;
          out = (if clean \<and> unique then check_mapping from_str l (in_ids inp) parsed out else out);
          out = check_declarations inp parsed out;
          out = check_collisions lower inp out
      in sort_key (\<lambda>f. (fd_path f, fd_code f)) out)"

section \<open>Specification\<close>

text \<open>The tree's texts are the renderings of \<open>files\<close>, each of which its text reads back as.\<close>

definition canonical_tree ::
  "(string \<Rightarrow> (string, raw_file) result) \<Rightarrow> json_out \<Rightarrow> layout \<Rightarrow> (string, string) btree \<Rightarrow> (string, tree_file) btree \<Rightarrow> bool" where
  "canonical_tree from_str js l ids files \<longleftrightarrow>
     ids = bmap (render js) files
     \<and> (\<forall>rel f. bget files rel = Some f \<longrightarrow> parse_tree from_str (shown l rel) (render js f) = Inr f)"

text \<open>Declarations and live files correspond one to one, with equal kinds and agreeing names.\<close>

definition mirrors_declarations :: "layout \<Rightarrow> decl list \<Rightarrow> (string, tree_file) btree \<Rightarrow> bool" where
  "mirrors_declarations l declared files \<longleftrightarrow>
     distinct (map (\<lambda>d. mirrored l (dc_yaml d)) declared)
     \<and> (\<forall>d. d \<in> set declared \<longrightarrow>
          (\<exists>rel f. mirrored l (dc_yaml d) = Some rel \<and> bget files rel = Some f \<and> tf_dropped f = None
                   \<and> body_kind (tf_body f) = dc_kind d \<and> agrees d (checked_name f)))
     \<and> (\<forall>rel f. bget files rel = Some f \<and> tf_dropped f = None \<longrightarrow>
          (\<exists>d. d \<in> set declared \<and> mirrored l (dc_yaml d) = Some rel))"

text \<open>No uid is claimed twice, by one file or by two.\<close>

definition claims_apart :: "(string, tree_file) btree \<Rightarrow> bool" where
  "claims_apart files \<longleftrightarrow> distinct (concat (map (\<lambda>(_, f). uid_claims f) (entries files)))"

text \<open>No two paths are one path on a file system that folds case.\<close>

definition paths_apart :: "(string \<Rightarrow> string) \<Rightarrow> layout \<Rightarrow> string list \<Rightarrow> bool" where
  "paths_apart lower l ps \<longleftrightarrow>
     (\<forall>p q. p \<in> set ps \<and> q \<in> set ps \<and> lower (shown l p) = lower (shown l q) \<longrightarrow> p = q)"

section \<open>Loops that only report\<close>

lemma add_finding_not_Nil [simp]: "add_finding c p m r out \<noteq> []"
  by (simp add: add_finding_def)

lemma reporting_loop:
  assumes "\<And>out x. x \<in> set xs \<Longrightarrow> step out x = [] \<longleftrightarrow> out = [] \<and> P x"
  shows "foldl step out xs = [] \<longleftrightarrow> out = [] \<and> (\<forall>x \<in> set xs. P x)"
  using assms by (induction xs arbitrary: out) auto

lemma check_legacy_Nil: "check_legacy inp out = [] \<longleftrightarrow> out = [] \<and> \<not> in_legacy_file inp"
  by (simp add: check_legacy_def Let_def)

lemma sort_key_Nil: "sort_key f xs = [] \<longleftrightarrow> xs = []"
  by (metis length_0_conv length_sort)

lemma distinct_iff_filter: "distinct xs \<longleftrightarrow> (\<forall>k. length (filter (\<lambda>x. x = k) xs) \<le> 1)"
proof (induction xs)
  case (Cons x xs)
  have "x \<notin> set xs \<longleftrightarrow> length (filter (\<lambda>y. y = x) xs) = 0" by (auto simp: filter_empty_conv)
  with Cons show ?case by (auto simp: le_Suc_eq)
qed simp

section \<open>Reading the files\<close>

lemma read_files_run:
  "foldl (read_one from_str js l) (parsed, out) ps =
     (bputs (List.map_filter (\<lambda>(rel, text). case parse_tree from_str (shown l rel) text of Inr f \<Rightarrow> Some (rel, f) | Inl _ \<Rightarrow> None) ps) parsed,
      snd (foldl (read_one from_str js l) (parsed, out) ps))"
proof (induction ps arbitrary: parsed out)
  case (Cons p ps)
  obtain rel t where p: "p = (rel, t)" by (cases p)
  show ?case
    using Cons.IH [of parsed "refused (shown l rel) _ out"] Cons.IH [of "bput rel _ parsed"]
    by (cases "parse_tree from_str (shown l rel) t")
      (simp_all add: p read_one_def Let_def map_filter_simps)
qed (simp add: map_filter_simps)

lemma read_one_pair:
  "read_one from_str js l (parsed, out) (rel, t) =
     (case parse_tree from_str (shown l rel) t of
        Inr f \<Rightarrow> (bput rel f parsed, if render js f \<noteq> t
                    then add_finding NotCanonical (shown l rel) (NotInCanonicalForm (shown l rel)) ''pbps ids fmt'' out else out)
      | Inl e \<Rightarrow> (parsed, refused (shown l rel) e out))"
  by (simp add: read_one_def Let_def)

lemma read_files_Nil:
  "snd (foldl (read_one from_str js l) (parsed, out) ps) = []
   \<longleftrightarrow> out = [] \<and> (\<forall>(rel, text) \<in> set ps. \<exists>f. parse_tree from_str (shown l rel) text = Inr f \<and> render js f = text)"
proof (induction ps arbitrary: parsed out)
  case (Cons p ps)
  obtain rel t where p: "p = (rel, t)" by (cases p)
  show ?case
    by (cases "parse_tree from_str (shown l rel) t") (auto simp: p read_one_pair Cons.IH refused_def)
qed simp

lemma reads_all:
  assumes "\<forall>(rel, t) \<in> set ps. \<exists>f. g rel t = Inr f"
  shows "List.map_filter (\<lambda>(rel, t). case g rel t of Inr f \<Rightarrow> Some (rel, f) | Inl _ \<Rightarrow> None) ps
    = map (\<lambda>(rel, t). (rel, projr (g rel t))) ps"
  using assms by (induction ps) (auto simp: map_filter_simps)

lemma bputs_keyed_map: "entries (bputs (map (\<lambda>(k, v). (k, h k v)) (entries m)) bempty) = map (\<lambda>(k, v). (k, h k v)) (entries m)"
proof (rule entries_map_of_sorted [symmetric])
  show sorted: "sorted_keys (map (\<lambda>(k, v). (k, h k v)) (entries m))"
    using entries_sorted [of m] by (simp add: comp_def case_prod_unfold)
  show "map_of (map (\<lambda>(k, v). (k, h k v)) (entries m)) = bget (bputs (map (\<lambda>(k, v). (k, h k v)) (entries m)) bempty)"
    unfolding bget_bputs map_of_rev [OF sorted_keys_distinct [OF sorted]]
    by (simp add: map_add_def fun_eq_iff split: option.splits)
qed

lemma read_files_canonical:
  assumes "read_files from_str js l ids out = (parsed, out')"
  shows "out' = [] \<longleftrightarrow> out = [] \<and> canonical_tree from_str js l ids parsed"
    and "canonical_tree from_str js l ids files \<Longrightarrow> parsed = files"
    and "canonical_tree from_str js l ids files \<Longrightarrow> length (entries parsed) = length (entries ids)"
proof -
  let ?g = "\<lambda>rel t. parse_tree from_str (shown l rel) t"
  let ?good = "\<forall>(rel, t) \<in> set (entries ids). \<exists>f. ?g rel t = Inr f \<and> render js f = t"
  have parsed: "parsed = bputs (List.map_filter (\<lambda>(rel, t). case ?g rel t of Inr f \<Rightarrow> Some (rel, f) | Inl _ \<Rightarrow> None) (entries ids)) bempty"
    using assms read_files_run [of from_str js l bempty out "entries ids"] by (simp add: read_files_def)
  have out: "out' = [] \<longleftrightarrow> out = [] \<and> ?good"
    using assms read_files_Nil [of from_str js l bempty out "entries ids"] by (simp add: read_files_def)
  have good: "entries parsed = map (\<lambda>(rel, t). (rel, projr (?g rel t))) (entries ids)" if ?good
    using that unfolding parsed by (subst reads_all) (auto intro: bputs_keyed_map)
  have can: "canonical_tree from_str js l ids parsed" if ?good
    unfolding canonical_tree_def
  proof (intro conjI allI impI)
    have "map (\<lambda>(k, v). (k, render js v)) (map (\<lambda>(rel, t). (rel, projr (?g rel t))) (entries ids)) = entries ids"
      unfolding map_map using that by (intro map_idI) auto
    then show "ids = bmap (render js) parsed" unfolding entries_inject [symmetric] bmap.rep_eq good [OF that] by simp
    fix rel f assume "bget parsed rel = Some f"
    then have "(rel, f) \<in> set (entries parsed)" by (simp add: entries_bget)
    then show "parse_tree from_str (shown l rel) (render js f) = Inr f" using that unfolding good [OF that] by auto
  qed
  have found: "?good \<and> parsed = files" if c: "canonical_tree from_str js l ids files" for files
  proof -
    have e: "entries ids = map (\<lambda>(rel, f). (rel, render js f)) (entries files)"
      using c by (simp add: canonical_tree_def bmap.rep_eq)
    have "?g rel (render js f) = Inr f" if "(rel, f) \<in> set (entries files)" for rel f
      using that c by (simp add: canonical_tree_def entries_bget)
    then have g: ?good and "map (\<lambda>(rel, t). (rel, projr (?g rel t))) (entries ids) = entries files"
      unfolding e by (auto intro!: map_idI)
    then show ?thesis using good [OF g] by (simp add: entries_inject)
  qed
  show "out' = [] \<longleftrightarrow> out = [] \<and> canonical_tree from_str js l ids parsed"
    unfolding out using can found [of parsed, THEN conjunct1] by argo
  show "canonical_tree from_str js l ids files \<Longrightarrow> parsed = files" using found by blast
  show "canonical_tree from_str js l ids files \<Longrightarrow> length (entries parsed) = length (entries ids)"
    using found by (auto simp: canonical_tree_def bmap.rep_eq)
qed

section \<open>One uid in two places\<close>

lemma uid_claims_file: "uid_claims f = file_claims f"
  by (cases "tf_body f") (simp_all add: uid_claims_def file_claims_def from_table_def case_prod_unfold)

definition claim_pairs :: "(string, tree_file) btree \<Rightarrow> ((string \<times> uid) \<times> string) list" where
  "claim_pairs parsed = concat (map (\<lambda>(rel, f). map (\<lambda>k. (k, rel)) (file_claims f)) (entries parsed))"

lemma foldl_concat: "foldl (\<lambda>s x. foldl f s (g x)) s xs = foldl f s (concat (map g xs))"
  by (induction xs arbitrary: s) simp_all

lemma all_claims_pairs: "all_claims parsed = foldl (\<lambda>seen (k, rel). bpush k rel seen) bempty (claim_pairs parsed)"
  unfolding all_claims_def claim_pairs_def foldl_concat [symmetric] uid_claims_file
  by (simp add: case_prod_unfold foldl_map)

lemma bget_list_pushes: "bget_list (foldl (\<lambda>m (k, v). bpush k v m) m ps) k = bget_list m k @ map snd (filter (\<lambda>p. fst p = k) ps)"
  by (induction ps arbitrary: m) (auto simp: bget_bpush)

text \<open>No group of an \<open>entry().or_default().push()\<close> loop has two members exactly when no key is repeated.\<close>

lemma no_group_of_two:
  "filter (\<lambda>(_, vs). length vs > 1) (entries (foldl (\<lambda>m (k, v). bpush k v m) bempty ps)) = [] \<longleftrightarrow> distinct (map fst ps)"
proof -
  let ?m = "foldl (\<lambda>m (k, v). bpush k v m) bempty ps"
  have "length (filter (\<lambda>x. x = k) (map fst ps)) = length (bget_list ?m k)" for k
    by (simp add: bget_list_pushes filter_map comp_def)
  moreover have "length (bget_list ?m k) \<le> 1 \<longleftrightarrow> (\<forall>vs. bget ?m k = Some vs \<longrightarrow> \<not> length vs > 1)" for k
    by (auto simp: bget_list_def split: option.splits)
  ultimately show ?thesis
    unfolding distinct_iff_filter filter_empty_conv ball_entries by simp
qed

lemma uid_message_Some: "length ps > 1 \<Longrightarrow> \<exists>m. uid_message u ps = Some m"
  by (auto simp: uid_message_def split: list.splits)

lemma check_uids_Nil:
  assumes "check_uids l parsed out = (unique, out')"
  shows "unique \<longleftrightarrow> distinct (map fst (claim_pairs parsed))" "out' = [] \<longleftrightarrow> out = [] \<and> unique"
proof -
  let ?step = "\<lambda>(unique, out) ((sec, u), paths). let ps = map (shown l) paths in
       (False, case uid_message u ps of None \<Rightarrow> out | Some m \<Rightarrow> add_finding DuplicateUidCode (hd ps) m KEEP_ONE out)"
  have loop: "(fst (foldl ?step (b, out) xs) \<longleftrightarrow> b \<and> xs = []) \<and> (snd (foldl ?step (b, out) xs) = [] \<longleftrightarrow> out = [] \<and> xs = [])"
    if "\<forall>x \<in> set xs. length (snd x) > 1" for b out and xs :: "((string \<times> uid) \<times> string list) list"
    using that
  proof (induction xs arbitrary: b out)
    case (Cons x xs)
    obtain sec u ps where x: "x = ((sec, u), ps)" by (metis prod.exhaust)
    from Cons.prems obtain m where "uid_message u (map (shown l) ps) = Some m"
      using uid_message_Some [of "map (shown l) ps" u] by (auto simp: x)
    with Cons show ?case by (simp add: x Let_def)
  qed simp
  let ?xs = "filter (\<lambda>(_, ps). length ps > 1) (entries (all_claims parsed))"
  have "?xs = [] \<longleftrightarrow> distinct (map fst (claim_pairs parsed))"
    unfolding all_claims_pairs by (rule no_group_of_two)
  with loop [of ?xs True out] assms
  show "unique \<longleftrightarrow> distinct (map fst (claim_pairs parsed))" "out' = [] \<longleftrightarrow> out = [] \<and> unique"
    unfolding check_uids_def by auto
qed

section \<open>The assembled mapping\<close>

text \<open>The path a file is read under appears in its refusals only.\<close>

lemma keyed_path: "keyed p name sec kind required = Inr recs \<longleftrightarrow> keyed q name sec kind required = Inr recs"
  by (cases sec) (simp_all add: keyed_Some_ok keyed_all_ok, simp_all add: keyed_def)

lemma name_checks_path:
  "nonempty_name p n = Inr u \<longleftrightarrow> nonempty_name q n = Inr u" "readable_table p n = Inr u \<longleftrightarrow> readable_table q n = Inr u"
  "readable_type p n = Inr u \<longleftrightarrow> readable_type q n = Inr u" "readable_column p n = Inr u \<longleftrightarrow> readable_column q n = Inr u"
  by (auto simp: nonempty_name_def readable_table_def readable_type_def readable_column_def result_simps)

lemma check_recs_path:
  "check_rec (readable_column p) p r = Inr u \<longleftrightarrow> check_rec (readable_column q) q r = Inr u"
  "check_rec (readable_table p) p r = Inr u \<longleftrightarrow> check_rec (readable_table q) q r = Inr u"
  by (auto simp: check_rec_def name_checks_path [of p _ _ q] split: ids_rec.splits)

lemma check_file_names_path: "check_file_names p f = Inr u \<longleftrightarrow> check_file_names q f = Inr u"
  by (cases "tf_dropped f"; cases "tf_body f")
    (simp_all add: check_file_names_def Let_def result_simps try_each_ok name_checks_path [of p _ _ q] check_recs_path [of p _ _ q])

lemma no_such_find: "no_such bad err recs = Inr u \<longleftrightarrow> find (\<lambda>(u, v). bad v u) recs = None"
  by (auto simp: no_such_def split: option.splits)

lemma check_file_path: "check_file p f = Inr u \<longleftrightarrow> check_file q f = Inr u"
  by (cases "tf_body f") (simp_all add: check_file_def Let_def result_simps no_such_find check_file_names_path [of p _ _ q])

lemma raw_body_path: "raw_body p raw = Inr b \<longleftrightarrow> raw_body q raw = Inr b"
  by (cases "raw_table raw") (auto simp: raw_body_def result_simps keyed_path [of p _ _ _ _ _ q] split: option.splits)

lemma parse_tree_path: "parse_tree from_str p t = Inr f \<longleftrightarrow> parse_tree from_str q t = Inr f"
  by (simp add: parse_tree_def result_simps Let_def raw_body_path [of p _ _ q] check_file_path [of p _ _ q])

lemma parsed_names_ok: "parse_tree from_str p t = Inr f \<Longrightarrow> file_names_ok f"
  by (auto simp: parse_tree_def result_simps Let_def intro: check_file_names_readable)

lemma claims_apart_pairs: "claims_apart files \<longleftrightarrow> distinct (map fst (claim_pairs files))"
  by (simp add: claims_apart_def claim_pairs_def map_concat comp_def case_prod_unfold uid_claims_file)

lemma distinct_pairs_claims:
  assumes "distinct (map fst (claim_pairs files))"
  shows "disjoint_claims (entries files)"
proof -
  have claims: "map fst (claim_pairs files) = concat (map (\<lambda>(_, f). file_claims f) (entries files))"
    by (simp add: claim_pairs_def map_concat comp_def case_prod_unfold)
  have "distinct (concat (map g xs)) \<Longrightarrow> (\<forall>x \<in> set xs. distinct (g x))
      \<and> (\<forall>x \<in> set xs. \<forall>y \<in> set xs. x \<noteq> y \<longrightarrow> set (g x) \<inter> set (g y) = {})" for g :: "'x \<Rightarrow> 'y list" and xs
    by (induction xs) auto
  from this [of "\<lambda>(_, f). file_claims f" "entries files"] assms show ?thesis
    unfolding disjoint_claims_def claims by fastforce
qed

lemma assemble_canonical:
  assumes can: "canonical_tree from_str js l ids files" and d: "distinct (map fst (claim_pairs files))"
  shows "assemble from_str ids = map_err TreeIds (and_then (validate (add_files (entries files) ids_default))
    (\<lambda>_. Inr (add_files (entries files) ids_default)))"
proof -
  have read: "parse_tree from_str p (render js f) = Inr f" if "(p, f) \<in> set (entries files)" for p f
    using that can by (simp add: canonical_tree_def entries_bget parse_tree_path [of from_str p _ f "shown l p"])
  then have names: "\<forall>(p, f) \<in> set (entries files). file_names_ok f" using parsed_names_ok by blast
  have "try_fold (\<lambda>st (path, t). and_then (parse_tree from_str path t) (\<lambda>f. assemble_file path f st)) st
          (map (\<lambda>(p, f). (p, render js f)) fs) = try_fold (\<lambda>st (path, f). assemble_file path f st) st fs"
    if "set fs \<subseteq> set (entries files)" for fs st
    using that
  proof (induction fs arbitrary: st)
    case (Cons pf fs)
    then have "parse_tree from_str (fst pf) (render js (snd pf)) = Inr (snd pf)" using read [of "fst pf" "snd pf"] by simp
    with Cons show ?case by (simp add: case_prod_unfold)
  qed simp
  then have "try_fold (\<lambda>st (path, t). and_then (parse_tree from_str path t) (\<lambda>f. assemble_file path f st))
        (ids_default, bempty) (entries ids) = try_fold (\<lambda>st (path, f). assemble_file path f st) (ids_default, bempty) (entries files)"
    using can by (simp add: canonical_tree_def bmap.rep_eq)
  moreover obtain seen where "try_fold (\<lambda>st (path, f). assemble_file path f st) (ids_default, bempty) (entries files)
      = Inr (add_files (entries files) ids_default, seen)"
    using assemble_files_ok [OF _ distinct_pairs_claims [OF d] names, of bempty ids_default] distinct_bkeys [of files]
    by (auto simp: claims_to_def bkeys_def)
  ultimately show ?thesis
    by (cases "validate (add_files (entries files) ids_default)") (simp_all add: assemble_def map_err_def)
qed

lemma check_mapping_Nil:
  assumes "canonical_tree from_str js l ids files" "distinct (map fst (claim_pairs files))"
  shows "check_mapping from_str l ids parsed out = [] \<longleftrightarrow> out = [] \<and> is_ok (assemble from_str ids)"
  unfolding check_mapping_def assemble_canonical [OF assms]
  by (cases "validate (add_files (entries files) ids_default)") (auto simp: map_err_def split: ids_error.splits)

section \<open>Declarations and paths\<close>

lemma declare_loop:
  assumes "foldl (declare_one l) (m, out) ds = (declared, out')"
  shows "declared = foldl (\<lambda>m (rel, d). bentry rel d m) m
      (List.map_filter (\<lambda>d. map_option (\<lambda>rel. (rel, d)) (mirrored l (dc_yaml d))) ds)"
    and "out' = [] \<longleftrightarrow> out = [] \<and> (\<forall>d \<in> set ds. mirrored l (dc_yaml d) \<noteq> None)"
  using assms
proof (induction ds arbitrary: m out)
  case (Cons d ds)
  {
    case 1
    with Cons(1) show ?case by (cases "mirrored l (dc_yaml d)") (auto simp: declare_one_def map_filter_simps)
  next
    case 2
    with Cons(2) show ?case by (cases "mirrored l (dc_yaml d)") (auto simp: declare_one_def)
  }
qed (simp_all add: map_filter_simps)

lemma bget_bentries: "bget (foldl (\<lambda>m (k, v). bentry k v m) bempty ps) = map_of ps"
proof -
  have step: "(\<lambda>m (k, v). bentry k v m) = (\<lambda>m (k, v). if bget m k = None then bput k v m else m)"
    by (intro ext) (auto simp: bentry_def bhas_def)
  then show ?thesis unfolding step bt.collect_first_def [symmetric] by (simp add: bt.get_collect_first)
qed

lemma map_filter_map_of:
  assumes "distinct (map g ds)"
  shows "map_of (List.map_filter (\<lambda>d. map_option (\<lambda>k. (k, d)) (g d)) ds) k = Some d \<longleftrightarrow> d \<in> set ds \<and> g d = Some k"
  using assms by (induction ds) (auto simp: map_filter_simps image_iff split: option.splits)

lemma map_of_map_filter_dom:
  "map_of (List.map_filter (\<lambda>d. map_option (\<lambda>k. (k, d)) (g d)) ds) k = None \<longleftrightarrow> (\<forall>d \<in> set ds. g d \<noteq> Some k)"
  by (induction ds) (auto simp: map_filter_simps split: option.splits)

lemma all_mirrored:
  "(\<forall>x \<in> S. g x \<noteq> None) \<and> (\<forall>x r. x \<in> S \<and> g x = Some r \<longrightarrow> Q x r) \<longleftrightarrow> (\<forall>x. x \<in> S \<longrightarrow> (\<exists>r. g x = Some r \<and> Q x r))"
  by fastforce

lemma compare_declared_grows: "out \<noteq> [] \<Longrightarrow> compare_declared l ids parsed us out p \<noteq> []"
  by (cases p; cases "bget parsed (fst p)") (simp_all add: compare_declared_def Let_def)

lemma compare_declared_Nil:
  assumes "\<And>rel. bhas ids rel \<longleftrightarrow> bhas parsed rel"
  shows "compare_declared l ids parsed [] out p = [] \<longleftrightarrow> out = [] \<and> (\<exists>f. bget parsed (fst p) = Some f \<and> tf_dropped f = None
     \<and> body_kind (tf_body f) = dc_kind (snd p) \<and> agrees (snd p) (checked_name f))"
proof (cases "bget parsed (fst p)")
  case None
  then show ?thesis using assms [of "fst p"] by (simp add: compare_declared_def relocatable_def bhas_def case_prod_unfold Let_def)
next
  case (Some f)
  have "compare_declared l ids parsed [] out p = (if tf_dropped f \<noteq> None then add_finding DroppedButDeclared (shown l (fst p))
      (MarkedDropped (shown l (fst p)) (dc_yaml (snd p))) DROPPED_REMEDY out
    else if body_kind (tf_body f) \<noteq> dc_kind (snd p) \<or> \<not> agrees (snd p) (checked_name f)
    then add_finding NameMismatch (shown l (fst p)) (SaysOther (shown l (fst p)) (checked_name f) (dc_yaml (snd p)) (dc_name (snd p)))
      MISMATCH_REMEDY out else out)"
    unfolding compare_declared_def case_prod_unfold Let_def Some option.case ..
  then show ?thesis by (simp add: Some del: append.simps)
qed

text \<open>With one declaration per path, the comparison finds nothing exactly when the two sides mirror each other.\<close>

lemma check_declarations_Nil:
  assumes d: "distinct (map (\<lambda>d. mirrored (in_layout inp) (dc_yaml d)) (in_declared inp))"
    and keys: "\<And>rel. bhas (in_ids inp) rel \<longleftrightarrow> bhas parsed rel"
  shows "check_declarations inp parsed out = [] \<longleftrightarrow> out = [] \<and> mirrors_declarations (in_layout inp) (in_declared inp) parsed"
proof -
  let ?l = "in_layout inp" and ?ds = "in_declared inp"
  let ?g = "\<lambda>d. mirrored ?l (dc_yaml d)"
  obtain declared out1 where 1: "foldl (declare_one ?l) (bempty, out) ?ds = (declared, out1)" by (rule prod.exhaust)
  have get: "bget declared rel = Some x \<longleftrightarrow> x \<in> set ?ds \<and> ?g x = Some rel" for rel x
    unfolding declare_loop(1) [OF 1] bget_bentries by (rule map_filter_map_of [OF d])
  have has: "bhas declared rel \<longleftrightarrow> (\<exists>x \<in> set ?ds. ?g x = Some rel)" for rel
    by (auto simp: bhas_iff get)
  let ?un = "unpaired_files declared parsed"
  have "foldl (report_orphan ?l) out1 ?un = [] \<longleftrightarrow> out1 = [] \<and> (\<forall>p \<in> set ?un. False)"
    by (rule reporting_loop) (auto simp: report_orphan_def)
  then have orphans: "foldl (report_orphan ?l) out1 ?un = [] \<longleftrightarrow> out1 = [] \<and> ?un = []"
    by (cases "unpaired_files declared parsed") auto
  have un: "?un = [] \<longleftrightarrow> (\<forall>rel f. bget parsed rel = Some f \<and> tf_dropped f = None \<longrightarrow> (\<exists>x \<in> set ?ds. ?g x = Some rel))"
    unfolding unpaired_files_def filter_empty_conv ball_entries prod.case has by blast
  have "foldl (compare_declared ?l (in_ids inp) parsed []) o1 (entries declared) = [] \<longleftrightarrow> o1 = [] \<and>
      (\<forall>p \<in> set (entries declared). \<exists>f. bget parsed (fst p) = Some f \<and> tf_dropped f = None
         \<and> body_kind (tf_body f) = dc_kind (snd p) \<and> agrees (snd p) (checked_name f))" for o1
    by (intro reporting_loop) (simp add: compare_declared_Nil [OF keys] case_prod_unfold prod.collapse)
  then have compare: "foldl (compare_declared ?l (in_ids inp) parsed []) o1 (entries declared) = [] \<longleftrightarrow> o1 = [] \<and>
      (\<forall>x rel. x \<in> set ?ds \<and> ?g x = Some rel \<longrightarrow> (\<exists>f. bget parsed rel = Some f \<and> tf_dropped f = None
         \<and> body_kind (tf_body f) = dc_kind x \<and> agrees x (checked_name f)))" for o1
    unfolding ball_entries get by auto
  define Q where "Q x rel \<longleftrightarrow> (\<exists>f. bget parsed rel = Some f \<and> tf_dropped f = None
    \<and> body_kind (tf_body f) = dc_kind x \<and> agrees x (checked_name f))" for x rel
  note compare = compare [folded Q_def]
  have run: "check_declarations inp parsed out = [] \<longleftrightarrow> (out1 = [] \<and> ?un = []) \<and> (\<forall>x rel. x \<in> set ?ds \<and> ?g x = Some rel \<longrightarrow> Q x rel)"
  proof (cases "?un = []")
    case True
    then show ?thesis using orphans compare by (simp add: check_declarations_def 1 Let_def)
  next
    case False
    have grows: "foldl (compare_declared ?l (in_ids inp) parsed us) o1 xs \<noteq> []" if "o1 \<noteq> []" for us o1 xs
      using that by (induction xs arbitrary: o1) (simp_all add: compare_declared_grows)
    show ?thesis using False orphans grows by (simp add: check_declarations_def 1 Let_def)
  qed
  have "mirrors_declarations ?l ?ds parsed \<longleftrightarrow> (\<forall>x. x \<in> set ?ds \<longrightarrow> (\<exists>r. ?g x = Some r \<and> Q x r)) \<and> ?un = []"
    unfolding mirrors_declarations_def un Q_def using d by (simp add: Bex_def)
  then show ?thesis unfolding run declare_loop(2) [OF 1] all_mirrored [symmetric] by argo
qed

lemma shown_inject: "shown l p = shown l q \<longleftrightarrow> p = q"
  by (simp add: shown_def)

lemma folded_groups:
  "(case bget (foldl (fold_path lower l) m ps) k of None \<Rightarrow> {} | Some x \<Rightarrow> x)
    = (case bget m k of None \<Rightarrow> {} | Some x \<Rightarrow> x) \<union> {shown l p | p. p \<in> set ps \<and> lower (shown l p) = k}"
proof (induction ps arbitrary: m)
  case (Cons p ps)
  show ?case unfolding foldl.simps Cons.IH by (auto simp: fold_path_def Let_def bget_bput split: option.splits if_splits)
qed simp

lemma check_collisions_Nil:
  "check_collisions lower inp out = [] \<longleftrightarrow> out = [] \<and> distinct (map fst (mirrored_paths inp))
     \<and> paths_apart lower (in_layout inp) (map fst (mirrored_paths inp) @ bkeys (in_ids inp))"
proof -
  let ?l = "in_layout inp" and ?ps = "map fst (mirrored_paths inp) @ bkeys (in_ids inp)"
  define folded where "folded = foldl (fold_path lower ?l) bempty ?ps"
  have group: "(case bget folded k of None \<Rightarrow> {} | Some x \<Rightarrow> x) = {shown ?l p | p. p \<in> set ?ps \<and> lower (shown ?l p) = k}" for k
    unfolding folded_def folded_groups by simp
  have fin: "finite {shown ?l p | p. p \<in> set ?ps \<and> lower (shown ?l p) = k}" for k
    by (rule finite_subset [of _ "shown ?l ` set ?ps"]) auto
  have "(\<forall>s \<in> set (bvalues folded). \<not> card s > 1) \<longleftrightarrow> (\<forall>k. card {shown ?l p | p. p \<in> set ?ps \<and> lower (shown ?l p) = k} \<le> Suc 0)"
    unfolding group [symmetric] by (auto simp: set_bvalues Ball_def not_less split: option.splits)
  then have apart: "filter (\<lambda>s. card s > 1) (bvalues folded) = [] \<longleftrightarrow> paths_apart lower ?l ?ps"
    unfolding filter_empty_conv paths_apart_def card_le_Suc0_iff_eq [OF fin]
    by (simp only: Ball_def mem_Collect_eq) (blast dest: shown_inject [THEN iffD1])
  have loops: "foldl (\<lambda>out x. add_finding (c x) (a x) (b x) (r x) out) o1 xs = [] \<longleftrightarrow> o1 = [] \<and> xs = []" for c a b r o1 and xs :: "'x list"
    by (induction xs arbitrary: o1) auto
  show ?thesis
    unfolding check_collisions_def Let_def folded_def [symmetric]
    using apart no_group_of_two [of "mirrored_paths inp"] by (simp add: loops case_prod_unfold)
qed

lemma check_declarations_needs:
  assumes "check_declarations inp parsed out = []"
  shows "out = [] \<and> (\<forall>d \<in> set (in_declared inp). mirrored (in_layout inp) (dc_yaml d) \<noteq> None)"
proof -
  obtain declared out1 where 1: "foldl (declare_one (in_layout inp)) (bempty, out) (in_declared inp) = (declared, out1)"
    by (rule prod.exhaust)
  have grows: "foldl (compare_declared l ids parsed us) o1 xs \<noteq> []" "foldl (report_orphan l) o1 ys \<noteq> []"
    if "o1 \<noteq> []" for l ids us o1 xs ys
    using that by (induction xs arbitrary: o1, simp_all add: compare_declared_grows)
      (induction ys arbitrary: o1, simp_all add: report_orphan_def case_prod_unfold)
  have "out1 = []" using assms unfolding check_declarations_def 1 Let_def prod.case by (metis grows)
  then show ?thesis using declare_loop(2) [OF 1] by simp
qed

lemma mirrored_paths_keys:
  assumes "\<forall>d \<in> set (in_declared inp). mirrored (in_layout inp) (dc_yaml d) \<noteq> None"
  shows "map Some (map fst (mirrored_paths inp)) = map (\<lambda>d. mirrored (in_layout inp) (dc_yaml d)) (in_declared inp)"
proof -
  have "map Some (map fst (List.map_filter (\<lambda>d. map_option (\<lambda>rel. (rel, dc_yaml d)) (g d)) ds)) = map g ds"
    if "\<forall>d \<in> set ds. g d \<noteq> None" for g :: "decl \<Rightarrow> string option" and ds
    using that by (induction ds) (auto simp: map_filter_simps)
  from this [OF assms] show ?thesis by (simp add: mirrored_paths_def)
qed

text \<open>The last two checks together.\<close>

lemma declarations_and_collisions:
  assumes keys: "\<And>rel. bhas (in_ids inp) rel \<longleftrightarrow> bhas parsed rel"
  shows "check_collisions lower inp (check_declarations inp parsed out) = []
    \<longleftrightarrow> out = [] \<and> mirrors_declarations (in_layout inp) (in_declared inp) parsed
      \<and> paths_apart lower (in_layout inp) (bkeys (in_ids inp))"
proof (cases "distinct (map (\<lambda>d. mirrored (in_layout inp) (dc_yaml d)) (in_declared inp))
    \<and> (\<forall>d \<in> set (in_declared inp). mirrored (in_layout inp) (dc_yaml d) \<noteq> None)")
  case True
  note paths = mirrored_paths_keys [OF conjunct2 [OF True]]
  then have "distinct (map fst (mirrored_paths inp))" using True by (metis distinct_map)
  moreover have "set (map fst (mirrored_paths inp)) \<subseteq> set (bkeys (in_ids inp))"
    if m: "mirrors_declarations (in_layout inp) (in_declared inp) parsed"
  proof
    fix p assume "p \<in> set (map fst (mirrored_paths inp))"
    then have "Some p \<in> set (map Some (map fst (mirrored_paths inp)))" by (metis image_eqI list.set_map)
    then obtain d where "d \<in> set (in_declared inp)" "mirrored (in_layout inp) (dc_yaml d) = Some p" unfolding paths by auto
    then have "bhas parsed p" using m unfolding mirrors_declarations_def bhas_iff by fastforce
    then show "p \<in> set (bkeys (in_ids inp))" by (simp add: set_bkeys keys)
  qed
  then have "paths_apart lower (in_layout inp) (map fst (mirrored_paths inp) @ bkeys (in_ids inp))
      \<longleftrightarrow> paths_apart lower (in_layout inp) (bkeys (in_ids inp))"
    if "mirrors_declarations (in_layout inp) (in_declared inp) parsed"
    using that unfolding paths_apart_def set_append by (simp add: Un_absorb1)
  ultimately show ?thesis
    unfolding check_collisions_Nil check_declarations_Nil [OF conjunct1 [OF True] keys] by blast
next
  case False
  have "\<not> mirrors_declarations (in_layout inp) (in_declared inp) parsed"
    using False unfolding mirrors_declarations_def by fastforce
  moreover have "check_collisions lower inp (check_declarations inp parsed out) \<noteq> []"
  proof
    assume c: "check_collisions lower inp (check_declarations inp parsed out) = []"
    then have all: "\<forall>d \<in> set (in_declared inp). mirrored (in_layout inp) (dc_yaml d) \<noteq> None"
      and d: "distinct (map fst (mirrored_paths inp))"
      using check_declarations_needs unfolding check_collisions_Nil by blast+
    have "distinct (map Some (map fst (mirrored_paths inp)))" using d by (simp add: distinct_map [of Some] del: map_map)
    then show False using False all unfolding mirrored_paths_keys [OF all] by blast
  qed
  ultimately show ?thesis by blast
qed

section \<open>Properties\<close>

text \<open>
  C6. The validator reports nothing exactly when the tree is sound: there is no old layout
  beside it; every text is the canonical rendering of a file it reads back as; no uid is
  claimed twice; the files assemble into a valid mapping (so a refusal of \<open>assemble\<close> that is not
  about the mapping never goes unreported); declarations and live files mirror each other with
  equal kinds and agreeing names; and no two paths fold into one. The findings are sorted by
  path and code.
\<close>

theorem check_reports_exactly_the_unsound_trees:
  "(check_tree from_str js lower inp = [] \<longleftrightarrow>
      \<not> in_legacy_file inp
      \<and> (\<exists>files. canonical_tree from_str js (in_layout inp) (in_ids inp) files \<and> claims_apart files
           \<and> mirrors_declarations (in_layout inp) (in_declared inp) files)
      \<and> is_ok (assemble from_str (in_ids inp))
      \<and> paths_apart lower (in_layout inp) (bkeys (in_ids inp)))
   \<and> sorted (map (\<lambda>f. (fd_path f, fd_code f)) (check_tree from_str js lower inp))"
proof
  let ?l = "in_layout inp" and ?ids = "in_ids inp"
  obtain parsed o1 where 1: "read_files from_str js ?l ?ids (check_legacy inp []) = (parsed, o1)" by (rule prod.exhaust)
  obtain unique o2 where 2: "check_uids ?l parsed o1 = (unique, o2)" by (rule prod.exhaust)
  let ?clean = "length (entries parsed) = length (entries ?ids)"
  define o3 where "o3 = (if ?clean \<and> unique then check_mapping from_str ?l ?ids parsed o2 else o2)"
  have "check_tree from_str js lower inp = [] \<longleftrightarrow> check_collisions lower inp (check_declarations inp parsed o3) = []"
    by (simp add: check_tree_def Let_def 1 2 o3_def sort_key_Nil)
  also have "\<dots> \<longleftrightarrow> \<not> in_legacy_file inp
      \<and> (\<exists>files. canonical_tree from_str js ?l ?ids files \<and> claims_apart files \<and> mirrors_declarations ?l (in_declared inp) files)
      \<and> is_ok (assemble from_str ?ids) \<and> paths_apart lower ?l (bkeys ?ids)"
  proof (cases "canonical_tree from_str js ?l ?ids parsed \<and> unique")
    case True
    then have can: "canonical_tree from_str js ?l ?ids parsed" and apart: "distinct (map fst (claim_pairs parsed))"
      using check_uids_Nil(1) [OF 2] by simp_all
    have keys: "bhas ?ids rel \<longleftrightarrow> bhas parsed rel" for rel using can by (simp add: canonical_tree_def)
    have files: "canonical_tree from_str js ?l ?ids files \<longleftrightarrow> files = parsed" for files
      using can read_files_canonical(2) [OF 1] by blast
    have "o3 = [] \<longleftrightarrow> \<not> in_legacy_file inp \<and> is_ok (assemble from_str ?ids)"
      using True read_files_canonical(1) [OF 1] read_files_canonical(3) [OF 1 can] check_uids_Nil(2) [OF 2]
      by (simp add: o3_def check_mapping_Nil [OF can apart] check_legacy_Nil)
    then show ?thesis
      unfolding declarations_and_collisions [OF keys] files claims_apart_pairs using apart by auto
  next
    case False
    have "o2 \<noteq> []" using False read_files_canonical(1) [OF 1] check_uids_Nil(2) [OF 2] by blast
    moreover have "check_mapping from_str ?l ?ids parsed out \<noteq> []" if "out \<noteq> []" for out
      using that by (auto simp: check_mapping_def split: sum.splits tree_error.splits ids_error.splits)
    ultimately have "o3 \<noteq> []" by (simp add: o3_def)
    then have "check_collisions lower inp (check_declarations inp parsed o3) \<noteq> []"
      using check_declarations_needs unfolding check_collisions_Nil by blast
    moreover have "\<not> (canonical_tree from_str js ?l ?ids files \<and> claims_apart files)" for files
      using False read_files_canonical(2) [OF 1, of files] check_uids_Nil(1) [OF 2] unfolding claims_apart_pairs by blast
    ultimately show ?thesis by blast
  qed
  finally show "check_tree from_str js lower inp = [] \<longleftrightarrow> \<not> in_legacy_file inp
      \<and> (\<exists>files. canonical_tree from_str js ?l ?ids files \<and> claims_apart files \<and> mirrors_declarations ?l (in_declared inp) files)
      \<and> is_ok (assemble from_str ?ids) \<and> paths_apart lower ?l (bkeys ?ids)" .
  show "sorted (map (\<lambda>f. (fd_path f, fd_code f)) (check_tree from_str js lower inp))"
    unfolding check_tree_def Let_def case_prod_unfold by (rule sorted_sort_key)
qed

text \<open>A uid in three files is reported as a uid repeated in the first of them.\<close>

lemma three_files_are_reported_as_one:
  "uid_message u [a, b, c] = Some (AppearsTwiceIn u a)"
  by (simp add: uid_message_def)

end
