(* ===== verification/Kahn.thy ===== *)
theory Kahn
  imports PBPS_Prelude
begin

text \<open>
  The ordering loop of \<open>crates/pbps-diff/src/order/schedule.rs\<close>: Kahn's algorithm over the
  positions \<open>0 .. n - 1\<close>, with the position as the tie-break. A \<open>usize\<close> position is a \<open>nat\<close>:
  the callers check every edge against \<open>n\<close> first. The \<open>loop\<close> is a recursion whose bound is \<open>n\<close>
  turns; \<open>kahn_turns_enough\<close> shows that it has ended by then.
\<close>

section \<open>Edges\<close>

datatype source =
    SEffect | SDeclared | SAnnotation | SInferred | SLexical | SCatalog | SBinding | SExecution | SSearch | SGuess

datatype order_reason = RStructural | RBinding | RIdentity | RData | RAuthorization | RRestoration

fun source_rank :: "source \<Rightarrow> nat" where
  "source_rank SEffect = 0"
| "source_rank SDeclared = 1"
| "source_rank SAnnotation = 2"
| "source_rank SInferred = 3"
| "source_rank SLexical = 4"
| "source_rank SCatalog = 5"
| "source_rank SBinding = 6"
| "source_rank SExecution = 7"
| "source_rank SSearch = 8"
| "source_rank SGuess = 9"

fun reason_rank :: "order_reason \<Rightarrow> nat" where
  "reason_rank RStructural = 0"
| "reason_rank RBinding = 1"
| "reason_rank RIdentity = 2"
| "reason_rank RData = 3"
| "reason_rank RAuthorization = 4"
| "reason_rank RRestoration = 5"

lemma rank_inject: "source_rank s = source_rank t \<Longrightarrow> s = t" "reason_rank q = reason_rank r \<Longrightarrow> q = r"
  by (cases s; cases t; simp) (cases q; cases r; simp)

datatype constraint = Constraint (c_before: nat) (c_after: nat) (c_source: source) (c_reason: order_reason)

text \<open>\<open>derive(Ord)\<close>: the fields in order.\<close>

definition constraint_key :: "constraint \<Rightarrow> nat \<times> nat \<times> nat \<times> nat" where
  "constraint_key c = (c_before c, c_after c, source_rank (c_source c), reason_rank (c_reason c))"

lemma constraint_key_inject: "constraint_key c = constraint_key d \<Longrightarrow> c = d"
  by (cases c; cases d) (auto simp: constraint_key_def dest: rank_inject)

instantiation constraint :: linorder
begin

definition less_eq_constraint :: "constraint \<Rightarrow> constraint \<Rightarrow> bool" where
  "less_eq_constraint c d \<longleftrightarrow> constraint_key c \<le> constraint_key d"

definition less_constraint :: "constraint \<Rightarrow> constraint \<Rightarrow> bool" where
  "less_constraint c d \<longleftrightarrow> constraint_key c < constraint_key d"

instance
  by standard (auto simp: less_eq_constraint_def less_constraint_def dest: constraint_key_inject)

end

section \<open>The algorithm\<close>

datatype tie = Sink | Hoist

definition run_from :: "tie \<Rightarrow> constraint \<Rightarrow> nat \<times> nat" where
  "run_from tie c = (case tie of Sink \<Rightarrow> (c_before c, c_after c) | Hoist \<Rightarrow> (c_after c, c_before c))"

definition add_edge :: "nat list \<times> nat set list \<Rightarrow> nat \<times> nat \<Rightarrow> nat list \<times> nat set list" where
  "add_edge st e =
     (case st of (incoming, outgoing) \<Rightarrow> case e of (a, b) \<Rightarrow>
        if b \<in> outgoing ! a then st
        else (incoming[b := incoming ! b + 1], outgoing[a := insert b (outgoing ! a)]))"

definition count_edges :: "nat \<Rightarrow> (nat \<times> nat) list \<Rightarrow> nat list \<times> nat set list" where
  "count_edges n es = foldl add_edge (replicate n 0, replicate n {}) es"

definition release :: "nat list \<times> nat set \<Rightarrow> nat \<Rightarrow> nat list \<times> nat set" where
  "release st b =
     (case st of (incoming, ready) \<Rightarrow>
        let incoming = incoming[b := incoming ! b - 1]
        in (incoming, if incoming ! b = 0 then insert b ready else ready))"

definition pop :: "tie \<Rightarrow> nat set \<Rightarrow> nat" where
  "pop tie ready = (case tie of Sink \<Rightarrow> Min ready | Hoist \<Rightarrow> Max ready)"

record kahn_state =
  ks_incoming :: "nat list"
  ks_ready :: "nat set"
  ks_out :: "nat list"

definition kahn_turn :: "tie \<Rightarrow> nat set list \<Rightarrow> kahn_state \<Rightarrow> kahn_state" where
  "kahn_turn tie outgoing st =
     (let i = pop tie (ks_ready st);
          (incoming, ready) = foldl release (ks_incoming st, ks_ready st - {i}) (sorted_list_of_set (outgoing ! i))
      in \<lparr>ks_incoming = incoming, ks_ready = ready, ks_out = ks_out st @ [i]\<rparr>)"

fun kahn_loop :: "nat \<Rightarrow> tie \<Rightarrow> nat set list \<Rightarrow> kahn_state \<Rightarrow> kahn_state" where
  "kahn_loop 0 tie outgoing st = st"
| "kahn_loop (Suc k) tie outgoing st =
     (if ks_ready st = {} then st else kahn_loop k tie outgoing (kahn_turn tie outgoing st))"

definition kahn_start :: "nat \<Rightarrow> nat list \<Rightarrow> kahn_state" where
  "kahn_start n incoming = \<lparr>ks_incoming = incoming, ks_ready = set (filter (\<lambda>i. incoming ! i = 0) [0..<n]), ks_out = []\<rparr>"

definition kahn :: "nat \<Rightarrow> constraint list \<Rightarrow> tie \<Rightarrow> nat list" where
  "kahn n constraints tie =
     (let (incoming, outgoing) = count_edges n (map (run_from tie) constraints);
          out = ks_out (kahn_loop n tie outgoing (kahn_start n incoming))
      in if tie = Hoist then rev out else out)"

section \<open>Orders\<close>

text \<open>\<open>a\<close> stands before \<open>b\<close> in the list.\<close>

definition runs_before :: "'a list \<Rightarrow> 'a \<Rightarrow> 'a \<Rightarrow> bool" where
  "runs_before xs a b \<longleftrightarrow> (\<exists>ys zs. xs = ys @ zs \<and> a \<in> set ys \<and> b \<in> set zs)"

lemma before_snoc: "runs_before (xs @ [x]) a b \<longleftrightarrow> runs_before xs a b \<or> (a \<in> set xs \<and> b = x)"
proof
  assume "runs_before (xs @ [x]) a b"
  then obtain ys zs where eq: "xs @ [x] = ys @ zs" and ab: "a \<in> set ys" "b \<in> set zs" unfolding runs_before_def by blast
  then obtain zs' where zs: "zs = zs' @ [x]" "xs = ys @ zs'" by (cases zs rule: rev_cases) auto
  with ab show "runs_before xs a b \<or> (a \<in> set xs \<and> b = x)" unfolding runs_before_def by auto
next
  assume "runs_before xs a b \<or> (a \<in> set xs \<and> b = x)"
  then show "runs_before (xs @ [x]) a b" unfolding runs_before_def by (metis append.assoc append_Cons append_Nil in_set_conv_decomp)
qed

lemma before_Cons [code]: "runs_before [] a b \<longleftrightarrow> False" "runs_before (x # xs) a b \<longleftrightarrow> x = a \<and> b \<in> set xs \<or> runs_before xs a b"
proof -
  show "runs_before (x # xs) a b \<longleftrightarrow> x = a \<and> b \<in> set xs \<or> runs_before xs a b"
  proof
    assume "runs_before (x # xs) a b"
    then obtain ys zs where "x # xs = ys @ zs" "a \<in> set ys" "b \<in> set zs" unfolding runs_before_def by blast
    then show "x = a \<and> b \<in> set xs \<or> runs_before xs a b" unfolding runs_before_def by (cases ys) auto
  next
    assume "x = a \<and> b \<in> set xs \<or> runs_before xs a b"
    then show "runs_before (x # xs) a b"
    proof
      assume "x = a \<and> b \<in> set xs"
      then have "x # xs = [a] @ xs \<and> a \<in> set [a] \<and> b \<in> set xs" by simp
      then show ?thesis unfolding runs_before_def by blast
    next
      assume "runs_before xs a b"
      then obtain ys zs where "x # xs = (x # ys) @ zs" "a \<in> set (x # ys)" "b \<in> set zs" unfolding runs_before_def by auto
      then show ?thesis unfolding runs_before_def by blast
    qed
  qed
qed (simp add: runs_before_def)

lemma before_rev: "runs_before (rev xs) a b \<longleftrightarrow> runs_before xs b a"
proof -
  have "runs_before xs b a \<Longrightarrow> runs_before (rev xs) a b" for xs :: "'a list" and a b
    unfolding runs_before_def by (metis rev_append set_rev)
  from this [of xs b a] this [of "rev xs" a b] show ?thesis by auto
qed

lemma before_set: "runs_before xs a b \<Longrightarrow> a \<in> set xs \<and> b \<in> set xs"
  by (auto simp: runs_before_def)

lemma before_iff: "runs_before xs a b \<longleftrightarrow> (\<exists>i j. i < j \<and> j < length xs \<and> xs ! i = a \<and> xs ! j = b)"
proof
  assume "runs_before xs a b"
  then obtain ys zs where xs: "xs = ys @ zs" "a \<in> set ys" "b \<in> set zs" unfolding runs_before_def by blast
  then obtain k l where kl: "k < length ys" "ys ! k = a" "l < length zs" "zs ! l = b" by (metis in_set_conv_nth)
  then show "\<exists>i j. i < j \<and> j < length xs \<and> xs ! i = a \<and> xs ! j = b"
    by (intro exI [of _ k] exI [of _ "length ys + l"]) (simp add: xs(1) nth_append)
next
  assume "\<exists>i j. i < j \<and> j < length xs \<and> xs ! i = a \<and> xs ! j = b"
  then obtain i j where ij: "i < j" "j < length xs" "xs ! i = a" "xs ! j = b" by blast
  then have "a \<in> set (take j xs)" by (auto simp: in_set_conv_nth intro: exI [of _ i])
  moreover have "b \<in> set (drop j xs)" using ij by (metis Cons_nth_drop_Suc list.set_intros(1))
  ultimately show "runs_before xs a b" unfolding runs_before_def by (metis append_take_drop_id)
qed

lemma before_nth: "distinct xs \<Longrightarrow> i < length xs \<Longrightarrow> j < length xs \<Longrightarrow> runs_before xs (xs ! i) (xs ! j) \<longleftrightarrow> i < j"
  unfolding before_iff by (auto simp: nth_eq_iff_index_eq)

lemma before_trans:
  assumes d: "distinct xs" and ab: "runs_before xs a b" and bc: "runs_before xs b c"
  shows "runs_before xs a c"
proof -
  from ab obtain i j where ij: "i < j" "j < length xs" "xs ! i = a" "xs ! j = b" unfolding before_iff by blast
  from bc obtain k l where kl: "k < l" "l < length xs" "xs ! k = b" "xs ! l = c" unfolding before_iff by blast
  have "j = k" using d ij kl by (simp add: nth_eq_iff_index_eq [of xs j k, symmetric])
  with ij kl show ?thesis unfolding before_iff by (intro exI [of _ i] exI [of _ l]) simp
qed

lemma before_irrefl: "distinct xs \<Longrightarrow> \<not> runs_before xs a a"
  unfolding before_iff by (auto simp: nth_eq_iff_index_eq)

section \<open>Counting\<close>

abbreviation edges_within :: "nat \<Rightarrow> (nat \<times> nat) set \<Rightarrow> bool" where
  "edges_within n E \<equiv> E \<subseteq> {..<n} \<times> {..<n}"

lemma finite_preds: "edges_within n E \<Longrightarrow> finite {j. (j, i) \<in> E \<and> P j}"
  by (rule finite_subset [of _ "{..<n}"]) auto

lemma count_edges_run:
  assumes "edges_within n (set es)"
  shows "\<exists>incoming outgoing. count_edges n es = (incoming, outgoing) \<and> length incoming = n \<and> length outgoing = n
    \<and> (\<forall>a < n. outgoing ! a = {b. (a, b) \<in> set es}) \<and> (\<forall>b < n. incoming ! b = card {a. (a, b) \<in> set es})"
  using assms
proof (induction es rule: rev_induct)
  case Nil
  then show ?case by (simp add: count_edges_def)
next
  case (snoc e es)
  obtain a b where e: "e = (a, b)" by (cases e)
  from snoc obtain inc outg where st: "count_edges n es = (inc, outg)" "length inc = n" "length outg = n"
    and outg: "\<And>a. a < n \<Longrightarrow> outg ! a = {b. (a, b) \<in> set es}" and inc: "\<And>b. b < n \<Longrightarrow> inc ! b = card {a. (a, b) \<in> set es}"
    by auto
  have ab: "a < n" "b < n" using snoc.prems by (auto simp: e)
  have run: "count_edges n (es @ [e]) = add_edge (inc, outg) (a, b)" using st(1) by (simp add: count_edges_def e)
  show ?case
  proof (cases "(a, b) \<in> set es")
    case True
    then have "set (es @ [e]) = set es" by (auto simp: e)
    with True st outg inc ab show ?thesis unfolding run by (simp add: add_edge_def)
  next
    case False
    have "{x. (x, c) \<in> set (es @ [e])} = (if c = b then insert a {x. (x, c) \<in> set es} else {x. (x, c) \<in> set es})" for c
      by (auto simp: e)
    moreover have "finite {x. (x, b) \<in> set es}" using finite_preds [where n = n and E = "set es" and i = b and P = "\<lambda>_. True"] snoc.prems by simp
    ultimately have "card {x. (x, c) \<in> set (es @ [e])} = (if c = b then Suc (card {x. (x, c) \<in> set es}) else card {x. (x, c) \<in> set es})" for c
      using False by simp
    moreover have "{y. (c, y) \<in> set (es @ [e])} = (if c = a then insert b {y. (c, y) \<in> set es} else {y. (c, y) \<in> set es})" for c
      by (auto simp: e)
    ultimately show ?thesis using False st outg inc ab unfolding run by (simp add: add_edge_def nth_list_update)
  qed
qed

lemma release_pair:
  "release (inc, rdy) b = (inc[b := inc ! b - 1], if inc[b := inc ! b - 1] ! b = 0 then insert b rdy else rdy)"
  by (simp add: release_def Let_def)

lemma release_run:
  assumes "distinct bs" "\<forall>b \<in> set bs. b < length incoming"
  shows "\<exists>incoming' ready'. foldl release (incoming, ready) bs = (incoming', ready') \<and> length incoming' = length incoming
    \<and> (\<forall>k < length incoming. incoming' ! k = (if k \<in> set bs then incoming ! k - 1 else incoming ! k))
    \<and> ready' = ready \<union> {b \<in> set bs. incoming ! b - 1 = 0}"
  using assms
proof (induction bs rule: rev_induct)
  case (snoc b bs)
  then obtain inc rdy where st: "foldl release (incoming, ready) bs = (inc, rdy)" "length inc = length incoming"
    and inc: "\<And>k. k < length incoming \<Longrightarrow> inc ! k = (if k \<in> set bs then incoming ! k - 1 else incoming ! k)"
    and rdy: "rdy = ready \<union> {b \<in> set bs. incoming ! b - 1 = 0}" by auto
  have b: "b < length incoming" "b \<notin> set bs" using snoc.prems by auto
  have run: "foldl release (incoming, ready) (bs @ [b]) =
      (inc[b := inc ! b - 1], if inc ! b - 1 = 0 then insert b rdy else rdy)"
    using st b by (simp add: release_pair)
  have "inc ! b = incoming ! b" using inc b by simp
  then show ?case unfolding run using st(2) inc rdy b by (auto simp: nth_list_update)
qed simp

section \<open>The loop invariant\<close>

definition kahn_inv :: "nat \<Rightarrow> (nat \<times> nat) set \<Rightarrow> kahn_state \<Rightarrow> bool" where
  "kahn_inv n E st \<longleftrightarrow>
     length (ks_incoming st) = n \<and> distinct (ks_out st) \<and> set (ks_out st) \<subseteq> {..<n}
     \<and> (\<forall>i < n. ks_incoming st ! i = card {j. (j, i) \<in> E \<and> j \<notin> set (ks_out st)})
     \<and> ks_ready st = {i. i < n \<and> i \<notin> set (ks_out st) \<and> (\<forall>j. (j, i) \<in> E \<longrightarrow> j \<in> set (ks_out st))}
     \<and> (\<forall>a b. (a, b) \<in> E \<and> b \<in> set (ks_out st) \<longrightarrow> runs_before (ks_out st) a b)"

lemma pop_ready: "finite R \<Longrightarrow> R \<noteq> {} \<Longrightarrow> pop tie R \<in> R"
  by (cases tie) (simp_all add: pop_def)

lemma kahn_turn_inv:
  assumes E: "edges_within n E" and outg: "\<And>a. a < n \<Longrightarrow> outgoing ! a = {b. (a, b) \<in> E}"
    and inv: "kahn_inv n E st" and ready: "ks_ready st \<noteq> {}"
  shows "kahn_inv n E (kahn_turn tie outgoing st)" "length (ks_out (kahn_turn tie outgoing st)) = Suc (length (ks_out st))"
proof -
  define i where "i = pop tie (ks_ready st)"
  let ?out = "ks_out st" and ?next = "{b. (i, b) \<in> E}"
  have len: "length (ks_incoming st) = n" and dist: "distinct ?out" and sub: "set ?out \<subseteq> {..<n}"
    and counts: "\<And>k. k < n \<Longrightarrow> ks_incoming st ! k = card {j. (j, k) \<in> E \<and> j \<notin> set ?out}"
    and rdy_iff: "\<And>k. k \<in> ks_ready st \<longleftrightarrow> k < n \<and> k \<notin> set ?out \<and> (\<forall>j. (j, k) \<in> E \<longrightarrow> j \<in> set ?out)"
    and ordered: "\<And>a b. (a, b) \<in> E \<Longrightarrow> b \<in> set ?out \<Longrightarrow> runs_before ?out a b"
    using inv unfolding kahn_inv_def by blast+
  have "ks_ready st \<subseteq> {..<n}" using rdy_iff by auto
  then have "i \<in> ks_ready st" unfolding i_def using pop_ready [OF finite_subset ready] by blast
  then have i: "i < n" "i \<notin> set ?out" "\<And>j. (j, i) \<in> E \<Longrightarrow> j \<in> set ?out" using rdy_iff by auto
  have fin: "finite ?next" by (rule finite_subset [of _ "{..<n}"]) (use E in auto)
  have within: "\<forall>b \<in> set (sorted_list_of_set ?next). b < length (ks_incoming st)"
    unfolding set_sorted_list_of_set [OF fin] len using E by auto
  from release_run [OF distinct_sorted_list_of_set within, of "ks_ready st - {i}"] obtain inc rdy where
    run: "foldl release (ks_incoming st, ks_ready st - {i}) (sorted_list_of_set (outgoing ! i)) = (inc, rdy)" "length inc = n"
    and inc: "\<And>k. k < n \<Longrightarrow> inc ! k = (if (i, k) \<in> E then ks_incoming st ! k - 1 else ks_incoming st ! k)"
    and rdy: "rdy = (ks_ready st - {i}) \<union> {b \<in> ?next. ks_incoming st ! b - 1 = 0}"
    unfolding outg [OF i(1)] set_sorted_list_of_set [OF fin] len by auto
  have turn: "kahn_turn tie outgoing st = \<lparr>ks_incoming = inc, ks_ready = rdy, ks_out = ?out @ [i]\<rparr>"
    by (simp add: kahn_turn_def Let_def run flip: i_def)
  have count: "card {j. (j, k) \<in> E \<and> j \<notin> set (?out @ [i])} =
      (if (i, k) \<in> E then card {j. (j, k) \<in> E \<and> j \<notin> set ?out} - 1 else card {j. (j, k) \<in> E \<and> j \<notin> set ?out})" for k
  proof -
    have "{j. (j, k) \<in> E \<and> j \<notin> set (?out @ [i])} = {j. (j, k) \<in> E \<and> j \<notin> set ?out} - {i}" by auto
    then show ?thesis using i(2) by (simp add: card_Diff_singleton_if)
  qed
  have left: "card {j. (j, k) \<in> E \<and> j \<notin> set (?out @ [i])} = 0 \<longleftrightarrow> (\<forall>j. (j, k) \<in> E \<longrightarrow> j \<in> set (?out @ [i]))" for k
    unfolding card_0_eq [OF finite_preds [OF E]] by auto
  have new: "b \<noteq> i \<and> b \<notin> set ?out" if "(i, b) \<in> E" for b
    using that i ordered [of i b] before_set [of ?out i b] by blast
  have ready': "k \<in> rdy \<longleftrightarrow> k < n \<and> k \<notin> set (?out @ [i]) \<and> (\<forall>j. (j, k) \<in> E \<longrightarrow> j \<in> set (?out @ [i]))" for k
  proof (cases "(i, k) \<in> E")
    case True
    then have "k < n" using E by auto
    moreover have "ks_incoming st ! k - 1 = card {j. (j, k) \<in> E \<and> j \<notin> set (?out @ [i])}"
      unfolding count using True counts [OF \<open>k < n\<close>] by simp
    moreover have "k \<notin> ks_ready st" using True i(2) rdy_iff by auto
    ultimately have "k \<in> rdy \<longleftrightarrow> card {j. (j, k) \<in> E \<and> j \<notin> set (?out @ [i])} = 0"
      unfolding rdy by (simp only: True Un_iff Diff_iff mem_Collect_eq simp_thms)
    then show ?thesis unfolding left using \<open>k < n\<close> new [OF True] by simp
  next
    case False
    then have "(\<forall>j. (j, k) \<in> E \<longrightarrow> j \<in> set (?out @ [i])) \<longleftrightarrow> (\<forall>j. (j, k) \<in> E \<longrightarrow> j \<in> set ?out)" by auto
    with False show ?thesis by (auto simp: rdy rdy_iff)
  qed
  have "runs_before (?out @ [i]) a b" if "(a, b) \<in> E" "b \<in> set (?out @ [i])" for a b
    using that i(3) ordered [of a b] by (auto simp: before_snoc)
  moreover have "inc ! k = card {j. (j, k) \<in> E \<and> j \<notin> set (?out @ [i])}" if "k < n" for k
    unfolding count using inc [OF that] counts [OF that] by simp
  moreover have "rdy = {k. k < n \<and> k \<notin> set (?out @ [i]) \<and> (\<forall>j. (j, k) \<in> E \<longrightarrow> j \<in> set (?out @ [i]))}"
    using ready' by blast
  ultimately show "kahn_inv n E (kahn_turn tie outgoing st)"
    unfolding turn kahn_inv_def kahn_state.simps using dist sub i(1,2) run(2) by (intro conjI) auto
  show "length (ks_out (kahn_turn tie outgoing st)) = Suc (length ?out)" by (simp add: turn)
qed

lemma kahn_turns_enough:
  assumes E: "edges_within n E" and outg: "\<And>a. a < n \<Longrightarrow> outgoing ! a = {b. (a, b) \<in> E}"
    and inv: "kahn_inv n E st" and k: "n \<le> k + length (ks_out st)"
  shows "kahn_inv n E (kahn_loop k tie outgoing st) \<and> ks_ready (kahn_loop k tie outgoing st) = {}"
  using inv k
proof (induction k arbitrary: st)
  case 0
  then have sub: "set (ks_out st) \<subseteq> {..<n}" and "card (set (ks_out st)) = length (ks_out st)"
    by (simp_all add: kahn_inv_def distinct_card)
  moreover have "card (set (ks_out st)) \<le> n" using card_mono [OF _ sub] by simp
  ultimately have "set (ks_out st) = {..<n}" using 0 by (intro card_subset_eq) auto
  with 0 show ?case by (auto simp: kahn_inv_def)
next
  case (Suc k)
  then show ?case using kahn_turn_inv [OF E outg Suc.prems(1)] by (cases "ks_ready st = {}") auto
qed

section \<open>The tie-break\<close>

text \<open>Each step placed is the one the tie-break picks among those that were ready.\<close>

definition ready_after :: "nat \<Rightarrow> (nat \<times> nat) set \<Rightarrow> nat list \<Rightarrow> nat set" where
  "ready_after n E xs = {i. i < n \<and> i \<notin> set xs \<and> (\<forall>j. (j, i) \<in> E \<longrightarrow> j \<in> set xs)}"

definition greedy :: "tie \<Rightarrow> nat \<Rightarrow> (nat \<times> nat) set \<Rightarrow> nat list \<Rightarrow> bool" where
  "greedy tie n E xs \<longleftrightarrow> (\<forall>k < length xs. xs ! k = pop tie (ready_after n E (take k xs)))"

lemma greedy_snoc: "greedy tie n E xs \<Longrightarrow> x = pop tie (ready_after n E xs) \<Longrightarrow> greedy tie n E (xs @ [x])"
  by (auto simp: greedy_def nth_append less_Suc_eq)

lemma kahn_loop_greedy:
  assumes E: "edges_within n E" and outg: "\<And>a. a < n \<Longrightarrow> outgoing ! a = {b. (a, b) \<in> E}"
    and inv: "kahn_inv n E st" and greedy: "greedy tie n E (ks_out st)"
  shows "greedy tie n E (ks_out (kahn_loop k tie outgoing st))"
  using inv greedy
proof (induction k arbitrary: st)
  case (Suc k)
  show ?case
  proof (cases "ks_ready st = {}")
    case False
    have "ks_ready st = ready_after n E (ks_out st)" using Suc.prems(1) by (simp add: kahn_inv_def ready_after_def)
    then have "greedy tie n E (ks_out (kahn_turn tie outgoing st))"
      using greedy_snoc [OF Suc.prems(2)] by (simp add: kahn_turn_def Let_def split: prod.split)
    then show ?thesis using Suc.IH kahn_turn_inv(1) [OF E outg Suc.prems(1) False] False by simp
  qed (use Suc.prems in simp)
qed simp

section \<open>What the algorithm returns\<close>

text \<open>The edges a list of constraints states.\<close>

definition edge_of :: "constraint \<Rightarrow> nat \<times> nat" where
  "edge_of c = (c_before c, c_after c)"

abbreviation edges_of :: "constraint list \<Rightarrow> (nat \<times> nat) set" where
  "edges_of cs \<equiv> edge_of ` set cs"

lemma run_from_edges:
  "set (map (run_from tie) cs) = (case tie of Sink \<Rightarrow> edges_of cs | Hoist \<Rightarrow> (edges_of cs)\<inverse>)"
  by (cases tie) (auto simp: run_from_def edge_of_def image_iff)

lemma kahn_run:
  assumes "edges_within n (edges_of cs)"
  obtains st where "kahn_inv n (set (map (run_from tie) cs)) st" "ks_ready st = {}"
    "kahn n cs tie = (if tie = Hoist then rev (ks_out st) else ks_out st)"
    "edges_within n (set (map (run_from tie) cs))" "greedy tie n (set (map (run_from tie) cs)) (ks_out st)"
proof -
  let ?es = "map (run_from tie) cs"
  have E: "edges_within n (set ?es)" unfolding run_from_edges using assms by (cases tie) auto
  from count_edges_run [OF E] obtain incoming outgoing where run: "count_edges n ?es = (incoming, outgoing)" "length incoming = n"
    and outg: "\<And>a. a < n \<Longrightarrow> outgoing ! a = {b. (a, b) \<in> set ?es}"
    and inc: "\<And>b. b < n \<Longrightarrow> incoming ! b = card {a. (a, b) \<in> set ?es}" by blast
  have "incoming ! i = 0 \<longleftrightarrow> (\<forall>j. (j, i) \<notin> set ?es)" if "i < n" for i
    unfolding inc [OF that] using card_0_eq [OF finite_preds [OF E, of i "\<lambda>_. True"]] by auto
  then have "set (filter (\<lambda>i. incoming ! i = 0) [0..<n]) = {i. i < n \<and> (\<forall>j. (j, i) \<notin> set ?es)}" by auto
  then have "kahn_inv n (set ?es) (kahn_start n incoming)"
    using run(2) inc unfolding kahn_inv_def kahn_start_def kahn_state.simps by simp
  moreover from this have "greedy tie n (set ?es) (ks_out (kahn_loop n tie outgoing (kahn_start n incoming)))"
    by (intro kahn_loop_greedy E outg) (simp_all add: kahn_start_def greedy_def)
  ultimately have "greedy tie n (set ?es) (ks_out (kahn_loop n tie outgoing (kahn_start n incoming)))"
    "kahn_inv n (set ?es) (kahn_loop n tie outgoing (kahn_start n incoming))"
    "ks_ready (kahn_loop n tie outgoing (kahn_start n incoming)) = {}"
    using kahn_turns_enough [where k = n, OF E outg] by auto
  then show thesis by (intro that [OF _ _ _ E]) (simp_all add: kahn_def run)
qed

lemma kahn_placed:
  assumes "edges_within n (edges_of cs)"
  shows "distinct (kahn n cs tie)" "set (kahn n cs tie) \<subseteq> {..<n}"
  by (rule kahn_run [OF assms, of tie]; auto simp: kahn_inv_def)+

text \<open>Among the steps it places, every edge runs forward; and what a placed step waits for is placed (\<open>Sink\<close>), or what
  waits for it is (\<open>Hoist\<close>).\<close>

lemma kahn_forward:
  assumes E: "edges_within n (edges_of cs)" and ab: "(a, b) \<in> edges_of cs"
    and placed: "(case tie of Sink \<Rightarrow> b | Hoist \<Rightarrow> a) \<in> set (kahn n cs tie)"
  shows "runs_before (kahn n cs tie) a b"
proof -
  obtain st where inv: "kahn_inv n (set (map (run_from tie) cs)) st"
    and run: "kahn n cs tie = (if tie = Hoist then rev (ks_out st) else ks_out st)" by (rule kahn_run [OF E, of tie])
  show ?thesis
  proof (cases tie)
    case Sink
    then show ?thesis using inv ab placed unfolding run run_from_edges by (auto simp: kahn_inv_def)
  next
    case Hoist
    then have "runs_before (ks_out st) b a" using inv ab placed unfolding run run_from_edges by (auto simp: kahn_inv_def)
    then show ?thesis unfolding run by (simp add: Hoist before_rev)
  qed
qed

text \<open>A step the algorithm does not place waits for another it does not place.\<close>

lemma kahn_waits:
  assumes E: "edges_within n (edges_of cs)" and i: "i < n" "i \<notin> set (kahn n cs tie)"
  shows "\<exists>j < n. j \<notin> set (kahn n cs tie) \<and> (case tie of Sink \<Rightarrow> (j, i) \<in> edges_of cs | Hoist \<Rightarrow> (i, j) \<in> edges_of cs)"
proof -
  obtain st where inv: "kahn_inv n (set (map (run_from tie) cs)) st" "ks_ready st = {}"
    and run: "kahn n cs tie = (if tie = Hoist then rev (ks_out st) else ks_out st)"
    and E': "edges_within n (set (map (run_from tie) cs))" by (rule kahn_run [OF E, of tie])
  have "i \<notin> ks_ready st" using inv by simp
  moreover have out: "set (kahn n cs tie) = set (ks_out st)" by (simp add: run)
  ultimately obtain j where "(j, i) \<in> set (map (run_from tie) cs)" "j \<notin> set (ks_out st)"
    using i inv(1) unfolding kahn_inv_def by blast
  then show ?thesis using E' unfolding out run_from_edges by (cases tie) auto
qed

lemma no_infinite_descent:
  assumes "finite S" "x \<in> S" "\<And>y. y \<in> S \<Longrightarrow> \<exists>z \<in> S. (z, y) \<in> E"
  shows "\<not> acyclic E"
proof
  assume "acyclic E"
  let ?R = "E \<inter> S \<times> S"
  have "acyclic ?R" using \<open>acyclic E\<close> by (rule acyclic_subset) auto
  moreover have "finite ?R" using assms(1) by simp
  ultimately have "wf ?R" by (simp add: finite_acyclic_wf)
  then obtain z where "z \<in> S" "\<And>y. (y, z) \<in> ?R \<Longrightarrow> y \<notin> S" using wfE_min [of ?R x S] assms(2) by blast
  moreover obtain y where "y \<in> S" "(y, z) \<in> E" using assms(3) [OF \<open>z \<in> S\<close>] by blast
  ultimately show False by blast
qed

lemma respected_acyclic:
  assumes "distinct xs" "\<And>a b. (a, b) \<in> E \<Longrightarrow> runs_before xs a b"
  shows "acyclic E"
proof -
  have "runs_before xs a b" if "(a, b) \<in> E\<^sup>+" for a b
    using that
  proof (induction rule: trancl_induct)
    case (step b c)
    then show ?case using before_trans [OF assms(1)] assms(2) by blast
  qed (rule assms(2))
  then show ?thesis unfolding acyclic_def using before_irrefl [OF assms(1)] by blast
qed

lemma kahn_complete:
  assumes E: "edges_within n (edges_of cs)" and ac: "acyclic (edges_of cs)"
  shows "length (kahn n cs tie) = n"
proof -
  let ?left = "{i. i < n \<and> i \<notin> set (kahn n cs tie)}"
  have ac': "acyclic (case tie of Sink \<Rightarrow> edges_of cs | Hoist \<Rightarrow> (edges_of cs)\<inverse>)"
    using ac by (cases tie) (simp_all add: acyclic_converse)
  have "?left = {}"
  proof (rule ccontr)
    assume "?left \<noteq> {}"
    then obtain i where "i \<in> ?left" by blast
    then have "\<not> acyclic (case tie of Sink \<Rightarrow> edges_of cs | Hoist \<Rightarrow> (edges_of cs)\<inverse>)"
    proof (rule no_infinite_descent [rotated])
      show "\<exists>z \<in> ?left. (z, y) \<in> (case tie of Sink \<Rightarrow> edges_of cs | Hoist \<Rightarrow> (edges_of cs)\<inverse>)" if "y \<in> ?left" for y
        using kahn_waits [OF E, of y tie] that by (cases tie) auto
    qed simp
    with ac' show False by simp
  qed
  then have "set (kahn n cs tie) = {..<n}" using kahn_placed(2) [OF E, of tie] by auto
  then show "length (kahn n cs tie) = n" using distinct_card [OF kahn_placed(1) [OF E, of tie]] by simp
qed

text \<open>What the schedule relies on of an ordering loop, whatever its tie-break.\<close>

locale placer =
  fixes place :: "nat \<Rightarrow> constraint list \<Rightarrow> nat list"
  assumes place_distinct: "edges_within n (edges_of cs) \<Longrightarrow> distinct (place n cs)"
    and place_within: "edges_within n (edges_of cs) \<Longrightarrow> set (place n cs) \<subseteq> {..<n}"
    and place_forward: "edges_within n (edges_of cs) \<Longrightarrow> set (place n cs) = {..<n} \<Longrightarrow> (a, b) \<in> edges_of cs \<Longrightarrow> runs_before (place n cs) a b"
    and place_complete: "edges_within n (edges_of cs) \<Longrightarrow> acyclic (edges_of cs) \<Longrightarrow> length (place n cs) = n"
begin

lemma length_le: "edges_within n (edges_of cs) \<Longrightarrow> length (place n cs) \<le> n"
  using card_mono [OF finite_lessThan place_within] distinct_card [OF place_distinct] by (metis card_lessThan)

lemma all_placed: "edges_within n (edges_of cs) \<Longrightarrow> length (place n cs) = n \<Longrightarrow> set (place n cs) = {..<n}"
  using place_distinct place_within by (intro card_subset_eq) (simp_all add: distinct_card)

lemma places_all_iff: "edges_within n (edges_of cs) \<Longrightarrow> length (place n cs) = n \<longleftrightarrow> acyclic (edges_of cs)"
proof
  assume E: "edges_within n (edges_of cs)" and "length (place n cs) = n"
  then show "acyclic (edges_of cs)"
    using respected_acyclic [OF place_distinct [OF E]] place_forward [OF E all_placed [OF E]] by blast
qed (rule place_complete)

lemma incomplete_iff: "edges_within n (edges_of cs) \<Longrightarrow> length (place n cs) < n \<longleftrightarrow> \<not> acyclic (edges_of cs)"
  using places_all_iff length_le by (metis nat_less_le)

end

interpretation kahn_order: placer "\<lambda>n cs. kahn n cs tie" for tie
proof
  fix n cs a b
  assume E: "edges_within n (edges_of cs)"
  show "distinct (kahn n cs tie)" "set (kahn n cs tie) \<subseteq> {..<n}" using kahn_placed [OF E] by blast+
  show "runs_before (kahn n cs tie) a b" if "set (kahn n cs tie) = {..<n}" "(a, b) \<in> edges_of cs"
    using kahn_forward [OF E that(2), of tie] E that by (cases tie) auto
qed (rule kahn_complete)

lemmas kahn_places_all_iff = kahn_order.places_all_iff

section \<open>The order chosen\<close>

lemma first_difference:
  assumes "length xs = length ys" "xs \<noteq> ys"
  obtains k where "k < length xs" "take k xs = take k ys" "xs ! k \<noteq> ys ! k"
proof -
  define k where "k = (LEAST k. k < length xs \<and> xs ! k \<noteq> ys ! k)"
  have "\<exists>k. k < length xs \<and> xs ! k \<noteq> ys ! k" using assms by (metis nth_equalityI)
  then have k: "k < length xs" "xs ! k \<noteq> ys ! k" unfolding k_def by (metis (mono_tags, lifting) LeastI_ex)+
  have "xs ! l = ys ! l" if "l < k" for l using not_less_Least [of l "\<lambda>k. k < length xs \<and> xs ! k \<noteq> ys ! k"] that k(1) unfolding k_def by auto
  then have "take k xs = take k ys" using assms(1) k(1) by (intro nth_equalityI) simp_all
  with k show thesis using that by blast
qed

lemma ready_on_the_way:
  assumes "distinct ys" "set ys = {..<n}" "\<And>a b. (a, b) \<in> E \<Longrightarrow> runs_before ys a b" "k < length ys"
  shows "ys ! k \<in> ready_after n E (take k ys)"
proof -
  have "ys ! k \<notin> set (take k ys)" using assms(1,4) by (auto simp: in_set_conv_nth nth_eq_iff_index_eq)
  moreover have "j \<in> set (take k ys)" if "(j, ys ! k) \<in> E" for j
  proof -
    from assms(3) [OF that] obtain a b where "a < b" "b < length ys" "ys ! a = j" "ys ! b = ys ! k" unfolding before_iff by blast
    moreover from this have "b = k" using assms(1,4) by (simp add: nth_eq_iff_index_eq)
    ultimately show ?thesis by (auto simp: in_set_conv_nth intro: exI [of _ a])
  qed
  moreover have "ys ! k < n" using nth_mem [OF assms(4)] assms(2) by auto
  ultimately show ?thesis by (simp add: ready_after_def)
qed

lemma greedy_extreme:
  assumes "greedy tie n E xs" "length xs = n" "distinct ys" "set ys = {..<n}" "\<And>a b. (a, b) \<in> E \<Longrightarrow> runs_before ys a b" "xs \<noteq> ys"
  shows "\<exists>k < n. take k xs = take k ys \<and> (case tie of Sink \<Rightarrow> xs ! k < ys ! k | Hoist \<Rightarrow> ys ! k < xs ! k)"
proof -
  have len: "length ys = n" using distinct_card [OF assms(3)] assms(4) by simp
  then obtain k where k: "k < n" "take k xs = take k ys" "xs ! k \<noteq> ys ! k"
    using first_difference [of xs ys] assms(2,6) by metis
  have "xs ! k = pop tie (ready_after n E (take k ys))" using assms(1,2) k by (simp add: greedy_def)
  moreover have "ys ! k \<in> ready_after n E (take k ys)" using ready_on_the_way [OF assms(3-5)] k(1) len by simp
  moreover have "finite (ready_after n E (take k ys))" by (simp add: ready_after_def)
  ultimately have "case tie of Sink \<Rightarrow> xs ! k \<le> ys ! k | Hoist \<Rightarrow> ys ! k \<le> xs ! k" by (cases tie) (simp_all add: pop_def)
  with k show ?thesis by (intro exI [of _ k]) (cases tie; simp)
qed

lemma greedy_identity:
  assumes "greedy tie n E xs" "length xs = n"
    and "case tie of Sink \<Rightarrow> ys = [0..<n] | Hoist \<Rightarrow> ys = rev [0..<n]" "\<And>a b. (a, b) \<in> E \<Longrightarrow> runs_before ys a b" "distinct xs" "set xs = {..<n}"
  shows "xs = ys"
proof (rule ccontr)
  assume "xs \<noteq> ys"
  then obtain k where k: "k < n" "take k xs = take k ys" "case tie of Sink \<Rightarrow> xs ! k < ys ! k | Hoist \<Rightarrow> ys ! k < xs ! k"
    using greedy_extreme [OF assms(1,2), of ys] assms(3,4) by (cases tie) (auto simp: atLeast0LessThan)
  have "xs ! k \<in> set (take k ys)"
  proof (cases tie)
    case Sink
    then show ?thesis using k assms(3) by simp
  next
    case Hoist
    have "xs ! k < n" using nth_mem [of k xs] assms(2,6) k(1) by auto
    then have "n - 1 - xs ! k < k" "xs ! k = ys ! (n - 1 - xs ! k)" using Hoist k assms(3) by (auto simp: rev_nth)
    then show ?thesis using Hoist k(1) assms(3) by (auto simp: in_set_conv_nth intro!: exI [of _ "n - 1 - xs ! k"])
  qed
  then have "xs ! k \<in> set (take k xs)" using k(2) by simp
  then show False using assms(2,5) k(1) by (auto simp: in_set_conv_nth nth_eq_iff_index_eq)
qed

lemma before_upt: "runs_before [0..<n] a b \<longleftrightarrow> a < b \<and> b < n"
proof
  assume "a < b \<and> b < n"
  then show "runs_before [0..<n] a b" unfolding before_iff by (intro exI [of _ a] exI [of _ b]) simp
qed (auto simp: before_iff)

lemma kahn_identity:
  assumes E: "edges_within n (edges_of cs)" and forward: "\<And>a b. (a, b) \<in> edges_of cs \<Longrightarrow> a < b"
  shows "kahn n cs tie = [0..<n]"
proof -
  obtain st where inv: "kahn_inv n (set (map (run_from tie) cs)) st"
    and run: "kahn n cs tie = (if tie = Hoist then rev (ks_out st) else ks_out st)"
    and gr: "greedy tie n (set (map (run_from tie) cs)) (ks_out st)" by (rule kahn_run [OF E, of tie])
  have up: "runs_before [0..<n] a b" if "(a, b) \<in> edges_of cs" for a b using forward [OF that] E that by (auto simp: before_upt)
  then have "acyclic (edges_of cs)" using respected_acyclic [OF distinct_upt] by blast
  then have len: "length (ks_out st) = n" using kahn_places_all_iff [OF E, of tie] by (simp add: run split: if_splits)
  have "distinct (ks_out st)" "set (ks_out st) \<subseteq> {..<n}" using inv by (auto simp: kahn_inv_def)
  moreover from this have "set (ks_out st) = {..<n}" using len by (intro card_subset_eq) (simp_all add: distinct_card)
  moreover have "runs_before (case tie of Sink \<Rightarrow> [0..<n] | Hoist \<Rightarrow> rev [0..<n]) a b" if "(a, b) \<in> set (map (run_from tie) cs)" for a b
    using that up unfolding run_from_edges by (cases tie) (auto simp: before_rev)
  ultimately have "ks_out st = (case tie of Sink \<Rightarrow> [0..<n] | Hoist \<Rightarrow> rev [0..<n])"
    by (intro greedy_identity [OF gr len]) (simp split: tie.split)+
  then show ?thesis unfolding run by (cases tie) simp_all
qed

lemma kahn_extreme:
  assumes E: "edges_within n (edges_of cs)" and ys: "distinct ys" "set ys = {..<n}" "\<And>a b. (a, b) \<in> edges_of cs \<Longrightarrow> runs_before ys a b"
    and other: "kahn n cs tie \<noteq> ys"
  shows "\<exists>k < n. case tie of Sink \<Rightarrow> take k (kahn n cs tie) = take k ys \<and> kahn n cs tie ! k < ys ! k
    | Hoist \<Rightarrow> drop (Suc k) (kahn n cs tie) = drop (Suc k) ys \<and> ys ! k < kahn n cs tie ! k"
proof -
  obtain st where inv: "kahn_inv n (set (map (run_from tie) cs)) st"
    and run: "kahn n cs tie = (if tie = Hoist then rev (ks_out st) else ks_out st)"
    and gr: "greedy tie n (set (map (run_from tie) cs)) (ks_out st)" by (rule kahn_run [OF E, of tie])
  have "acyclic (edges_of cs)" using ys(1,3) by (rule respected_acyclic)
  then have len: "length (ks_out st) = n" using kahn_places_all_iff [OF E, of tie] by (simp add: run split: if_splits)
  have len': "length ys = n" using distinct_card [OF ys(1)] ys(2) by simp
  show ?thesis
  proof (cases tie)
    case Sink
    then show ?thesis using greedy_extreme [OF gr len ys(1,2)] ys(3) other unfolding run run_from_edges by auto
  next
    case Hoist
    have "ks_out st \<noteq> rev ys" using other unfolding run by (auto simp: Hoist)
    then have "\<exists>k < n. take k (ks_out st) = take k (rev ys) \<and> rev ys ! k < ks_out st ! k"
      using greedy_extreme [OF gr len, of "rev ys"] ys other unfolding run run_from_edges Hoist by (auto simp: before_rev)
    then obtain k where k: "k < n" "take k (ks_out st) = take k (rev ys)" "rev ys ! k < ks_out st ! k" by blast
    have "drop (n - k) (rev (ks_out st)) = drop (n - k) ys"
      using k(1,2) len len' by (simp add: take_rev rev_swap drop_rev)
    then show ?thesis using k len len' unfolding run by (intro exI [of _ "n - Suc k"]) (simp add: Hoist rev_nth Suc_diff_Suc)
  qed
qed

end
