(* ===== verification/Components.thy ===== *)
theory Components
  imports Kahn
begin

text \<open>
  The strongly connected components of \<open>crates/pbps-diff/src/order/schedule.rs\<close>: Tarjan's algorithm, iterative, over an
  explicit work stack. A \<open>Vec\<close> used as a stack has its last element first in the list here; \<open>usize::MAX\<close> in \<open>index\<close> is
  \<open>None\<close>. The inner \<open>while\<close> is a recursion bounded by the number of steps and edges, which \<open>tarjan_loop_ends\<close>
  shows to be enough. The result is the reference definition of the components, \<open>components_reference\<close>.
\<close>

section \<open>The algorithm\<close>

record tarjan =
  t_index :: "nat option list"
  t_low :: "nat list"
  t_on_stack :: "bool list"
  t_stack :: "nat list"
  t_found :: "nat list list"
  t_counter :: nat
  t_work :: "(nat \<times> nat) list"

definition outgoing_of :: "nat \<Rightarrow> constraint list \<Rightarrow> nat list list" where
  "outgoing_of n cs =
     map (\<lambda>next. remdups_adj (sort next))
       (foldl (\<lambda>outgoing c. outgoing[c_before c := outgoing ! c_before c @ [c_after c]]) (replicate n []) cs)"

text \<open>What the code does with a root and with a child it has not seen.\<close>

definition visit :: "nat \<Rightarrow> tarjan \<Rightarrow> tarjan" where
  "visit w st = st\<lparr>t_index := (t_index st)[w := Some (t_counter st)], t_low := (t_low st)[w := t_counter st],
     t_counter := t_counter st + 1, t_stack := w # t_stack st, t_on_stack := (t_on_stack st)[w := True],
     t_work := (w, 0) # t_work st\<rparr>"

fun pop_members :: "nat \<Rightarrow> nat list \<Rightarrow> bool list \<Rightarrow> nat list \<Rightarrow> nat list \<times> bool list \<times> nat list" where
  "pop_members v [] on_stack members = ([], on_stack, members)"
| "pop_members v (w # stack) on_stack members =
     (if w = v then (stack, on_stack[w := False], members @ [w])
      else pop_members v stack (on_stack[w := False]) (members @ [w]))"

definition pop_component :: "nat \<Rightarrow> tarjan \<Rightarrow> tarjan" where
  "pop_component v st =
     (let (stack, on_stack, members) = pop_members v (t_stack st) (t_on_stack st) []
      in st\<lparr>t_stack := stack, t_on_stack := on_stack, t_found := t_found st @ [sort members]\<rparr>)"

definition look_at_child :: "nat \<Rightarrow> nat \<Rightarrow> tarjan \<Rightarrow> tarjan" where
  "look_at_child v w st =
     (case t_index st ! w of
        None \<Rightarrow> visit w st
      | Some i \<Rightarrow> if t_on_stack st ! w then st\<lparr>t_low := (t_low st)[v := min (t_low st ! v) i]\<rparr> else st)"

definition leave :: "nat \<Rightarrow> tarjan \<Rightarrow> tarjan" where
  "leave v st =
     (let st = (case t_work st of
                  [] \<Rightarrow> st
                | (parent, _) # _ \<Rightarrow> st\<lparr>t_low := (t_low st)[parent := min (t_low st ! parent) (t_low st ! v)]\<rparr>)
      in if t_index st ! v = Some (t_low st ! v) then pop_component v st else st)"

definition tarjan_step :: "nat list list \<Rightarrow> tarjan \<Rightarrow> tarjan" where
  "tarjan_step outgoing st =
     (case t_work st of
        [] \<Rightarrow> st
      | (v, child) # rest \<Rightarrow>
          if child < length (outgoing ! v) then look_at_child v (outgoing ! v ! child) (st\<lparr>t_work := (v, child + 1) # rest\<rparr>)
          else leave v (st\<lparr>t_work := rest\<rparr>))"

fun tarjan_loop :: "nat \<Rightarrow> nat list list \<Rightarrow> tarjan \<Rightarrow> tarjan" where
  "tarjan_loop 0 outgoing st = st"
| "tarjan_loop (Suc k) outgoing st = (if t_work st = [] then st else tarjan_loop k outgoing (tarjan_step outgoing st))"

definition tarjan_root :: "nat \<Rightarrow> nat list list \<Rightarrow> tarjan \<Rightarrow> nat \<Rightarrow> tarjan" where
  "tarjan_root n outgoing st root =
     (if t_index st ! root \<noteq> None then st
      else tarjan_loop (n + sum_list (map length outgoing)) outgoing (visit root st))"

definition tarjan_start :: "nat \<Rightarrow> tarjan" where
  "tarjan_start n = \<lparr>t_index = replicate n None, t_low = replicate n 0, t_on_stack = replicate n False, t_stack = [],
     t_found = [], t_counter = 0, t_work = []\<rparr>"

definition components :: "nat \<Rightarrow> constraint list \<Rightarrow> nat list list" where
  "components n cs = sort (t_found (foldl (tarjan_root n (outgoing_of n cs)) (tarjan_start n) [0..<n]))"

section \<open>Mutual reachability\<close>

definition scc :: "(nat \<times> nat) set \<Rightarrow> nat \<Rightarrow> nat set" where
  "scc E x = {y. (x, y) \<in> E\<^sup>* \<and> (y, x) \<in> E\<^sup>*}"

lemma scc_self [simp]: "x \<in> scc E x"
  by (simp add: scc_def)

lemma scc_eq: "y \<in> scc E x \<Longrightarrow> scc E y = scc E x"
  unfolding scc_def by (auto intro: rtrancl_trans)

lemma closed_reach: "(\<And>a b. (a, b) \<in> E \<Longrightarrow> a \<in> S \<Longrightarrow> b \<in> S) \<Longrightarrow> (x, y) \<in> E\<^sup>* \<Longrightarrow> x \<in> S \<Longrightarrow> y \<in> S"
  by (erule rtrancl_induct) auto

text \<open>A set is the component of \<open>v\<close> when \<open>v\<close> reaches all of it, each member but \<open>v\<close> reaches another below it in some order,
  and its edges stay in it or lead into a closed set that it does not touch.\<close>

lemma scc_by_descent:
  fixes f :: "nat \<Rightarrow> nat"
  assumes v: "v \<in> C" and down: "\<And>x. x \<in> C \<Longrightarrow> (v, x) \<in> E\<^sup>*"
    and up: "\<And>x. x \<in> C \<Longrightarrow> x \<noteq> v \<Longrightarrow> \<exists>y. f y < f x \<and> (x, y) \<in> E\<^sup>* \<and> y \<notin> F"
    and out: "\<And>x y. x \<in> C \<Longrightarrow> (x, y) \<in> E \<Longrightarrow> y \<in> C \<union> F"
    and closed: "\<And>x y. x \<in> F \<Longrightarrow> (x, y) \<in> E \<Longrightarrow> y \<in> F" and apart: "C \<inter> F = {}"
  shows "scc E v = C"
proof
  have stay: "y \<in> C \<union> F" if "(x, y) \<in> E\<^sup>*" "x \<in> C" for x y
    by (rule closed_reach [OF _ that(1)]) (use out closed that(2) in auto)
  have F: "y \<in> F" if "(x, y) \<in> E\<^sup>*" "x \<in> F" for x y
    by (rule closed_reach [OF _ that(1)]) (use closed that(2) in auto)
  show "scc E v \<subseteq> C"
  proof
    fix y
    assume y: "y \<in> scc E v"
    then have "y \<in> C \<union> F" using stay [OF _ v] by (simp add: scc_def)
    moreover have "y \<notin> F" using F [of y v] y v apart by (auto simp: scc_def)
    ultimately show "y \<in> C" by simp
  qed
  have "(x, v) \<in> E\<^sup>*" if "x \<in> C" for x
    using that
  proof (induction x rule: measure_induct_rule [of f])
    case (less x)
    show ?case
    proof (cases "x = v")
      case False
      then obtain y where y: "f y < f x" "(x, y) \<in> E\<^sup>*" "y \<notin> F" using up less.prems by blast
      then have "y \<in> C" using stay less.prems by blast
      then show ?thesis using less.IH y rtrancl_trans by metis
    qed simp
  qed
  then show "C \<subseteq> scc E v" using down by (auto simp: scc_def)
qed

section \<open>The invariant\<close>

text \<open>
  The stack splits into one frame for each entry \<open>(v, child)\<close> of the work stack: \<open>v\<close> and the finished vertices above it.
  \<open>S\<close> is the stack's contents and \<open>F\<close> the vertices of the components found; \<open>ix\<close> and \<open>lw\<close> read the arrays.
\<close>

type_synonym frame = "nat \<times> nat \<times> nat list"

definition frame_stack :: "frame list \<Rightarrow> nat list" where
  "frame_stack fs = concat (map (\<lambda>(v, c, s). s @ [v]) fs)"

definition frame_work :: "frame list \<Rightarrow> (nat \<times> nat) list" where
  "frame_work fs = map (\<lambda>(v, c, s). (v, c)) fs"

lemma frame_simps [simp]:
  "frame_stack [] = []" "frame_stack ((v, c, s) # fs) = s @ v # frame_stack fs" "frame_stack (fs @ gs) = frame_stack fs @ frame_stack gs"
  "frame_work [] = []" "frame_work ((v, c, s) # fs) = (v, c) # frame_work fs" "frame_work (fs @ gs) = frame_work fs @ frame_work gs"
  by (simp_all add: frame_stack_def frame_work_def)

lemma frame_work_Nil [simp]: "frame_work fs = [] \<longleftrightarrow> fs = []"
  by (simp add: frame_work_def)

lemma frame_vertex: "(v, c, s) \<in> set fs \<Longrightarrow> v \<in> set (frame_stack fs) \<and> set s \<subseteq> set (frame_stack fs)"
  by (auto simp: frame_stack_def)

abbreviation found_set :: "tarjan \<Rightarrow> nat set" where
  "found_set st \<equiv> \<Union> (set ` set (t_found st))"

abbreviation ix :: "tarjan \<Rightarrow> nat \<Rightarrow> nat" where
  "ix st x \<equiv> the (t_index st ! x)"

abbreviation lw :: "tarjan \<Rightarrow> nat \<Rightarrow> nat" where
  "lw st x \<equiv> t_low st ! x"

text \<open>An edge that has been looked at leads to a component found, or to the stack at or above the frame's low mark.\<close>

definition seen_edge :: "tarjan \<Rightarrow> nat \<Rightarrow> nat \<Rightarrow> bool" where
  "seen_edge st v y \<longleftrightarrow> y \<in> found_set st \<or> y \<in> set (t_stack st) \<and> lw st v \<le> ix st y"

definition frame_ok :: "(nat \<times> nat) set \<Rightarrow> nat list list \<Rightarrow> tarjan \<Rightarrow> frame \<Rightarrow> bool" where
  "frame_ok E outgoing st f =
     (case f of (v, c, s) \<Rightarrow>
        c \<le> length (outgoing ! v) \<and> lw st v \<le> ix st v
        \<and> (\<exists>y \<in> set (t_stack st). ix st y = lw st v \<and> (v, y) \<in> E\<^sup>*)
        \<and> (\<forall>x \<in> set s. (v, x) \<in> E\<^sup>* \<and> (\<exists>y \<in> set (t_stack st). ix st y < ix st x \<and> (x, y) \<in> E\<^sup>*)
             \<and> (\<forall>y. (x, y) \<in> E \<longrightarrow> seen_edge st v y))
        \<and> (\<forall>y \<in> set (take c (outgoing ! v)). seen_edge st v y))"

definition stack_ok :: "nat \<Rightarrow> tarjan \<Rightarrow> bool" where
  "stack_ok n st \<longleftrightarrow>
     length (t_index st) = n \<and> length (t_low st) = n \<and> length (t_on_stack st) = n
     \<and> sorted_wrt (\<lambda>x y. ix st y < ix st x) (t_stack st)
     \<and> set (t_stack st) \<union> found_set st \<subseteq> {..<n} \<and> set (t_stack st) \<inter> found_set st = {}
     \<and> (\<forall>x < n. t_index st ! x \<noteq> None \<longleftrightarrow> x \<in> set (t_stack st) \<union> found_set st)
     \<and> (\<forall>x \<in> set (t_stack st). ix st x < t_counter st)
     \<and> (\<forall>x < n. t_on_stack st ! x \<longleftrightarrow> x \<in> set (t_stack st))"

definition found_ok :: "nat \<Rightarrow> (nat \<times> nat) set \<Rightarrow> tarjan \<Rightarrow> bool" where
  "found_ok n E st \<longleftrightarrow>
     (\<forall>x y. x \<in> found_set st \<and> (x, y) \<in> E \<longrightarrow> y \<in> found_set st) \<and> distinct (t_found st)
     \<and> (\<forall>c \<in> set (t_found st). sorted c \<and> distinct c \<and> (\<exists>x < n. set c = scc E x))"

definition tarjan_inv :: "nat \<Rightarrow> (nat \<times> nat) set \<Rightarrow> nat list list \<Rightarrow> tarjan \<Rightarrow> frame list \<Rightarrow> bool" where
  "tarjan_inv n E outgoing st fs \<longleftrightarrow>
     stack_ok n st \<and> found_ok n E st \<and> t_stack st = frame_stack fs \<and> t_work st = frame_work fs
     \<and> sorted_wrt (\<lambda>(v, _, _) (u, _, _). (u, v) \<in> E\<^sup>*) fs \<and> (\<forall>f \<in> set fs. frame_ok E outgoing st f)"

lemma sorted_wrt_distinct: "sorted_wrt P xs \<Longrightarrow> (\<And>x. \<not> P x x) \<Longrightarrow> distinct xs"
  by (induction xs) auto

lemma stack_distinct: "stack_ok n st \<Longrightarrow> distinct (t_stack st)"
  by (rule sorted_wrt_distinct [of "\<lambda>x y. ix st y < ix st x"]) (simp_all add: stack_ok_def)

text \<open>\<open>frame_ok\<close> depends only on the part of the state it reads.\<close>

lemma frame_ok_mono:
  assumes "frame_ok E outgoing st (v, c, s)"
    and "lw st' v = lw st v"
    and "\<And>x. x \<in> set (t_stack st) \<Longrightarrow> ix st' x = ix st x" "v \<in> set (t_stack st)" "set s \<subseteq> set (t_stack st)"
    and "\<And>x. x \<in> set (t_stack st) \<Longrightarrow> x \<notin> set (t_stack st') \<Longrightarrow> x \<in> found_set st' \<and> ix st v < ix st x \<and> (\<forall>y \<in> set s. ix st y < ix st x)"
    and "found_set st \<subseteq> found_set st'"
  shows "frame_ok E outgoing st' (v, c, s)"
proof -
  have seen: "seen_edge st v y \<Longrightarrow> seen_edge st' v y" for y
    unfolding seen_edge_def using assms(2,3,6,7) by auto
  have keep: "y \<in> set (t_stack st') \<and> ix st' y = ix st y" if "y \<in> set (t_stack st)" "ix st y \<le> ix st x" "x = v \<or> x \<in> set s" for x y
    using that assms(3,6) by (metis leD)
  from assms(1) have a: "c \<le> length (outgoing ! v)" "lw st v \<le> ix st v" "\<exists>y \<in> set (t_stack st). ix st y = lw st v \<and> (v, y) \<in> E\<^sup>*"
    "\<forall>x \<in> set s. (v, x) \<in> E\<^sup>* \<and> (\<exists>y \<in> set (t_stack st). ix st y < ix st x \<and> (x, y) \<in> E\<^sup>*) \<and> (\<forall>y. (x, y) \<in> E \<longrightarrow> seen_edge st v y)"
    "\<forall>y \<in> set (take c (outgoing ! v)). seen_edge st v y"
    by (simp_all add: frame_ok_def)
  have "\<exists>y \<in> set (t_stack st'). ix st' y = lw st' v \<and> (v, y) \<in> E\<^sup>*" using a(2,3) keep [of _ v] assms(2) by metis
  moreover have "\<exists>y \<in> set (t_stack st'). ix st' y < ix st' x \<and> (x, y) \<in> E\<^sup>*" if "x \<in> set s" for x
  proof -
    from a(4) that obtain y where "y \<in> set (t_stack st)" "ix st y < ix st x" "(x, y) \<in> E\<^sup>*" by blast
    moreover from this have "y \<in> set (t_stack st') \<and> ix st' y = ix st y" using keep [of y x] that by simp
    moreover have "ix st' x = ix st x" using assms(3,5) that by auto
    ultimately show ?thesis by (intro bexI [of _ y]) simp_all
  qed
  ultimately show ?thesis using a assms(2-4) seen by (auto simp: frame_ok_def)
qed

section \<open>Each step keeps the invariant\<close>

lemma visit_simps [simp]:
  "t_index (visit w st) = (t_index st)[w := Some (t_counter st)]" "t_low (visit w st) = (t_low st)[w := t_counter st]"
  "t_counter (visit w st) = Suc (t_counter st)" "t_stack (visit w st) = w # t_stack st"
  "t_on_stack (visit w st) = (t_on_stack st)[w := True]" "t_found (visit w st) = t_found st"
  "t_work (visit w st) = (w, 0) # t_work st"
  by (simp_all add: visit_def)

lemma visit_stack_ok:
  assumes ok: "stack_ok n st" and w: "w < n" "t_index st ! w = None"
  shows "stack_ok n (visit w st)"
proof -
  have new: "w \<notin> set (t_stack st) \<union> found_set st" using ok w by (auto simp: stack_ok_def)
  have ix: "ix (visit w st) x = ix st x" if "x \<in> set (t_stack st)" for x
  proof -
    have "w \<noteq> x" using that new by auto
    then show ?thesis by simp
  qed
  have "sorted_wrt (\<lambda>x y. ix (visit w st) y < ix (visit w st) x) (t_stack st)"
    by (rule sorted_wrt_mono_rel [of _ "\<lambda>x y. ix st y < ix st x"]) (use ok ix in \<open>auto simp: stack_ok_def\<close>)
  moreover have "ix (visit w st) y < t_counter st" if "y \<in> set (t_stack st)" for y using ok that ix by (auto simp: stack_ok_def)
  ultimately show ?thesis using ok w new unfolding stack_ok_def
    by (auto simp: nth_list_update less_Suc_eq)
qed

lemma visit_inv:
  assumes inv: "tarjan_inv n E outgoing st fs" and w: "w < n" "t_index st ! w = None"
    and reach: "\<And>v c s. (v, c, s) \<in> set fs \<Longrightarrow> (v, w) \<in> E\<^sup>*"
  shows "tarjan_inv n E outgoing (visit w st) ((w, 0, []) # fs)"
proof -
  have ok: "stack_ok n st" using inv by (simp add: tarjan_inv_def)
  have new: "w \<notin> set (t_stack st)" using ok w by (auto simp: stack_ok_def)
  have len: "length (t_index st) = n" "length (t_low st) = n" using ok by (simp_all add: stack_ok_def)
  have "frame_ok E outgoing (visit w st) (v, c, s)" if "(v, c, s) \<in> set fs" for v c s
  proof (rule frame_ok_mono [of _ _ st])
    show "frame_ok E outgoing st (v, c, s)" using inv that by (auto simp: tarjan_inv_def)
    have "v \<in> set (t_stack st) \<and> set s \<subseteq> set (t_stack st)" using frame_vertex [OF that] inv by (simp add: tarjan_inv_def)
    moreover from this have "w \<noteq> v" using new by auto
    ultimately show "v \<in> set (t_stack st)" "set s \<subseteq> set (t_stack st)" "lw (visit w st) v = lw st v" by simp_all
    show "ix (visit w st) x = ix st x" if "x \<in> set (t_stack st)" for x using that new by (cases "w = x") auto
  qed auto
  moreover have "frame_ok E outgoing (visit w st) (w, 0, [])" using w(1) len by (simp add: frame_ok_def)
  moreover have "found_ok n E (visit w st)" using inv by (simp add: tarjan_inv_def found_ok_def)
  ultimately show ?thesis using inv visit_stack_ok [OF ok w] reach by (auto simp: tarjan_inv_def)
qed

lemma work_update_simps [simp]:
  "seen_edge (st\<lparr>t_work := ws\<rparr>) = seen_edge st" "frame_ok E outgoing (st\<lparr>t_work := ws\<rparr>) = frame_ok E outgoing st"
  "stack_ok n (st\<lparr>t_work := ws\<rparr>) = stack_ok n st" "found_ok n E (st\<lparr>t_work := ws\<rparr>) = found_ok n E st"
  by (simp_all add: seen_edge_def frame_ok_def stack_ok_def found_ok_def fun_eq_iff split: prod.split)

text \<open>The next child of a frame has been looked at.\<close>

lemma advance_inv:
  assumes inv: "tarjan_inv n E outgoing st (fs @ (v, c, s) # gs)" and c: "c < length (outgoing ! v)"
    and seen: "seen_edge st v (outgoing ! v ! c)"
  shows "tarjan_inv n E outgoing (st\<lparr>t_work := frame_work (fs @ (v, Suc c, s) # gs)\<rparr>) (fs @ (v, Suc c, s) # gs)"
proof -
  have "frame_ok E outgoing st (v, c, s)" using inv by (simp add: tarjan_inv_def)
  then have "frame_ok E outgoing st (v, Suc c, s)" using c seen by (auto simp: frame_ok_def take_Suc_conv_app_nth)
  then show ?thesis using inv by (auto simp: tarjan_inv_def sorted_wrt_append)
qed

text \<open>The low mark of a frame comes down to a vertex of the stack it reaches.\<close>

lemma lower_inv:
  assumes inv: "tarjan_inv n E outgoing st fs" and f: "(v, c, s) \<in> set fs"
    and y: "y \<in> set (t_stack st)" "(v, y) \<in> E\<^sup>*"
  shows "tarjan_inv n E outgoing (st\<lparr>t_low := (t_low st)[v := min (lw st v) (ix st y)]\<rparr>) fs"
proof -
  let ?st = "st\<lparr>t_low := (t_low st)[v := min (lw st v) (ix st y)]\<rparr>"
  have stk: "t_stack st = frame_stack fs" using inv by (simp add: tarjan_inv_def)
  have "v \<in> set (t_stack st)" using frame_vertex [OF f] stk by simp
  then have v: "v < length (t_low st)" using inv by (auto simp: tarjan_inv_def stack_ok_def)
  have seen: "seen_edge st u x \<Longrightarrow> seen_edge ?st u x" for u x
    using v by (cases "u = v") (auto simp: seen_edge_def)
  have "frame_ok E outgoing ?st (u, d, t)" if "(u, d, t) \<in> set fs" for u d t
  proof -
    have "frame_ok E outgoing st (u, d, t)" using inv that by (auto simp: tarjan_inv_def)
    then have "lw ?st u \<le> ix ?st u \<and> (\<exists>x \<in> set (t_stack ?st). ix ?st x = lw ?st u \<and> (u, x) \<in> E\<^sup>*)"
      using v y by (cases "u = v") (auto simp: frame_ok_def min_def)
    then show ?thesis using \<open>frame_ok E outgoing st (u, d, t)\<close> seen by (simp add: frame_ok_def)
  qed
  then show ?thesis using inv by (auto simp: tarjan_inv_def stack_ok_def found_ok_def)
qed

text \<open>A finished vertex that reaches below itself joins the frame of its parent.\<close>

lemma merge_inv:
  assumes inv: "tarjan_inv n E outgoing st ((v, length (outgoing ! v), s) # (p, d, t) # fs)"
    and adj: "set (outgoing ! v) = {y. (v, y) \<in> E}" and low: "lw st v < ix st v" "lw st p \<le> lw st v"
  shows "tarjan_inv n E outgoing (st\<lparr>t_work := frame_work ((p, d, s @ v # t) # fs)\<rparr>) ((p, d, s @ v # t) # fs)"
proof -
  have ok: "frame_ok E outgoing st (v, length (outgoing ! v), s)" "frame_ok E outgoing st (p, d, t)"
    and pv: "(p, v) \<in> E\<^sup>*" using inv by (simp_all add: tarjan_inv_def)
  have seen: "seen_edge st v y \<Longrightarrow> seen_edge st p y" for y using low(2) by (auto simp: seen_edge_def)
  have "(p, x) \<in> E\<^sup>* \<and> (\<exists>y \<in> set (t_stack st). ix st y < ix st x \<and> (x, y) \<in> E\<^sup>*) \<and> (\<forall>y. (x, y) \<in> E \<longrightarrow> seen_edge st p y)"
    if "x \<in> set (s @ v # t)" for x
  proof -
    from that consider "x \<in> set s" | "x = v" | "x \<in> set t" by auto
    then show ?thesis
    proof cases
      case 1
      then show ?thesis using ok(1) seen rtrancl_trans [OF pv] by (simp add: frame_ok_def)
    next
      case 2
      from ok(1) obtain y where "y \<in> set (t_stack st)" "ix st y = lw st v" "(v, y) \<in> E\<^sup>*" by (auto simp: frame_ok_def)
      then have "\<exists>y \<in> set (t_stack st). ix st y < ix st v \<and> (v, y) \<in> E\<^sup>*" using low(1) by (intro bexI [of _ y]) simp_all
      then show ?thesis using 2 ok(1) seen pv adj by (simp add: frame_ok_def)
    next
      case 3
      then show ?thesis using ok(2) by (simp add: frame_ok_def)
    qed
  qed
  then have "frame_ok E outgoing st (p, d, s @ v # t)" using ok(2) by (simp add: frame_ok_def)
  then show ?thesis using inv by (auto simp: tarjan_inv_def)
qed

lemma pop_members_run:
  assumes "v \<notin> set s"
  shows "pop_members v (s @ v # rest) on_stack ms = (rest, foldl (\<lambda>on w. on[w := False]) on_stack (s @ [v]), ms @ s @ [v])"
  using assms by (induction s arbitrary: on_stack ms) auto

lemma foldl_clear:
  "length (foldl (\<lambda>on w. on[w := False]) on_stack ws) = length on_stack
   \<and> (\<forall>x < length on_stack. foldl (\<lambda>on w. on[w := False]) on_stack ws ! x \<longleftrightarrow> on_stack ! x \<and> x \<notin> set ws)"
proof (induction ws arbitrary: on_stack)
  case (Cons w ws)
  have "on_stack[w := False] ! x \<longleftrightarrow> on_stack ! x \<and> x \<noteq> w" if "x < length on_stack" for x
    using that by (cases "x = w") simp_all
  then show ?case using Cons.IH [of "on_stack[w := False]"] by auto
qed simp

text \<open>A finished vertex that reaches nothing below itself is the first of its component, which is the top of the stack.\<close>

lemma top_is_component:
  assumes inv: "tarjan_inv n E outgoing st ((v, length (outgoing ! v), s) # fs)"
    and adj: "set (outgoing ! v) = {y. (v, y) \<in> E}" and low: "lw st v = ix st v"
  shows "scc E v = set (s @ [v])" "\<And>x y. x \<in> set (s @ [v]) \<Longrightarrow> (x, y) \<in> E \<Longrightarrow> y \<in> set (s @ [v]) \<union> found_set st"
proof -
  have ok: "stack_ok n st" "found_ok n E st" "t_stack st = s @ v # frame_stack fs"
    and fr: "frame_ok E outgoing st (v, length (outgoing ! v), s)" using inv by (simp_all add: tarjan_inv_def)
  have "sorted_wrt (\<lambda>x y. ix st y < ix st x) (s @ v # frame_stack fs)" using ok by (simp add: stack_ok_def)
  then have below: "ix st y < ix st v" if "y \<in> set (frame_stack fs)" for y using that by (simp add: sorted_wrt_append)
  have apart: "set (t_stack st) \<inter> found_set st = {}" using ok(1) by (simp add: stack_ok_def)
  have seen: "seen_edge st v y \<Longrightarrow> y \<in> set (s @ [v]) \<union> found_set st" for y
    unfolding seen_edge_def low using ok(3) below [of y] by auto
  then show out: "y \<in> set (s @ [v]) \<union> found_set st" if "x \<in> set (s @ [v])" "(x, y) \<in> E" for x y
    using fr that adj by (auto simp: frame_ok_def)
  show "scc E v = set (s @ [v])"
  proof (rule scc_by_descent [where f = "ix st" and F = "found_set st"])
    show "\<exists>y. ix st y < ix st x \<and> (x, y) \<in> E\<^sup>* \<and> y \<notin> found_set st" if "x \<in> set (s @ [v])" "x \<noteq> v" for x
    proof -
      have "x \<in> set s" using that by simp
      then obtain y where "y \<in> set (t_stack st)" "ix st y < ix st x" "(x, y) \<in> E\<^sup>*" using fr unfolding frame_ok_def by auto
      then show ?thesis using apart by blast
    qed
    show "y \<in> found_set st" if "x \<in> found_set st" "(x, y) \<in> E" for x y using ok(2) that unfolding found_ok_def by blast
    show "set (s @ [v]) \<inter> found_set st = {}" using apart ok(3) by auto
    show "(v, x) \<in> E\<^sup>*" if "x \<in> set (s @ [v])" for x using fr that by (auto simp: frame_ok_def)
  qed (use out in auto)
qed

lemma pop_inv:
  assumes inv: "tarjan_inv n E outgoing st ((v, length (outgoing ! v), s) # fs)"
    and adj: "set (outgoing ! v) = {y. (v, y) \<in> E}" and low: "lw st v = ix st v"
  shows "tarjan_inv n E outgoing (pop_component v (st\<lparr>t_work := frame_work fs\<rparr>)) fs"
proof -
  let ?C = "s @ [v]"
  have ok: "stack_ok n st" "found_ok n E st" and stk: "t_stack st = s @ v # frame_stack fs" using inv by (simp_all add: tarjan_inv_def)
  have "distinct (s @ v # frame_stack fs)" using stack_distinct [OF ok(1)] stk by simp
  then have v: "v \<notin> set s" and C: "distinct ?C" "set ?C \<inter> set (frame_stack fs) = {}" by auto
  have pop: "pop_component v (st\<lparr>t_work := frame_work fs\<rparr>) =
      st\<lparr>t_work := frame_work fs, t_stack := frame_stack fs, t_on_stack := foldl (\<lambda>on w. on[w := False]) (t_on_stack st) ?C,
         t_found := t_found st @ [sort ?C]\<rparr>"
    by (simp add: pop_component_def stk pop_members_run [OF v])
  let ?st = "pop_component v (st\<lparr>t_work := frame_work fs\<rparr>)"
  have found: "found_set ?st = found_set st \<union> set ?C" and stk': "t_stack ?st = frame_stack fs" by (auto simp: pop)
  have sorted: "sorted_wrt (\<lambda>x y. ix st y < ix st x) (s @ v # frame_stack fs)" using ok(1) stk by (simp add: stack_ok_def)
  have "stack_ok n ?st"
    using ok(1) C foldl_clear [of "t_on_stack st" ?C] sorted unfolding stack_ok_def found stk'
    by (auto simp: pop stk sorted_wrt_append)
  moreover have "found_ok n E ?st"
    unfolding found_ok_def found
  proof (intro conjI allI impI)
    note comp = top_is_component [OF inv adj low]
    have apart: "set ?C \<inter> found_set st = {}" using ok(1) stk by (auto simp: stack_ok_def)
    show "y \<in> found_set st \<union> set ?C" if "x \<in> found_set st \<union> set ?C \<and> (x, y) \<in> E" for x y
      using that ok(2) comp(2) [of x y] unfolding found_ok_def by blast
    have "sort ?C \<notin> set (t_found st)"
    proof
      assume "sort ?C \<in> set (t_found st)"
      then have "set ?C \<subseteq> found_set st" by (metis UN_upper image_eqI set_sort)
      with apart show False by auto
    qed
    then show "distinct (t_found ?st)" using ok(2) by (simp add: pop found_ok_def)
    have "v < n" using ok(1) stk by (auto simp: stack_ok_def)
    then show "\<forall>c \<in> set (t_found ?st). sorted c \<and> distinct c \<and> (\<exists>x < n. set c = scc E x)"
      using ok(2) C(1) comp(1) by (auto simp: pop found_ok_def)
  qed
  moreover have "frame_ok E outgoing ?st (u, d, t)" if "(u, d, t) \<in> set fs" for u d t
  proof (rule frame_ok_mono [of _ _ st])
    show "frame_ok E outgoing st (u, d, t)" using inv that by (auto simp: tarjan_inv_def)
    have ut: "u \<in> set (frame_stack fs)" "set t \<subseteq> set (frame_stack fs)" using frame_vertex [OF that] by auto
    then show "u \<in> set (t_stack st)" "set t \<subseteq> set (t_stack st)" by (auto simp: stk)
    show "x \<in> found_set ?st \<and> ix st u < ix st x \<and> (\<forall>y \<in> set t. ix st y < ix st x)"
      if "x \<in> set (t_stack st)" "x \<notin> set (t_stack ?st)" for x
    proof -
      have "x \<in> set ?C" using that stk by (auto simp: stk')
      moreover from this have "ix st y < ix st x" if "y \<in> set (frame_stack fs)" for y
        using sorted that by (auto simp: sorted_wrt_append)
      ultimately show ?thesis using ut found by blast
    qed
  qed (auto simp: pop)
  ultimately show ?thesis using inv stk' by (auto simp: tarjan_inv_def pop)
qed

lemma low_work_commute: "st\<lparr>t_work := ws, t_low := l\<rparr> = (st :: tarjan)\<lparr>t_low := l, t_work := ws\<rparr>"
  by (cases st) simp

lemma leave_inv:
  assumes inv: "tarjan_inv n E outgoing st ((v, length (outgoing ! v), s) # fs)" and adj: "set (outgoing ! v) = {y. (v, y) \<in> E}"
  shows "\<exists>gs. tarjan_inv n E outgoing (leave v (st\<lparr>t_work := frame_work fs\<rparr>)) gs \<and> frame_work gs = frame_work fs"
proof -
  have ok: "stack_ok n st" and fr: "frame_ok E outgoing st (v, length (outgoing ! v), s)"
    and stk: "t_stack st = s @ v # frame_stack fs" using inv by (simp_all add: tarjan_inv_def)
  have v: "v < n" "t_index st ! v = Some (ix st v)" using ok stk by (auto simp: stack_ok_def)
  have sorted: "sorted_wrt (\<lambda>x y. ix st y < ix st x) (s @ v # frame_stack fs)" using ok stk by (simp add: stack_ok_def)
  from fr obtain y where y: "y \<in> set (t_stack st)" "ix st y = lw st v" "(v, y) \<in> E\<^sup>*" and le: "lw st v \<le> ix st v"
    by (auto simp: frame_ok_def)
  show ?thesis
  proof (cases fs)
    case Nil
    then have "ix st v \<le> ix st y" using y(1) sorted stk by (auto simp: sorted_wrt_append)
    then have low: "lw st v = ix st v" using y(2) le by simp
    then have "leave v (st\<lparr>t_work := frame_work fs\<rparr>) = pop_component v (st\<lparr>t_work := frame_work fs\<rparr>)"
      using v(2) by (simp add: leave_def Nil)
    then show ?thesis using pop_inv [OF inv adj low] by auto
  next
    case (Cons f fs')
    obtain p d t where f: "f = (p, d, t)" by (cases f)
    let ?fs = "(v, length (outgoing ! v), s) # fs"
    let ?low = "(t_low st)[p := min (lw st p) (lw st v)]"
    let ?st = "st\<lparr>t_low := ?low\<rparr>"
    have pv: "(p, v) \<in> E\<^sup>*" "ix st p < ix st v" "p \<noteq> v" "p < n" and pl: "lw st p \<le> ix st p"
      using inv sorted ok stk by (auto simp: tarjan_inv_def Cons f sorted_wrt_append stack_ok_def frame_ok_def)
    have inv': "tarjan_inv n E outgoing ?st ?fs"
      using lower_inv [OF inv _ y(1), of p d t] rtrancl_trans [OF pv(1) y(3)] by (simp add: Cons f y(2))
    have leave: "leave v (st\<lparr>t_work := frame_work fs\<rparr>) =
        (if ix st v = lw st v then pop_component v (?st\<lparr>t_work := frame_work fs\<rparr>) else ?st\<lparr>t_work := frame_work fs\<rparr>)"
      using v pv by (auto simp: leave_def Cons f Let_def low_work_commute)
    show ?thesis
    proof (cases "ix st v = lw st v")
      case True
      then show ?thesis using pop_inv [OF inv' adj] pv by (auto simp: leave)
    next
      case False
      have len: "p < length (t_low st)" using ok pv(4) by (simp add: stack_ok_def)
      have "tarjan_inv n E outgoing (?st\<lparr>t_work := frame_work ((p, d, s @ v # t) # fs')\<rparr>) ((p, d, s @ v # t) # fs')"
        by (rule merge_inv) (use inv' adj False le pv len in \<open>simp_all add: Cons f\<close>)
      then have "tarjan_inv n E outgoing (?st\<lparr>t_work := frame_work fs\<rparr>) ((p, d, s @ v # t) # fs')
          \<and> frame_work ((p, d, s @ v # t) # fs') = frame_work fs" by (simp add: Cons f)
      then show ?thesis unfolding leave using False by auto
    qed
  qed
qed

lemma look_inv:
  assumes inv: "tarjan_inv n E outgoing st ((v, c, s) # fs)" and c: "c < length (outgoing ! v)"
    and adj: "set (outgoing ! v) = {y. (v, y) \<in> E}" and E: "edges_within n E"
  defines "w \<equiv> outgoing ! v ! c" and "st' \<equiv> st\<lparr>t_work := (v, c + 1) # frame_work fs\<rparr>"
  shows "\<exists>gs. tarjan_inv n E outgoing (look_at_child v w st') gs
    \<and> frame_work gs = (if t_index st ! w = None then [(w, 0)] else []) @ (v, Suc c) # frame_work fs"
proof -
  have ok: "stack_ok n st" and fr: "frame_ok E outgoing st (v, c, s)" and stk: "t_stack st = s @ v # frame_stack fs"
    using inv by (simp_all add: tarjan_inv_def)
  have vw: "(v, w) \<in> E" using c adj by (metis mem_Collect_eq nth_mem w_def)
  then have w: "w < n" using E by auto
  have v: "v < length (t_low st)" using ok stk by (auto simp: stack_ok_def)
  show ?thesis
  proof (cases "t_index st ! w")
    case None
    have reach: "(u, w) \<in> E\<^sup>*" if "(u, d, t) \<in> set ((v, c, s) # fs)" for u d t
    proof -
      have "(u, v) \<in> E\<^sup>*" using inv that by (auto simp: tarjan_inv_def)
      then show ?thesis using vw by simp
    qed
    have inv': "tarjan_inv n E outgoing (visit w st) ([(w, 0, [])] @ (v, c, s) # fs)"
      using visit_inv [OF inv w None reach] by simp
    have new: "w \<notin> set (t_stack st)" using ok w None by (auto simp: stack_ok_def)
    then have "w \<noteq> v" using stk by auto
    have "ix st v < t_counter st" using ok stk by (auto simp: stack_ok_def)
    then have "lw (visit w st) v \<le> ix (visit w st) w"
      using fr \<open>w \<noteq> v\<close> w ok by (auto simp: frame_ok_def stack_ok_def)
    then have "seen_edge (visit w st) v w" by (simp add: seen_edge_def)
    from advance_inv [OF inv' c, folded w_def, OF this] have
      "tarjan_inv n E outgoing (look_at_child v w st') ([(w, 0, [])] @ (v, Suc c, s) # fs)"
      by (simp add: look_at_child_def st'_def None visit_def)
    then show ?thesis by (intro exI [of _ "[(w, 0, [])] @ (v, Suc c, s) # fs"]) (simp add: None)
  next
    case (Some i)
    have sw: "w \<in> set (t_stack st) \<union> found_set st" "t_on_stack st ! w \<longleftrightarrow> w \<in> set (t_stack st)"
      using ok w Some by (auto simp: stack_ok_def)
    let ?st = "if t_on_stack st ! w then st\<lparr>t_low := (t_low st)[v := min (lw st v) (ix st w)]\<rparr> else st"
    have "tarjan_inv n E outgoing ?st ((v, c, s) # fs)"
      using lower_inv [OF inv, of v c s w] sw inv vw by auto
    moreover have "seen_edge ?st v w" using sw v by (auto simp: seen_edge_def)
    ultimately have "tarjan_inv n E outgoing (?st\<lparr>t_work := frame_work ([] @ (v, Suc c, s) # fs)\<rparr>) ([] @ (v, Suc c, s) # fs)"
      by (intro advance_inv) (use c in \<open>simp_all add: w_def\<close>)
    moreover have "look_at_child v w st' = ?st\<lparr>t_work := frame_work ([] @ (v, Suc c, s) # fs)\<rparr>"
      using Some by (auto simp: look_at_child_def st'_def)
    ultimately show ?thesis by (intro exI [of _ "(v, Suc c, s) # fs"]) (simp add: Some)
  qed
qed

section \<open>The loops end\<close>

text \<open>Each turn looks at one edge or finishes one vertex.\<close>

definition turns_left :: "nat \<Rightarrow> nat list list \<Rightarrow> tarjan \<Rightarrow> nat" where
  "turns_left n outgoing st =
     (\<Sum>x | x < n \<and> t_index st ! x = None. Suc (length (outgoing ! x)))
     + sum_list (map (\<lambda>(v, c). Suc (length (outgoing ! v) - c)) (t_work st))"

abbreviation adjacency :: "nat \<Rightarrow> (nat \<times> nat) set \<Rightarrow> nat list list \<Rightarrow> bool" where
  "adjacency n E outgoing \<equiv> edges_within n E \<and> length outgoing = n \<and> (\<forall>v < n. set (outgoing ! v) = {y. (v, y) \<in> E})"

lemma leave_index [simp]: "t_index (leave v st) = t_index st" "t_work (leave v st) = t_work st"
  by (simp_all add: leave_def Let_def pop_component_def split: list.split prod.split)

lemma unseen_after_visit:
  assumes "w < n" "length (t_index st) = n" "t_index st ! w = None"
  shows "(\<Sum>x | x < n \<and> t_index st ! x = None. Suc (length (outgoing ! x)))
    = Suc (length (outgoing ! w)) + (\<Sum>x | x < n \<and> (t_index st)[w := Some k] ! x = None. Suc (length (outgoing ! x)))"
proof -
  have "{x. x < n \<and> t_index st ! x = None} = insert w {x. x < n \<and> (t_index st)[w := Some k] ! x = None}"
    using assms by (auto simp: nth_list_update)
  moreover have "w \<notin> {x. x < n \<and> (t_index st)[w := Some k] ! x = None}" using assms by auto
  ultimately show ?thesis by simp
qed

lemma tarjan_step_inv:
  assumes adj: "adjacency n E outgoing" and inv: "tarjan_inv n E outgoing st fs" and busy: "t_work st \<noteq> []"
  shows "(\<exists>gs. tarjan_inv n E outgoing (tarjan_step outgoing st) gs) \<and> turns_left n outgoing (tarjan_step outgoing st) < turns_left n outgoing st"
proof -
  obtain v c s fs' where fs: "fs = (v, c, s) # fs'" using inv busy by (cases fs) (auto simp: tarjan_inv_def)
  have work: "t_work st = (v, c) # frame_work fs'" using inv by (simp add: tarjan_inv_def fs)
  have ok: "stack_ok n st" "frame_ok E outgoing st (v, c, s)" using inv by (simp_all add: tarjan_inv_def fs)
  then have v: "v < n" using inv by (auto simp: tarjan_inv_def fs stack_ok_def)
  then have adj': "set (outgoing ! v) = {y. (v, y) \<in> E}" "edges_within n E" using adj by auto
  show ?thesis
  proof (cases "c < length (outgoing ! v)")
    case True
    let ?w = "outgoing ! v ! c"
    have w: "?w < n" using adj' nth_mem [OF True] by auto
    have step: "tarjan_step outgoing st = look_at_child v ?w (st\<lparr>t_work := (v, c + 1) # frame_work fs'\<rparr>)"
      using True by (simp add: tarjan_step_def work)
    from look_inv [OF inv [unfolded fs] True adj'] obtain gs where gs: "tarjan_inv n E outgoing (tarjan_step outgoing st) gs"
      unfolding step by auto
    have "turns_left n outgoing (tarjan_step outgoing st) < turns_left n outgoing st"
      using True unseen_after_visit [of ?w n st outgoing "t_counter st"] w ok(1) unfolding step
      by (cases "t_index st ! ?w") (auto simp: turns_left_def work look_at_child_def stack_ok_def)
    with gs show ?thesis by blast
  next
    case False
    then have c: "c = length (outgoing ! v)" using ok(2) by (simp add: frame_ok_def)
    have step: "tarjan_step outgoing st = leave v (st\<lparr>t_work := frame_work fs'\<rparr>)"
      using False by (simp add: tarjan_step_def work)
    from leave_inv [OF inv [unfolded fs c] adj'(1)] obtain gs where "tarjan_inv n E outgoing (tarjan_step outgoing st) gs"
      unfolding step by auto
    moreover have "turns_left n outgoing (tarjan_step outgoing st) < turns_left n outgoing st"
      unfolding step by (simp add: turns_left_def work)
    ultimately show ?thesis by blast
  qed
qed

lemma step_keeps_index:
  "length (t_index (tarjan_step outgoing st)) = length (t_index st)
   \<and> (x < length (t_index st) \<and> t_index st ! x \<noteq> None \<longrightarrow> t_index (tarjan_step outgoing st) ! x \<noteq> None)"
proof -
  have "xs[w := Some k] ! x \<noteq> None" if "x < length xs" "xs ! x \<noteq> None" for xs :: "nat option list" and w k
    using that by (cases "w = x") simp_all
  then show ?thesis by (auto simp: tarjan_step_def look_at_child_def split: list.split prod.split option.split)
qed

lemma loop_keeps_index:
  "x < length (t_index st) \<Longrightarrow> t_index st ! x \<noteq> None \<Longrightarrow> t_index (tarjan_loop k outgoing st) ! x \<noteq> None"
proof (induction k arbitrary: st)
  case (Suc k)
  then show ?case using Suc.IH [of "tarjan_step outgoing st"] step_keeps_index [of outgoing st x] by auto
qed simp

lemma tarjan_inv_idle: "tarjan_inv n E outgoing st fs \<Longrightarrow> t_work st = [] \<Longrightarrow> fs = []"
  unfolding tarjan_inv_def using frame_work_Nil by metis

lemma tarjan_loop_ends:
  assumes adj: "adjacency n E outgoing" and inv: "tarjan_inv n E outgoing st fs" and k: "turns_left n outgoing st \<le> k"
  shows "tarjan_inv n E outgoing (tarjan_loop k outgoing st) []"
  using inv k
proof (induction k arbitrary: st fs)
  case 0
  then have "t_work st = []" by (cases "t_work st") (auto simp: turns_left_def)
  then show ?case using 0 tarjan_inv_idle by fastforce
next
  case (Suc k)
  show ?case
  proof (cases "t_work st = []")
    case True
    then show ?thesis using Suc.prems(1) tarjan_inv_idle by fastforce
  next
    case False
    then show ?thesis using Suc.IH tarjan_step_inv [OF adj Suc.prems(1) False] Suc.prems(2) by fastforce
  qed
qed

section \<open>The components\<close>

lemma outgoing_of_adjacency:
  assumes "edges_within n (edges_of cs)"
  shows "adjacency n (edges_of cs) (outgoing_of n cs)"
proof -
  let ?raw = "foldl (\<lambda>outgoing c. outgoing[c_before c := outgoing ! c_before c @ [c_after c]]) (replicate n [])"
  have "length (?raw cs) = n \<and> (\<forall>v < n. set (?raw cs ! v) = {y. (v, y) \<in> edges_of cs})"
    using assms
  proof (induction cs rule: rev_induct)
    case (snoc c cs)
    then have "c_before c < n" by (auto simp: edge_of_def)
    then show ?case using snoc by (auto simp: nth_list_update edge_of_def)
  qed simp
  then show ?thesis using assms by (simp add: outgoing_of_def)
qed

lemma turns_enough:
  assumes "stack_ok n st" "t_work st = []" "root < n" "t_index st ! root = None" "length outgoing = n"
  shows "turns_left n outgoing (visit root st) \<le> n + sum_list (map length outgoing)"
proof -
  have "turns_left n outgoing (visit root st) = (\<Sum>x | x < n \<and> t_index st ! x = None. Suc (length (outgoing ! x)))"
    using unseen_after_visit [of root n st outgoing "t_counter st"] assms by (simp add: turns_left_def stack_ok_def)
  also have "\<dots> \<le> (\<Sum>x < n. Suc (length (outgoing ! x)))" by (rule sum_mono2) auto
  also have "\<dots> = n + sum_list (map length outgoing)"
    using assms(5) by (simp add: sum_Suc sum_list_sum_nth atLeast0LessThan)
  finally show ?thesis .
qed

lemma tarjan_root_inv:
  assumes adj: "adjacency n E outgoing" and inv: "tarjan_inv n E outgoing st []" and root: "root < n"
  shows "tarjan_inv n E outgoing (tarjan_root n outgoing st root) [] \<and> t_index (tarjan_root n outgoing st root) ! root \<noteq> None
    \<and> (\<forall>x < n. t_index st ! x \<noteq> None \<longrightarrow> t_index (tarjan_root n outgoing st root) ! x \<noteq> None)"
proof (cases "t_index st ! root")
  case None
  let ?k = "n + sum_list (map length outgoing)"
  have ok: "stack_ok n st" "t_work st = []" using inv by (simp_all add: tarjan_inv_def)
  then have len: "length (t_index st) = n" by (simp add: stack_ok_def)
  have run: "tarjan_root n outgoing st root = tarjan_loop ?k outgoing (visit root st)" by (simp add: tarjan_root_def None)
  have "tarjan_inv n E outgoing (visit root st) [(root, 0, [])]" by (rule visit_inv [OF inv root None]) simp
  from tarjan_loop_ends [OF adj this turns_enough] have "tarjan_inv n E outgoing (tarjan_loop ?k outgoing (visit root st)) []"
    using ok root None adj by simp
  moreover have "t_index (tarjan_loop ?k outgoing (visit root st)) ! x \<noteq> None" if "x < n" "x = root \<or> t_index st ! x \<noteq> None" for x
    by (rule loop_keeps_index) (use that len root in \<open>auto simp: nth_list_update\<close>)
  ultimately show ?thesis using root by (simp only: run) blast
qed (use inv in \<open>simp add: tarjan_root_def\<close>)

lemma tarjan_roots_inv:
  assumes adj: "adjacency n E outgoing" and m: "m \<le> n"
  defines "st \<equiv> foldl (tarjan_root n outgoing) (tarjan_start n) [0..<m]"
  shows "tarjan_inv n E outgoing st [] \<and> (\<forall>x < m. t_index st ! x \<noteq> None)"
  using m unfolding st_def
proof (induction m)
  case 0
  show ?case by (simp add: tarjan_start_def tarjan_inv_def stack_ok_def found_ok_def)
next
  case (Suc m)
  then show ?case using tarjan_root_inv [OF adj, of "foldl (tarjan_root n outgoing) (tarjan_start n) [0..<m]" m]
    by (auto simp: less_Suc_eq)
qed

text \<open>The components as sets, each ascending, in ascending order.\<close>

lemma components_reference:
  assumes E: "edges_within n (edges_of cs)"
  shows "components n cs = sorted_list_of_set (sorted_list_of_set ` scc (edges_of cs) ` {..<n})"
proof -
  let ?E = "edges_of cs"
  let ?st = "foldl (tarjan_root n (outgoing_of n cs)) (tarjan_start n) [0..<n]"
  from tarjan_roots_inv [OF outgoing_of_adjacency [OF E] order.refl] have
    inv: "tarjan_inv n ?E (outgoing_of n cs) ?st []" and all: "\<And>x. x < n \<Longrightarrow> t_index ?st ! x \<noteq> None" by auto
  then have found: "found_set ?st = {..<n}" by (auto simp: tarjan_inv_def stack_ok_def)
  have ok: "\<And>c. c \<in> set (t_found ?st) \<Longrightarrow> sorted c \<and> distinct c \<and> (\<exists>x < n. set c = scc ?E x)" "distinct (t_found ?st)"
    using inv by (auto simp: tarjan_inv_def found_ok_def)
  have "set (t_found ?st) = sorted_list_of_set ` scc ?E ` {..<n}"
  proof (intro equalityI subsetI)
    fix c
    assume "c \<in> set (t_found ?st)"
    then obtain x where "x < n" "set c = scc ?E x" "sorted c" "distinct c" using ok by blast
    then show "c \<in> sorted_list_of_set ` scc ?E ` {..<n}"
      by (metis image_eqI lessThan_iff sorted_list_of_set.idem_if_sorted_distinct)
  next
    fix c
    assume "c \<in> sorted_list_of_set ` scc ?E ` {..<n}"
    then obtain x where x: "x < n" "c = sorted_list_of_set (scc ?E x)" by auto
    then obtain d where d: "d \<in> set (t_found ?st)" "x \<in> set d" using found by (metis UN_E lessThan_iff)
    then have "set d = scc ?E x" using ok(1) scc_eq by metis
    then show "c \<in> set (t_found ?st)" using d(1) x(2) ok(1) [OF d(1)] by (metis sorted_list_of_set.idem_if_sorted_distinct)
  qed
  moreover have "sorted_list_of_set (set (t_found ?st)) = sort (t_found ?st)"
    using ok(2) by (simp add: sorted_list_of_set_sort_remdups distinct_remdups_id)
  ultimately show ?thesis by (simp add: components_def)
qed

lemma scc_within: "edges_within n E \<Longrightarrow> x < n \<Longrightarrow> scc E x \<subseteq> {..<n}"
  unfolding scc_def by (auto elim: rtranclE)

text \<open>What the schedule relies on of the components: they are the classes of mutual reachability, as ascending lists.\<close>

locale scc_groups =
  fixes groups :: "nat \<Rightarrow> constraint list \<Rightarrow> nat list list"
  assumes reference: "edges_within n (edges_of cs) \<Longrightarrow>
    groups n cs = sorted_list_of_set (sorted_list_of_set ` scc (edges_of cs) ` {..<n})"
begin

lemma groups_member:
  assumes E: "edges_within n (edges_of cs)" and c: "c \<in> set (groups n cs)"
  shows "sorted c" "distinct c" "\<exists>x < n. set c = scc (edges_of cs) x" "set c \<subseteq> {..<n}"
    "x \<in> set c \<Longrightarrow> set c = scc (edges_of cs) x"
proof -
  from c obtain y where y: "y < n" "c = sorted_list_of_set (scc (edges_of cs) y)"
    unfolding reference [OF E] by auto
  have "finite (scc (edges_of cs) y)" using scc_within [OF E y(1)] by (rule finite_subset) simp
  then have c: "set c = scc (edges_of cs) y" using y(2) by simp
  show "sorted c" "distinct c" by (simp_all add: y(2))
  show "\<exists>x < n. set c = scc (edges_of cs) x" "set c \<subseteq> {..<n}" using c y(1) scc_within [OF E y(1)] by auto
  show "x \<in> set c \<Longrightarrow> set c = scc (edges_of cs) x" using c scc_eq by metis
qed

lemma groups_all:
  assumes E: "edges_within n (edges_of cs)" and x: "x < n"
  shows "\<exists>c \<in> set (groups n cs). set c = scc (edges_of cs) x"
proof -
  have "finite (scc (edges_of cs) x)" using scc_within [OF E x] by (rule finite_subset) simp
  then show ?thesis using x unfolding reference [OF E]
    by (intro bexI [of _ "sorted_list_of_set (scc (edges_of cs) x)"]) auto
qed

lemma groups_distinct: "edges_within n (edges_of cs) \<Longrightarrow> distinct (groups n cs)"
  by (simp add: reference)

lemma groups_apart:
  assumes E: "edges_within n (edges_of cs)" and "c \<in> set (groups n cs)" "d \<in> set (groups n cs)" "x \<in> set c" "x \<in> set d"
  shows "c = d"
proof -
  have "set c = set d" using groups_member(5) [OF E] assms by metis
  then show ?thesis using groups_member(1,2) [OF E] assms by (metis sorted_distinct_set_unique)
qed

end

interpretation tarjan_groups: scc_groups components
  by unfold_locales (rule components_reference)

lemmas components_member = tarjan_groups.groups_member
lemmas components_all = tarjan_groups.groups_all
lemmas components_distinct = tarjan_groups.groups_distinct
lemmas components_apart = tarjan_groups.groups_apart

lemma scc_mono: "E \<subseteq> E' \<Longrightarrow> scc E x \<subseteq> scc E' x"
  unfolding scc_def using rtrancl_mono by blast

lemma scc_inner_path:
  assumes "(x, y) \<in> E\<^sup>*" "(y, x) \<in> E\<^sup>*"
  shows "(x, y) \<in> {(a, b) \<in> E. a \<in> scc E y \<and> b \<in> scc E y}\<^sup>*"
  using assms
proof (induction rule: converse_rtrancl_induct)
  case (step x z)
  have "(z, x) \<in> E\<^sup>*" using step.hyps(2) step.prems by (rule rtrancl_trans)
  moreover have yz: "(y, z) \<in> E\<^sup>*" using step.prems step.hyps(1) by (rule rtrancl_into_rtrancl)
  moreover have "(x, y) \<in> E\<^sup>*" using step.hyps(1,2) by (rule converse_rtrancl_into_rtrancl)
  ultimately have "x \<in> scc E y" "z \<in> scc E y" using step by (auto simp: scc_def)
  then show ?case using step.IH [OF yz] step.hyps(1) by (intro converse_rtrancl_into_rtrancl [of x z]) auto
qed simp

lemma unplaced_cycle:
  assumes E: "edges_within n (edges_of cs)" and x: "(x, x) \<in> (edges_of cs)\<^sup>+"
  shows "x \<notin> set (kahn n cs tie)"
proof
  assume placed: "x \<in> set (kahn n cs tie)"
  note trans = before_trans [OF kahn_placed(1) [OF E]]
  have "runs_before (kahn n cs tie) x x"
  proof (cases tie)
    case Sink
    have "runs_before (kahn n cs Sink) y x" if "(y, x) \<in> (edges_of cs)\<^sup>+" for y
      using that
    proof (induction rule: converse_trancl_induct)
      case (base y)
      then show ?case using kahn_forward [OF E base, of Sink] placed Sink by simp
    next
      case (step y z)
      then show ?case using kahn_forward [OF E step.hyps(1), of Sink] before_set [OF step.IH] trans step.IH by auto
    qed
    then show ?thesis using x Sink by simp
  next
    case Hoist
    have "runs_before (kahn n cs Hoist) x y" if "(x, y) \<in> (edges_of cs)\<^sup>+" for y
      using that
    proof (induction rule: trancl_induct)
      case (base y)
      then show ?case using kahn_forward [OF E base, of Hoist] placed Hoist by simp
    next
      case (step y z)
      then show ?case using kahn_forward [OF E step.hyps(2), of Hoist] before_set [OF step.IH] trans step.IH by auto
    qed
    then show ?thesis using x Hoist by simp
  qed
  then show False using before_irrefl [OF kahn_placed(1) [OF E]] by blast
qed

text \<open>C5. The components of a set of edges over steps that exist are the classes of mutual reachability: every step is in exactly one
  group, two steps share a group exactly when each can be reached from the other, each group is ascending and the groups come in
  ascending order.\<close>

theorem components_are_the_classes_of_mutual_reachability:
  assumes "edges_within n (edges_of cs)"
  shows "components n cs = sorted_list_of_set (sorted_list_of_set ` (\<lambda>x. {y. (x, y) \<in> (edges_of cs)\<^sup>* \<and> (y, x) \<in> (edges_of cs)\<^sup>*}) ` {..<n})"
  using components_reference [OF assms] by (simp add: scc_def)

theorem components_are_the_classes_of_mutual_reachability_witness:
  "components 3 [Constraint 0 2 SEffect RData, Constraint 2 0 SEffect RData, Constraint 2 1 SGuess RData] =
     sorted_list_of_set (sorted_list_of_set ` (\<lambda>x. {y. (x, y) \<in> {(0, 2), (2, 0), (2, 1)}\<^sup>* \<and> (y, x) \<in> {(0, 2), (2, 0), (2, 1)}\<^sup>*}) ` {..<3})
   \<and> components 3 [Constraint 0 2 SEffect RData, Constraint 2 0 SEffect RData, Constraint 2 1 SGuess RData] = [[0, 2], [1]]"
proof -
  let ?cs = "[Constraint 0 2 SEffect RData, Constraint 2 0 SEffect RData, Constraint 2 1 SGuess RData]"
  have E: "edges_of ?cs = {(0, 2), (2, 0), (2, 1)}" by (simp add: edge_of_def)
  have "edges_within 3 (edges_of ?cs)" unfolding E by auto
  note components_are_the_classes_of_mutual_reachability [OF this, unfolded E]
  moreover have "components 3 ?cs = [[0, 2], [1]]" by code_simp
  ultimately show ?thesis by simp
qed

end
