(* ===== verification/Schedule.thy ===== *)
theory Schedule
  imports Components Rust_Str
begin

text \<open>
  \<open>crates/pbps-diff/src/order/schedule.rs\<close>: a schedule holds the edges, kept orders and obligations stated over the steps
  of a plan, and settles them into an order or a refusal. \<open>BTreeSet<Constraint>\<close> is an ascending list without repetitions
  (\<open>insort_insert\<close> is its \<open>insert\<close>). The trace of dropped guesses, \<open>&mut Vec<DroppedGuess>\<close>, is passed and returned.
  The plan's changes are a list of any type, and their checksum (SHA-256 over a JSON writing) is a parameter.
\<close>

section \<open>The schedule\<close>

datatype keep = Keep (k_before: nat) (k_after: nat) (k_refusal: string)

datatype obligation = Obligation (ob_operation: nat) (ob_refusal: string)

datatype refusal =
    Outside nat nat nat
  | Mismatch nat nat
  | Unmet "obligation list"
  | Kept keep
  | Cycle (cy_members: "nat list") (cy_edges: "constraint list") (cy_waiting: "nat list") (cy_remedy: "string option")

record schedule =
  s_steps :: nat
  s_tie :: tie
  s_constraints :: "constraint list"
  s_keeps :: "keep list"
  s_obligations :: "obligation list"
  s_symbolic :: "constraint list"
  s_contexts :: "(nat, string) btree"

record dropped_guess =
  dg_edge :: constraint
  dg_members :: "nat list"
  dg_backward_only :: bool

definition schedule_new :: "nat \<Rightarrow> schedule" where
  "schedule_new steps = \<lparr>s_steps = steps, s_tie = Sink, s_constraints = [], s_keeps = [], s_obligations = [], s_symbolic = [],
     s_contexts = bempty\<rparr>"

definition edge :: "nat \<Rightarrow> nat \<Rightarrow> source \<Rightarrow> order_reason \<Rightarrow> schedule \<Rightarrow> schedule" where
  "edge before after source reason s =
     s\<lparr>s_constraints := insort_insert (Constraint before after source reason) (s_constraints s)\<rparr>"

definition prefer_edge :: "nat \<Rightarrow> nat \<Rightarrow> order_reason \<Rightarrow> schedule \<Rightarrow> schedule" where
  "prefer_edge before after reason s = edge before after SGuess reason s"

definition keep_order :: "nat \<Rightarrow> nat \<Rightarrow> string \<Rightarrow> schedule \<Rightarrow> schedule" where
  "keep_order before after refusal s = s\<lparr>s_keeps := s_keeps s @ [Keep before after refusal]\<rparr>"

definition add_obligation :: "nat \<Rightarrow> string \<Rightarrow> schedule \<Rightarrow> schedule" where
  "add_obligation operation refusal s = s\<lparr>s_obligations := s_obligations s @ [Obligation operation refusal]\<rparr>"

definition hoisting :: "schedule \<Rightarrow> schedule" where
  "hoisting s = s\<lparr>s_tie := Hoist\<rparr>"

section \<open>Giving up guesses\<close>

definition component_ids :: "nat \<Rightarrow> nat list list \<Rightarrow> nat option list" where
  "component_ids n groups =
     foldl (\<lambda>component (id, members).
              if 1 < length members then foldl (\<lambda>component member. component[member := Some id]) component members else component)
       (replicate n None) (enumerate 0 groups)"

definition keeps_constraint :: "nat option list \<Rightarrow> bool \<Rightarrow> constraint \<Rightarrow> bool" where
  "keeps_constraint component backward_only c \<longleftrightarrow>
     c_source c \<noteq> SGuess \<or> component ! c_before c = None \<or> component ! c_before c \<noteq> component ! c_after c
     \<or> (backward_only \<and> c_after c > c_before c)"

definition drop_guesses ::
  "nat \<Rightarrow> constraint list \<Rightarrow> bool \<Rightarrow> dropped_guess list \<Rightarrow> constraint list \<times> dropped_guess list \<times> bool" where
  "drop_guesses n kept backward_only dropped =
     (let groups = components n kept;
          component = component_ids n groups;
          kept' = filter (keeps_constraint component backward_only) kept;
          dropped' = map (\<lambda>c. \<lparr>dg_edge = c, dg_members = groups ! the (component ! c_before c), dg_backward_only = backward_only\<rparr>)
                       (filter (\<lambda>c. \<not> keeps_constraint component backward_only c) kept)
      in (kept', dropped @ dropped', length kept' \<noteq> length kept))"

definition give_up_guesses ::
  "nat \<Rightarrow> tie \<Rightarrow> constraint list \<times> nat list \<times> dropped_guess list \<Rightarrow> bool \<Rightarrow> constraint list \<times> nat list \<times> dropped_guess list" where
  "give_up_guesses n tie st backward_only =
     (case st of (kept, emitted, dropped) \<Rightarrow>
        if length emitted < n
        then case drop_guesses n kept backward_only dropped of (kept, dropped, any) \<Rightarrow>
               (kept, if any then kahn n kept tie else emitted, dropped)
        else st)"

section \<open>Components made only of annotations\<close>

record annotated =
  an_chain :: "constraint list"
  an_declared_only :: "(nat \<times> nat) set"
  an_ends :: "(nat \<times> nat) option list"

definition set_aside :: "constraint list \<Rightarrow> annotated \<Rightarrow> nat list \<Rightarrow> annotated" where
  "set_aside kept a members =
     (if length members < 2 then a
      else
        let edges = filter (\<lambda>c. c_before c \<in> set members \<and> c_after c \<in> set members) kept
        in if \<forall>c \<in> set edges. c_source c = SDeclared
           then a\<lparr>an_declared_only := an_declared_only a \<union> set (map edge_of edges),
                  an_chain := an_chain a @ map (\<lambda>(x, y). Constraint x y SDeclared RStructural) (zip members (tl members)),
                  an_ends := foldl (\<lambda>ends m. ends[m := Some (hd members, last members)]) (an_ends a) members\<rparr>
           else a)"

definition annotated_components :: "nat \<Rightarrow> constraint list \<Rightarrow> annotated" where
  "annotated_components n kept =
     foldl (set_aside kept) \<lparr>an_chain = [], an_declared_only = {}, an_ends = replicate n None\<rparr> (components n kept)"

definition redirect :: "(nat \<times> nat) option list \<Rightarrow> constraint \<Rightarrow> constraint" where
  "redirect ends c =
     Constraint (case ends ! c_before c of None \<Rightarrow> c_before c | Some (_, final) \<Rightarrow> final)
       (case ends ! c_after c of None \<Rightarrow> c_after c | Some (first, _) \<Rightarrow> first) (c_source c) (c_reason c)"

definition chain_annotations :: "nat \<Rightarrow> tie \<Rightarrow> constraint list \<times> nat list \<Rightarrow> constraint list \<times> nat list" where
  "chain_annotations n tie st =
     (case st of (kept, emitted) \<Rightarrow>
        if length emitted < n then
          let a = annotated_components n kept
          in if an_declared_only a \<noteq> {}
             then let kept = filter (\<lambda>c. edge_of c \<notin> an_declared_only a) kept
                  in (kept, kahn n (map (redirect (an_ends a)) kept @ an_chain a) tie)
             else st
        else st)"

section \<open>Settling\<close>

definition positions :: "nat \<Rightarrow> nat list \<Rightarrow> nat option list" where
  "positions n emitted = foldl (\<lambda>position (at, step). position[step := Some at]) (replicate n None) (enumerate 0 emitted)"

definition reversed :: "nat option list \<Rightarrow> keep list \<Rightarrow> keep option" where
  "reversed position keeps =
     (let wrong = filter (\<lambda>(stated, k). case (position ! k_before k, position ! k_after k) of
                    (Some b, Some a) \<Rightarrow> a < b | _ \<Rightarrow> False) (enumerate 0 keeps)
      in map_option snd
           (foldl (\<lambda>best (stated, k). case best of
                None \<Rightarrow> Some (stated, k)
              | Some (stated', k') \<Rightarrow>
                  if (the (position ! k_before k), stated) < (the (position ! k_before k'), stated') then Some (stated, k) else best)
            None wrong))"

definition remedy_text :: string where
  "remedy_text = ''change the columns and the partitions in separate plans''"

definition least_cycle :: "nat list list \<Rightarrow> nat list" where
  "least_cycle groups = (case filter (\<lambda>members. 1 < length members) groups of [] \<Rightarrow> [] | m # ms \<Rightarrow> foldl min m ms)"

definition cycle_refusal :: "schedule \<Rightarrow> constraint list \<Rightarrow> nat list \<Rightarrow> refusal" where
  "cycle_refusal s kept emitted =
     (let n = s_steps s;
          waiting = filter (\<lambda>i. i \<notin> set emitted) [0..<n];
          left = filter (\<lambda>c. c_before c \<notin> set emitted \<and> c_after c \<notin> set emitted) kept;
          members = least_cycle (components n left);
          edges = filter (\<lambda>c. c_before c \<in> set members \<and> c_after c \<in> set members) left;
          symbolic = (if \<exists>c \<in> set edges. c \<in> set (s_symbolic s) then [remedy_text] else []);
          context = remdups_adj (sort (symbolic @ List.map_filter (bget (s_contexts s)) members))
      in Cycle members edges waiting (if context \<noteq> [] then Some (join_with ''; '' context) else None))"

definition settled_trace ::
  "schedule \<Rightarrow> dropped_guess list \<Rightarrow> (refusal, nat list \<times> constraint list) result \<times> dropped_guess list" where
  "settled_trace s dropped =
     (let n = s_steps s in
      case find (\<lambda>c. c_before c \<ge> n \<or> c_after c \<ge> n \<or> c_before c = c_after c) (s_constraints s) of
        Some c \<Rightarrow> (Inl (Outside (c_before c) (c_after c) n), dropped)
      | None \<Rightarrow>
     (case find (\<lambda>k. k_before k \<ge> n \<or> k_after k \<ge> n) (s_keeps s) of
        Some k \<Rightarrow> (Inl (Outside (k_before k) (k_after k) n), dropped)
      | None \<Rightarrow>
      if s_obligations s \<noteq> [] then (Inl (Unmet (s_obligations s)), dropped)
      else
        let (kept, emitted, dropped) =
              foldl (give_up_guesses n (s_tie s)) (s_constraints s, kahn n (s_constraints s) (s_tie s), dropped) [True, False];
            (kept, emitted) = chain_annotations n (s_tie s) (kept, emitted)
        in case reversed (positions n emitted) (s_keeps s) of
             Some k \<Rightarrow> (Inl (Kept k), dropped)
           | None \<Rightarrow> if length emitted < n then (Inl (cycle_refusal s kept emitted), dropped) else (Inr (emitted, kept), dropped)))"

definition settled :: "schedule \<Rightarrow> (refusal, nat list \<times> constraint list) result" where
  "settled s = fst (settled_trace s [])"

definition sequence :: "schedule \<Rightarrow> (refusal, nat list) result" where
  "sequence s = and_then (settled s) (\<lambda>(seq, _). Inr seq)"

section \<open>The proof of an order\<close>

datatype order_edge = OrderEdge (oe_before: nat) (oe_after: nat) (oe_reason: order_reason)

datatype order_error = Version | Changed | EdgeError

record ordering_proof =
  op_version :: nat
  op_changes :: string
  op_edges :: "order_edge set"

definition validate_proof :: "('a list \<Rightarrow> string) \<Rightarrow> ordering_proof \<Rightarrow> 'a list \<Rightarrow> (order_error, unit) result" where
  "validate_proof checksum proof changes =
     (if op_version proof \<noteq> 1 then Inl Version
      else if op_changes proof \<noteq> checksum changes then Inl Changed
      else if \<exists>e \<in> op_edges proof. oe_before e \<ge> oe_after e \<or> oe_after e \<ge> length changes then Inl EdgeError
      else Inr ())"

definition ordering_proof_new :: "('a list \<Rightarrow> string) \<Rightarrow> 'a list \<Rightarrow> order_edge set \<Rightarrow> (order_error, ordering_proof) result" where
  "ordering_proof_new checksum changes edges =
     (let proof = \<lparr>op_version = 1, op_changes = checksum changes, op_edges = edges\<rparr>
      in and_then (validate_proof checksum proof changes) (\<lambda>_. Inr proof))"

text \<open>What \<open>expect\<close> stops the program with is \<open>None\<close>: a step taken twice, or a proof refused.\<close>

record 'a draft_settled =
  ds_changes :: "'a list"
  ds_proof :: ordering_proof
  ds_sequence :: "nat list"

fun take_steps :: "'a option list \<Rightarrow> nat list \<Rightarrow> 'a list option" where
  "take_steps taken [] = Some []"
| "take_steps taken (i # is) =
     (case taken ! i of None \<Rightarrow> None | Some p \<Rightarrow> map_option ((#) p) (take_steps (taken[i := None]) is))"

definition settle_scratch ::
  "('a list \<Rightarrow> string) \<Rightarrow> schedule \<Rightarrow> 'a list \<Rightarrow> dropped_guess list \<Rightarrow>
   (refusal, 'a draft_settled) result option \<times> dropped_guess list" where
  "settle_scratch checksum s changes dropped =
     (if length changes \<noteq> s_steps s then (Some (Inl (Mismatch (s_steps s) (length changes))), dropped)
      else case settled_trace s dropped of
        (Inl refusal, dropped) \<Rightarrow> (Some (Inl refusal), dropped)
      | (Inr (seq, kept), dropped) \<Rightarrow>
          let position = foldl (\<lambda>position (at, step). position[step := at]) (replicate (s_steps s) 0) (enumerate 0 seq)
          in (case take_steps (map Some changes) seq of
                None \<Rightarrow> None
              | Some ordered \<Rightarrow>
                  (case ordering_proof_new checksum ordered
                          ((\<lambda>c. OrderEdge (position ! c_before c) (position ! c_after c) (c_reason c)) ` set kept) of
                     Inl _ \<Rightarrow> None
                   | Inr proof \<Rightarrow> Some (Inr \<lparr>ds_changes = ordered, ds_proof = proof, ds_sequence = seq\<rparr>)), dropped))"

section \<open>What was moved\<close>

fun moved_from :: "nat option \<Rightarrow> nat \<Rightarrow> nat list \<Rightarrow> nat" where
  "moved_from furthest count [] = count"
| "moved_from furthest count (i # is) =
     moved_from (Some (case furthest of None \<Rightarrow> i | Some f \<Rightarrow> max f i))
       (if (case furthest of None \<Rightarrow> False | Some f \<Rightarrow> f > i) then count + 1 else count) is"

definition moved :: "nat list \<Rightarrow> nat" where
  "moved seq = moved_from None 0 seq"

section \<open>Arrays filled by loops\<close>

lemma length_foldl_update [simp]: "length (foldl (\<lambda>xs m. xs[m := v]) xs ms) = length xs"
  by (induction ms arbitrary: xs) auto

lemma foldl_update_nth:
  "x < length xs \<Longrightarrow> foldl (\<lambda>xs m. xs[m := v]) xs ms ! x = (if x \<in> set ms then v else xs ! x)"
proof (induction ms arbitrary: xs)
  case (Cons m ms)
  then show ?case by (cases "m = x") auto
qed simp

lemma enumerate_snoc: "enumerate k (xs @ [x]) = enumerate k xs @ [(k + length xs, x)]"
  by (simp add: enumerate_append_eq)

lemma component_ids_nth:
  assumes "\<And>i j. i < j \<Longrightarrow> j < length groups \<Longrightarrow> set (groups ! i) \<inter> set (groups ! j) = {}" and x: "x < n"
  shows "component_ids n groups ! x = Some k \<longleftrightarrow> k < length groups \<and> 1 < length (groups ! k) \<and> x \<in> set (groups ! k)"
    "length (component_ids n groups) = n"
proof -
  have "length (component_ids n groups) = n \<and> (\<forall>k. component_ids n groups ! x = Some k
    \<longleftrightarrow> k < length groups \<and> 1 < length (groups ! k) \<and> x \<in> set (groups ! k))"
    using assms(1)
  proof (induction groups rule: rev_induct)
    case (snoc g gs)
    have "set (gs ! i) \<inter> set (gs ! j) = {}" if "i < j" "j < length gs" for i j
      using snoc.prems [OF that(1)] that by (simp add: nth_append)
    then have IH: "length (component_ids n gs) = n"
      "\<And>k. component_ids n gs ! x = Some k \<longleftrightarrow> k < length gs \<and> 1 < length (gs ! k) \<and> x \<in> set (gs ! k)"
      using snoc.IH by auto
    have run: "component_ids n (gs @ [g]) =
        (if 1 < length g then foldl (\<lambda>xs m. xs[m := Some (length gs)]) (component_ids n gs) g else component_ids n gs)"
      by (simp add: component_ids_def enumerate_snoc)
    have "x \<notin> set (gs ! i)" if "x \<in> set g" "i < length gs" for i
      using snoc.prems [of i "length gs"] that by (auto simp: nth_append)
    then show ?case using IH x by (auto simp: run foldl_update_nth nth_append less_Suc_eq)
  qed (use x in \<open>simp add: component_ids_def\<close>)
  then show "component_ids n groups ! x = Some k \<longleftrightarrow> k < length groups \<and> 1 < length (groups ! k) \<and> x \<in> set (groups ! k)"
    "length (component_ids n groups) = n" by auto
qed

lemma positions_nth:
  assumes "distinct emitted" "x < n"
  shows "positions n emitted ! x = Some k \<longleftrightarrow> k < length emitted \<and> emitted ! k = x" "length (positions n emitted) = n"
proof -
  have "length (positions n emitted) = n \<and> (\<forall>k. positions n emitted ! x = Some k \<longleftrightarrow> k < length emitted \<and> emitted ! k = x)"
    using assms(1)
  proof (induction emitted rule: rev_induct)
    case (snoc e es)
    then have IH: "length (positions n es) = n" "\<And>k. positions n es ! x = Some k \<longleftrightarrow> k < length es \<and> es ! k = x" by auto
    have run: "positions n (es @ [e]) = (positions n es)[e := Some (length es)]"
      by (simp add: positions_def enumerate_snoc)
    show ?case
    proof (cases "e = x")
      case True
      then have "k < length es \<Longrightarrow> es ! k \<noteq> x" for k using snoc.prems by auto
      then show ?thesis using IH(1) True assms(2) unfolding run by (auto simp: nth_append less_Suc_eq)
    next
      case False
      then show ?thesis using IH unfolding run by (auto simp: nth_append less_Suc_eq)
    qed
  qed (use assms(2) in \<open>simp add: positions_def\<close>)
  then show "positions n emitted ! x = Some k \<longleftrightarrow> k < length emitted \<and> emitted ! k = x" "length (positions n emitted) = n" by auto
qed

section \<open>Guesses\<close>

definition proper :: "nat \<Rightarrow> constraint list \<Rightarrow> bool" where
  "proper n cs \<longleftrightarrow> (\<forall>c \<in> set cs. c_before c < n \<and> c_after c < n \<and> c_before c \<noteq> c_after c)"

lemma proper_within: "proper n cs \<Longrightarrow> edges_within n (edges_of cs)"
  by (auto simp: proper_def edge_of_def)

definition in_cycle :: "constraint list \<Rightarrow> constraint \<Rightarrow> bool" where
  "in_cycle cs c \<longleftrightarrow> c_after c \<in> scc (edges_of cs) (c_before c)"

lemma component_ids_iff:
  assumes E: "edges_within n (edges_of cs)" and xy: "x < n" "y < n" "x \<noteq> y"
  defines "ids \<equiv> component_ids n (components n cs)"
  shows "ids ! x \<noteq> None \<and> ids ! x = ids ! y \<longleftrightarrow> y \<in> scc (edges_of cs) x"
proof -
  let ?gs = "components n cs"
  have apart: "set (?gs ! i) \<inter> set (?gs ! j) = {}" if "i < j" "j < length ?gs" for i j
  proof (rule ccontr)
    assume "set (?gs ! i) \<inter> set (?gs ! j) \<noteq> {}"
    then obtain z where "z \<in> set (?gs ! i)" "z \<in> set (?gs ! j)" by blast
    then have "?gs ! i = ?gs ! j" by (rule components_apart [OF E, rotated 2]) (use that in simp_all)
    then show False using components_distinct [OF E] that by (simp add: nth_eq_iff_index_eq)
  qed
  note ids = component_ids_nth(1) [where groups = ?gs and n = n, OF apart, folded ids_def]
  show ?thesis
  proof
    assume "ids ! x \<noteq> None \<and> ids ! x = ids ! y"
    moreover from this obtain i where "ids ! x = Some i" by blast
    ultimately have "ids ! x = Some i" "ids ! y = Some i" by simp_all
    then have "i < length ?gs" "x \<in> set (?gs ! i)" "y \<in> set (?gs ! i)" using ids xy by auto
    then show "y \<in> scc (edges_of cs) x" using components_member(5) [OF E, of "?gs ! i" x] by auto
  next
    assume y: "y \<in> scc (edges_of cs) x"
    from components_all [OF E xy(1)] obtain g where "g \<in> set ?gs" "set g = scc (edges_of cs) x" by blast
    then obtain i where i: "i < length ?gs" "set (?gs ! i) = scc (edges_of cs) x" by (auto simp: in_set_conv_nth)
    have "{x, y} \<subseteq> set (?gs ! i)" using y i(2) by simp
    then have "card {x, y} \<le> card (set (?gs ! i))" by (intro card_mono) simp_all
    then have "1 < length (?gs ! i)" using xy(3) card_length [of "?gs ! i"] by simp
    then have "ids ! x = Some i" "ids ! y = Some i" using ids xy i y by auto
    then show "ids ! x \<noteq> None \<and> ids ! x = ids ! y" by simp
  qed
qed

text \<open>The guesses a turn gives up.\<close>

definition given_up :: "bool \<Rightarrow> constraint list \<Rightarrow> constraint \<Rightarrow> bool" where
  "given_up backward_only kept c \<longleftrightarrow> c_source c = SGuess \<and> in_cycle kept c \<and> \<not> (backward_only \<and> c_before c < c_after c)"

lemma drop_guesses_run:
  assumes "proper n kept"
  shows "\<exists>dropped'. drop_guesses n kept backward_only dropped =
     (filter (\<lambda>c. \<not> given_up backward_only kept c) kept, dropped', \<exists>c \<in> set kept. given_up backward_only kept c)"
proof -
  let ?ids = "component_ids n (components n kept)"
  have eq: "keeps_constraint ?ids backward_only c \<longleftrightarrow> \<not> given_up backward_only kept c" if "c \<in> set kept" for c
    using component_ids_iff [OF proper_within [OF assms], of "c_before c" "c_after c"] that assms
    unfolding keeps_constraint_def given_up_def in_cycle_def proper_def by blast
  have "filter (keeps_constraint ?ids backward_only) kept = filter (\<lambda>c. \<not> given_up backward_only kept c) kept"
    using eq by (intro filter_cong) auto
  moreover have "length (filter P xs) \<noteq> length xs \<longleftrightarrow> (\<exists>x \<in> set xs. \<not> P x)" for P and xs :: "constraint list"
    by (induction xs) (auto simp: le_imp_less_Suc less_imp_neq)
  ultimately show ?thesis unfolding drop_guesses_def Let_def by auto
qed

lemma proper_subset: "proper n cs \<Longrightarrow> set ds \<subseteq> set cs \<Longrightarrow> proper n ds"
  by (auto simp: proper_def)

lemma in_cycle_mono: "set ds \<subseteq> set cs \<Longrightarrow> in_cycle ds c \<Longrightarrow> in_cycle cs c"
  unfolding in_cycle_def using scc_mono [OF image_mono] by blast

lemma give_up_run:
  assumes "proper n kept"
  obtains kept' dropped' where
    "give_up_guesses n tie (kept, kahn n kept tie, dropped) backward_only = (kept', kahn n kept' tie, dropped')"
    "kept' = (if acyclic (edges_of kept) then kept else filter (\<lambda>c. \<not> given_up backward_only kept c) kept)"
proof -
  note full = kahn_order.incomplete_iff [OF proper_within [OF assms], of tie]
  obtain dropped' where run: "drop_guesses n kept backward_only dropped =
      (filter (\<lambda>c. \<not> given_up backward_only kept c) kept, dropped', \<exists>c \<in> set kept. given_up backward_only kept c)"
    using drop_guesses_run [OF assms] by blast
  have "filter (\<lambda>c. \<not> given_up backward_only kept c) kept = kept" if "\<not> (\<exists>c \<in> set kept. given_up backward_only kept c)"
    using that by (simp add: filter_id_conv)
  then have give: "give_up_guesses n tie (kept, kahn n kept tie, dropped) backward_only =
      (if acyclic (edges_of kept) then (kept, kahn n kept tie, dropped)
       else (filter (\<lambda>c. \<not> given_up backward_only kept c) kept,
             kahn n (filter (\<lambda>c. \<not> given_up backward_only kept c) kept) tie, dropped'))"
    by (simp add: give_up_guesses_def full run)
  show thesis
  proof (cases "acyclic (edges_of kept)")
    case True
    then show thesis by (intro that [of kept dropped]) (simp_all add: give)
  next
    case False
    then show thesis by (intro that [of "filter (\<lambda>c. \<not> given_up backward_only kept c) kept" dropped']) (simp_all add: give)
  qed
qed

lemma guesses_run:
  assumes proper: "proper n cs"
  obtains kept dropped' where
    "foldl (give_up_guesses n tie) (cs, kahn n cs tie, dropped) [True, False] = (kept, kahn n kept tie, dropped')"
    "set kept \<subseteq> set cs" "\<And>c. c \<in> set cs \<Longrightarrow> c \<notin> set kept \<Longrightarrow> c_source c = SGuess \<and> in_cycle cs c"
    "\<And>c. c \<in> set kept \<Longrightarrow> c_source c = SGuess \<Longrightarrow> \<not> acyclic (edges_of kept) \<Longrightarrow> \<not> in_cycle kept c"
    "acyclic (edges_of cs) \<Longrightarrow> kept = cs"
proof -
  obtain k1 d1 where 1: "give_up_guesses n tie (cs, kahn n cs tie, dropped) True = (k1, kahn n k1 tie, d1)"
    "k1 = (if acyclic (edges_of cs) then cs else filter (\<lambda>c. \<not> given_up True cs c) cs)" using give_up_run [OF proper] by blast
  have sub1: "set k1 \<subseteq> set cs" unfolding 1(2) by simp
  obtain k2 d2 where 2: "give_up_guesses n tie (k1, kahn n k1 tie, d1) False = (k2, kahn n k2 tie, d2)"
    "k2 = (if acyclic (edges_of k1) then k1 else filter (\<lambda>c. \<not> given_up False k1 c) k1)"
    using give_up_run [OF proper_subset [OF proper sub1]] by blast
  have sub2: "set k2 \<subseteq> set k1" unfolding 2(2) by simp
  show thesis
  proof (rule that)
    show "foldl (give_up_guesses n tie) (cs, kahn n cs tie, dropped) [True, False] = (k2, kahn n k2 tie, d2)" by (simp add: 1(1) 2(1))
    show "set k2 \<subseteq> set cs" using sub1 sub2 by blast
    show "c_source c = SGuess \<and> in_cycle cs c" if "c \<in> set cs" "c \<notin> set k2" for c
    proof (cases "c \<in> set k1")
      case True
      then have "given_up False k1 c" using that(2) by (cases "acyclic (edges_of k1)") (simp_all add: 2(2))
      then show ?thesis using in_cycle_mono [OF sub1] by (simp add: given_up_def)
    next
      case False
      then have "given_up True cs c" using that(1) by (cases "acyclic (edges_of cs)") (simp_all add: 1(2))
      then show ?thesis by (simp add: given_up_def)
    qed
    show "\<not> in_cycle k2 c" if "c \<in> set k2" "c_source c = SGuess" "\<not> acyclic (edges_of k2)" for c
    proof -
      have ac: "\<not> acyclic (edges_of k1)" using that(3) 2(2) by metis
      then have "k2 = filter (\<lambda>c. \<not> given_up False k1 c) k1" using 2(2) by simp
      then have "c \<in> set (filter (\<lambda>c. \<not> given_up False k1 c) k1)" using that(1) by simp
      then have "\<not> in_cycle k1 c" using that(2) by (simp add: given_up_def)
      then show ?thesis using in_cycle_mono [OF sub2] by blast
    qed
    show "k2 = cs" if "acyclic (edges_of cs)"
    proof -
      have "k1 = cs" using that 1(2) by simp
      then show ?thesis using that 2(2) by simp
    qed
  qed
qed

section \<open>Annotations\<close>

definition declared_only :: "constraint list \<Rightarrow> nat set \<Rightarrow> bool" where
  "declared_only kept S \<longleftrightarrow> (\<forall>c \<in> set kept. c_before c \<in> S \<and> c_after c \<in> S \<longrightarrow> c_source c = SDeclared)"

definition aside :: "constraint list \<Rightarrow> nat list \<Rightarrow> bool" where
  "aside kept g \<longleftrightarrow> 2 \<le> length g \<and> declared_only kept (set g)"

lemma set_aside_run:
  "set_aside kept a g =
     (if aside kept g
      then a\<lparr>an_declared_only := an_declared_only a \<union> {edge_of c |c. c \<in> set kept \<and> c_before c \<in> set g \<and> c_after c \<in> set g},
             an_chain := an_chain a @ map (\<lambda>(x, y). Constraint x y SDeclared RStructural) (zip g (tl g)),
             an_ends := foldl (\<lambda>ends m. ends[m := Some (hd g, last g)]) (an_ends a) g\<rparr>
      else a)"
proof -
  have "set (map edge_of (filter (\<lambda>c. c_before c \<in> set g \<and> c_after c \<in> set g) kept)) =
      {edge_of c |c. c \<in> set kept \<and> c_before c \<in> set g \<and> c_after c \<in> set g}" by auto
  moreover have "(\<forall>c \<in> set (filter (\<lambda>c. c_before c \<in> set g \<and> c_after c \<in> set g) kept). c_source c = SDeclared) \<longleftrightarrow> declared_only kept (set g)"
    by (auto simp: declared_only_def)
  ultimately show ?thesis unfolding set_aside_def Let_def aside_def by (simp only: not_less [symmetric] if_not_P simp_thms) auto
qed

lemma set_aside_all:
  fixes kept :: "constraint list" and n :: nat
  assumes "pairwise (\<lambda>g h. set g \<inter> set h = {}) (set gs)" "distinct gs"
  defines "a \<equiv> foldl (set_aside kept) \<lparr>an_chain = [], an_declared_only = {}, an_ends = replicate n None\<rparr> gs"
  shows "an_declared_only a = {edge_of c |c. c \<in> set kept \<and> (\<exists>g \<in> set gs. aside kept g \<and> c_before c \<in> set g \<and> c_after c \<in> set g)}
    \<and> edges_of (an_chain a) = {e. \<exists>g \<in> set gs. aside kept g \<and> e \<in> set (zip g (tl g))}
    \<and> length (an_ends a) = n
    \<and> (\<forall>x < n. \<forall>s. an_ends a ! x = Some s \<longleftrightarrow> (\<exists>g \<in> set gs. aside kept g \<and> x \<in> set g \<and> s = (hd g, last g)))"
  using assms(1,2) unfolding a_def
proof (induction gs rule: rev_induct)
  case (snoc g gs)
  let ?a = "foldl (set_aside kept) \<lparr>an_chain = [], an_declared_only = {}, an_ends = replicate n None\<rparr> gs"
  have apart: "set h \<inter> set g = {}" if "h \<in> set gs" for h using snoc.prems that by (auto simp: pairwise_def)
  have IH: "an_declared_only ?a = {edge_of c |c. c \<in> set kept \<and> (\<exists>g \<in> set gs. aside kept g \<and> c_before c \<in> set g \<and> c_after c \<in> set g)}"
    "edges_of (an_chain ?a) = {e. \<exists>g \<in> set gs. aside kept g \<and> e \<in> set (zip g (tl g))}" "length (an_ends ?a) = n"
    "\<And>x s. x < n \<Longrightarrow> an_ends ?a ! x = Some s \<longleftrightarrow> (\<exists>g \<in> set gs. aside kept g \<and> x \<in> set g \<and> s = (hd g, last g))"
    using snoc by (auto simp: pairwise_insert)
  show ?case
  proof (cases "aside kept g")
    case True
    then have run: "foldl (set_aside kept) \<lparr>an_chain = [], an_declared_only = {}, an_ends = replicate n None\<rparr> (gs @ [g]) =
      ?a\<lparr>an_declared_only := an_declared_only ?a \<union> {edge_of c |c. c \<in> set kept \<and> c_before c \<in> set g \<and> c_after c \<in> set g},
             an_chain := an_chain ?a @ map (\<lambda>(x, y). Constraint x y SDeclared RStructural) (zip g (tl g)),
             an_ends := foldl (\<lambda>ends m. ends[m := Some (hd g, last g)]) (an_ends ?a) g\<rparr>"
      by (simp add: set_aside_run [of kept ?a g])
    have "edge_of ` (\<lambda>(x, y). Constraint x y SDeclared RStructural) ` S = S" for S by (force simp: edge_of_def)
    then have "edges_of (an_chain ?a @ map (\<lambda>(x, y). Constraint x y SDeclared RStructural) (zip g (tl g))) =
        edges_of (an_chain ?a) \<union> set (zip g (tl g))" by (simp add: image_Un)
    moreover have "foldl (\<lambda>ends m. ends[m := Some (hd g, last g)]) (an_ends ?a) g ! x = Some s \<longleftrightarrow>
        (\<exists>h \<in> set (gs @ [g]). aside kept h \<and> x \<in> set h \<and> s = (hd h, last h))" if "x < n" for x s
    proof (cases "x \<in> set g")
      case True
      then have "x \<notin> set h" if "h \<in> set gs" for h using apart [OF that] by auto
      then show ?thesis using True \<open>aside kept g\<close> \<open>x < n\<close> IH(3) by (auto simp: foldl_update_nth)
    next
      case False
      then show ?thesis using \<open>x < n\<close> IH(3,4) by (auto simp: foldl_update_nth)
    qed
    ultimately show ?thesis using IH(1-3) True unfolding run by auto
  next
    case False
    then have run: "foldl (set_aside kept) \<lparr>an_chain = [], an_declared_only = {}, an_ends = replicate n None\<rparr> (gs @ [g]) = ?a"
      by (simp add: set_aside_run [of kept ?a g])
    show ?thesis unfolding run using IH False by auto
  qed
qed simp

text \<open>The state of the annotated components, on the components of the edges.\<close>

lemma annotated_run:
  assumes "proper n kept"
  defines "a \<equiv> annotated_components n kept" and "gs \<equiv> components n kept"
  shows "c \<in> set kept \<Longrightarrow> edge_of c \<in> an_declared_only a \<longleftrightarrow> (\<exists>g \<in> set gs. aside kept g \<and> c_before c \<in> set g \<and> c_after c \<in> set g)"
    "edges_of (an_chain a) = {e. \<exists>g \<in> set gs. aside kept g \<and> e \<in> set (zip g (tl g))}"
    "x < n \<Longrightarrow> an_ends a ! x = Some s \<longleftrightarrow> (\<exists>g \<in> set gs. aside kept g \<and> x \<in> set g \<and> s = (hd g, last g))"
    "an_declared_only a \<subseteq> edges_of kept"
proof -
  note E = proper_within [OF assms(1)]
  have "pairwise (\<lambda>g h. set g \<inter> set h = {}) (set gs)"
    unfolding pairwise_def gs_def using components_apart [OF E] by blast
  note all = set_aside_all [OF this components_distinct [OF E, folded gs_def], where kept = kept and n = n,
      folded annotated_components_def [of n kept, folded gs_def], folded a_def]
  show "c \<in> set kept \<Longrightarrow> edge_of c \<in> an_declared_only a \<longleftrightarrow> (\<exists>g \<in> set gs. aside kept g \<and> c_before c \<in> set g \<and> c_after c \<in> set g)"
    unfolding conjunct1 [OF all] by (auto simp: edge_of_def)
  show "edges_of (an_chain a) = {e. \<exists>g \<in> set gs. aside kept g \<and> e \<in> set (zip g (tl g))}" using all by blast
  show "x < n \<Longrightarrow> an_ends a ! x = Some s \<longleftrightarrow> (\<exists>g \<in> set gs. aside kept g \<and> x \<in> set g \<and> s = (hd g, last g))" using all by blast
  show "an_declared_only a \<subseteq> edges_of kept" unfolding conjunct1 [OF all] by auto
qed

lemma zip_tl_less: "sorted g \<Longrightarrow> distinct g \<Longrightarrow> (x, y) \<in> set (zip g (tl g)) \<Longrightarrow> x < y"
  by (induction g rule: induct_list012) auto

lemma zip_tl_mem: "(x, y) \<in> set (zip g (tl g)) \<Longrightarrow> x \<in> set g \<and> y \<in> set g"
  by (induction g rule: induct_list012) auto

text \<open>A chain holds every member at or after its first and at or before its last.\<close>

lemma chain_ends:
  assumes "distinct xs" "\<And>e. e \<in> set (zip g (tl g)) \<Longrightarrow> runs_before xs (fst e) (snd e)" "x \<in> set g"
  shows "(x = hd g \<or> runs_before xs (hd g) x) \<and> (x = last g \<or> runs_before xs x (last g))"
  using assms(2,3)
proof (induction g arbitrary: x rule: induct_list012)
  case (3 g h gs)
  have IH: "y = h \<or> runs_before xs h y" "y = last (h # gs) \<or> runs_before xs y (last (h # gs))" if "y \<in> set (h # gs)" for y
    using "3.IH"(2) [OF _ that] "3.prems"(1) by auto
  have gh: "runs_before xs g h" using "3.prems"(1) [of "(g, h)"] by simp
  then have "runs_before xs g y" if "y \<in> set (h # gs)" for y using IH(1) [OF that] before_trans [OF assms(1)] by blast
  moreover have "last (h # gs) \<in> set (h # gs)" by (rule last_in_set) simp
  ultimately show ?case using "3.prems"(2) IH(2) [of x] by (cases "x = g") auto
qed auto

end
