(* ===== verification/Settle.thy ===== *)
theory Settle
  imports Schedule "HOL-Library.Multiset"
begin

text \<open>
  What settling a schedule gives: the order respects every edge that was kept and every kept order, the edges given up are
  guesses in a cycle and annotations in a cycle of annotations, and a cycle is refused exactly when the stated edges have one
  that is not made of annotations only.
\<close>

section \<open>Redirected edges\<close>

lemma constraint_edge: "c \<in> set cs \<Longrightarrow> (c_before c, c_after c) \<in> edges_of cs"
  by (rule image_eqI [of _ _ c]) (simp_all add: edge_of_def)

definition chained :: "nat \<Rightarrow> constraint list \<Rightarrow> constraint list \<times> constraint list" where
  "chained n kept =
     (let a = annotated_components n kept; K = filter (\<lambda>c. edge_of c \<notin> an_declared_only a) kept
      in (K, map (redirect (an_ends a)) K @ an_chain a))"

text \<open>Where an edge leaves from and arrives, once redirected.\<close>

definition exit_of :: "nat \<Rightarrow> constraint list \<Rightarrow> nat \<Rightarrow> nat" where
  "exit_of n kept x = (case an_ends (annotated_components n kept) ! x of None \<Rightarrow> x | Some (_, final) \<Rightarrow> final)"

definition entry_of :: "nat \<Rightarrow> constraint list \<Rightarrow> nat \<Rightarrow> nat" where
  "entry_of n kept x = (case an_ends (annotated_components n kept) ! x of None \<Rightarrow> x | Some (first, _) \<Rightarrow> first)"

lemma redirect_edge:
  "edge_of (redirect (an_ends (annotated_components n kept)) c) = (exit_of n kept (c_before c), entry_of n kept (c_after c))"
  by (simp add: redirect_def edge_of_def exit_of_def entry_of_def)

lemma ends_cases:
  assumes proper: "proper n kept" and x: "x < n"
  obtains (plain) "exit_of n kept x = x" "entry_of n kept x = x" "\<And>g. g \<in> set (components n kept) \<Longrightarrow> aside kept g \<Longrightarrow> x \<notin> set g"
  | (span) g where "g \<in> set (components n kept)" "aside kept g" "x \<in> set g" "exit_of n kept x = last g" "entry_of n kept x = hd g"
proof (cases "an_ends (annotated_components n kept) ! x")
  case None
  then have "\<And>g. g \<in> set (components n kept) \<Longrightarrow> aside kept g \<Longrightarrow> x \<notin> set g"
    using annotated_run(3) [OF proper x] by fastforce
  then show ?thesis using None by (intro plain) (simp_all add: exit_of_def entry_of_def)
next
  case (Some s)
  then obtain g where "g \<in> set (components n kept)" "aside kept g" "x \<in> set g" "s = (hd g, last g)"
    using annotated_run(3) [OF proper x] by blast
  then show ?thesis using Some by (intro span [of g]) (simp_all add: exit_of_def entry_of_def)
qed

lemma ends_in_component:
  assumes proper: "proper n kept" and x: "x < n"
  shows "exit_of n kept x \<in> scc (edges_of kept) x" "entry_of n kept x \<in> scc (edges_of kept) x"
proof -
  note E = proper_within [OF proper]
  have "exit_of n kept x \<in> scc (edges_of kept) x \<and> entry_of n kept x \<in> scc (edges_of kept) x"
  proof (cases rule: ends_cases [OF proper x])
    case (2 g)
    then have "set g = scc (edges_of kept) x" using components_member(5) [OF E] by blast
    moreover have "g \<noteq> []" using 2 by auto
    ultimately show ?thesis using 2 hd_in_set last_in_set by metis
  qed simp_all
  then show "exit_of n kept x \<in> scc (edges_of kept) x" "entry_of n kept x \<in> scc (edges_of kept) x" by auto
qed

lemma chained_edges:
  assumes "proper n kept"
  shows "edges_of (snd (chained n kept)) =
     (\<lambda>c. (exit_of n kept (c_before c), entry_of n kept (c_after c))) ` set (fst (chained n kept))
     \<union> {e. \<exists>g \<in> set (components n kept). aside kept g \<and> e \<in> set (zip g (tl g))}"
  using annotated_run(2) [OF assms]
  by (auto simp: chained_def Let_def image_Un image_image redirect_edge)

lemma chained_kept:
  assumes proper: "proper n kept" and c: "c \<in> set kept"
  shows "c \<notin> set (fst (chained n kept)) \<longleftrightarrow> (\<exists>g \<in> set (components n kept). aside kept g \<and> c_before c \<in> set g \<and> c_after c \<in> set g)"
proof -
  have "c \<notin> set (fst (chained n kept)) \<longleftrightarrow> edge_of c \<in> an_declared_only (annotated_components n kept)"
    using c by (simp add: chained_def Let_def)
  then show ?thesis unfolding annotated_run(1) [OF proper c] .
qed

lemma chained_subset: "set (fst (chained n kept)) \<subseteq> set kept"
  by (auto simp: chained_def Let_def)

text \<open>A constraint in a cycle is set aside exactly when its whole component is declared.\<close>

lemma component_of:
  assumes proper: "proper n kept" and c: "c \<in> set kept" and cycle: "in_cycle kept c"
  obtains g where "g \<in> set (components n kept)" "c_before c \<in> set g" "c_after c \<in> set g" "2 \<le> length g"
    "set g = scc (edges_of kept) (c_before c)"
proof -
  have b: "c_before c < n" "c_before c \<noteq> c_after c" using proper c by (auto simp: proper_def)
  from components_all [OF proper_within [OF proper] b(1)] obtain g where
    g: "g \<in> set (components n kept)" "set g = scc (edges_of kept) (c_before c)" by blast
  have mem: "c_before c \<in> set g" "c_after c \<in> set g" using g(2) cycle by (simp_all add: in_cycle_def)
  then have "2 \<le> card (set g)" using b(2) card_mono [of "set g" "{c_before c, c_after c}"] by simp
  then have "2 \<le> length g" using card_length [of g] by simp
  with g mem show thesis by (intro that)
qed

lemma inner_in_cycle:
  assumes proper: "proper n kept" and g: "g \<in> set (components n kept)" and d: "c_before d \<in> set g" "c_after d \<in> set g"
  shows "in_cycle kept d"
  using components_member(5) [OF proper_within [OF proper] g d(1)] d(2) by (simp add: in_cycle_def)

lemma removed_is_declared:
  assumes proper: "proper n kept" and c: "c \<in> set kept" "c \<notin> set (fst (chained n kept))"
  shows "c_source c = SDeclared \<and> in_cycle kept c"
proof -
  from chained_kept [OF proper c(1)] c(2) obtain g where
    g: "g \<in> set (components n kept)" "aside kept g" "c_before c \<in> set g" "c_after c \<in> set g" by blast
  then show ?thesis using c(1) inner_in_cycle [OF proper g(1)] by (auto simp: aside_def declared_only_def)
qed

lemma chained_within:
  assumes proper: "proper n kept"
  shows "edges_within n (edges_of (snd (chained n kept)))"
proof -
  note E = proper_within [OF proper]
  have "exit_of n kept x < n" "entry_of n kept x < n" if "x < n" for x
    using ends_in_component [OF proper that] scc_within [OF E that] by auto
  moreover have "c_before c < n \<and> c_after c < n" if "c \<in> set (fst (chained n kept))" for c
    using that proper chained_subset [of n kept] by (auto simp: proper_def)
  ultimately have "(\<lambda>c. (exit_of n kept (c_before c), entry_of n kept (c_after c))) ` set (fst (chained n kept)) \<subseteq> {..<n} \<times> {..<n}"
    by auto
  moreover have "a < n \<and> b < n" if "g \<in> set (components n kept)" "(a, b) \<in> set (zip g (tl g))" for a b g
    using components_member(4) [OF E that(1)] zip_tl_mem [OF that(2)] by auto
  then have "{e. \<exists>g \<in> set (components n kept). aside kept g \<and> e \<in> set (zip g (tl g))} \<subseteq> {..<n} \<times> {..<n}" by auto
  ultimately show ?thesis unfolding chained_edges [OF proper] by blast
qed

text \<open>An order that respects the redirected edges and the chains respects the edges as stated.\<close>

lemma chained_respects:
  assumes proper: "proper n kept" and xs: "distinct xs" "\<And>a b. (a, b) \<in> edges_of (snd (chained n kept)) \<Longrightarrow> runs_before xs a b"
    and c: "c \<in> set (fst (chained n kept))"
  shows "runs_before xs (c_before c) (c_after c)"
proof -
  have ends: "(x = entry_of n kept x \<or> runs_before xs (entry_of n kept x) x) \<and> (x = exit_of n kept x \<or> runs_before xs x (exit_of n kept x))"
    if "x < n" for x
  proof (cases rule: ends_cases [OF proper that])
    case (2 g)
    have "runs_before xs (fst e) (snd e)" if "e \<in> set (zip g (tl g))" for e
      using xs(2) [of "fst e" "snd e"] that 2(1,2) unfolding chained_edges [OF proper] by auto
    from chain_ends [OF xs(1) this 2(3)] 2 show ?thesis by simp
  qed simp
  have "c_before c < n" "c_after c < n" using proper c chained_subset [of n kept] by (auto simp: proper_def)
  note e = ends [OF this(1)] ends [OF this(2)]
  have "runs_before xs (exit_of n kept (c_before c)) (entry_of n kept (c_after c))"
    by (rule xs(2)) (use c in \<open>auto simp: chained_edges [OF proper]\<close>)
  then show ?thesis using e before_trans [OF xs(1)] by metis
qed

lemma chained_reaches:
  assumes proper: "proper n kept" and ab: "(a, b) \<in> edges_of (snd (chained n kept))"
  shows "(a, b) \<in> (edges_of kept)\<^sup>*"
  using ab unfolding chained_edges [OF proper]
proof
  assume "(a, b) \<in> (\<lambda>c. (exit_of n kept (c_before c), entry_of n kept (c_after c))) ` set (fst (chained n kept))"
  then obtain c where c: "c \<in> set kept" "a = exit_of n kept (c_before c)" "b = entry_of n kept (c_after c)"
    using chained_subset [of n kept] by auto
  then have "c_before c < n" "c_after c < n" using proper by (auto simp: proper_def)
  then have "(a, c_before c) \<in> (edges_of kept)\<^sup>*" "(c_after c, b) \<in> (edges_of kept)\<^sup>*"
    using ends_in_component [OF proper] c by (auto simp: scc_def)
  moreover have "(c_before c, c_after c) \<in> (edges_of kept)\<^sup>*" using constraint_edge [OF c(1)] ..
  ultimately show ?thesis using rtrancl_trans [of a "c_before c" "edges_of kept" "c_after c"] rtrancl_trans [of a "c_after c" "edges_of kept" b]
    by blast
next
  assume "(a, b) \<in> {e. \<exists>g \<in> set (components n kept). aside kept g \<and> e \<in> set (zip g (tl g))}"
  then obtain g where g: "g \<in> set (components n kept)" "(a, b) \<in> set (zip g (tl g))" by blast
  then have "a \<in> set g" "b \<in> set g" using zip_tl_mem [OF g(2)] by simp_all
  then show ?thesis using g(1) components_member(5) [OF proper_within [OF proper], of g a] by (auto simp: scc_def)
qed

definition only_annotations_cycle :: "constraint list \<Rightarrow> bool" where
  "only_annotations_cycle cs \<longleftrightarrow> (\<forall>c \<in> set cs. in_cycle cs c \<longrightarrow> c_source c = SDeclared)"

lemma chained_ascends:
  assumes proper: "proper n kept" and only: "only_annotations_cycle kept"
    and ab: "(a, b) \<in> edges_of (snd (chained n kept))" and ba: "(b, a) \<in> (edges_of kept)\<^sup>*"
  shows "a < b"
  using ab unfolding chained_edges [OF proper]
proof
  assume "(a, b) \<in> (\<lambda>c. (exit_of n kept (c_before c), entry_of n kept (c_after c))) ` set (fst (chained n kept))"
  then obtain c where K: "c \<in> set (fst (chained n kept))" and c: "c \<in> set kept" "a = exit_of n kept (c_before c)" "b = entry_of n kept (c_after c)"
    using chained_subset [of n kept] by auto
  then have "c_before c < n" "c_after c < n" using proper by (auto simp: proper_def)
  then have "(a, c_before c) \<in> (edges_of kept)\<^sup>*" "(c_after c, b) \<in> (edges_of kept)\<^sup>*"
    using ends_in_component [OF proper] c by (auto simp: scc_def)
  then have "(c_after c, c_before c) \<in> (edges_of kept)\<^sup>*"
    using ba rtrancl_trans [of "c_after c" b "edges_of kept" a] rtrancl_trans [of "c_after c" a "edges_of kept" "c_before c"] by blast
  moreover have "(c_before c, c_after c) \<in> (edges_of kept)\<^sup>*" using constraint_edge [OF c(1)] ..
  ultimately have "in_cycle kept c" by (simp add: in_cycle_def scc_def)
  from component_of [OF proper c(1) this] obtain g where
    g: "g \<in> set (components n kept)" "c_before c \<in> set g" "c_after c \<in> set g" "2 \<le> length g" .
  then have "aside kept g" using only inner_in_cycle [OF proper g(1)] by (auto simp: aside_def declared_only_def only_annotations_cycle_def)
  with g K chained_kept [OF proper c(1)] show ?thesis by blast
next
  assume "(a, b) \<in> {e. \<exists>g \<in> set (components n kept). aside kept g \<and> e \<in> set (zip g (tl g))}"
  then obtain g where g: "g \<in> set (components n kept)" "(a, b) \<in> set (zip g (tl g))" by blast
  then show ?thesis using zip_tl_less components_member(1,2) [OF proper_within [OF proper] g(1)] by blast
qed

lemma chained_acyclic:
  assumes proper: "proper n kept" and only: "only_annotations_cycle kept"
  shows "acyclic (edges_of (snd (chained n kept)))"
proof -
  let ?R = "edges_of (snd (chained n kept))" and ?E = "edges_of kept"
  have reach: "(x, y) \<in> ?R\<^sup>+ \<Longrightarrow> (x, y) \<in> ?E\<^sup>*" for x y
    by (induction rule: trancl_induct) (blast intro: chained_reaches [OF proper] rtrancl_trans)+
  have "x < y" if "(x, y) \<in> ?R\<^sup>+" "(y, x) \<in> ?E\<^sup>*" for x y
    using that
  proof (induction rule: trancl_induct)
    case (base y)
    then show ?case by (rule chained_ascends [OF proper only])
  next
    case (step y z)
    have "(y, z) \<in> ?E\<^sup>*" using chained_reaches [OF proper step.hyps(2)] .
    then have "x < y" using step.IH rtrancl_trans [OF _ step.prems] by blast
    moreover have "y < z" using chained_ascends [OF proper only step.hyps(2)] rtrancl_trans [OF step.prems reach [OF step.hyps(1)]] by blast
    ultimately show ?case by simp
  qed
  then show ?thesis unfolding acyclic_def by blast
qed

text \<open>A component with an edge that is not an annotation is left as it is.\<close>

lemma chained_keeps_cycle:
  assumes proper: "proper n kept" and c: "c \<in> set kept" "in_cycle kept c" "c_source c \<noteq> SDeclared"
    and d: "d \<in> set kept" "c_before d \<in> scc (edges_of kept) (c_before c)" "c_after d \<in> scc (edges_of kept) (c_before c)"
  shows "d \<in> set (fst (chained n kept)) \<and> edge_of d \<in> edges_of (snd (chained n kept))"
proof -
  note E = proper_within [OF proper]
  from component_of [OF proper c(1,2)] obtain g where g: "g \<in> set (components n kept)" "c_before c \<in> set g" "c_after c \<in> set g"
    "set g = scc (edges_of kept) (c_before c)" .
  have "\<not> aside kept g" using g c by (auto simp: aside_def declared_only_def)
  then have none: "x \<notin> set h" if "x \<in> set g" "h \<in> set (components n kept)" "aside kept h" for x h
    using components_apart [OF E g(1) that(2) that(1)] that(3) by blast
  have dg: "c_before d \<in> set g" "c_after d \<in> set g" using d g(4) by auto
  then have K: "d \<in> set (fst (chained n kept))" using chained_kept [OF proper d(1)] none by blast
  have "exit_of n kept x = x \<and> entry_of n kept x = x" if "x \<in> set g" for x
  proof -
    have "x < n" using that components_member(4) [OF E g(1)] by auto
    then show ?thesis using none that by (cases rule: ends_cases [OF proper]) blast+
  qed
  then have "edge_of d = (exit_of n kept (c_before d), entry_of n kept (c_after d))" using dg by (simp add: edge_of_def)
  with K show ?thesis unfolding chained_edges [OF proper] by blast
qed

section \<open>After the annotations\<close>

lemma scc_cycle_transfer:
  assumes inner: "\<And>u v. (u, v) \<in> E \<Longrightarrow> u \<in> scc E b \<Longrightarrow> v \<in> scc E b \<Longrightarrow> (u, v) \<in> R"
    and ba: "(b, a) \<in> E" "a \<in> scc E b" and x: "x \<in> scc E b"
  shows "(x, x) \<in> R\<^sup>+"
proof -
  have path: "(u, v) \<in> R\<^sup>*" if "u \<in> scc E b" "v \<in> scc E b" for u v
  proof -
    have v: "scc E v = scc E b" using that(2) by (rule scc_eq)
    then have "(u, v) \<in> E\<^sup>*" "(v, u) \<in> E\<^sup>*" using that(1) by (auto simp: scc_def)
    then have "(u, v) \<in> {(p, q) \<in> E. p \<in> scc E v \<and> q \<in> scc E v}\<^sup>*" by (rule scc_inner_path)
    moreover have "{(p, q) \<in> E. p \<in> scc E v \<and> q \<in> scc E v} \<subseteq> R" unfolding v using inner by auto
    ultimately show ?thesis using rtrancl_mono by blast
  qed
  have "(x, b) \<in> R\<^sup>*" "(b, a) \<in> R" "(a, x) \<in> R\<^sup>*" using path x ba inner by auto
  then show ?thesis by (meson rtrancl_into_trancl1 trancl_rtrancl_trancl)
qed

lemma cyclic_iff:
  assumes "proper n kept"
  shows "acyclic (edges_of kept) \<longleftrightarrow> (\<forall>c \<in> set kept. \<not> in_cycle kept c)"
proof
  assume ac: "acyclic (edges_of kept)"
  show "\<forall>c \<in> set kept. \<not> in_cycle kept c"
  proof (intro ballI notI)
    fix c
    assume "c \<in> set kept" "in_cycle kept c"
    then have "(c_before c, c_before c) \<in> (edges_of kept)\<^sup>+"
      using constraint_edge [of c kept] by (auto simp: in_cycle_def scc_def intro: rtrancl_into_trancl2)
    with ac show False by (simp add: acyclic_def)
  qed
next
  assume none: "\<forall>c \<in> set kept. \<not> in_cycle kept c"
  show "acyclic (edges_of kept)"
    unfolding acyclic_def
  proof (intro allI notI)
    fix x
    assume "(x, x) \<in> (edges_of kept)\<^sup>+"
    then obtain y where y: "(x, y) \<in> edges_of kept" "(y, x) \<in> (edges_of kept)\<^sup>*" by (blast dest: tranclD)
    then obtain c where "c \<in> set kept" "c_before c = x" "c_after c = y" by (auto simp: edge_of_def)
    with y none show False by (auto simp: in_cycle_def scc_def)
  qed
qed

text \<open>The bad constraints: in a cycle, and no annotation.\<close>

definition bad :: "constraint list \<Rightarrow> constraint \<Rightarrow> bool" where
  "bad kept c \<longleftrightarrow> c \<in> set kept \<and> in_cycle kept c \<and> c_source c \<noteq> SDeclared"

lemma only_annotations_bad: "only_annotations_cycle kept \<longleftrightarrow> (\<forall>c. \<not> bad kept c)"
  by (auto simp: only_annotations_cycle_def bad_def)

lemma chained_bad:
  assumes proper: "proper n kept" and c: "c \<in> set (fst (chained n kept))" "in_cycle kept c"
  shows "\<exists>d. bad kept d \<and> c_before c \<in> scc (edges_of kept) (c_before d)"
proof -
  have ck: "c \<in> set kept" using c(1) chained_subset by blast
  from component_of [OF proper ck c(2)] obtain g where g: "g \<in> set (components n kept)" "c_before c \<in> set g" "c_after c \<in> set g"
    "2 \<le> length g" .
  then have "\<not> aside kept g" using chained_kept [OF proper ck] c(1) by blast
  then obtain d where d: "d \<in> set kept" "c_before d \<in> set g" "c_after d \<in> set g" "c_source d \<noteq> SDeclared"
    using g(4) by (auto simp: aside_def declared_only_def)
  then have "bad kept d" using inner_in_cycle [OF proper g(1)] by (simp add: bad_def)
  moreover have "set g = scc (edges_of kept) (c_before d)" using components_member(5) [OF proper_within [OF proper] g(1) d(2)] .
  ultimately show ?thesis using g(2) by blast
qed

lemma chain_annotations_run:
  assumes proper: "proper n kept"
  defines "ac \<equiv> acyclic (edges_of kept)" and "none \<equiv> fst (chained n kept) = kept"
  shows "chain_annotations n tie (kept, kahn n kept tie) =
    (if ac then (kept, kahn n kept tie) else (fst (chained n kept), if none then kahn n kept tie else kahn n (snd (chained n kept)) tie))"
proof -
  have full: "length (kahn n kept tie) < n \<longleftrightarrow> \<not> ac" 
    unfolding ac_def by (rule kahn_order.incomplete_iff [OF proper_within [OF proper]])
  have "an_declared_only (annotated_components n kept) = {} \<longleftrightarrow> none"
    using annotated_run(4) [OF proper] by (force simp: none_def chained_def Let_def filter_id_conv)
  then show ?thesis unfolding chain_annotations_def prod.case full by (auto simp: none_def chained_def Let_def)
qed

lemma chain_run:
  assumes proper: "proper n kept"
  obtains kept' emitted where "chain_annotations n tie (kept, kahn n kept tie) = (kept', emitted)"
    "set kept' \<subseteq> set kept" "\<And>c. c \<in> set kept \<Longrightarrow> c \<notin> set kept' \<Longrightarrow> c_source c = SDeclared \<and> in_cycle kept c"
    "distinct emitted" "set emitted \<subseteq> {..<n}" "length emitted = n \<longleftrightarrow> only_annotations_cycle kept"
    "\<And>c. length emitted = n \<Longrightarrow> c \<in> set kept' \<Longrightarrow> runs_before emitted (c_before c) (c_after c)"
    "\<And>c d. bad kept c \<Longrightarrow> d \<in> set kept \<Longrightarrow> c_before d \<in> scc (edges_of kept) (c_before c) \<Longrightarrow>
        c_after d \<in> scc (edges_of kept) (c_before c) \<Longrightarrow> d \<in> set kept' \<and> c_before d \<notin> set emitted \<and> c_after d \<notin> set emitted"
    "\<And>c. c \<in> set kept' \<Longrightarrow> in_cycle kept c \<Longrightarrow> \<exists>d. bad kept d \<and> c_before c \<in> scc (edges_of kept) (c_before d)"
    "acyclic (edges_of kept) \<Longrightarrow> kept' = kept \<and> emitted = kahn n kept tie"
proof (cases "acyclic (edges_of kept)")
  case True
  note E = proper_within [OF proper]
  have none: "\<not> in_cycle kept c" if "c \<in> set kept" for c using True that cyclic_iff [OF proper] by blast
  have len: "length (kahn n kept tie) = n" using True kahn_places_all_iff [OF E] by blast
  then have "set (kahn n kept tie) = {..<n}" using kahn_placed [OF E, of tie] by (intro card_subset_eq) (simp_all add: distinct_card)
  then have fwd: "runs_before (kahn n kept tie) (c_before c) (c_after c)" if "c \<in> set kept" for c
    using kahn_forward [OF E constraint_edge [OF that], of tie] that proper by (cases tie) (auto simp: proper_def)
  show thesis
    by (rule that [of kept "kahn n kept tie"])
      (use chain_annotations_run [OF proper, of tie] True none len fwd kahn_placed [OF E, of tie]
       in \<open>auto simp: only_annotations_cycle_def bad_def\<close>)
next
  case False
  note E = proper_within [OF proper]
  let ?R = "if fst (chained n kept) = kept then kept else snd (chained n kept)"
  let ?K = "fst (chained n kept)"
  have run: "chain_annotations n tie (kept, kahn n kept tie) = (?K, kahn n ?R tie)"
    using chain_annotations_run [OF proper, of tie] False by simp
  have R: "edges_within n (edges_of ?R)" using E chained_within [OF proper] by simp
  have cycle: "(x, x) \<in> (edges_of ?R)\<^sup>+" if "bad kept c" "x \<in> scc (edges_of kept) (c_before c)" for c x
  proof (rule scc_cycle_transfer [where E = "edges_of kept" and b = "c_before c" and a = "c_after c"])
    fix u v
    assume uv: "(u, v) \<in> edges_of kept" "u \<in> scc (edges_of kept) (c_before c)" "v \<in> scc (edges_of kept) (c_before c)"
    then obtain d where "d \<in> set kept" "edge_of d = (u, v)" "c_before d = u" "c_after d = v" by (auto simp: edge_of_def)
    then show "(u, v) \<in> edges_of ?R" using chained_keeps_cycle [OF proper, of c d] that(1) uv by (auto simp: bad_def)
  qed (use that constraint_edge [of c kept] in \<open>auto simp: bad_def in_cycle_def\<close>)
  have some_bad: "\<exists>d. bad kept d" if "?K = kept"
    using False that cyclic_iff [OF proper] chained_bad [OF proper] by metis
  have len: "length (kahn n ?R tie) = n \<longleftrightarrow> only_annotations_cycle kept"
  proof
    assume "length (kahn n ?R tie) = n"
    then have "acyclic (edges_of ?R)" using kahn_places_all_iff [OF R] by blast
    then show "only_annotations_cycle kept" unfolding only_annotations_bad using cycle scc_self by (metis acyclic_def)
  next
    assume only: "only_annotations_cycle kept"
    then have "?K \<noteq> kept" using some_bad by (auto simp: only_annotations_bad)
    then show "length (kahn n ?R tie) = n" using chained_acyclic [OF proper only] kahn_places_all_iff [OF R, of tie] by simp
  qed
  have fwd: "runs_before (kahn n ?R tie) (c_before c) (c_after c)" if "length (kahn n ?R tie) = n" "c \<in> set ?K" for c
  proof (rule chained_respects [OF proper])
    show "distinct (kahn n ?R tie)" using kahn_placed [OF R] by blast
    then have all: "set (kahn n ?R tie) = {..<n}" using kahn_placed [OF R, of tie] that(1) by (intro card_subset_eq) (simp_all add: distinct_card)
    have "?K \<noteq> kept" using some_bad len that(1) by (auto simp: only_annotations_bad)
    then show "runs_before (kahn n ?R tie) a b" if "(a, b) \<in> edges_of (snd (chained n kept))" for a b
      using kahn_forward [OF R, of a b tie] that R all by (cases tie) auto
  qed (rule that(2))
  show thesis
  proof (rule that [OF run chained_subset _ _ _ len fwd])
    show "d \<in> set ?K \<and> c_before d \<notin> set (kahn n ?R tie) \<and> c_after d \<notin> set (kahn n ?R tie)"
      if "bad kept c" "d \<in> set kept" "c_before d \<in> scc (edges_of kept) (c_before c)" "c_after d \<in> scc (edges_of kept) (c_before c)" for c d
      using chained_keeps_cycle [OF proper, of c d] that unplaced_cycle [OF R cycle [OF that(1)]] by (simp add: bad_def)
  qed (use removed_is_declared [OF proper] kahn_placed [OF R] chained_bad [OF proper] False in blast)+
qed

lemma chain_facts:
  assumes proper: "proper n kept" and run: "chain_annotations n tie (kept, kahn n kept tie) = (kept', emitted)"
  shows "set kept' \<subseteq> set kept" "\<And>c. c \<in> set kept \<Longrightarrow> c \<notin> set kept' \<Longrightarrow> c_source c = SDeclared \<and> in_cycle kept c"
    "distinct emitted" "set emitted \<subseteq> {..<n}" "length emitted = n \<longleftrightarrow> only_annotations_cycle kept"
    "\<And>c. length emitted = n \<Longrightarrow> c \<in> set kept' \<Longrightarrow> runs_before emitted (c_before c) (c_after c)"
    "\<And>c d. bad kept c \<Longrightarrow> d \<in> set kept \<Longrightarrow> c_before d \<in> scc (edges_of kept) (c_before c) \<Longrightarrow>
        c_after d \<in> scc (edges_of kept) (c_before c) \<Longrightarrow> d \<in> set kept' \<and> c_before d \<notin> set emitted \<and> c_after d \<notin> set emitted"
    "\<And>c. c \<in> set kept' \<Longrightarrow> in_cycle kept c \<Longrightarrow> \<exists>d. bad kept d \<and> c_before c \<in> scc (edges_of kept) (c_before d)"
    "acyclic (edges_of kept) \<Longrightarrow> kept' = kept \<and> emitted = kahn n kept tie"
  by (rule chain_run [OF proper, of tie], use run in simp)+

lemma placed_all:
  assumes "distinct xs" "set xs \<subseteq> {..<n}"
  shows "length xs \<le> n" "length xs = n \<Longrightarrow> set xs = {..<n}"
proof -
  show "length xs \<le> n" using card_mono [OF _ assms(2)] distinct_card [OF assms(1)] by simp
  show "length xs = n \<Longrightarrow> set xs = {..<n}" using assms by (intro card_subset_eq) (simp_all add: distinct_card)
qed

section \<open>Stated edges\<close>

text \<open>The edges a caller states, guesses left out.\<close>

definition stated :: "schedule \<Rightarrow> constraint list" where
  "stated s = filter (\<lambda>c. c_source c \<noteq> SGuess) (s_constraints s)"

text \<open>Edges and kept orders name steps the schedule has, and no obligation is open.\<close>

definition schedule_ok :: "schedule \<Rightarrow> bool" where
  "schedule_ok s \<longleftrightarrow> proper (s_steps s) (s_constraints s)
     \<and> (\<forall>k \<in> set (s_keeps s). k_before k < s_steps s \<and> k_after k < s_steps s) \<and> s_obligations s = []"

lemma scc_without_guesses:
  assumes "set ds \<subseteq> set cs" "\<And>c. c \<in> set cs \<Longrightarrow> in_cycle cs c \<Longrightarrow> c \<in> set ds"
  shows "scc (edges_of ds) x = scc (edges_of cs) x"
proof
  show "scc (edges_of ds) x \<subseteq> scc (edges_of cs) x" using assms(1) by (intro scc_mono image_mono)
  have path: "(u, v) \<in> (edges_of ds)\<^sup>*" if "(u, v) \<in> (edges_of cs)\<^sup>*" "(v, u) \<in> (edges_of cs)\<^sup>*" for u v
  proof -
    have "(a, b) \<in> edges_of ds" if ab: "(a, b) \<in> edges_of cs" "a \<in> scc (edges_of cs) v" "b \<in> scc (edges_of cs) v" for a b
    proof -
      from ab(1) obtain c where c: "c \<in> set cs" "c_before c = a" "c_after c = b" by (auto simp: edge_of_def)
      then have "in_cycle cs c" using ab scc_eq [OF ab(2)] by (simp add: in_cycle_def)
      then show ?thesis using assms(2) c constraint_edge [of c ds] by simp
    qed
    then have "{(a, b) \<in> edges_of cs. a \<in> scc (edges_of cs) v \<and> b \<in> scc (edges_of cs) v} \<subseteq> edges_of ds" by auto
    then show ?thesis using scc_inner_path [OF that] rtrancl_mono by blast
  qed
  then show "scc (edges_of cs) x \<subseteq> scc (edges_of ds) x" by (auto simp: scc_def)
qed

text \<open>The constraints left when the guesses have been given up.\<close>

definition after_guesses :: "schedule \<Rightarrow> constraint list \<Rightarrow> bool" where
  "after_guesses s cs \<longleftrightarrow> set cs \<subseteq> set (s_constraints s) \<and> proper (s_steps s) cs
     \<and> (\<forall>c \<in> set (s_constraints s) - set cs. c_source c = SGuess \<and> in_cycle (s_constraints s) c)
     \<and> (\<forall>x. scc (edges_of (stated s)) x = scc (edges_of cs) x)
     \<and> (\<forall>c \<in> set cs. c_source c = SGuess \<longrightarrow> \<not> in_cycle cs c)
     \<and> (acyclic (edges_of (s_constraints s)) \<longrightarrow> cs = s_constraints s)"

definition outcome :: "schedule \<Rightarrow> constraint list \<Rightarrow> nat list \<Rightarrow> (refusal, nat list \<times> constraint list) result" where
  "outcome s kept emitted =
     (case reversed (positions (s_steps s) emitted) (s_keeps s) of
        Some k \<Rightarrow> Inl (Kept k)
      | None \<Rightarrow> if length emitted < s_steps s then Inl (cycle_refusal s kept emitted) else Inr (emitted, kept))"

lemma settled_shape:
  assumes ok: "schedule_ok s"
  defines "n \<equiv> s_steps s"
  obtains cs kept emitted where "fst (settled_trace s dropped) = outcome s kept emitted"
    "chain_annotations n (s_tie s) (cs, kahn n cs (s_tie s)) = (kept, emitted)" "after_guesses s cs"
proof -
  have proper: "proper n (s_constraints s)" using ok by (simp add: schedule_ok_def n_def)
  from guesses_run [OF proper, of "s_tie s" dropped] obtain cs d where
    run: "foldl (give_up_guesses n (s_tie s)) (s_constraints s, kahn n (s_constraints s) (s_tie s), dropped) [True, False] =
      (cs, kahn n cs (s_tie s), d)" and sub: "set cs \<subseteq> set (s_constraints s)"
    and gone: "\<And>c. c \<in> set (s_constraints s) \<Longrightarrow> c \<notin> set cs \<Longrightarrow> c_source c = SGuess \<and> in_cycle (s_constraints s) c"
    and guess: "\<And>c. c \<in> set cs \<Longrightarrow> c_source c = SGuess \<Longrightarrow> \<not> acyclic (edges_of cs) \<Longrightarrow> \<not> in_cycle cs c"
    and same: "acyclic (edges_of (s_constraints s)) \<Longrightarrow> cs = s_constraints s" by blast
  have proper': "proper n cs" using proper sub by (rule proper_subset)
  have no_guess: "\<not> in_cycle cs c" if "c \<in> set cs" "c_source c = SGuess" for c
    using guess that cyclic_iff [OF proper'] by blast
  have "scc (edges_of (stated s)) x = scc (edges_of cs) x" for x
    by (rule scc_without_guesses) (use sub gone no_guess in \<open>auto simp: stated_def\<close>)
  moreover obtain kept emitted where chain: "chain_annotations n (s_tie s) (cs, kahn n cs (s_tie s)) = (kept, emitted)" by (meson surj_pair)
  moreover have "find (\<lambda>c. c_before c \<ge> n \<or> c_after c \<ge> n \<or> c_before c = c_after c) (s_constraints s) = None"
    using proper by (auto simp: proper_def find_None_iff)
  moreover have "find (\<lambda>k. k_before k \<ge> n \<or> k_after k \<ge> n) (s_keeps s) = None"
    using ok by (auto simp: schedule_ok_def find_None_iff n_def)
  moreover have "s_obligations s = []" using ok by (simp add: schedule_ok_def)
  moreover have "after_guesses s cs"
    using sub proper' gone no_guess same calculation(1) by (simp add: after_guesses_def n_def)
  ultimately show thesis
    using run by (intro that [of kept emitted cs]) (simp_all add: settled_trace_def outcome_def Let_def n_def split: option.split)
qed

lemma only_annotations_stated:
  assumes "after_guesses s cs"
  shows "only_annotations_cycle (stated s) \<longleftrightarrow> only_annotations_cycle cs" "in_cycle (stated s) c \<longleftrightarrow> in_cycle cs c" "set (stated s) \<subseteq> set cs"
proof -
  show sub: "set (stated s) \<subseteq> set cs" using assms by (auto simp: after_guesses_def stated_def)
  have inside: "c \<in> set (stated s)" if "c \<in> set cs" "in_cycle cs c" for c
    using assms that unfolding after_guesses_def stated_def set_filter by blast
  have cycle: "in_cycle (stated s) c \<longleftrightarrow> in_cycle cs c" for c using assms by (simp add: after_guesses_def in_cycle_def)
  then show "in_cycle (stated s) c \<longleftrightarrow> in_cycle cs c" .
  show "only_annotations_cycle (stated s) \<longleftrightarrow> only_annotations_cycle cs"
    unfolding only_annotations_cycle_def cycle using sub inside by blast
qed

section \<open>Kept orders\<close>

definition reverses :: "nat option list \<Rightarrow> keep \<Rightarrow> bool" where
  "reverses position k \<longleftrightarrow> (case (position ! k_before k, position ! k_after k) of (Some b, Some a) \<Rightarrow> a < b | _ \<Rightarrow> False)"

lemma min_fold:
  fixes key :: "'b \<Rightarrow> 'c :: linorder"
  defines "f \<equiv> \<lambda>best x. case best of None \<Rightarrow> Some x | Some y \<Rightarrow> if key x < key y then Some x else best"
  shows "(foldl f None xs = None \<longleftrightarrow> xs = []) \<and> (\<forall>x. foldl f None xs = Some x \<longrightarrow> x \<in> set xs \<and> (\<forall>y \<in> set xs. key x \<le> key y))"
proof (induction xs rule: rev_induct)
  case (snoc x xs)
  show ?case
  proof (cases "foldl f None xs")
    case None
    then show ?thesis using snoc by (simp add: f_def)
  next
    case (Some y)
    then show ?thesis using snoc by (force simp: f_def)
  qed
qed simp

lemma reversed_run:
  shows "reversed position keeps = None \<longleftrightarrow> (\<forall>k \<in> set keeps. \<not> reverses position k)"
    "reversed position keeps = Some k \<Longrightarrow> k \<in> set keeps \<and> reverses position k
       \<and> (\<forall>k' \<in> set keeps. reverses position k' \<longrightarrow> the (position ! k_before k) \<le> the (position ! k_before k'))"
proof -
  let ?wrong = "filter (\<lambda>(stated, k). reverses position k) (enumerate 0 keeps)"
  let ?key = "\<lambda>(stated, k). (the (position ! k_before k), stated)"
  let ?best = "foldl (\<lambda>best x. case best of None \<Rightarrow> Some x | Some y \<Rightarrow> if ?key x < ?key y then Some x else best) None ?wrong"
  have fold: "(\<lambda>best (stated, k). case best of None \<Rightarrow> Some (stated, k)
      | Some (stated', k') \<Rightarrow> if (the (position ! k_before k), stated) < (the (position ! k_before k'), stated') then Some (stated, k) else best)
    = (\<lambda>best x. case best of None \<Rightarrow> Some x | Some y \<Rightarrow> if ?key x < ?key y then Some x else best)"
    by (auto simp: fun_eq_iff split: option.split)
  have rev: "reversed position keeps = map_option snd ?best"
    unfolding reversed_def Let_def reverses_def fold ..
  have mem: "(\<exists>i. (i, k) \<in> set ?wrong) \<longleftrightarrow> k \<in> set keeps \<and> reverses position k" for k
  proof -
    have "k \<in> set keeps \<longleftrightarrow> (\<exists>i. (i, k) \<in> set (enumerate 0 keeps))" by (simp add: in_set_enumerate_eq) (metis in_set_conv_nth)
    then show ?thesis by auto
  qed
  note best = min_fold [where key = ?key and xs = ?wrong]
  have "?wrong = [] \<longleftrightarrow> (\<forall>k \<in> set keeps. \<not> reverses position k)"
  proof
    assume "?wrong = []"
    then have "(i, k) \<notin> set ?wrong" for i k by (metis empty_iff empty_set)
    then show "\<forall>k \<in> set keeps. \<not> reverses position k" using mem by blast
  next
    assume none: "\<forall>k \<in> set keeps. \<not> reverses position k"
    show "?wrong = []"
    proof (rule ccontr)
      assume "?wrong \<noteq> []"
      then obtain i k where "(i, k) \<in> set ?wrong" by (metis list.set_intros(1) neq_Nil_conv surj_pair)
      then show False using mem none by blast
    qed
  qed
  then show "reversed position keeps = None \<longleftrightarrow> (\<forall>k \<in> set keeps. \<not> reverses position k)" using best by (simp add: rev)
  assume "reversed position keeps = Some k"
  then obtain i where i: "?best = Some (i, k)" by (auto simp: rev)
  then have in_wrong: "(i, k) \<in> set ?wrong" and least: "\<And>x. x \<in> set ?wrong \<Longrightarrow> ?key (i, k) \<le> ?key x" using best by blast+
  have "the (position ! k_before k) \<le> the (position ! k_before k')" if k': "k' \<in> set keeps" "reverses position k'" for k'
  proof -
    from mem k' obtain j where "(j, k') \<in> set ?wrong" by blast
    from least [OF this] show ?thesis by (auto simp: less_eq_prod_def)
  qed
  then show "k \<in> set keeps \<and> reverses position k
      \<and> (\<forall>k' \<in> set keeps. reverses position k' \<longrightarrow> the (position ! k_before k) \<le> the (position ! k_before k'))"
    using in_wrong mem by blast
qed

lemma reverses_positions:
  assumes "distinct emitted" "k_before k < n" "k_after k < n"
  shows "reverses (positions n emitted) k \<longleftrightarrow> runs_before emitted (k_after k) (k_before k)"
proof -
  note pos = positions_nth(1) [OF assms(1)]
  show ?thesis
  proof
    assume "reverses (positions n emitted) k"
    then obtain b a where "positions n emitted ! k_before k = Some b" "positions n emitted ! k_after k = Some a" "a < b"
      by (auto simp: reverses_def split: option.splits)
    then show "runs_before emitted (k_after k) (k_before k)" using pos assms(2,3) unfolding before_iff by blast
  next
    assume "runs_before emitted (k_after k) (k_before k)"
    then obtain i j where "i < j" "j < length emitted" "emitted ! i = k_after k" "emitted ! j = k_before k" unfolding before_iff by blast
    moreover from this have "positions n emitted ! k_after k = Some i" "positions n emitted ! k_before k = Some j"
      using pos assms(2,3) by auto
    ultimately show "reverses (positions n emitted) k" by (simp add: reverses_def)
  qed
qed

lemma before_total: "a \<in> set xs \<Longrightarrow> b \<in> set xs \<Longrightarrow> a \<noteq> b \<Longrightarrow> runs_before xs a b \<or> runs_before xs b a"
  unfolding before_iff in_set_conv_nth by (metis linorder_neqE_nat)

section \<open>The order\<close>

lemma settled_ok: "fst (settled_trace s dropped) = Inr r \<Longrightarrow> schedule_ok s"
  unfolding settled_trace_def Let_def
  by (auto simp: schedule_ok_def proper_def find_None_iff not_le split: option.splits if_splits)

lemma settled_facts:
  assumes "fst (settled_trace s dropped) = Inr (seq, kept)"
  shows "distinct seq \<and> set seq = {..<s_steps s}
    \<and> set kept \<subseteq> set (s_constraints s) \<and> (\<forall>c \<in> set kept. runs_before seq (c_before c) (c_after c))
    \<and> (\<forall>k \<in> set (s_keeps s). k_before k = k_after k \<or> runs_before seq (k_before k) (k_after k))
    \<and> (\<forall>c \<in> set (s_constraints s) - set kept.
         c_source c = SGuess \<and> in_cycle (s_constraints s) c \<or> c_source c = SDeclared \<and> in_cycle (stated s) c)
    \<and> only_annotations_cycle (stated s)"
proof -
  let ?n = "s_steps s"
  note ok = settled_ok [OF assms]
  from settled_shape [OF ok, of dropped] obtain cs kept' emitted where out: "fst (settled_trace s dropped) = outcome s kept' emitted"
    and chain: "chain_annotations ?n (s_tie s) (cs, kahn ?n cs (s_tie s)) = (kept', emitted)" and cs: "after_guesses s cs"
    by metis
  from assms out have eq: "emitted = seq" "kept' = kept" and rev: "reversed (positions ?n seq) (s_keeps s) = None" and len: "\<not> length seq < ?n"
    by (auto simp: outcome_def split: option.splits if_splits)
  have proper: "proper ?n cs" using cs by (simp add: after_guesses_def)
  note facts = chain_facts [OF proper chain, unfolded eq]
  note seq = facts(3,4)
  have n: "length seq = ?n" and all: "set seq = {..<?n}" using placed_all [OF seq] len by auto
  have keeps: "k_before k = k_after k \<or> runs_before seq (k_before k) (k_after k)" if "k \<in> set (s_keeps s)" for k
  proof -
    have k: "k_before k < ?n" "k_after k < ?n" using ok that by (auto simp: schedule_ok_def)
    then have "\<not> runs_before seq (k_after k) (k_before k)" using reversed_run(1) rev that reverses_positions [OF seq(1) k] by metis
    then show ?thesis using before_total [of "k_before k" seq "k_after k"] k all by auto
  qed
  have "\<forall>c \<in> set (s_constraints s) - set kept.
      c_source c = SGuess \<and> in_cycle (s_constraints s) c \<or> c_source c = SDeclared \<and> in_cycle (stated s) c"
    using cs facts(2) unfolding only_annotations_stated(2) [OF cs] after_guesses_def by blast
  moreover have "only_annotations_cycle (stated s)" using only_annotations_stated(1) [OF cs] facts(5) n by blast
  moreover have "set kept \<subseteq> set (s_constraints s)" using facts(1) cs by (auto simp: after_guesses_def)
  ultimately show ?thesis using seq(1) all facts(6) [OF n] keeps by blast
qed

text \<open>C2. A schedule that settles gives every step a place: the sequence is a permutation of the steps. In it every edge that was
  kept runs forward and so does every order a caller asked to keep. The edges it did not keep are guesses in a cycle, and
  annotations in a cycle; the edges stated as needs have no cycle but of annotations.\<close>

theorem settled_order_respects_every_need:
  assumes "settled s = Inr (seq, kept)"
  shows "distinct seq \<and> set seq = {..<s_steps s}
    \<and> set kept \<subseteq> set (s_constraints s) \<and> (\<forall>c \<in> set kept. runs_before seq (c_before c) (c_after c))
    \<and> (\<forall>k \<in> set (s_keeps s). k_before k = k_after k \<or> runs_before seq (k_before k) (k_after k))
    \<and> (\<forall>c \<in> set (s_constraints s) - set kept.
         c_source c = SGuess \<and> in_cycle (s_constraints s) c \<or> c_source c = SDeclared \<and> in_cycle (stated s) c)
    \<and> only_annotations_cycle (stated s)"
  using settled_facts [of s "[]" seq kept] assms unfolding settled_def by blast

section \<open>Refusals\<close>

lemma least_cycle_mem:
  assumes "\<exists>g \<in> set gs. 1 < length g"
  shows "least_cycle gs \<in> set gs \<and> 1 < length (least_cycle gs)"
proof -
  let ?gs = "filter (\<lambda>g. 1 < length g) gs"
  have "?gs \<noteq> []" using assms by (auto simp: filter_empty_conv)
  then obtain m ms where ms: "?gs = m # ms" by (meson neq_Nil_conv)
  have "foldl min m ms \<in> set (m # ms)" by (induction ms arbitrary: m) (auto simp: min_def)
  then have "least_cycle gs \<in> set ?gs" by (simp only: least_cycle_def ms list.case)
  then show ?thesis by simp
qed

text \<open>The cycle named is a whole component of the stated edges, with an edge that is no annotation.\<close>

lemma cycle_named:
  assumes proper: "proper n cs" and run: "chain_annotations n tie (cs, kahn n cs tie) = (kept, emitted)" and len: "length emitted < n"
  defines "left \<equiv> filter (\<lambda>c. c_before c \<notin> set emitted \<and> c_after c \<notin> set emitted) kept"
  defines "members \<equiv> least_cycle (components n left)"
  shows "\<exists>c. bad cs c \<and> set members = scc (edges_of cs) (c_before c) \<and> members \<in> set (components n left) \<and> 1 < length members
    \<and> {d \<in> set left. c_before d \<in> set members \<and> c_after d \<in> set members} = {d \<in> set cs. c_before d \<in> set members \<and> c_after d \<in> set members}"
proof -
  note facts = chain_facts [OF proper run]
  have sub: "set left \<subseteq> set cs" using facts(1) by (auto simp: left_def)
  note P = proper_subset [OF proper sub]
  note E = proper_within [OF P]
  have whole: "d \<in> set left" if "bad cs c" "d \<in> set cs" "c_before d \<in> scc (edges_of cs) (c_before c)" "c_after d \<in> scc (edges_of cs) (c_before c)" for c d
    using facts(7) [OF that] by (simp add: left_def)
  have "\<not> only_annotations_cycle cs" using facts(5) len by simp
  then obtain c where c: "bad cs c" by (auto simp: only_annotations_bad)
  have scc: "scc (edges_of left) (c_before c) = scc (edges_of cs) (c_before c)" if "bad cs c" for c
  proof
    show "scc (edges_of left) (c_before c) \<subseteq> scc (edges_of cs) (c_before c)" using sub by (intro scc_mono image_mono)
    show "scc (edges_of cs) (c_before c) \<subseteq> scc (edges_of left) (c_before c)"
    proof
      fix x
      assume x: "x \<in> scc (edges_of cs) (c_before c)"
      have inner: "(u, v) \<in> edges_of left" if "(u, v) \<in> edges_of cs" "u \<in> scc (edges_of cs) (c_before c)" "v \<in> scc (edges_of cs) (c_before c)" for u v
      proof -
        from that(1) obtain d where "d \<in> set cs" "c_before d = u" "c_after d = v" by (auto simp: edge_of_def)
        then show ?thesis using whole [OF \<open>bad cs c\<close>, of d] that constraint_edge [of d left] by simp
      qed
      have "(p, q) \<in> (edges_of left)\<^sup>*" if "(p, q) \<in> (edges_of cs)\<^sup>*" "(q, p) \<in> (edges_of cs)\<^sup>*" "q \<in> scc (edges_of cs) (c_before c)" for p q
      proof -
        have "{(a, b) \<in> edges_of cs. a \<in> scc (edges_of cs) q \<and> b \<in> scc (edges_of cs) q} \<subseteq> edges_of left"
          unfolding scc_eq [OF that(3)] using inner by auto
        then show ?thesis using scc_inner_path [OF that(1,2)] rtrancl_mono by blast
      qed
      then show "x \<in> scc (edges_of left) (c_before c)" using x scc_self by (simp add: scc_def)
    qed
  qed
  have "c \<in> set left" using whole [OF c] c by (simp add: bad_def in_cycle_def)
  moreover have "in_cycle left c" using c scc [OF c] by (simp add: in_cycle_def bad_def)
  ultimately obtain g where "g \<in> set (components n left)" "2 \<le> length g" by (rule component_of [OF P])
  then have "\<exists>g \<in> set (components n left). 1 < length g" by (intro bexI [of _ g]) simp_all
  then have m: "members \<in> set (components n left)" "1 < length members" using least_cycle_mem unfolding members_def by blast+
  obtain x y where xy: "x \<in> set members" "y \<in> set members" "x \<noteq> y"
    using m(2) components_member(2) [OF E m(1)] by (metis One_nat_def card_le_Suc0_iff_eq distinct_card finite_set leD)
  have mx: "set members = scc (edges_of left) x" using components_member(5) [OF E m(1) xy(1)] .
  have "(x, y) \<in> (edges_of left)\<^sup>*" "(y, x) \<in> (edges_of left)\<^sup>*" using xy mx by (auto simp: scc_def)
  then obtain z where z: "(x, z) \<in> edges_of left" "(z, y) \<in> (edges_of left)\<^sup>*" using xy(3) by (meson converse_rtranclE)
  then obtain d where d: "d \<in> set left" "c_before d = x" "c_after d = z" by (auto simp: edge_of_def)
  have "in_cycle left d" using d z \<open>(y, x) \<in> (edges_of left)\<^sup>*\<close> by (auto simp: in_cycle_def scc_def intro: rtrancl_trans)
  then have "in_cycle cs d" using in_cycle_mono [OF sub] by blast
  then obtain b where b: "bad cs b" "x \<in> scc (edges_of cs) (c_before b)" using facts(8) [of d] d by (auto simp: left_def)
  have "x \<in> scc (edges_of left) (c_before b)" using b scc by simp
  then have mb: "set members = scc (edges_of cs) (c_before b)" using mx scc_eq scc [OF b(1)] by metis
  then have "{d \<in> set left. c_before d \<in> set members \<and> c_after d \<in> set members} = {d \<in> set cs. c_before d \<in> set members \<and> c_after d \<in> set members}"
    using whole [OF b(1)] sub by blast
  then show ?thesis using b(1) mb m by blast
qed

lemma settled_refused:
  assumes "settled s = Inl (Cycle members edges waiting remedy)"
  shows "schedule_ok s"
  using assms unfolding settled_def settled_trace_def Let_def
  by (auto simp: schedule_ok_def proper_def find_None_iff not_le split: option.splits if_splits)

text \<open>C15. A cycle is refused only when there is one. The members named, ascending, are a strongly connected component of the edges
  stated as needs, with at least two steps; the edges listed are exactly the stated edges between them, no guess among them
  and not all of them annotations; and every member is among the steps reported as waiting.\<close>

theorem a_refused_cycle_is_a_cycle_of_needs:
  assumes "settled s = Inl (Cycle members edges waiting remedy)"
  shows "sorted members \<and> distinct members \<and> 2 \<le> length members \<and> (\<exists>x < s_steps s. set members = scc (edges_of (stated s)) x)
    \<and> set edges = {c \<in> set (stated s). c_before c \<in> set members \<and> c_after c \<in> set members}
    \<and> (\<exists>c \<in> set edges. c_source c \<noteq> SDeclared) \<and> set members \<subseteq> set waiting"
proof -
  let ?n = "s_steps s"
  note ok = settled_refused [OF assms]
  from settled_shape [OF ok, of "[]"] obtain cs kept emitted where out: "settled s = outcome s kept emitted"
    and chain: "chain_annotations ?n (s_tie s) (cs, kahn ?n cs (s_tie s)) = (kept, emitted)" and cs: "after_guesses s cs"
    unfolding settled_def by metis
  from assms out have len: "length emitted < ?n" and refusal: "Cycle members edges waiting remedy = cycle_refusal s kept emitted"
    by (auto simp: outcome_def split: option.splits if_splits)
  define left where "left = filter (\<lambda>c. c_before c \<notin> set emitted \<and> c_after c \<notin> set emitted) kept"
  from refusal have m: "members = least_cycle (components ?n left)" and w: "waiting = filter (\<lambda>i. i \<notin> set emitted) [0..<?n]"
    and e: "set edges = {c \<in> set left. c_before c \<in> set members \<and> c_after c \<in> set members}"
    by (auto simp: cycle_refusal_def Let_def left_def)
  have proper: "proper ?n cs" using cs by (simp add: after_guesses_def)
  have scc: "scc (edges_of (stated s)) x = scc (edges_of cs) x" for x using cs by (simp add: after_guesses_def)
  from cycle_named [OF proper chain len] obtain c where c: "bad cs c" and mc: "set members = scc (edges_of cs) (c_before c)"
    and comp: "members \<in> set (components ?n left)" and big: "1 < length members"
    and ec: "set edges = {d \<in> set cs. c_before d \<in> set members \<and> c_after d \<in> set members}"
    unfolding e m left_def by metis
  have cb: "c \<in> set cs" "in_cycle cs c" "c_source c \<noteq> SDeclared" "c_before c < ?n" using c proper by (auto simp: bad_def proper_def)
  have cin: "c \<in> set edges" using ec cb mc by (simp add: in_cycle_def)
  have "d \<in> set (stated s)" if "d \<in> set cs" "c_before d \<in> set members" "c_after d \<in> set members" for d
  proof -
    have "in_cycle cs d" using that mc scc_eq [of "c_before d" "edges_of cs" "c_before c"] by (simp add: in_cycle_def)
    then show ?thesis using cs that(1) unfolding after_guesses_def stated_def set_filter by blast
  qed
  then have edges: "set edges = {c \<in> set (stated s). c_before c \<in> set members \<and> c_after c \<in> set members}"
    using ec only_annotations_stated(3) [OF cs] by blast
  have sub: "set left \<subseteq> set cs" using chain_facts(1) [OF proper chain] by (auto simp: left_def)
  note E = proper_within [OF proper_subset [OF proper sub]]
  have wait: "x \<in> set waiting" if "x \<in> set members" for x
  proof -
    have "(x, x) \<in> (edges_of left)\<^sup>+"
    proof (rule scc_cycle_transfer [where E = "edges_of left" and b = "c_before c" and a = "c_after c"])
      have "c_before c \<in> set members" "c_after c \<in> set members" "c \<in> set left" using cin e by auto
      then show "(c_before c, c_after c) \<in> edges_of left" "c_after c \<in> scc (edges_of left) (c_before c)" "x \<in> scc (edges_of left) (c_before c)"
        using constraint_edge [of c left] components_member(5) [OF E comp, of "c_before c"] that by auto
    qed
    then obtain z where "(x, z) \<in> edges_of left" by (meson tranclD)
    then obtain d where "d \<in> set left" "c_before d = x" by (auto simp: edge_of_def)
    then show ?thesis using sub proper by (auto simp: w left_def proper_def)
  qed
  have "\<exists>x < ?n. set members = scc (edges_of (stated s)) x" using mc cb(4) unfolding scc by blast
  moreover have "sorted members" "distinct members" using components_member(1,2) [OF E comp] by blast+
  ultimately show ?thesis using big edges cb(3) cin wait by auto
qed

text \<open>C16. A schedule whose edges and kept orders name its own steps and that has no open obligation is ordered, unless its stated
  needs have a cycle that is not of annotations only, or the order they force reverses an order the caller asked to keep, which
  is then the refusal.\<close>

theorem a_schedule_without_a_cycle_is_ordered:
  assumes ok: "schedule_ok s" and only: "only_annotations_cycle (stated s)"
  shows "(\<exists>seq kept. settled s = Inr (seq, kept)) \<or> (\<exists>k \<in> set (s_keeps s). settled s = Inl (Kept k))"
proof -
  let ?n = "s_steps s"
  from settled_shape [OF ok, of "[]"] obtain cs kept emitted where out: "settled s = outcome s kept emitted"
    and chain: "chain_annotations ?n (s_tie s) (cs, kahn ?n cs (s_tie s)) = (kept, emitted)" and cs: "after_guesses s cs"
    unfolding settled_def by metis
  have proper: "proper ?n cs" using cs by (simp add: after_guesses_def)
  have "length emitted = ?n" using chain_facts(5) [OF proper chain] only only_annotations_stated(1) [OF cs] by simp
  then show ?thesis using reversed_run(2) [of "positions ?n emitted" "s_keeps s"] unfolding out outcome_def by (auto split: option.split)
qed

text \<open>An order that already respects every edge and every kept order is given back, with every edge kept, under either
  tie-break.\<close>

theorem the_order_given_is_kept:
  assumes ok: "schedule_ok s" and forward: "\<forall>c \<in> set (s_constraints s). c_before c < c_after c"
    and keeps: "\<forall>k \<in> set (s_keeps s). k_before k \<le> k_after k"
  shows "settled s = Inr ([0..<s_steps s], s_constraints s)"
proof -
  let ?n = "s_steps s"
  have proper: "proper ?n (s_constraints s)" using ok by (simp add: schedule_ok_def)
  have fwd: "a < b" if "(a, b) \<in> edges_of (s_constraints s)" for a b using that forward by (auto simp: edge_of_def)
  have "runs_before [0..<?n] a b" if "(a, b) \<in> edges_of (s_constraints s)" for a b
    using fwd [OF that] proper_within [OF proper] that by (auto simp: before_upt)
  then have ac: "acyclic (edges_of (s_constraints s))" using respected_acyclic [OF distinct_upt] by blast
  from settled_shape [OF ok, of "[]"] obtain cs kept emitted where out: "settled s = outcome s kept emitted"
    and chain: "chain_annotations ?n (s_tie s) (cs, kahn ?n cs (s_tie s)) = (kept, emitted)" and cs: "after_guesses s cs"
    unfolding settled_def by metis
  have eq: "cs = s_constraints s" using cs ac by (simp add: after_guesses_def)
  have emitted: "kept = s_constraints s" "emitted = [0..<?n]"
    using chain_facts(9) [OF proper chain [unfolded eq]] ac kahn_identity [OF proper_within [OF proper] fwd] by auto
  have "\<not> reverses (positions ?n emitted) k" if "k \<in> set (s_keeps s)" for k
    using reverses_positions [of emitted k ?n] ok that keeps unfolding emitted by (auto simp: schedule_ok_def before_upt)
  then have "reversed (positions ?n emitted) (s_keeps s) = None" using reversed_run(1) by blast
  then show ?thesis by (simp add: out outcome_def emitted)
qed

text \<open>C31. Where the edges have no cycle, the order settled is the least of all orders that respect them: at the first place where
  another such order differs, it has a later step. (With the other tie-break, read from the end.)\<close>

theorem the_settled_order_is_the_least:
  assumes "settled s = Inr (seq, kept)" "acyclic (edges_of (s_constraints s))"
    and "distinct ys" "set ys = {..<s_steps s}" "\<forall>c \<in> set (s_constraints s). runs_before ys (c_before c) (c_after c)" "seq \<noteq> ys"
  shows "\<exists>k < s_steps s. case s_tie s of Sink \<Rightarrow> take k seq = take k ys \<and> seq ! k < ys ! k
    | Hoist \<Rightarrow> drop (Suc k) seq = drop (Suc k) ys \<and> ys ! k < seq ! k"
proof -
  let ?n = "s_steps s"
  note ok = settled_ok [OF assms(1) [unfolded settled_def]]
  have proper: "proper ?n (s_constraints s)" using ok by (simp add: schedule_ok_def)
  from settled_shape [OF ok, of "[]"] obtain cs kept' emitted where out: "settled s = outcome s kept' emitted"
    and chain: "chain_annotations ?n (s_tie s) (cs, kahn ?n cs (s_tie s)) = (kept', emitted)" and cs: "after_guesses s cs"
    unfolding settled_def by metis
  have eq: "cs = s_constraints s" using cs assms(2) by (simp add: after_guesses_def)
  have "seq = emitted" using assms(1) out by (auto simp: outcome_def split: option.splits if_splits)
  then have seq: "seq = kahn ?n (s_constraints s) (s_tie s)" using chain_facts(9) [OF proper chain [unfolded eq]] assms(2) by blast
  have "runs_before ys a b" if "(a, b) \<in> edges_of (s_constraints s)" for a b using that assms(5) by (auto simp: edge_of_def)
  from kahn_extreme [OF proper_within [OF proper] assms(3,4) this] assms(6) show ?thesis unfolding seq by blast
qed

section \<open>The settled plan\<close>

lemma final_positions:
  assumes "distinct seq" "\<And>x. x \<in> set seq \<Longrightarrow> x < n" "k < length seq"
  shows "foldl (\<lambda>position (at, step). position[step := at]) (replicate n 0) (enumerate 0 seq) ! (seq ! k) = k"
proof -
  let ?pos = "\<lambda>seq. foldl (\<lambda>position (at, step). position[step := at]) (replicate n 0) (enumerate 0 seq)"
  have "length (?pos seq) = n \<and> (\<forall>k < length seq. ?pos seq ! (seq ! k) = k)"
    using assms(1,2)
  proof (induction seq rule: rev_induct)
    case (snoc e es)
    then have IH: "length (?pos es) = n" "\<And>k. k < length es \<Longrightarrow> ?pos es ! (es ! k) = k" by auto
    have "es ! k \<noteq> e" if "k < length es" for k using that snoc.prems(1) by auto
    then show ?case using IH snoc.prems(2) by (auto simp: enumerate_snoc nth_append less_Suc_eq nth_list_update)
  qed simp
  then show ?thesis using assms(3) by blast
qed

lemma take_steps_run:
  assumes "distinct is" "\<And>i. i \<in> set is \<Longrightarrow> i < length taken \<and> taken ! i = Some (f i)"
  shows "take_steps taken is = Some (map f is)"
  using assms
proof (induction "is" arbitrary: taken)
  case (Cons i "is")
  have "take_steps (taken[i := None]) is = Some (map f is)"
    by (rule Cons.IH) (use Cons.prems in \<open>auto simp: nth_list_update\<close>)
  then show ?case using Cons.prems(2) [of i] by simp
qed simp

text \<open>C30. Settling a plan never stops the program: no step is taken twice and the proof of the order is never refused. The changes
  come out in the order of the sequence, as a permutation of those given, and the proof returned validates against them and
  names every edge kept at its place in the new order. A plan of another length is refused as a mismatch.\<close>

theorem a_settled_plan_carries_a_valid_proof:
  fixes changes :: "'a list"
  shows "case fst (settle_scratch checksum s changes dropped) of
      None \<Rightarrow> False
    | Some (Inl refusal) \<Rightarrow>
        (if length changes = s_steps s then fst (settled_trace s dropped) = Inl refusal
         else refusal = Mismatch (s_steps s) (length changes))
    | Some (Inr d) \<Rightarrow> (\<exists>kept. fst (settled_trace s dropped) = Inr (ds_sequence d, kept)
        \<and> length (ds_changes d) = length changes \<and> ds_changes d = map ((!) changes) (ds_sequence d) \<and> mset (ds_changes d) = mset changes
        \<and> validate_proof checksum (ds_proof d) (ds_changes d) = Inr ()
        \<and> op_edges (ds_proof d) = {OrderEdge i j (c_reason c) |i j c. c \<in> set kept \<and> i < length changes \<and> j < length changes
             \<and> ds_sequence d ! i = c_before c \<and> ds_sequence d ! j = c_after c})"
proof (cases "length changes = s_steps s")
  case True
  show ?thesis
  proof (cases "fst (settled_trace s dropped)")
    case (Inl refusal)
    then show ?thesis using True by (cases "settled_trace s dropped") (simp add: settle_scratch_def)
  next
    case (Inr r)
    obtain seq kept where r: "r = (seq, kept)" by (cases r)
    from settled_facts [OF Inr [unfolded r]] have seq: "distinct seq" "set seq = {..<s_steps s}"
      and fwd: "\<And>c. c \<in> set kept \<Longrightarrow> runs_before seq (c_before c) (c_after c)" by auto
    have len: "length seq = s_steps s" using distinct_card [OF seq(1)] seq(2) by simp
    define pos where "pos = foldl (\<lambda>position (at, step). position[step := at]) (replicate (s_steps s) 0) (enumerate 0 seq)"
    have pos: "pos ! (seq ! k) = k" if "k < length seq" for k unfolding pos_def by (rule final_positions) (use seq that in auto)
    have taken: "take_steps (map Some changes) seq = Some (map ((!) changes) seq)"
      by (rule take_steps_run) (use seq True in auto)
    define edges where "edges = (\<lambda>c. OrderEdge (pos ! c_before c) (pos ! c_after c) (c_reason c)) ` set kept"
    have at: "\<exists>i j. i < j \<and> j < length seq \<and> seq ! i = c_before c \<and> seq ! j = c_after c \<and> pos ! c_before c = i \<and> pos ! c_after c = j"
      if "c \<in> set kept" for c using fwd [OF that] pos unfolding before_iff by (metis less_trans)
    have edges: "edges = {OrderEdge i j (c_reason c) |i j c. c \<in> set kept \<and> i < length changes \<and> j < length changes
             \<and> seq ! i = c_before c \<and> seq ! j = c_after c}" (is "_ = ?E")
    proof (intro equalityI subsetI)
      fix e
      assume "e \<in> edges"
      then obtain c where c: "c \<in> set kept" "e = OrderEdge (pos ! c_before c) (pos ! c_after c) (c_reason c)" by (auto simp: edges_def)
      with at [OF c(1)] len True show "e \<in> ?E" by (auto intro: less_trans)
    next
      fix e
      assume "e \<in> ?E"
      then obtain i j c where c: "e = OrderEdge i j (c_reason c)" "c \<in> set kept" "i < length seq" "j < length seq" "seq ! i = c_before c" "seq ! j = c_after c"
        using len True by auto
      then have "pos ! c_before c = i" "pos ! c_after c = j" using pos by metis+
      with c show "e \<in> edges" by (auto simp: edges_def)
    qed
    have fine: "oe_before e < oe_after e \<and> oe_after e < length seq" if "e \<in> edges" for e using that at by (fastforce simp: edges_def)
    then have valid: "validate_proof checksum \<lparr>op_version = 1, op_changes = checksum (map ((!) changes) seq), op_edges = edges\<rparr> (map ((!) changes) seq) = Inr ()"
      by (auto simp: validate_proof_def not_le)
    have res: "fst (settle_scratch checksum s changes dropped) =
      Some (Inr \<lparr>ds_changes = map ((!) changes) seq,
        ds_proof = \<lparr>op_version = 1, op_changes = checksum (map ((!) changes) seq), op_edges = edges\<rparr>, ds_sequence = seq\<rparr>)"
      using True Inr r valid taken
      by (cases "settled_trace s dropped") (simp add: settle_scratch_def Let_def ordering_proof_new_def flip: pos_def edges_def)
    have "set seq = set [0..<length changes]" using seq(2) True by (simp add: atLeast0LessThan)
    then have "mset seq = mset [0..<length changes]" using set_eq_iff_mset_eq_distinct [OF seq(1) distinct_upt] by blast
    then have "mset (map ((!) changes) seq) = mset changes" by (metis map_nth mset_map)
    then show ?thesis using Inr r True len valid edges by (simp add: res)
  qed
qed (simp add: settle_scratch_def)

section \<open>Steps moved\<close>

lemma moved_from_count:
  "moved_from furthest k xs =
     k + card {j. j < length xs \<and> ((\<exists>f. furthest = Some f \<and> xs ! j < f) \<or> (\<exists>i < j. xs ! j < xs ! i))}"
proof (induction xs arbitrary: furthest k)
  case (Cons x xs)
  let ?late = "\<lambda>j. (\<exists>f. furthest = Some f \<and> (x # xs) ! j < f) \<or> (\<exists>i < j. (x # xs) ! j < (x # xs) ! i)"
  let ?next = "Some (case furthest of None \<Rightarrow> x | Some f \<Rightarrow> max f x)"
  let ?first = "case furthest of None \<Rightarrow> False | Some f \<Rightarrow> f > x"
  have later: "?late (Suc j) \<longleftrightarrow> (\<exists>f. ?next = Some f \<and> xs ! j < f) \<or> (\<exists>i < j. xs ! j < xs ! i)" for j
    by (auto simp: less_Suc_eq_0_disj split: option.split)
  have split: "{j. j < length (x # xs) \<and> ?late j} = (if ?first then {0} else {}) \<union> Suc ` {j. j < length xs \<and> ?late (Suc j)}"
    (is "?S = ?T")
  proof (intro set_eqI)
    fix j
    show "j \<in> ?S \<longleftrightarrow> j \<in> ?T" by (cases j) (auto split: option.splits)
  qed
  have "card {j. j < length (x # xs) \<and> ?late j} = (if ?first then 1 else 0) + card {j. j < length xs \<and> ?late (Suc j)}"
    unfolding split by (simp add: card_image)
  then show ?case using Cons.IH [of ?next "if ?first then k + 1 else k"] unfolding later by simp
qed simp

text \<open>The count of steps moved is the number of places in the settled order that some later step now precedes; it is none
  exactly when the order is the one given.\<close>

theorem moved_counts_the_steps_overtaken:
  "moved seq = card {j. j < length seq \<and> (\<exists>i < j. seq ! j < seq ! i)}
   \<and> (moved seq = 0 \<longleftrightarrow> sorted seq)"
proof -
  have count: "moved seq = card {j. j < length seq \<and> (\<exists>i < j. seq ! j < seq ! i)}"
    by (simp add: moved_def moved_from_count)
  have "finite {j. j < length seq \<and> (\<exists>i < j. seq ! j < seq ! i)}" by simp
  then have "moved seq = 0 \<longleftrightarrow> (\<forall>j < length seq. \<forall>i < j. seq ! i \<le> seq ! j)"
    unfolding count using not_le by auto
  then show ?thesis using count by (auto simp: sorted_iff_nth_mono_less)
qed

section \<open>Examples\<close>

text \<open>Two annotations in a cycle, a need, a guess and a kept order; a guess against two needs; three needs in a cycle.\<close>

definition annotated_example :: schedule where
  "annotated_example =
     keep_order 2 1 ''kept'' (prefer_edge 2 1 RData (edge 2 0 SEffect RStructural (edge 0 1 SDeclared RStructural
       (edge 1 0 SDeclared RStructural (schedule_new 3)))))"

definition guessed_example :: schedule where
  "guessed_example = prefer_edge 1 2 RData (edge 2 0 SEffect RStructural (edge 0 1 SEffect RData (schedule_new 3)))"

definition cyclic_example :: schedule where
  "cyclic_example = edge 1 2 SCatalog RData (edge 2 0 SEffect RStructural (edge 0 1 SEffect RData (schedule_new 4)))"

definition forward_example :: schedule where
  "forward_example = keep_order 0 2 ''kept'' (edge 1 2 SEffect RStructural (edge 0 1 SEffect RData (schedule_new 3)))"

definition sinking_example :: schedule where
  "sinking_example = edge 2 0 SEffect RStructural (schedule_new 3)"

lemma ranked_no_cycle:
  fixes f :: "nat \<Rightarrow> nat"
  assumes "\<And>c. c \<in> set cs \<Longrightarrow> f (c_before c) < f (c_after c)"
  shows "only_annotations_cycle cs"
proof -
  have le: "f a \<le> f b" if "(a, b) \<in> (edges_of cs)\<^sup>*" for a b
    using that by (induction rule: rtrancl_induct) (use assms in \<open>fastforce simp: edge_of_def\<close>)+
  have "\<not> in_cycle cs c" if "c \<in> set cs" for c using le [of "c_after c" "c_before c"] assms [OF that] by (auto simp: in_cycle_def scc_def)
  then show ?thesis by (simp add: only_annotations_cycle_def)
qed

theorem settled_order_respects_every_need_witness:
  "settled annotated_example = Inr ([2, 0, 1], [Constraint 2 0 SEffect RStructural, Constraint 2 1 SGuess RData])
   \<and> set [2, 0, 1] = {..<s_steps annotated_example} \<and> runs_before [2, 0, 1] 2 (0 :: nat) \<and> runs_before [2, 0, 1] 2 (1 :: nat)
   \<and> in_cycle (stated annotated_example) (Constraint 0 1 SDeclared RStructural) \<and> only_annotations_cycle (stated annotated_example)"
proof -
  have run: "settled annotated_example = Inr ([2, 0, 1], [Constraint 2 0 SEffect RStructural, Constraint 2 1 SGuess RData])" by code_simp
  have mem: "Constraint 0 1 SDeclared RStructural \<in> set (s_constraints annotated_example)" "Keep 2 1 ''kept'' \<in> set (s_keeps annotated_example)"
    by code_simp+
  let ?c = "Constraint 0 1 SDeclared RStructural" and ?kept = "[Constraint 2 0 SEffect RStructural, Constraint 2 1 SGuess RData]"
  note facts = settled_order_respects_every_need [OF run]
  have "runs_before [2, 0, 1] 2 (0 :: nat)" using facts by simp
  moreover have "k_before (Keep 2 1 ''kept'') = k_after (Keep 2 1 ''kept'')
      \<or> runs_before [2, 0, 1] (k_before (Keep 2 1 ''kept'')) (k_after (Keep 2 1 ''kept''))"
    using facts mem(2) by blast
  moreover have "?c \<in> set (s_constraints annotated_example) - set ?kept" using mem(1) by simp
  then have "c_source ?c = SGuess \<and> in_cycle (s_constraints annotated_example) ?c \<or> c_source ?c = SDeclared \<and> in_cycle (stated annotated_example) ?c"
    using facts by blast
  ultimately show ?thesis using run facts by simp
qed

theorem a_refused_cycle_is_a_cycle_of_needs_witness:
  "settled cyclic_example = Inl (Cycle [0, 1, 2] [Constraint 0 1 SEffect RData, Constraint 1 2 SCatalog RData, Constraint 2 0 SEffect RStructural]
     [0, 1, 2] None)
   \<and> (\<exists>x < 4. set [0, 1, 2] = scc (edges_of (stated cyclic_example)) x)"
proof -
  have run: "settled cyclic_example = Inl (Cycle [0, 1, 2]
      [Constraint 0 1 SEffect RData, Constraint 1 2 SCatalog RData, Constraint 2 0 SEffect RStructural] [0, 1, 2] None)" by code_simp
  have "s_steps cyclic_example = 4" by code_simp
  then show ?thesis using a_refused_cycle_is_a_cycle_of_needs [OF run] run by simp
qed

theorem a_schedule_without_a_cycle_is_ordered_witness:
  "(\<exists>seq kept. settled guessed_example = Inr (seq, kept)) \<and> stated guessed_example \<noteq> s_constraints guessed_example"
proof -
  have "list_all (\<lambda>c. [1, 2, 0] ! c_before c < ([1, 2, 0] ! c_after c :: nat)) (stated guessed_example)" by code_simp
  then have "only_annotations_cycle (stated guessed_example)" by (intro ranked_no_cycle [where f = "(!) [1, 2, 0]"]) (simp add: list_all_iff)
  moreover have "schedule_ok guessed_example" unfolding schedule_ok_def proper_def by code_simp
  moreover have "s_keeps guessed_example = []" "stated guessed_example \<noteq> s_constraints guessed_example" by code_simp+
  ultimately show ?thesis using a_schedule_without_a_cycle_is_ordered [of guessed_example] by simp
qed

theorem the_order_given_is_kept_witness:
  "settled forward_example = Inr ([0, 1, 2], [Constraint 0 1 SEffect RData, Constraint 1 2 SEffect RStructural])"
proof -
  have ok: "schedule_ok forward_example" unfolding schedule_ok_def proper_def by code_simp
  have "\<forall>c \<in> set (s_constraints forward_example). c_before c < c_after c" "\<forall>k \<in> set (s_keeps forward_example). k_before k \<le> k_after k" by code_simp+
  from the_order_given_is_kept [OF ok this] have "settled forward_example = Inr ([0..<s_steps forward_example], s_constraints forward_example)" .
  moreover have "[0..<s_steps forward_example] = [0, 1, 2]"
    "s_constraints forward_example = [Constraint 0 1 SEffect RData, Constraint 1 2 SEffect RStructural]" by code_simp+
  ultimately show ?thesis by simp
qed

theorem the_settled_order_is_the_least_witness:
  "settled sinking_example = Inr ([1, 2, 0], [Constraint 2 0 SEffect RStructural])
   \<and> (\<exists>k < 3. take k [1, 2, 0] = take k [2, 0, 1 :: nat] \<and> [1, 2, 0] ! k < ([2, 0, 1] ! k :: nat))"
proof -
  have run: "settled sinking_example = Inr ([1, 2, 0], [Constraint 2 0 SEffect RStructural])" by code_simp
  have cs: "s_constraints sinking_example = [Constraint 2 0 SEffect RStructural]" "s_steps sinking_example = 3" "s_tie sinking_example = Sink" by code_simp+
  have "acyclic (edges_of (s_constraints sinking_example))"
    by (rule respected_acyclic [of "[2, 0, 1]"]) (auto simp: cs edge_of_def before_Cons)
  from the_settled_order_is_the_least [OF run this, of "[2, 0, 1]"] show ?thesis using run by (simp add: cs before_Cons lessThan_nat_numeral lessThan_Suc insert_commute)
qed

end
