(* ===== verification/Civil.thy ===== *)
theory Civil
  imports Rust_Str
begin

text \<open>
  \<open>crates/pbps-policy/src/civil.rs\<close>: civil dates from Unix times, and the readers of offsets, clock times, weekdays and dates.
  \<open>i64\<close>, \<open>i32\<close> and \<open>u32\<close> values are integers: \<open>instants_fit\<close> bounds what \<open>at\<close> computes on the way. \<open>div_euclid\<close> and
  \<open>rem_euclid\<close> by a positive number are \<open>div\<close> and \<open>mod\<close>; \<open>/\<close> and \<open>%\<close> stand between non-negative numbers in the code, where
  they are the same. An error message names only the text refused: the text is the error here.
\<close>

section \<open>The calendar\<close>

record civil =
  cv_year :: int
  cv_month :: int
  cv_day :: int
  cv_hour :: int
  cv_minute :: int
  cv_weekday :: int

text \<open>The zero-padded width of \<open>{:04}\<close> and \<open>{:02}\<close>.\<close>

definition zero_padded :: "nat \<Rightarrow> int \<Rightarrow> string" where
  "zero_padded w i =
     (if i < 0 then CHR ''-'' # replicate (w - 1 - length (decimal (nat (- i)))) (CHR ''0'') @ decimal (nat (- i))
      else replicate (w - length (decimal (nat i))) (CHR ''0'') @ decimal (nat i))"

definition date_of :: "int \<times> int \<times> int \<Rightarrow> string" where
  "date_of d = (case d of (year, month, day) \<Rightarrow> zero_padded 4 year @ ''-'' @ zero_padded 2 month @ ''-'' @ zero_padded 2 day)"

definition date :: "civil \<Rightarrow> string" where
  "date c = date_of (cv_year c, cv_month c, cv_day c)"

definition minute_of_day :: "civil \<Rightarrow> int" where
  "minute_of_day c = cv_hour c * 60 + cv_minute c"

definition year_of_era :: "int \<Rightarrow> int" where
  "year_of_era doe = (doe - doe div 1460 + doe div 36524 - doe div 146096) div 365"

definition month_and_day :: "int \<Rightarrow> int \<times> int" where
  "month_and_day doy =
     (let mp = (5 * doy + 2) div 153
      in (if mp < 10 then mp + 3 else mp - 9, doy - (153 * mp + 2) div 5 + 1))"

definition civil_from_days :: "int \<Rightarrow> int \<times> int \<times> int" where
  "civil_from_days z =
     (let z = z + 719468;
          era = z div 146097;
          doe = z mod 146097;
          yoe = year_of_era doe;
          y = yoe + era * 400;
          doy = doe - (365 * yoe + yoe div 4 - yoe div 100);
          (m, d) = month_and_day doy
      in (if m \<le> 2 then y + 1 else y, m, d))"

definition at :: "int \<Rightarrow> int \<Rightarrow> civil" where
  "at unix_seconds offset_minutes =
     (let local = unix_seconds + offset_minutes * 60;
          days = local div 86400;
          rem = local mod 86400;
          (year, month, day) = civil_from_days days
      in \<lparr>cv_year = year, cv_month = month, cv_day = day, cv_hour = rem div 3600, cv_minute = (rem mod 3600) div 60,
          cv_weekday = (days + 3) mod 7\<rparr>)"

definition is_leap :: "int \<Rightarrow> bool" where
  "is_leap year \<longleftrightarrow> year mod 4 = 0 \<and> (year mod 100 \<noteq> 0 \<or> year mod 400 = 0)"

definition days_in_month :: "int \<Rightarrow> int \<Rightarrow> int" where
  "days_in_month year month =
     (if month \<in> {1, 3, 5, 7, 8, 10, 12} then 31
      else if month \<in> {4, 6, 9, 11} then 30
      else if month = 2 then (if is_leap year then 29 else 28)
      else 0)"

section \<open>The Gregorian calendar\<close>

text \<open>The reference: the day after a date.\<close>

definition next_day :: "int \<times> int \<times> int \<Rightarrow> int \<times> int \<times> int" where
  "next_day x =
     (case x of (y, m, d) \<Rightarrow>
        if d < days_in_month y m then (y, m, d + 1) else if m < 12 then (y, m + 1, 1) else (y + 1, 1, 1))"

definition real_date :: "int \<times> int \<times> int \<Rightarrow> bool" where
  "real_date x = (case x of (y, m, d) \<Rightarrow> 1 \<le> m \<and> m \<le> 12 \<and> 1 \<le> d \<and> d \<le> days_in_month y m)"

text \<open>The days of an era of 400 years that start in March: \<open>c\<close> centuries, \<open>q\<close> cycles of four years, \<open>k\<close> years and \<open>doy\<close> days.\<close>

definition era_day :: "int \<Rightarrow> int \<Rightarrow> int \<Rightarrow> int \<Rightarrow> bool" where
  "era_day c q k doy \<longleftrightarrow> 0 \<le> c \<and> c \<le> 3 \<and> 0 \<le> q \<and> q \<le> 24 \<and> 0 \<le> k \<and> k \<le> 3 \<and> 0 \<le> doy
     \<and> doy \<le> (if k = 3 \<and> (q \<noteq> 24 \<or> c = 3) then 365 else 364)"

abbreviation doe_of :: "int \<Rightarrow> int \<Rightarrow> int \<Rightarrow> int \<Rightarrow> int" where
  "doe_of c q k doy \<equiv> 36524 * c + 1461 * q + 365 * k + doy"

lemma era_day_exists:
  assumes "0 \<le> doe" "doe < 146097"
  obtains c q k doy where "era_day c q k doy" "doe = doe_of c q k doy"
proof -
  define c where "c = min 3 (doe div 36524)"
  define r where "r = doe - 36524 * c"
  define q where "q = r div 1461"
  define t where "t = r mod 1461"
  define k where "k = min 3 (t div 365)"
  have c: "0 \<le> c" "c \<le> 3" "0 \<le> r" "r < 36524 \<or> c = 3 \<and> r \<le> 36524"
    using assms unfolding c_def r_def min_def by auto
  have q: "0 \<le> q" "q \<le> 24" "r = 1461 * q + t" "0 \<le> t" "t < 1461"
    using c unfolding q_def t_def by auto
  have k: "0 \<le> k" "k \<le> 3" "0 \<le> t - 365 * k" "t - 365 * k \<le> (if k = 3 then 365 else 364)"
    using q unfolding k_def min_def by auto
  have "era_day c q k (t - 365 * k)"
    using c q k unfolding era_day_def by (auto split: if_splits)
  moreover have "doe = doe_of c q k (t - 365 * k)" using q(3) by (simp add: r_def)
  ultimately show thesis by (rule that)
qed

lemma era_day_year:
  assumes "era_day c q k doy"
  shows "year_of_era (doe_of c q k doy) = 100 * c + 4 * q + k"
proof -
  let ?doe = "doe_of c q k doy"
  have b: "0 \<le> c" "c \<le> 3" "0 \<le> q" "q \<le> 24" "0 \<le> k" "k \<le> 3" "0 \<le> doy" "doy \<le> 365"
    "doy = 365 \<Longrightarrow> k = 3 \<and> (q \<noteq> 24 \<or> c = 3)"
    using assms unfolding era_day_def by (auto split: if_splits)
  let ?t = "24 * c + q + 365 * k + doy"
  have quarter: "?doe div 1460 = 25 * c + q + (if ?t \<ge> 1460 then 1 else 0)" using b by auto
  have last: "?doe = 146096 \<longleftrightarrow> c = 3 \<and> q = 24 \<and> k = 3 \<and> doy = 365" using b by auto
  have century: "?doe div 36524 = c + (if ?doe = 146096 then 1 else 0)"
  proof (cases "?doe = 146096")
    case True
    then show ?thesis using last by simp
  next
    case False
    then have "1461 * q + 365 * k + doy < 36524" using b last by (cases "doy = 365") auto
    then have "(36524 * c + (1461 * q + 365 * k + doy)) div 36524 = c" using b by simp
    then show ?thesis using False by (simp add: add.assoc)
  qed
  have era: "?doe div 146096 = (if ?doe = 146096 then 1 else 0)" using b by auto
  have rest: "doy - (if ?t \<ge> 1460 then 1 else 0) \<ge> 0 \<and> doy - (if ?t \<ge> 1460 then 1 else 0) < 365"
    using b by (cases "doy = 365") auto
  define u where "u = doy - (if ?t \<ge> 1460 then 1 else 0)"
  have days: "?doe - ?doe div 1460 + ?doe div 36524 - ?doe div 146096 = 365 * (100 * c + 4 * q + k) + u"
    unfolding quarter century era u_def by simp
  have "0 \<le> u" "u < 365" using rest unfolding u_def by auto
  then show ?thesis unfolding year_of_era_def days by simp
qed

text \<open>What \<open>civil_from_days\<close> computes on such a day.\<close>

definition era_date :: "int \<Rightarrow> int \<Rightarrow> int \<Rightarrow> int \<times> int \<times> int" where
  "era_date era Y doy = (case month_and_day doy of (m, d) \<Rightarrow> (if m \<le> 2 then Y + era * 400 + 1 else Y + era * 400, m, d))"

lemma civil_era_day:
  assumes day: "era_day c q k doy"
  shows "civil_from_days (146097 * era + doe_of c q k doy - 719468) = era_date era (100 * c + 4 * q + k) doy"
proof -
  define doe Y where "doe = doe_of c q k doy" and "Y = 100 * c + 4 * q + k"
  have b: "0 \<le> c" "c \<le> 3" "0 \<le> q" "q \<le> 24" "0 \<le> k" "k \<le> 3" "0 \<le> doy" "doy \<le> 365"
    using day unfolding era_day_def by (auto split: if_splits)
  then have doe: "0 \<le> doe" "doe < 146097" unfolding doe_def by auto
  have "Y div 4 = 25 * c + q" "Y div 100 = c" using b unfolding Y_def by auto
  then have doy: "doe - (365 * Y + Y div 4 - Y div 100) = doy" by (simp add: doe_def Y_def)
  have Y: "year_of_era doe = Y" using era_day_year [OF day] by (simp add: doe_def Y_def)
  define z where "z = 146097 * era + doe"
  have z: "z div 146097 = era" "z mod 146097 = doe" using doe unfolding z_def by auto
  have "civil_from_days (z - 719468) = era_date era Y doy"
    unfolding civil_from_days_def Let_def era_date_def diff_add_cancel z Y doy ..
  then show ?thesis unfolding z_def doe_def Y_def .
qed

text \<open>The months of a year that starts in March, day by day.\<close>

definition march_step :: "int \<Rightarrow> bool" where
  "march_step doy =
     (case (month_and_day doy, month_and_day (doy + 1)) of ((m, d), (m', d')) \<Rightarrow>
        1 \<le> m \<and> m \<le> 12 \<and> 1 \<le> d \<and> (m \<noteq> 2 \<longrightarrow> d \<le> days_in_month 1 m) \<and> (m = 2 \<longrightarrow> doy = 336 + d)
        \<and> (if m = 2 \<or> d < days_in_month 1 m then m' = m \<and> d' = d + 1
           else d' = 1 \<and> (if m < 12 then m' = m + 1 else m' = 1))
        \<and> (m \<le> 2 \<longrightarrow> m' \<le> 2))"

lemma march_steps: "list_all march_step (map int [0..<365])"
  by code_simp

lemma march_step:
  assumes "0 \<le> doy" "doy \<le> 364"
  shows "march_step doy"
proof -
  have "doy = int (nat doy)" "nat doy \<in> set [0..<365]" using assms by auto
  then have "doy \<in> set (map int [0..<365])" by (metis image_eqI set_map)
  then show ?thesis using march_steps unfolding list_all_iff by blast
qed

lemma month_lengths: "m \<noteq> 2 \<Longrightarrow> days_in_month y m = days_in_month 1 m"
  by (simp add: days_in_month_def)

text \<open>The year of an era that starts in March ends with a leap day exactly when the next civil year is a leap year.\<close>

lemma era_leap:
  assumes "0 \<le> c" "c \<le> 3" "0 \<le> q" "q \<le> 24" "0 \<le> k" "k \<le> 3"
  shows "is_leap (100 * c + 4 * q + k + era * 400 + 1) \<longleftrightarrow> k = 3 \<and> (q \<noteq> 24 \<or> c = 3)"
proof -
  let ?y = "100 * c + 4 * q + k + era * 400 + 1"
  have wrap: "(n * a + x) mod n = 0 \<longleftrightarrow> x = n" if "0 < x" "x \<le> n" for n a x :: int
    using that by (cases "x = n") simp_all
  have y4: "?y = 4 * (25 * c + q + 100 * era) + (k + 1)" by simp
  have "?y mod 4 = 0 \<longleftrightarrow> k + 1 = 4" unfolding y4 by (rule wrap) (use assms in auto)
  moreover have y100: "?y = 100 * (c + 4 * era) + (4 * q + k + 1)" by simp
  have "?y mod 100 = 0 \<longleftrightarrow> 4 * q + k + 1 = 100" unfolding y100 by (rule wrap) (use assms in auto)
  moreover have y400: "?y = 400 * era + (100 * c + 4 * q + k + 1)" by simp
  have "?y mod 400 = 0 \<longleftrightarrow> 100 * c + 4 * q + k + 1 = 400" unfolding y400 by (rule wrap) (use assms in auto)
  moreover have "4 * q + k + 1 = 100 \<longleftrightarrow> q = 24 \<and> k = 3" "100 * c + 4 * q + k + 1 = 400 \<longleftrightarrow> c = 3 \<and> q = 24 \<and> k = 3"
    using assms by presburger+
  ultimately show ?thesis unfolding is_leap_def by auto
qed

lemma era_date_next:
  assumes day: "era_day c q k doy"
  defines "Y \<equiv> 100 * c + 4 * q + k" and "len \<equiv> (if k = 3 \<and> (q \<noteq> 24 \<or> c = 3) then 365 else 364)"
  shows "next_day (era_date era Y doy) = (if doy < len then era_date era Y (doy + 1) else era_date era (Y + 1) 0)"
    "real_date (era_date era Y doy)"
proof -
  have b: "0 \<le> c" "c \<le> 3" "0 \<le> q" "q \<le> 24" "0 \<le> k" "k \<le> 3" "0 \<le> doy" "doy \<le> len"
    using day unfolding era_day_def len_def by auto
  have leap: "is_leap (Y + era * 400 + 1) \<longleftrightarrow> len = 365" using era_leap [OF b(1-6), of era] by (auto simp: len_def Y_def)
  have first: "month_and_day 0 = (3, 1)" "month_and_day 364 = (2, 28)" "month_and_day 365 = (2, 29)" by code_simp+
  have "next_day (era_date era Y doy) = (if doy < len then era_date era Y (doy + 1) else era_date era (Y + 1) 0) \<and> real_date (era_date era Y doy)"
  proof (cases "doy \<le> 363")
    case True
    obtain m d m' d' where md: "month_and_day doy = (m, d)" "month_and_day (doy + 1) = (m', d')" by (meson surj_pair)
    have "march_step doy" using march_step b(7) True by simp
    then have st: "1 \<le> m" "m \<le> 12" "1 \<le> d" "m \<noteq> 2 \<Longrightarrow> d \<le> days_in_month 1 m" "m = 2 \<Longrightarrow> doy = 336 + d"
      "if m = 2 \<or> d < days_in_month 1 m then m' = m \<and> d' = d + 1 else d' = 1 \<and> (if m < 12 then m' = m + 1 else m' = 1)" "m \<le> 2 \<Longrightarrow> m' \<le> 2"
      unfolding march_step_def md by auto
    have len: "doy < len" using True by (simp add: len_def)
    define y where "y = (if m \<le> 2 then Y + era * 400 + 1 else Y + era * 400)"
    have today: "era_date era Y doy = (y, m, d)" by (simp add: era_date_def md y_def)
    have tomorrow: "era_date era Y (doy + 1) = ((if m' \<le> 2 then Y + era * 400 + 1 else Y + era * 400), m', d')"
      by (simp add: era_date_def md)
    show ?thesis
    proof (cases "m = 2")
      case m2: True
      then have "m' = 2" "d' = d + 1" "d < days_in_month y m" using st True by (auto simp: days_in_month_def)
      then show ?thesis unfolding today tomorrow using m2 len st(3) by (simp add: next_day_def real_date_def y_def)
    next
      case False
      have dim: "days_in_month y m = days_in_month 1 m" using month_lengths [OF False] .
      have "next_day (y, m, d) = ((if m' \<le> 2 then Y + era * 400 + 1 else Y + era * 400), m', d')"
      proof (cases "d < days_in_month 1 m")
        case True
        then have "m' = m" "d' = d + 1" using st(6) by auto
        then show ?thesis unfolding next_day_def prod.case dim using True by (simp add: y_def)
      next
        case d: False
        then have "d' = 1" "m' = (if m < 12 then m + 1 else 1)" using st(6) False by (auto split: if_splits)
        then show ?thesis unfolding next_day_def prod.case dim using d False st(1,2) by (auto simp: y_def)
      qed
      moreover have "real_date (y, m, d)" unfolding real_date_def prod.case dim using st False by simp
      ultimately show ?thesis unfolding today tomorrow using len by simp
    qed
  next
    case False
    moreover have "len = 364 \<or> len = 365" by (simp add: len_def)
    ultimately have "doy = 364 \<or> doy = 365 \<and> len = 365" using b(8) by auto
    then consider "doy = 364" | "doy = 365" "len = 365" by blast
    then show ?thesis
      by cases (auto simp: era_date_def next_day_def real_date_def first days_in_month_def leap len_def)
  qed
  then show "next_day (era_date era Y doy) = (if doy < len then era_date era Y (doy + 1) else era_date era (Y + 1) 0)"
    "real_date (era_date era Y doy)" by auto
qed

lemma era_date_wrap: "era_date (era + 1) 0 doy = era_date era 400 doy"
  by (simp add: era_date_def split: prod.split)

lemma era_day_next:
  assumes day: "era_day c q k doy"
  defines "Y \<equiv> 100 * c + 4 * q + k" and "len \<equiv> (if k = 3 \<and> (q \<noteq> 24 \<or> c = 3) then 365 else 364)"
  shows "civil_from_days (146097 * era + (doe_of c q k doy + 1) - 719468) =
    (if doy < len then era_date era Y (doy + 1) else era_date era (Y + 1) 0)"
proof (cases "doy < len")
  case True
  then have "era_day c q k (doy + 1)" using day unfolding era_day_def len_def by (simp split: if_splits)
  from civil_era_day [OF this, of era] show ?thesis using True by (simp add: Y_def add.assoc)
next
  case False
  have b: "0 \<le> c" "c \<le> 3" "0 \<le> q" "q \<le> 24" "0 \<le> k" "k \<le> 3" "doy = len"
    using day False unfolding era_day_def len_def by auto
  consider "k < 3" | "k = 3" "q < 24" | "k = 3" "q = 24" "c < 3" | "k = 3" "q = 24" "c = 3" using b by linarith
  then show ?thesis
  proof cases
    case 1
    then have "era_day c q (k + 1) 0" using b by (simp add: era_day_def)
    from civil_era_day [OF this, of era] show ?thesis using 1 b(7) by (simp add: Y_def len_def add.assoc distrib_left)
  next
    case 2
    then have "era_day c (q + 1) 0 0" using b by (simp add: era_day_def)
    from civil_era_day [OF this, of era] show ?thesis using 2 b(7) by (simp add: Y_def len_def add.assoc distrib_left)
  next
    case 3
    then have "era_day (c + 1) 0 0 0" using b by (simp add: era_day_def)
    from civil_era_day [OF this, of era] show ?thesis using 3 b(7) by (simp add: Y_def len_def add.assoc distrib_left)
  next
    case 4
    have "era_day 0 0 0 0" by (simp add: era_day_def)
    from civil_era_day [OF this, of "era + 1"] show ?thesis
      using 4 b(7) era_date_wrap by (simp add: Y_def len_def)
  qed
qed

lemma days_cases:
  obtains era c q k doy where "era_day c q k doy" "z = 146097 * era + doe_of c q k doy - 719468"
proof -
  define doe where "doe = (z + 719468) mod 146097"
  have "0 \<le> doe" "doe < 146097" by (simp_all add: doe_def)
  then obtain c q k doy where "era_day c q k doy" "doe = doe_of c q k doy" by (rule era_day_exists)
  moreover have "z = 146097 * ((z + 719468) div 146097) + doe - 719468" unfolding doe_def by (simp add: mult_div_mod_eq)
  ultimately show thesis using that by metis
qed

lemma civil_next: "civil_from_days (z + 1) = next_day (civil_from_days z)" and civil_real: "real_date (civil_from_days z)"
proof -
  obtain era c q k doy where day: "era_day c q k doy" and z: "z = 146097 * era + doe_of c q k doy - 719468" by (rule days_cases)
  note today = civil_era_day [OF day, of era, folded z]
  have "z + 1 = 146097 * era + (doe_of c q k doy + 1) - 719468" by (simp add: z)
  then show "civil_from_days (z + 1) = next_day (civil_from_days z)"
    unfolding today era_date_next(1) [OF day] using era_day_next [OF day, of era] by (simp only:)
  show "real_date (civil_from_days z)" unfolding today by (rule era_date_next(2) [OF day])
qed

text \<open>C17. The calendar is the Gregorian one, in both directions from the epoch: day 0 is 1 January 1970, each day is followed by the
  next date of the calendar, and each is a date that exists.\<close>

theorem civil_from_days_is_the_gregorian_calendar:
  "civil_from_days 0 = (1970, 1, 1) \<and> civil_from_days (z + 1) = next_day (civil_from_days z) \<and> real_date (civil_from_days z)"
proof -
  have "civil_from_days 0 = (1970, 1, 1)" by code_simp
  then show ?thesis using civil_next civil_real by blast
qed

lemma instants_fit:
  fixes t off :: int
  assumes "\<bar>t\<bar> < 2 ^ 62" "\<bar>off\<bar> < 2 ^ 31"
  shows "\<bar>t + off * 60\<bar> < 2 ^ 63" "\<bar>(t + off * 60) div 86400 + 719468\<bar> < 2 ^ 63"
proof -
  show l: "\<bar>t + off * 60\<bar> < 2 ^ 63" using assms by (simp add: abs_less_iff)
  have "\<bar>(t + off * 60) div 86400\<bar> < 2 ^ 62" using assms by (simp add: abs_less_iff) linarith
  then show "\<bar>(t + off * 60) div 86400 + 719468\<bar> < 2 ^ 63" by (simp add: abs_less_iff)
qed

section \<open>Instants\<close>

text \<open>C33. The civil time of an instant is the date of its local day, with the clock time within that day and the weekday counted on from
  the epoch's Thursday. The seconds that the clock time leaves out are those of a minute.\<close>

theorem at_splits_the_local_instant:
  "\<exists>days s. at t offset = \<lparr>cv_year = fst (civil_from_days days), cv_month = fst (snd (civil_from_days days)),
       cv_day = snd (snd (civil_from_days days)), cv_hour = cv_hour (at t offset), cv_minute = cv_minute (at t offset), cv_weekday = (days + 3) mod 7\<rparr>
     \<and> t + 60 * offset = 86400 * days + 60 * minute_of_day (at t offset) + s \<and> 0 \<le> s \<and> s < 60
     \<and> 0 \<le> cv_hour (at t offset) \<and> cv_hour (at t offset) < 24 \<and> 0 \<le> cv_minute (at t offset) \<and> cv_minute (at t offset) < 60"
proof -
  define local where "local = t + offset * 60"
  define days where "days = local div 86400"
  define rem where "rem = local mod 86400"
  have rem: "0 \<le> rem" "rem < 86400" "local = 86400 * days + rem" by (simp_all add: rem_def days_def)
  obtain y m d where ymd: "civil_from_days days = (y, m, d)" by (metis prod_cases3)
  have at: "at t offset = \<lparr>cv_year = y, cv_month = m, cv_day = d, cv_hour = rem div 3600, cv_minute = (rem mod 3600) div 60, cv_weekday = (days + 3) mod 7\<rparr>"
    unfolding at_def Let_def local_def [symmetric] days_def [symmetric] rem_def [symmetric] ymd by simp
  have clock: "rem = 3600 * (rem div 3600) + 60 * ((rem mod 3600) div 60) + (rem mod 3600) mod 60" by simp
  have "0 \<le> rem div 3600" "rem div 3600 < 24" "0 \<le> rem mod 3600" "rem mod 3600 < 3600" using rem by auto
  moreover from this have "0 \<le> rem mod 3600 div 60" "rem mod 3600 div 60 < 60" by auto
  ultimately show ?thesis
    using rem(3) clock
    by (intro exI [of _ days] exI [of _ "(rem mod 3600) mod 60"]) (simp add: at ymd minute_of_day_def local_def)
qed

end
