(* ===== verification/Civil_Text.thy ===== *)
theory Civil_Text
  imports Civil
begin

text \<open>
  The readers of \<open>crates/pbps-policy/src/civil.rs\<close>, each characterised by the texts it accepts, and the order of dates written as
  text. A refused text is the error.
\<close>

section \<open>The readers\<close>

definition two_digits :: "string \<Rightarrow> int option" where
  "two_digits s =
     (if length s \<noteq> 2 \<or> \<not> list_all is_ascii_digit s then None
      else Some (int (byte (s ! 0) - 48) * 10 + int (byte (s ! 1) - 48)))"

definition parse_offset :: "string \<Rightarrow> (string, int) result" where
  "parse_offset s0 =
     (let s = trim s0 in
      if eq_ignore_ascii_case s ''z'' \<or> s = ''+00:00'' then Inr 0
      else
        and_then (case s of
                    [] \<Rightarrow> Inl s
                  | c # cs \<Rightarrow> if c = CHR ''+'' then Inr (1, cs) else if c = CHR ''-'' then Inr (- 1, cs) else Inl s)
          (\<lambda>(sign, rest).
        and_then (ok_or (split_once (CHR '':'') rest) s) (\<lambda>(h, m).
        and_then (ok_or (two_digits h) s) (\<lambda>h.
        and_then (ok_or (two_digits m) s) (\<lambda>m.
        if h > 14 \<or> m > 59 then Inl s else Inr (sign * (h * 60 + m)))))))"

definition parse_hhmm :: "string \<Rightarrow> (string, int) result" where
  "parse_hhmm s =
     and_then (ok_or (split_once (CHR '':'') (trim s)) s) (\<lambda>(h, m).
     and_then (ok_or (two_digits h) s) (\<lambda>h.
     and_then (ok_or (two_digits m) s) (\<lambda>m.
     if h > 24 \<or> m > 59 \<or> (h = 24 \<and> m \<noteq> 0) then Inl s else Inr (h * 60 + m))))"

definition weekday_names :: "(string \<times> string) list" where
  "weekday_names =
     [(''mon'', ''monday''), (''tue'', ''tuesday''), (''wed'', ''wednesday''), (''thu'', ''thursday''), (''fri'', ''friday''),
      (''sat'', ''saturday''), (''sun'', ''sunday'')]"

definition parse_weekday :: "string \<Rightarrow> (string, int) result" where
  "parse_weekday s =
     (let key = to_ascii_lowercase (trim s) in
      case find (\<lambda>i. case weekday_names ! i of (short, long) \<Rightarrow> key = short \<or> key = long) [0..<7] of
        None \<Rightarrow> Inl s
      | Some p \<Rightarrow> Inr (int p))"

text \<open>\<open>str::parse\<close> on a text of ASCII digits that fits.\<close>

definition digits_value :: "string \<Rightarrow> int" where
  "digits_value s = foldl (\<lambda>n c. n * 10 + int (byte c - 48)) 0 s"

definition has_digits :: "string \<Rightarrow> nat \<Rightarrow> bool" where
  "has_digits part len \<longleftrightarrow> length part = len \<and> list_all is_ascii_digit part"

definition parse_date :: "string \<Rightarrow> (string, int \<times> int \<times> int) result" where
  "parse_date s =
     (case split_on (CHR ''-'') (trim s) of
        [y, m, d] \<Rightarrow>
          if \<not> has_digits y 4 \<or> \<not> has_digits m 2 \<or> \<not> has_digits d 2 then Inl s
          else
            let y = digits_value y; m = digits_value m; d = digits_value d
            in if \<not> (1 \<le> m \<and> m \<le> 12) \<or> d < 1 \<or> d > days_in_month y m then Inl s else Inr (y, m, d)
      | _ \<Rightarrow> Inl s)"

section \<open>Digits\<close>

lemma byte_digit [simp]: "n < 10 \<Longrightarrow> byte (digit n) = 48 + n"
  by (simp add: byte_def digit_def)

lemma digit_inject: "n < 10 \<Longrightarrow> m < 10 \<Longrightarrow> digit n = digit m \<longleftrightarrow> n = m"
  by (metis add_left_cancel byte_digit)

lemma digit_ascii [simp]: "n < 10 \<Longrightarrow> is_ascii_digit (digit n)"
  by (simp add: is_ascii_digit_def)

lemma digit_of_byte: "is_ascii_digit c \<Longrightarrow> digit (byte c - 48) = c \<and> byte c - 48 < 10"
  by (auto simp: is_ascii_digit_def digit_def byte_def)

lemma digit_less: "n < 10 \<Longrightarrow> m < 10 \<Longrightarrow> digit n < digit m \<longleftrightarrow> n < m"
  by (simp add: digit_def less_char_def)

lemma digit_other: "n < 10 \<Longrightarrow> byte c < 48 \<or> 57 < byte c \<Longrightarrow> digit n \<noteq> c"
  by (auto dest!: arg_cong [where f = byte])

lemma digit_zero: "CHR ''0'' = digit 0"
  by code_simp

lemma two_padded:
  assumes "0 \<le> i" "i < 100"
  shows "zero_padded 2 i = [digit (nat i div 10), digit (nat i mod 10)]"
proof (cases "i < 10")
  case True
  then have "decimal (nat i) = [digit (nat i)]" using assms by (subst decimal.simps) simp
  moreover note digit_zero
  ultimately show ?thesis using assms True by (simp add: zero_padded_def)
next
  case False
  then have "decimal (nat i) = [digit (nat i div 10), digit (nat i mod 10)]"
    using assms by (subst decimal.simps, subst decimal.simps) auto
  then show ?thesis using assms by (simp add: zero_padded_def)
qed

lemma decimal_snoc: "10 \<le> n \<Longrightarrow> decimal n = decimal (n div 10) @ [digit (n mod 10)]"
  by (subst decimal.simps) simp

lemma four_padded:
  assumes "0 \<le> i" "i < 10000"
  shows "zero_padded 4 i = zero_padded 2 (i div 100) @ zero_padded 2 (i mod 100)"
proof -
  define n where "n = nat i"
  have n: "n < 10000" "i = int n" using assms by (auto simp: n_def)
  note zero = digit_zero
  have one: "decimal m = [digit m]" if "m < 10" for m using that by (subst decimal.simps) simp
  have hi: "zero_padded 2 (i div 100) = [digit (n div 1000), digit (n div 100 mod 10)]"
    using two_padded [of "i div 100"] n by (simp add: nat_div_distrib div_mult2_eq [of n 100 10, simplified])
  have lo: "zero_padded 2 (i mod 100) = [digit (n div 10 mod 10), digit (n mod 10)]"
  proof -
    have "nat (i mod 100) = n mod 100" using n by (simp add: nat_mod_distrib)
    moreover have "n mod 100 = 10 * (n div 10 mod 10) + n mod 10" using mod_mult2_eq [of n 10 10] by simp
    then have "n mod 100 div 10 = n div 10 mod 10" "n mod 100 mod 10 = n mod 10" by simp_all
    ultimately show ?thesis using two_padded [of "i mod 100"] by simp
  qed
  have reps: "replicate 3 x = [x, x, x]" "replicate 2 x = [x, x]" "replicate (Suc 0) x = [x]" for x :: char
    by (simp_all add: numeral_eq_Suc)
  consider "n < 10" | "10 \<le> n" "n < 100" | "100 \<le> n" "n < 1000" | "1000 \<le> n" by linarith
  then show ?thesis
  proof cases
    case 1
    then show ?thesis unfolding hi lo using n by (simp add: zero_padded_def one zero reps)
  next
    case 2
    then have "decimal n = [digit (n div 10), digit (n mod 10)]" by (simp add: decimal_snoc one)
    then show ?thesis unfolding hi lo using n 2 by (simp add: zero_padded_def zero reps)
  next
    case 3
    then have "decimal n = [digit (n div 100), digit (n div 10 mod 10), digit (n mod 10)]" by (simp add: decimal_snoc one div_mult2_eq [of n 10 10, simplified, symmetric])
    then show ?thesis unfolding hi lo using n 3 by (simp add: zero_padded_def zero reps)
  next
    case 4
    then have "decimal n = [digit (n div 1000), digit (n div 100 mod 10), digit (n div 10 mod 10), digit (n mod 10)]"
      using n by (simp add: decimal_snoc one div_mult2_eq [of n 10 10, simplified, symmetric] div_mult2_eq [of n 100 10, simplified, symmetric])
    then show ?thesis unfolding hi lo using n by (simp add: zero_padded_def)
  qed
qed

lemma two_value:
  assumes "is_ascii_digit a" "is_ascii_digit b"
  defines "n \<equiv> int (byte a - 48) * 10 + int (byte b - 48)"
  shows "0 \<le> n \<and> n < 100 \<and> zero_padded 2 n = [a, b]"
proof -
  define x y where "x = byte a - 48" and "y = byte b - 48"
  have xy: "x < 10" "y < 10" "digit x = a" "digit y = b" using assms digit_of_byte by (auto simp: x_def y_def)
  have n: "n = int (10 * x + y)" by (simp add: n_def x_def y_def)
  have "nat n = 10 * x + y" by (simp only: n nat_int)
  then have "nat n div 10 = x" "nat n mod 10 = y" using xy by simp_all
  then show ?thesis using xy two_padded [of n] n by simp
qed

lemma two_padded_bytes:
  assumes "0 \<le> n" "n < 100"
  shows "list_all is_ascii_digit (zero_padded 2 n) \<and> length (zero_padded 2 n) = 2
    \<and> int (byte (zero_padded 2 n ! 0) - 48) * 10 + int (byte (zero_padded 2 n ! 1) - 48) = n"
proof -
  have "nat n div 10 < 10" using assms by auto
  moreover have "int (nat n div 10) * 10 + int (nat n mod 10) = n"
    using div_mult_mod_eq [of "nat n" 10] assms(1) by (metis int_nat_eq of_nat_add of_nat_mult of_nat_numeral)
  ultimately show ?thesis using assms by (simp add: two_padded)
qed

lemma length_2: "length s = 2 \<longleftrightarrow> (\<exists>a b. s = [a, b])"
  by (auto simp: numeral_2_eq_2 length_Suc_conv)

lemma two_digits_iff: "two_digits s = Some n \<longleftrightarrow> 0 \<le> n \<and> n < 100 \<and> s = zero_padded 2 n"
proof
  assume "two_digits s = Some n"
  then obtain a b where "s = [a, b]" "is_ascii_digit a" "is_ascii_digit b" "n = int (byte a - 48) * 10 + int (byte b - 48)"
    by (auto simp: two_digits_def length_2 split: if_splits)
  then show "0 \<le> n \<and> n < 100 \<and> s = zero_padded 2 n" using two_value by metis
next
  assume "0 \<le> n \<and> n < 100 \<and> s = zero_padded 2 n"
  then show "two_digits s = Some n" using two_padded_bytes [of n] by (simp add: two_digits_def)
qed

lemma digits_2_iff: "has_digits s 2 \<and> digits_value s = n \<longleftrightarrow> 0 \<le> n \<and> n < 100 \<and> s = zero_padded 2 n"
proof -
  have "has_digits s 2 \<and> digits_value s = n \<longleftrightarrow> two_digits s = Some n"
    by (auto simp: has_digits_def digits_value_def two_digits_def length_2)
  then show ?thesis by (simp add: two_digits_iff)
qed

lemma digits_4_iff: "has_digits s 4 \<and> digits_value s = n \<longleftrightarrow> 0 \<le> n \<and> n < 10000 \<and> s = zero_padded 4 n"
proof -
  have split: "has_digits s 4 \<and> digits_value s = n \<longleftrightarrow>
      (\<exists>p q i j. s = p @ q \<and> has_digits p 2 \<and> digits_value p = i \<and> has_digits q 2 \<and> digits_value q = j \<and> n = 100 * i + j)"
  proof
    assume s: "has_digits s 4 \<and> digits_value s = n"
    then obtain a b c d where "s = [a, b] @ [c, d]" by (auto simp: has_digits_def numeral_eq_Suc length_Suc_conv)
    then show "\<exists>p q i j. s = p @ q \<and> has_digits p 2 \<and> digits_value p = i \<and> has_digits q 2 \<and> digits_value q = j \<and> n = 100 * i + j"
      using s by (intro exI [of _ "[a, b]"] exI [of _ "[c, d]"]) (auto simp: has_digits_def digits_value_def)
  next
    assume "\<exists>p q i j. s = p @ q \<and> has_digits p 2 \<and> digits_value p = i \<and> has_digits q 2 \<and> digits_value q = j \<and> n = 100 * i + j"
    then obtain p q where pq: "s = p @ q" "has_digits p 2" "has_digits q 2" "n = 100 * digits_value p + digits_value q" by blast
    then obtain a b c d where "p = [a, b]" "q = [c, d]" unfolding has_digits_def length_2 by blast
    then show "has_digits s 4 \<and> digits_value s = n" using pq by (simp add: has_digits_def digits_value_def)
  qed
  show ?thesis
  proof
    assume "has_digits s 4 \<and> digits_value s = n"
    then obtain p q i j where pq: "s = p @ q" "has_digits p 2 \<and> digits_value p = i" "has_digits q 2 \<and> digits_value q = j" "n = 100 * i + j"
      unfolding split by blast
    then have "0 \<le> i" "i < 100" "0 \<le> j" "j < 100" "s = zero_padded 2 i @ zero_padded 2 j" unfolding digits_2_iff by simp_all
    then show "0 \<le> n \<and> n < 10000 \<and> s = zero_padded 4 n" using four_padded [of n] pq(4) by simp
  next
    assume n: "0 \<le> n \<and> n < 10000 \<and> s = zero_padded 4 n"
    have 2: "has_digits (zero_padded 2 (n div 100)) 2 \<and> digits_value (zero_padded 2 (n div 100)) = n div 100"
      "has_digits (zero_padded 2 (n mod 100)) 2 \<and> digits_value (zero_padded 2 (n mod 100)) = n mod 100"
      unfolding digits_2_iff using n by auto
    show "has_digits s 4 \<and> digits_value s = n"
      unfolding split using n 2 four_padded [of n] by (intro exI [of _ "zero_padded 2 (n div 100)"] exI [of _ "zero_padded 2 (n mod 100)"]) simp
  qed
qed

lemma padded_digits: "has_digits s k \<Longrightarrow> c \<in> set s \<Longrightarrow> 48 \<le> byte c \<and> byte c \<le> 57"
  by (auto simp: has_digits_def list_all_iff is_ascii_digit_def)

section \<open>Dates\<close>

lemma parse_date_iff:
  "parse_date s = Inr (y, m, d) \<longleftrightarrow> trim s = date_of (y, m, d) \<and> 0 \<le> y \<and> y < 10000 \<and> real_date (y, m, d)"
proof -
  have dim: "d \<le> days_in_month y m \<Longrightarrow> d < 100" for y m d by (auto simp: days_in_month_def split: if_splits)
  have dash: "CHR ''-'' \<notin> set p" if "has_digits p k" for p k using padded_digits [OF that, of "CHR ''-''"] by (auto simp: byte_def)
  show ?thesis
  proof
    assume "parse_date s = Inr (y, m, d)"
    then obtain py pm pd where parts: "split_on (CHR ''-'') (trim s) = [py, pm, pd]" "has_digits py 4" "has_digits pm 2" "has_digits pd 2"
      "digits_value py = y" "digits_value pm = m" "digits_value pd = d" "1 \<le> m" "m \<le> 12" "1 \<le> d" "d \<le> days_in_month y m"
      by (auto simp: parse_date_def Let_def split: list.splits if_splits)
    have "trim s = py @ ''-'' @ pm @ ''-'' @ pd" using join_split_on [of "CHR ''-''" "trim s"] parts(1) by simp
    then show "trim s = date_of (y, m, d) \<and> 0 \<le> y \<and> y < 10000 \<and> real_date (y, m, d)"
      using parts digits_4_iff [of py y] digits_2_iff [of pm m] digits_2_iff [of pd d] by (simp add: date_of_def real_date_def)
  next
    assume a: "trim s = date_of (y, m, d) \<and> 0 \<le> y \<and> y < 10000 \<and> real_date (y, m, d)"
    then have "has_digits (zero_padded 4 y) 4 \<and> digits_value (zero_padded 4 y) = y" "has_digits (zero_padded 2 m) 2 \<and> digits_value (zero_padded 2 m) = m"
      "has_digits (zero_padded 2 d) 2 \<and> digits_value (zero_padded 2 d) = d"
      unfolding digits_2_iff digits_4_iff using dim by (auto simp: real_date_def)
    then have v: "has_digits (zero_padded 4 y) 4" "has_digits (zero_padded 2 m) 2" "has_digits (zero_padded 2 d) 2"
      "digits_value (zero_padded 4 y) = y" "digits_value (zero_padded 2 m) = m" "digits_value (zero_padded 2 d) = d" by auto
    have "split_on (CHR ''-'') (trim s) = [zero_padded 4 y, zero_padded 2 m, zero_padded 2 d]"
      using a v(1-3) [THEN dash] by (simp add: date_of_def split_on_append split_on_single)
    then show "parse_date s = Inr (y, m, d)" using a v by (simp add: parse_date_def real_date_def)
  qed
qed

text \<open>C32. A text is read as a date exactly when, without the white space around it, it is the canonical \<open>YYYY-MM-DD\<close> of a date that exists,
  in the years 0 to 9999; and that date is what is read.\<close>

theorem parse_date_reads_exactly_the_canonical_dates:
  "parse_date s = Inr (y, m, d) \<longleftrightarrow> trim s = date_of (y, m, d) \<and> 0 \<le> y \<and> y < 10000 \<and> real_date (y, m, d)"
  by (rule parse_date_iff)

section \<open>Clock times, offsets and weekdays\<close>

text \<open>Minutes as \<open>HH:MM\<close>.\<close>

definition clock :: "int \<Rightarrow> string" where
  "clock t = zero_padded 2 (t div 60) @ '':'' @ zero_padded 2 (t mod 60)"

lemma byte_inject: "byte c = byte d \<longleftrightarrow> c = d"
  by (simp add: byte_def)

lemma clock_split:
  "(\<exists>a b. split_once (CHR '':'') s = Some (a, b) \<and> two_digits a = Some h \<and> two_digits b = Some m \<and> m \<le> 59) \<longleftrightarrow>
   0 \<le> h \<and> h < 100 \<and> 0 \<le> m \<and> m \<le> 59 \<and> s = clock (h * 60 + m)"
proof -
  have colon: "CHR '':'' \<notin> set (zero_padded 2 h)" if "0 \<le> h" "h < 100"
    using digits_2_iff [of "zero_padded 2 h" h] that padded_digits [of "zero_padded 2 h" 2 "CHR '':''"] by (auto simp: byte_def)
  have c: "clock (h * 60 + m) = zero_padded 2 h @ '':'' @ zero_padded 2 m" if "0 \<le> m" "m \<le> 59"
    using that by (simp add: clock_def div_add1_eq [of "h * 60" m])
  show ?thesis using colon c by (auto simp: split_once_Some two_digits_iff)
qed

lemma if_Inr: "(if b then Inl e else Inr x) = Inr t \<longleftrightarrow> \<not> b \<and> x = t"
  by simp

lemma parse_hhmm_iff: "parse_hhmm s = Inr t \<longleftrightarrow> 0 \<le> t \<and> t \<le> 24 * 60 \<and> trim s = clock t"
proof -
  have "parse_hhmm s = Inr t \<longleftrightarrow>
    (\<exists>h m. (\<exists>a b. split_once (CHR '':'') (trim s) = Some (a, b) \<and> two_digits a = Some h \<and> two_digits b = Some m \<and> m \<le> 59) \<and>
       (h < 24 \<or> h = 24 \<and> m = 0) \<and> t = h * 60 + m)"
    by (auto simp: parse_hhmm_def result_simps if_Inr)
  also have "\<dots> \<longleftrightarrow> (\<exists>h m. 0 \<le> h \<and> 0 \<le> m \<and> m \<le> 59 \<and> (h < 24 \<or> h = 24 \<and> m = 0) \<and> t = h * 60 + m \<and> trim s = clock t)"
    unfolding clock_split by auto
  also have "\<dots> \<longleftrightarrow> 0 \<le> t \<and> t \<le> 24 * 60 \<and> trim s = clock t"
  proof
    assume t: "0 \<le> t \<and> t \<le> 24 * 60 \<and> trim s = clock t"
    moreover have "t = t div 60 * 60 + t mod 60" by simp
    moreover have "0 \<le> t mod 60" "t mod 60 \<le> 59" by (simp, use pos_mod_bound [of 60 t] in linarith)
    moreover from calculation have "t div 60 < 24 \<or> t div 60 = 24 \<and> t mod 60 = 0" by linarith
    ultimately show "\<exists>h m. 0 \<le> h \<and> 0 \<le> m \<and> m \<le> 59 \<and> (h < 24 \<or> h = 24 \<and> m = 0) \<and> t = h * 60 + m \<and> trim s = clock t"
      by (intro exI [of _ "t div 60"] exI [of _ "t mod 60"]) linarith
  qed auto
  finally show ?thesis .
qed

lemma signed_offset:
  "and_then (ok_or (split_once (CHR '':'') rest) e) (\<lambda>(h, m). and_then (ok_or (two_digits h) e) (\<lambda>h. and_then (ok_or (two_digits m) e)
     (\<lambda>m. if h > 14 \<or> m > 59 then Inl e else Inr (sign * (h * 60 + m))))) = Inr t \<longleftrightarrow>
   (\<exists>u. 0 \<le> u \<and> u < 15 * 60 \<and> t = sign * u \<and> rest = clock u)" (is "?l = Inr t \<longleftrightarrow> _")
proof -
  have "?l = Inr t \<longleftrightarrow>
    (\<exists>h m. (\<exists>a b. split_once (CHR '':'') rest = Some (a, b) \<and> two_digits a = Some h \<and> two_digits b = Some m \<and> m \<le> 59) \<and>
       h \<le> 14 \<and> t = sign * (h * 60 + m))"
    by (auto simp: result_simps if_Inr)
  also have "\<dots> \<longleftrightarrow> (\<exists>u. 0 \<le> u \<and> u < 15 * 60 \<and> t = sign * u \<and> rest = clock u)"
  proof
    assume "\<exists>h m. (\<exists>a b. split_once (CHR '':'') rest = Some (a, b) \<and> two_digits a = Some h \<and> two_digits b = Some m \<and> m \<le> 59) \<and>
       h \<le> 14 \<and> t = sign * (h * 60 + m)"
    then show "\<exists>u. 0 \<le> u \<and> u < 15 * 60 \<and> t = sign * u \<and> rest = clock u" unfolding clock_split
      by (elim exE conjE, intro exI [of _ "h * 60 + m" for h m] conjI) auto
  next
    assume "\<exists>u. 0 \<le> u \<and> u < 15 * 60 \<and> t = sign * u \<and> rest = clock u"
    then obtain u where u: "0 \<le> u" "u < 15 * 60" "t = sign * u" "rest = clock u" by blast
    have "u div 60 * 60 + u mod 60 = u" "0 \<le> u mod 60" "u mod 60 \<le> 59" using pos_mod_bound [of 60 u] by simp_all
    with u show "\<exists>h m. (\<exists>a b. split_once (CHR '':'') rest = Some (a, b) \<and> two_digits a = Some h \<and> two_digits b = Some m \<and> m \<le> 59) \<and>
       h \<le> 14 \<and> t = sign * (h * 60 + m)" unfolding clock_split by (intro exI [of _ "u div 60"] exI [of _ "u mod 60"]) auto
  qed
  finally show ?thesis .
qed

lemma lower_z: "ascii_lower_char c = CHR ''z'' \<longleftrightarrow> c = CHR ''z'' \<or> c = CHR ''Z''"
proof
  assume "ascii_lower_char c = CHR ''z''"
  then have "byte (ascii_lower_char c) = 122" by (simp add: byte_def)
  then have "byte c = 122 \<or> byte c = 90" by (auto simp: ascii_lower_char_def is_ascii_upper_def byte_def split: if_splits)
  moreover have "byte (CHR ''z'') = 122" "byte (CHR ''Z'') = 90" by (simp_all add: byte_def)
  ultimately show "c = CHR ''z'' \<or> c = CHR ''Z''" by (metis byte_inject)
next
  have "ascii_lower_char (CHR ''z'') = CHR ''z''" "ascii_lower_char (CHR ''Z'') = CHR ''z''"
    unfolding byte_inject [symmetric] by (simp_all add: ascii_lower_char_def is_ascii_upper_def byte_def)
  then show "c = CHR ''z'' \<or> c = CHR ''Z'' \<Longrightarrow> ascii_lower_char c = CHR ''z''" by auto
qed

lemma zulu: "eq_ignore_ascii_case r ''z'' \<longleftrightarrow> r = ''z'' \<or> r = ''Z''"
proof -
  have "to_ascii_lowercase ''z'' = ''z''" using lower_z [of "CHR ''z''"] by (simp add: to_ascii_lowercase_def)
  then have "eq_ignore_ascii_case r ''z'' \<longleftrightarrow> to_ascii_lowercase r = ''z''" by (simp only: eq_ignore_ascii_case_def)
  also have "\<dots> \<longleftrightarrow> (\<exists>c. r = [c] \<and> ascii_lower_char c = CHR ''z'')" unfolding to_ascii_lowercase_def by (cases r) auto
  also have "\<dots> \<longleftrightarrow> r = ''z'' \<or> r = ''Z''" unfolding lower_z by blast
  finally show ?thesis .
qed

lemma parse_offset_iff:
  "parse_offset s = Inr t \<longleftrightarrow>
     trim s \<in> {''z'', ''Z''} \<and> t = 0 \<or>
     (\<exists>u. 0 \<le> u \<and> u < 15 * 60 \<and> (trim s = CHR ''+'' # clock u \<and> t = u \<or> trim s = CHR ''-'' # clock u \<and> t = - u))"
proof -
  have zero: "''+00:00'' = CHR ''+'' # clock 0" by code_simp
  define signed where "signed sign rest = and_then (ok_or (split_once (CHR '':'') rest) (trim s)) (\<lambda>(h, m).
    and_then (ok_or (two_digits h) (trim s)) (\<lambda>h. and_then (ok_or (two_digits m) (trim s))
      (\<lambda>m. if h > 14 \<or> m > 59 then Inl (trim s) else Inr (sign * (h * 60 + m)))))" for sign :: int and rest
  have signed: "signed sign rest = Inr t \<longleftrightarrow> (\<exists>u. 0 \<le> u \<and> u < 15 * 60 \<and> t = sign * u \<and> rest = clock u)" for sign rest t
    unfolding signed_def by (rule signed_offset)
  have parts: "parse_offset s = (if trim s = ''z'' \<or> trim s = ''Z'' \<or> trim s = CHR ''+'' # clock 0 then Inr 0
      else case trim s of [] \<Rightarrow> Inl (trim s)
           | c # cs \<Rightarrow> if c = CHR ''+'' then signed 1 cs else if c = CHR ''-'' then signed (- 1) cs else Inl (trim s))"
    unfolding parse_offset_def Let_def zero zulu by (simp add: signed_def split: list.split)
  show ?thesis
  proof (cases "trim s")
    case Nil
    then show ?thesis by (simp add: parts)
  next
    case (Cons c r)
    consider "c = CHR ''+''" | "c = CHR ''-''" | "c \<noteq> CHR ''+''" "c \<noteq> CHR ''-''" by blast
    then show ?thesis
    proof cases
      case 1
      have "signed 1 (clock 0) = Inr 0" unfolding signed by auto
      then have "parse_offset s = signed 1 r" using Cons 1 by (simp add: parts)
      then show ?thesis using Cons 1 by (auto simp: signed)
    next
      case 2
      then have "parse_offset s = signed (- 1) r" using Cons by (simp add: parts)
      then show ?thesis using Cons 2 by (auto simp: signed)
    next
      case 3
      then show ?thesis using Cons by (auto simp: parts)
    qed
  qed
qed

lemma parse_weekday_iff:
  "parse_weekday s = Inr n \<longleftrightarrow>
     0 \<le> n \<and> n < 7 \<and> (case weekday_names ! nat n of (short, long) \<Rightarrow> to_ascii_lowercase (trim s) \<in> {short, long})"
proof -
  define P where "P i \<longleftrightarrow> (case weekday_names ! i of (short, long) \<Rightarrow> to_ascii_lowercase (trim s) \<in> {short, long})" for i
  have one: "i = j" if "i < 7" "j < 7" "P i" "P j" for i j
  proof -
    have "list_all (\<lambda>i. list_all (\<lambda>j. i = j \<or> \<not> (case (weekday_names ! i, weekday_names ! j) of
        ((a, b), (c, d)) \<Rightarrow> a = c \<or> a = d \<or> b = c \<or> b = d)) [0..<7]) [0..<7]" by code_simp
    then have "i = j \<or> \<not> (case (weekday_names ! i, weekday_names ! j) of ((a, b), (c, d)) \<Rightarrow> a = c \<or> a = d \<or> b = c \<or> b = d)"
      using that by (simp add: list_all_iff)
    with that show ?thesis by (auto simp: P_def split: prod.splits)
  qed
  have "parse_weekday s = (case find P [0..<7] of None \<Rightarrow> Inl s | Some p \<Rightarrow> Inr (int p))"
    by (simp add: parse_weekday_def Let_def P_def [abs_def])
  also have "\<dots> = Inr n \<longleftrightarrow> (\<exists>i. find P [0..<7] = Some i \<and> n = int i)" by (auto split: option.splits)
  also have "\<dots> \<longleftrightarrow> (\<exists>i < 7. P i \<and> n = int i)"
  proof -
    have "find P [0..<7] = Some i \<longleftrightarrow> i < 7 \<and> P i" for i
    proof -
      have "\<not> P j" if "j < i" "i < 7" "P i" for j using one [of i j] that by auto
      then show ?thesis unfolding find_Some_iff by auto
    qed
    then show ?thesis by blast
  qed
  finally show ?thesis unfolding P_def by (auto intro: exI [of _ "nat n"])
qed

section \<open>The order of dates as text\<close>

lemma append_less_iff: "length a = length b \<Longrightarrow> a @ c < b @ d \<longleftrightarrow> a < b \<or> a = b \<and> c < (d :: 'a::linorder list)"
  by (induction a b rule: list_induct2) auto

lemma two_less: "0 \<le> i \<Longrightarrow> i < 100 \<Longrightarrow> 0 \<le> j \<Longrightarrow> j < 100 \<Longrightarrow> zero_padded 2 i < zero_padded 2 j \<longleftrightarrow> i < j"
proof -
  assume ij: "0 \<le> i" "i < 100" "0 \<le> j" "j < 100"
  define a b where "a = nat i" and "b = nat j"
  have ab: "a < 100" "b < 100" "i = int a" "j = int b" using ij by (auto simp: a_def b_def)
  have d: "a div 10 < 10" "b div 10 < 10" using ab by simp_all
  have "a < b \<longleftrightarrow> a div 10 < b div 10 \<or> a div 10 = b div 10 \<and> a mod 10 < b mod 10"
  proof -
    have "a = 10 * (a div 10) + a mod 10" "b = 10 * (b div 10) + b mod 10" "a mod 10 < 10" "b mod 10 < 10" by simp_all
    then show ?thesis by linarith
  qed
  then show ?thesis using ij ab d by (simp add: two_padded digit_less digit_inject)
qed

lemma four_less: "0 \<le> i \<Longrightarrow> i < 10000 \<Longrightarrow> 0 \<le> j \<Longrightarrow> j < 10000 \<Longrightarrow> zero_padded 4 i < zero_padded 4 j \<longleftrightarrow> i < j"
proof -
  assume ij: "0 \<le> i" "i < 10000" "0 \<le> j" "j < 10000"
  then have d: "0 \<le> i div 100" "i div 100 < 100" "0 \<le> j div 100" "j div 100 < 100" by auto
  have m: "0 \<le> i mod 100" "i mod 100 < 100" "0 \<le> j mod 100" "j mod 100 < 100" by auto
  have len: "length (zero_padded 2 (i div 100)) = length (zero_padded 2 (j div 100))" using d by (simp add: two_padded)
  have eq: "zero_padded 2 (i div 100) = zero_padded 2 (j div 100) \<longleftrightarrow> i div 100 = j div 100"
    using two_less [OF d(1,2) d(3,4)] two_less [OF d(3,4) d(1,2)] by (metis antisym_conv3 less_irrefl)
  have "i < j \<longleftrightarrow> i div 100 < j div 100 \<or> i div 100 = j div 100 \<and> i mod 100 < j mod 100"
  proof -
    have "i = 100 * (i div 100) + i mod 100" "j = 100 * (j div 100) + j mod 100" by simp_all
    with m show ?thesis by linarith
  qed
  then show ?thesis using four_padded [OF ij(1,2)] four_padded [OF ij(3,4)] two_less [OF d] two_less [OF m] append_less_iff [OF len] eq by simp
qed

lemma padded_length: "0 \<le> i \<Longrightarrow> i < 100 \<Longrightarrow> length (zero_padded 2 i) = 2" "0 \<le> i \<Longrightarrow> i < 10000 \<Longrightarrow> length (zero_padded 4 i) = 4"
proof -
  show two: "0 \<le> i \<Longrightarrow> i < 100 \<Longrightarrow> length (zero_padded 2 i) = 2" for i by (simp add: two_padded)
  show "0 \<le> i \<Longrightarrow> i < 10000 \<Longrightarrow> length (zero_padded 4 i) = 4" using two [of "i div 100"] two [of "i mod 100"] by (auto simp: four_padded)
qed

lemma date_less:
  assumes "0 \<le> y" "y < 10000" "0 \<le> y'" "y' < 10000" "real_date (y, m, d)" "real_date (y', m', d')"
  shows "date_of (y, m, d) < date_of (y', m', d') \<longleftrightarrow> y < y' \<or> y = y' \<and> (m < m' \<or> m = m' \<and> d < d')"
proof -
  have dim: "d \<le> days_in_month y m \<Longrightarrow> d < 100" for y m d by (auto simp: days_in_month_def split: if_splits)
  have b: "0 \<le> m" "m < 100" "0 \<le> m'" "m' < 100" "0 \<le> d" "d < 100" "0 \<le> d'" "d' < 100"
    using assms(5,6) dim [of d y m] dim [of d' y' m'] by (auto simp: real_date_def)
  have y: "zero_padded 4 y = zero_padded 4 y' \<longleftrightarrow> y = y'"
    using four_less [OF assms(1-4)] four_less [OF assms(3,4,1,2)] by (metis antisym_conv3 less_irrefl)
  have m: "zero_padded 2 m = zero_padded 2 m' \<longleftrightarrow> m = m'"
    using two_less [OF b(1-4)] two_less [OF b(3,4,1,2)] by (metis antisym_conv3 less_irrefl)
  show ?thesis
    using y m four_less [OF assms(1-4)] two_less [OF b(1-4)] two_less [OF b(5-8)] b assms(1-4)
    by (simp add: date_of_def append_less_iff padded_length)
qed

end
