(* ===== verification/Policy.thy ===== *)
theory Policy
  imports Civil_Text
begin

text \<open>
  The \<open>policies:\<close> block of a project: \<open>crates/pbps-policy/src/rules.rs\<close> (the catalogue), \<open>config.rs\<close> (the settings, their check, what
  they mean, suppressions), the severities of \<open>crates/pbps-model/src/finding.rs\<close>, and the change windows of \<open>evaluate.rs\<close>.

  A message is a constructor that carries the values it names; \<open>regex_lite\<close> is the parameter \<open>compiles\<close>, whether \<open>Regex::new\<close>
  accepts a pattern. \<open>usize\<close> is \<open>nat\<close> and \<open>u32\<close> values are \<open>int\<close>: they are weekdays and minutes of a day.
\<close>

section \<open>Severities and the catalogue\<close>

datatype severity = Error | Warning | Note

primrec severity_str :: "severity \<Rightarrow> string" where
  "severity_str Error = ''error''"
| "severity_str Warning = ''warning''"
| "severity_str Note = ''note''"

definition severity_from_str :: "string \<Rightarrow> (string, severity) result" where
  "severity_from_str s =
     (let other = to_ascii_lowercase (trim s) in
      if other = ''error'' then Inr Error
      else if other = ''warning'' then Inr Warning
      else if other = ''note'' then Inr Note
      else Inl other)"

datatype point = Declaration | Plan | ConnectedPlan

record catalogue_rule =
  rule_id :: string
  point :: point
  default :: "severity option"
  params :: "string list"
  required :: "string list"

definition "DOMAIN_VET_UNAVAILABLE = ''plan.domain-vet-unavailable''"
definition "CONSUMER_BREAKING = ''consumer.breaking''"
definition "CONSUMER_UNPROVEN = ''consumer.unproven''"
definition "UNMANAGED_GRANT = ''plan.unmanaged-grant''"
definition "UNHELD_OBJECT = ''plan.unheld-object''"
definition "NAMING_TABLE = ''naming.table''"
definition "NAMING_COLUMN = ''naming.column''"
definition "NAMING_INDEX = ''naming.index''"
definition "NAMING_CONSTRAINT = ''naming.constraint''"
definition "DATA_MAX_ROWS = ''data.max-rows''"
definition "COLUMN_NO_DEPRECATED_TYPE = ''column.no-deprecated-type''"
definition "CHANGE_EXPAND_CONTRACT = ''change.expand-contract''"
definition "CHANGE_NARROWING_ON_DATA = ''change.narrowing-on-data''"
definition "GRANT_WIDEN = ''grant.widen''"
definition "CHANGE_WINDOW = ''change.window''"

lemmas rule_ids =
  DOMAIN_VET_UNAVAILABLE_def CONSUMER_BREAKING_def CONSUMER_UNPROVEN_def UNMANAGED_GRANT_def UNHELD_OBJECT_def NAMING_TABLE_def
  NAMING_COLUMN_def NAMING_INDEX_def NAMING_CONSTRAINT_def DATA_MAX_ROWS_def COLUMN_NO_DEPRECATED_TYPE_def
  CHANGE_EXPAND_CONTRACT_def CHANGE_NARROWING_ON_DATA_def GRANT_WIDEN_def CHANGE_WINDOW_def

text \<open>The catalogue, without the sentence \<open>about\<close> each rule that only the editor schema shows.\<close>

definition RULES :: "catalogue_rule list" where
  "RULES =
     [\<lparr>rule_id = DOMAIN_VET_UNAVAILABLE, point = ConnectedPlan, default = Some Warning, params = [], required = []\<rparr>,
      \<lparr>rule_id = CONSUMER_BREAKING, point = Plan, default = Some Error, params = [], required = []\<rparr>,
      \<lparr>rule_id = CONSUMER_UNPROVEN, point = Plan, default = Some Error, params = [], required = []\<rparr>,
      \<lparr>rule_id = UNMANAGED_GRANT, point = ConnectedPlan, default = Some Warning, params = [], required = []\<rparr>,
      \<lparr>rule_id = UNHELD_OBJECT, point = ConnectedPlan, default = Some Warning, params = [], required = []\<rparr>,
      \<lparr>rule_id = NAMING_TABLE, point = Declaration, default = None, params = [''pattern''], required = [''pattern'']\<rparr>,
      \<lparr>rule_id = NAMING_COLUMN, point = Declaration, default = None, params = [''pattern''], required = [''pattern'']\<rparr>,
      \<lparr>rule_id = NAMING_INDEX, point = Declaration, default = None, params = [''pattern''], required = [''pattern'']\<rparr>,
      \<lparr>rule_id = NAMING_CONSTRAINT, point = Declaration, default = None, params = [''pattern''], required = [''pattern'']\<rparr>,
      \<lparr>rule_id = DATA_MAX_ROWS, point = Declaration, default = Some Warning, params = [''rows''], required = []\<rparr>,
      \<lparr>rule_id = COLUMN_NO_DEPRECATED_TYPE, point = Declaration, default = Some Warning, params = [], required = []\<rparr>,
      \<lparr>rule_id = CHANGE_EXPAND_CONTRACT, point = Plan, default = Some Warning, params = [], required = []\<rparr>,
      \<lparr>rule_id = CHANGE_NARROWING_ON_DATA, point = Plan, default = Some Note, params = [], required = []\<rparr>,
      \<lparr>rule_id = GRANT_WIDEN, point = Plan, default = Some Note, params = [], required = []\<rparr>,
      \<lparr>rule_id = CHANGE_WINDOW, point = ConnectedPlan, default = None, params = [''offset'', ''allow''], required = [''allow'']\<rparr>]"

definition rule :: "string \<Rightarrow> catalogue_rule option" where
  "rule i = find (\<lambda>r. rule_id r = i) RULES"

section \<open>The block\<close>

record rule_config =
  cfg_severity :: "string option"
  pattern :: "string option"
  rows :: "nat option"
  offset :: "string option"
  allow :: "string list"

definition config_default :: rule_config where
  "config_default = \<lparr>cfg_severity = None, pattern = None, rows = None, offset = None, allow = []\<rparr>"

datatype rule_setting = Switch bool | Word string | Detailed rule_config

record suppression =
  sup_rule :: string
  sup_on :: "string option"
  sup_reason :: string
  sup_until :: "string option"

record policies =
  rules :: "(string, rule_setting) btree"
  suppress :: "suppression list"

record effective_setting =
  severity :: "severity option"
  config :: rule_config

definition is_off :: "string \<Rightarrow> bool" where
  "is_off w = eq_ignore_ascii_case (trim w) ''off''"

definition is_severity_word :: "string \<Rightarrow> bool" where
  "is_severity_word w \<longleftrightarrow> is_off w \<or> is_ok (severity_from_str w)"

definition severity_word :: "string \<Rightarrow> severity option option" where
  "severity_word w =
     (if is_off w then Some None
      else case severity_from_str w of Inl _ \<Rightarrow> None | Inr s \<Rightarrow> Some (Some s))"

section \<open>Change windows\<close>

record window =
  days :: "int set"
  win_from :: int
  win_to :: int

definition contains :: "window \<Rightarrow> civil \<Rightarrow> bool" where
  "contains w c \<longleftrightarrow> cv_weekday c \<in> days w \<and> win_from w \<le> minute_of_day c \<and> minute_of_day c < win_to w"

text \<open>\<open>str::split_once(char::is_whitespace)\<close>: at the first spelling of a white space character.\<close>

fun split_once_space :: "string \<Rightarrow> (string \<times> string) option" where
  "split_once_space [] = None"
| "split_once_space (c # cs) =
     (case find (\<lambda>w. prefix w (c # cs)) white_space of
        Some w \<Rightarrow> Some ([], drop (length w) (c # cs))
      | None \<Rightarrow> map_option (\<lambda>(a, b). (c # a, b)) (split_once_space cs))"

datatype window_error = Window_shape | Weekday string | Range_shape | Clock string | Ends_before_it_starts string

definition window_days :: "int set \<Rightarrow> string \<Rightarrow> (window_error, int set) result" where
  "window_days ds part =
     (case split_once (CHR ''-'') part of
        Some (a, b) \<Rightarrow>
          and_then (map_err Weekday (parse_weekday a)) (\<lambda>a.
          and_then (map_err Weekday (parse_weekday b)) (\<lambda>b.
          Inr (if a \<le> b then ds \<union> {a..b} else ds \<union> ({a..6} \<union> {0..b}))))
      | None \<Rightarrow> and_then (map_err Weekday (parse_weekday part)) (\<lambda>d. Inr (insert d ds)))"

definition parse_window :: "string \<Rightarrow> (window_error, window) result" where
  "parse_window s =
     and_then (ok_or (split_once_space (trim s)) Window_shape) (\<lambda>(ds, hours).
     and_then (try_fold window_days {} (split_on (CHR '','') ds)) (\<lambda>ds.
     and_then (ok_or (split_once (CHR ''-'') (trim hours)) Range_shape) (\<lambda>(f, t).
     and_then (map_err Clock (parse_hhmm f)) (\<lambda>f.
     and_then (map_err Clock (parse_hhmm t)) (\<lambda>t.
     if f \<ge> t then Inl (Ends_before_it_starts (trim hours))
     else Inr \<lparr>days = ds, win_from = f, win_to = t\<rparr>)))))"

section \<open>The check of the block\<close>

datatype problem =
    Unknown_rule string
  | Switched_on string
  | Not_a_setting string string
  | Needs string "string list" string
  | Missing_param string string
  | Not_a_severity string string
  | Foreign_param string string "string list"
  | Invalid_pattern string string
  | Invalid_offset string string
  | Invalid_window string string window_error
  | Unknown_suppression string
  | No_reason string "string option"
  | Invalid_until string string

definition has :: "rule_config \<Rightarrow> string \<Rightarrow> bool" where
  "has c param =
     (if param = ''pattern'' then pattern c \<noteq> None
      else if param = ''rows'' then rows c \<noteq> None
      else if param = ''offset'' then offset c \<noteq> None
      else if param = ''allow'' then allow c \<noteq> []
      else False)"

definition given :: "rule_config \<Rightarrow> string list" where
  "given c =
     map fst (filter snd
       [(''pattern'', pattern c \<noteq> None), (''rows'', rows c \<noteq> None), (''offset'', offset c \<noteq> None), (''allow'', allow c \<noteq> [])])"

definition check_detailed :: "(string \<Rightarrow> bool) \<Rightarrow> string \<Rightarrow> catalogue_rule \<Rightarrow> rule_config \<Rightarrow> problem list" where
  "check_detailed compiles i r c =
     (let on = (case cfg_severity c of Some w \<Rightarrow> \<not> is_off w | None \<Rightarrow> default r \<noteq> None) in
      (if on then map (Missing_param i) (filter (\<lambda>req. \<not> has c req) (required r)) else []) @
      (case cfg_severity c of Some w \<Rightarrow> if \<not> is_severity_word w then [Not_a_severity i w] else [] | None \<Rightarrow> []) @
      map (\<lambda>p. Foreign_param i p (params r)) (filter (\<lambda>p. p \<notin> set (params r)) (given c)) @
      (case pattern c of Some p \<Rightarrow> if \<not> compiles p then [Invalid_pattern i p] else [] | None \<Rightarrow> []) @
      (case offset c of Some t \<Rightarrow> (case parse_offset t of Inl e \<Rightarrow> [Invalid_offset i e] | Inr _ \<Rightarrow> []) | None \<Rightarrow> []) @
      concat (map (\<lambda>w. case parse_window w of Inl e \<Rightarrow> [Invalid_window i w e] | Inr _ \<Rightarrow> []) (allow c)))"

definition check_rule :: "(string \<Rightarrow> bool) \<Rightarrow> string \<times> rule_setting \<Rightarrow> problem list" where
  "check_rule compiles entry =
     (case entry of (i, setting) \<Rightarrow>
        case rule i of
          None \<Rightarrow> [Unknown_rule i]
        | Some r \<Rightarrow>
            (case setting of
               Switch on \<Rightarrow> if on then [Switched_on i] else []
             | Word w \<Rightarrow>
                 if \<not> is_severity_word w then [Not_a_setting i w]
                 else if \<not> is_off w \<and> required r \<noteq> [] then [Needs i (required r) w]
                 else []
             | Detailed c \<Rightarrow> check_detailed compiles i r c))"

definition check_suppression :: "suppression \<Rightarrow> problem list" where
  "check_suppression s =
     (if rule (sup_rule s) = None then [Unknown_suppression (sup_rule s)] else []) @
     (if trim (sup_reason s) = [] then [No_reason (sup_rule s) (sup_on s)] else []) @
     (case sup_until s of
        Some u \<Rightarrow> (case parse_date u of Inl e \<Rightarrow> [Invalid_until (sup_rule s) e] | Inr _ \<Rightarrow> [])
      | None \<Rightarrow> [])"

definition check_policies :: "(string \<Rightarrow> bool) \<Rightarrow> policies \<Rightarrow> problem list" where
  "check_policies compiles p =
     concat (map (check_rule compiles) (entries (rules p))) @ concat (map check_suppression (suppress p))"

section \<open>What the block means\<close>

definition effective :: "policies \<Rightarrow> string \<Rightarrow> effective_setting" where
  "effective p i =
     (let dflt = (case rule i of None \<Rightarrow> None | Some r \<Rightarrow> default r) in
      case bget (rules p) i of
        None \<Rightarrow> \<lparr>severity = dflt, config = config_default\<rparr>
      | Some (Switch on) \<Rightarrow> \<lparr>severity = if on then dflt else None, config = config_default\<rparr>
      | Some (Word w) \<Rightarrow> \<lparr>severity = case severity_word w of Some s \<Rightarrow> s | None \<Rightarrow> dflt, config = config_default\<rparr>
      | Some (Detailed c) \<Rightarrow>
          \<lparr>severity = (case cfg_severity c of
                         Some w \<Rightarrow> (case severity_word w of Some s \<Rightarrow> s | None \<Rightarrow> dflt)
                       | None \<Rightarrow> dflt),
           config = c\<rparr>)"

definition suppressed :: "policies \<Rightarrow> string \<Rightarrow> string option \<Rightarrow> string \<Rightarrow> bool" where
  "suppressed p i subject today =
     list_ex (\<lambda>s. sup_rule s = i \<and>
                 (case sup_on s of None \<Rightarrow> True | Some on \<Rightarrow> Some on = subject) \<and>
                 (case sup_until s of None \<Rightarrow> True | Some until \<Rightarrow> today < trim until))
       (suppress p)"

section \<open>A block is checked as it is evaluated\<close>

text \<open>The reference: a word says a severity or \<open>off\<close>, whatever its case and the white space around it; a setting states what it says, or
  the default of its rule where it says nothing.\<close>

definition says :: "string \<Rightarrow> severity option \<Rightarrow> bool" where
  "says w s \<longleftrightarrow> to_ascii_lowercase (trim w) = (case s of None \<Rightarrow> ''off'' | Some v \<Rightarrow> severity_str v)"

definition states :: "catalogue_rule \<Rightarrow> rule_setting \<Rightarrow> severity option \<Rightarrow> bool" where
  "states r st s \<longleftrightarrow>
     (case st of
        Switch on \<Rightarrow> \<not> on \<and> s = None
      | Word w \<Rightarrow> says w s
      | Detailed c \<Rightarrow> (case cfg_severity c of None \<Rightarrow> s = default r | Some w \<Rightarrow> says w s))"

text \<open>What the evaluation of a rule reads is there and is read: no parameter is missing, foreign, or replaced by a default.\<close>

definition runs_on :: "(string \<Rightarrow> bool) \<Rightarrow> catalogue_rule \<Rightarrow> effective_setting \<Rightarrow> bool" where
  "runs_on compiles r e \<longleftrightarrow>
     (severity e = None \<or> list_all (has (config e)) (required r)) \<and>
     list_all (\<lambda>q. q \<in> set (params r)) (given (config e)) \<and>
     (case pattern (config e) of None \<Rightarrow> True | Some q \<Rightarrow> compiles q) \<and>
     (case offset (config e) of None \<Rightarrow> True | Some q \<Rightarrow> is_ok (parse_offset q)) \<and>
     list_all (\<lambda>w. is_ok (parse_window w)) (allow (config e))"

definition sound_rule :: "(string \<Rightarrow> bool) \<Rightarrow> policies \<Rightarrow> string \<times> rule_setting \<Rightarrow> bool" where
  "sound_rule compiles p entry =
     (case entry of (i, st) \<Rightarrow>
        case rule i of
          None \<Rightarrow> False
        | Some r \<Rightarrow> states r st (severity (effective p i)) \<and> runs_on compiles r (effective p i))"

definition sound_suppression :: "suppression \<Rightarrow> bool" where
  "sound_suppression s \<longleftrightarrow>
     rule (sup_rule s) \<noteq> None \<and> \<not> blank (sup_reason s) \<and>
     (case sup_until s of
        None \<Rightarrow> True
      | Some u \<Rightarrow> (\<exists>y m d. trim u = date_of (y, m, d) \<and> 0 \<le> y \<and> y < 10000 \<and> real_date (y, m, d)))"

lemma lower_off: "to_ascii_lowercase ''off'' = ''off''"
  by code_simp

lemma is_off_says: "is_off w \<longleftrightarrow> says w None"
  by (simp add: is_off_def eq_ignore_ascii_case_def lower_off says_def)

lemma severity_says: "severity_from_str w = Inr v \<longleftrightarrow> says w (Some v)"
  by (cases v) (auto simp: severity_from_str_def says_def Let_def)

lemma says_inj: "says w s \<Longrightarrow> says w t \<Longrightarrow> s = t"
proof -
  have neq: "severity_str v \<noteq> ''off''" for v by (cases v) simp_all
  have inj: "severity_str v = severity_str u \<Longrightarrow> v = u" for v u by (cases v; cases u) simp_all
  show "says w s \<Longrightarrow> says w t \<Longrightarrow> s = t" unfolding says_def using neq inj by (cases s; cases t) fastforce+
qed

lemma severity_word_says: "severity_word w = Some s \<longleftrightarrow> says w s"
proof (cases s)
  case None
  then show ?thesis by (auto simp: severity_word_def is_off_says split: sum.splits)
next
  case (Some v)
  then show ?thesis using says_inj [of w None "Some v"] by (auto simp: severity_word_def is_off_says severity_says [symmetric] split: sum.splits)
qed

lemma severity_word_read: "is_severity_word w \<longleftrightarrow> (\<exists>s. severity_word w = Some s)"
  by (auto simp: is_severity_word_def severity_word_def is_ok_def split: sum.splits)

lemma concat_map_Nil: "concat (map f xs) = [] \<longleftrightarrow> list_all (\<lambda>x. f x = []) xs"
  by (auto simp: list_all_iff)

lemma given_has: "has c q \<longleftrightarrow> q \<in> set (given c)"
  by (auto simp: has_def given_def)

lemma default_config: "has config_default q = False" "given config_default = []" "pattern config_default = None" "offset config_default = None"
  "allow config_default = []"
  by (simp_all add: has_def given_def config_default_def)

lemma check_detailed_Nil:
  assumes "rule i = Some r" "bget (rules p) i = Some (Detailed c)"
  shows "check_detailed compiles i r c = [] \<longleftrightarrow> states r (Detailed c) (severity (effective p i)) \<and> runs_on compiles r (effective p i)"
proof -
  let ?e = "effective p i"
  have e: "config ?e = c" "severity ?e = (case cfg_severity c of Some w \<Rightarrow> (case severity_word w of Some s \<Rightarrow> s | None \<Rightarrow> default r) | None \<Rightarrow> default r)"
    using assms by (simp_all add: effective_def Let_def)
  have off: "is_off w \<longleftrightarrow> severity_word w = Some None" for w by (simp add: is_off_says severity_word_says)
  have st: "states r (Detailed c) (severity ?e) \<longleftrightarrow> (case cfg_severity c of None \<Rightarrow> True | Some w \<Rightarrow> is_severity_word w)"
    by (auto simp: states_def e severity_word_read severity_word_says [symmetric] split: option.splits)
  have on: "(case cfg_severity c of Some w \<Rightarrow> \<not> is_off w | None \<Rightarrow> default r \<noteq> None) \<longleftrightarrow> severity ?e \<noteq> None"
    if "case cfg_severity c of None \<Rightarrow> True | Some w \<Rightarrow> is_severity_word w"
    using that by (auto simp: e off severity_word_read split: option.splits)
  have parts: "check_detailed compiles i r c = [] \<longleftrightarrow>
      (case cfg_severity c of None \<Rightarrow> True | Some w \<Rightarrow> is_severity_word w) \<and>
      (\<not> (case cfg_severity c of Some w \<Rightarrow> \<not> is_off w | None \<Rightarrow> default r \<noteq> None) \<or> list_all (has c) (required r)) \<and>
      list_all (\<lambda>q. q \<in> set (params r)) (given c) \<and>
      (case pattern c of None \<Rightarrow> True | Some q \<Rightarrow> compiles q) \<and>
      (case offset c of None \<Rightarrow> True | Some q \<Rightarrow> is_ok (parse_offset q)) \<and> list_all (\<lambda>w. is_ok (parse_window w)) (allow c)"
    unfolding check_detailed_def Let_def append_is_Nil_conv concat_map_Nil map_is_Nil_conv filter_empty_conv if_split [of "\<lambda>x. x = []"]
    by (auto simp: list_all_iff is_ok_def split: option.splits sum.splits)
  show ?thesis unfolding parts st runs_on_def e(1) using on by blast
qed

lemma check_rule_Nil:
  assumes "bget (rules p) i = Some st"
  shows "check_rule compiles (i, st) = [] \<longleftrightarrow> sound_rule compiles p (i, st)"
proof (cases "rule i")
  case None
  then show ?thesis by (simp add: check_rule_def sound_rule_def)
next
  case (Some r)
  show ?thesis
  proof (cases st)
    case (Switch on)
    then show ?thesis using assms Some
      by (simp add: check_rule_def sound_rule_def states_def runs_on_def effective_def Let_def default_config)
  next
    case (Word w)
    have "list_all (has config_default) (required r) \<longleftrightarrow> required r = []" by (cases "required r") (simp_all add: default_config)
    then show ?thesis using assms Some Word
      by (auto simp: check_rule_def sound_rule_def states_def runs_on_def effective_def Let_def default_config is_off_says severity_word_read
          severity_word_says [symmetric] split: option.splits)
  next
    case (Detailed c)
    then show ?thesis using assms Some check_detailed_Nil by (simp add: check_rule_def sound_rule_def)
  qed
qed

lemma check_policies_sound:
  "check_policies compiles p = [] \<longleftrightarrow>
     list_all (sound_rule compiles p) (entries (rules p)) \<and> list_all sound_suppression (suppress p)"
proof -
  have "check_rule compiles x = [] \<longleftrightarrow> sound_rule compiles p x" if "x \<in> set (entries (rules p))" for x
    using that check_rule_Nil [of p "fst x" "snd x" compiles] by (simp add: entries_bget [symmetric])
  moreover have "check_suppression x = [] \<longleftrightarrow> sound_suppression x" for x
  proof -
    have "is_ok (parse_date u) \<longleftrightarrow> (\<exists>y m d. trim u = date_of (y, m, d) \<and> 0 \<le> y \<and> y < 10000 \<and> real_date (y, m, d))" for u
      unfolding is_ok_iff parse_date_iff [symmetric] by (metis prod_cases3)
    moreover have "(case parse_date u of Inl e \<Rightarrow> [Invalid_until (sup_rule x) e] | Inr _ \<Rightarrow> []) = [] \<longleftrightarrow> is_ok (parse_date u)" for u
      by (simp add: is_ok_def split: sum.split)
    ultimately show ?thesis by (cases "sup_until x") (simp_all add: check_suppression_def sound_suppression_def blank_def)
  qed
  ultimately show ?thesis unfolding check_policies_def append_is_Nil_conv concat_map_Nil by (simp add: list_all_iff)
qed


section \<open>Suppressions\<close>

lemma today_date: "date (at now 0) = date_of (civil_from_days (now div 86400))"
  by (simp add: at_def Let_def date_def split: prod.split)

lemma until_later:
  assumes "sound_suppression s" "sup_until s = Some u" "civil_from_days (now div 86400) = (y, m, d)" "0 \<le> y" "y < 10000"
  shows "date (at now 0) < trim u \<longleftrightarrow> (\<exists>end_day. parse_date u = Inr end_day \<and> (y, m, d) < end_day)"
proof -
  obtain y' m' d' where u: "trim u = date_of (y', m', d')" "0 \<le> y'" "y' < 10000" "real_date (y', m', d')"
    using assms by (auto simp: sound_suppression_def)
  then have "parse_date u = Inr (y', m', d')" by (simp add: parse_date_iff)
  moreover have "real_date (y, m, d)" using civil_real [of "now div 86400"] assms by simp
  ultimately show ?thesis using assms u by (auto simp: today_date date_less less_prod_def)
qed

text \<open>C26. In a checked block, a finding is suppressed exactly while some suppression of its rule, on its subject or on the whole project, has
  no end or ends on a later day in UTC: the comparison of dates as text is the comparison of dates.\<close>

theorem a_suppression_ends_on_its_day:
  assumes "check_policies compiles p = []" "civil_from_days (now div 86400) = (y, m, d)" "0 \<le> y" "y < 10000"
  shows "suppressed p i subject (date (at now 0)) \<longleftrightarrow>
     list_ex (\<lambda>s. sup_rule s = i \<and> (sup_on s = None \<or> sup_on s = subject) \<and>
        (sup_until s = None \<or> (\<exists>u end_day. sup_until s = Some u \<and> parse_date u = Inr end_day \<and> (y, m, d) < end_day))) (suppress p)"
proof -
  have "sound_suppression s" if "s \<in> set (suppress p)" for s
    using that assms(1) by (simp add: check_policies_sound list_all_iff)
  then show ?thesis
    unfolding suppressed_def list_ex_iff using until_later [OF _ _ assms(2-4)] by (fastforce split: option.splits)
qed

theorem a_suppression_ends_on_its_day_witness:
  "(let p = \<lparr>rules = bempty, suppress = [\<lparr>sup_rule = ''naming.table'', sup_on = Some ''app.t'', sup_reason = ''old'', sup_until = Some '' 2026-03-01 ''\<rparr>]\<rparr>
    in suppressed p ''naming.table'' (Some ''app.t'') (date (at (20512 * 86400 + 86399) 0)) \<and>
       \<not> suppressed p ''naming.table'' (Some ''app.t'') (date (at (20513 * 86400) 0)))"
proof -
  define p where "p = \<lparr>rules = bempty, suppress = [\<lparr>sup_rule = ''naming.table'', sup_on = Some ''app.t'', sup_reason = ''old'', sup_until = Some '' 2026-03-01 ''\<rparr>]\<rparr>"
  have c: "check_policies (\<lambda>_. True) p = []" unfolding p_def by code_simp
  have d: "civil_from_days ((20512 * 86400 + 86399) div 86400) = (2026, 2, 28)" "civil_from_days (20513 * 86400 div 86400) = (2026, 3, 1)" by code_simp+
  have u: "parse_date '' 2026-03-01 '' = Inr (2026, 3, 1)" by code_simp
  show ?thesis
    using a_suppression_ends_on_its_day [OF c d(1), of "''naming.table''" "Some ''app.t''"] a_suppression_ends_on_its_day [OF c d(2), of "''naming.table''" "Some ''app.t''"] u
    unfolding Let_def p_def [symmetric] by (simp add: p_def)
qed

end
