(* ===== verification/Policy_Eval.thy ===== *)
theory Policy_Eval
  imports Policy Type_Ref
begin

text \<open>
  \<open>crates/pbps-policy/src/evaluate.rs\<close>: the declaration rules over a schema and the plan rules over a change set.

  A change is seen as the rules see it: the variants they read are constructors with the fields they read, and every other variant of
  \<open>Change\<close> is \<open>Other_change\<close> with the table that \<open>Change::table\<close> gives for it. The target and the permissions of a grant, which only its
  message holds, are one value of a type of their own. A table is the names and types the rules read. A message is a constructor with the
  values it names. \<open>regex_lite\<close> is the parameter \<open>regex\<close>: \<open>Regex::new\<close> of a pattern, with \<open>is_match\<close> of the result.
\<close>

section \<open>What is evaluated\<close>

datatype risk_class =
    Rename | Destructive | Narrowing | NotNull | Constraint | DataUpdate | DataDelete | Revoke | GrantWiden | Numbering | RowSecurity
  | TypeRebuild | ExtensionCode

datatype 'g change =
    RenameTable table_name table_name
  | AddColumn table_name column_name
  | AddComputedColumn table_name column_name
  | DropColumn column_ref
  | DropComputedColumn table_name column_name
  | AlterColumnType (ac_column: column_ref) (ac_from: column_type) (ac_to: column_type) (ac_from_nullable: bool) (ac_to_nullable: bool)
      (ac_using: bool)
  | AlterColumnNullability column_ref bool
  | SetPartitionNotNull table_name bool
  | Grant role_name 'g
  | Other_change "table_name option"

record 'g planned_change =
  change :: "'g change"
  risks :: "risk_class set"

primrec change_table :: "'g change \<Rightarrow> table_name option" where
  "change_table (RenameTable old _) = Some old"
| "change_table (AddColumn t _) = Some t"
| "change_table (AddComputedColumn t _) = Some t"
| "change_table (DropColumn c) = Some (cr_table c)"
| "change_table (DropComputedColumn t _) = Some t"
| "change_table (AlterColumnType c _ _ _ _ _) = Some (cr_table c)"
| "change_table (AlterColumnNullability c _) = Some (cr_table c)"
| "change_table (SetPartitionNotNull t _) = Some t"
| "change_table (Grant _ _) = None"
| "change_table (Other_change t) = t"

record policy_table =
  pt_columns :: "(column_name, column_type) btree"
  pt_computed :: "column_name list"
  pt_indexes :: "string list"
  pt_primary_key :: "string option option"
  pt_unique :: "string list"
  pt_foreign_keys :: "string list"
  pt_checks :: "string list"
  pt_rows :: "nat option"

record eval_context =
  ctx_now :: int
  max_rows :: nat
  connected :: bool
  only :: "string set option"
  deprecated_types :: "(string \<times> string) list"

datatype 'g message =
    Does_not_match table_name string string string
  | Declared_rows table_name nat nat
  | Deprecated_type table_name column_name column_type string
  | Expand_contract table_name
  | Converted column_ref column_type column_type
  | Array_narrowed column_ref column_type column_type
  | Depends_on_data column_ref column_type column_type
  | Gains role_name 'g
  | Outside_windows string int int "string option" "string list"

record 'g policy_finding =
  fd_id :: string
  fd_severity :: severity
  fd_message :: "'g message"
  fd_subject :: "string option"

definition today :: "eval_context \<Rightarrow> string" where
  "today ctx = date (at (ctx_now ctx) 0)"

definition wants :: "eval_context \<Rightarrow> string \<Rightarrow> bool" where
  "wants ctx subject = (case only ctx of None \<Rightarrow> True | Some names \<Rightarrow> subject \<in> names)"

record live =
  lv_id :: string
  lv_severity :: severity
  lv_config :: rule_config
  lv_policies :: policies
  lv_today :: string

definition live_of :: "policies \<Rightarrow> string \<Rightarrow> eval_context \<Rightarrow> live option" where
  "live_of p i ctx =
     (let e = effective p i in
      case severity e of
        None \<Rightarrow> None
      | Some s \<Rightarrow> Some \<lparr>lv_id = i, lv_severity = s, lv_config = config e, lv_policies = p, lv_today = today ctx\<rparr>)"

definition live_finding :: "live \<Rightarrow> string option \<Rightarrow> 'g message \<Rightarrow> 'g policy_finding option" where
  "live_finding l subject msg =
     (if suppressed (lv_policies l) (lv_id l) subject (lv_today l) then None
      else Some \<lparr>fd_id = lv_id l, fd_severity = lv_severity l, fd_message = msg, fd_subject = subject\<rparr>)"

text \<open>\<open>out.extend(option)\<close>, and with the index of the change.\<close>

definition extend_one :: "'a option \<Rightarrow> 'a list" where
  "extend_one x = (case x of None \<Rightarrow> [] | Some y \<Rightarrow> [y])"

section \<open>The declaration rules\<close>

datatype naming = Naming_table | Naming_column | Naming_index | Naming_constraint

definition names_of :: "naming \<Rightarrow> table_name \<Rightarrow> policy_table \<Rightarrow> (string \<times> string) list" where
  "names_of what name table =
     (case what of
        Naming_table \<Rightarrow> [(''table'', tn_name name)]
      | Naming_column \<Rightarrow>
          map (Pair ''column'') (bkeys (pt_columns table)) @ map (Pair ''computed column'') (pt_computed table)
      | Naming_index \<Rightarrow> map (Pair ''index'') (pt_indexes table)
      | Naming_constraint \<Rightarrow>
          (case pt_primary_key table of Some (Some n) \<Rightarrow> [(''primary key'', n)] | _ \<Rightarrow> []) @
          map (Pair ''unique constraint'') (pt_unique table) @
          map (Pair ''foreign key'') (pt_foreign_keys table) @
          map (Pair ''check constraint'') (pt_checks table))"

definition anchored :: "string \<Rightarrow> string" where
  "anchored pat = ''^(?:'' @ pat @ '')$''"

definition naming_findings ::
  "(string \<Rightarrow> (string \<Rightarrow> bool) option) \<Rightarrow> (table_name, policy_table) btree \<Rightarrow> policies \<Rightarrow> eval_context \<Rightarrow> string \<times> naming \<Rightarrow> 'g policy_finding list"
where
  "naming_findings regex schema p ctx iw =
     (case iw of (i, what) \<Rightarrow>
      case live_of p i ctx of
        None \<Rightarrow> []
      | Some l \<Rightarrow>
          (case pattern (lv_config l) of
             None \<Rightarrow> []
           | Some pat \<Rightarrow>
               (case regex (anchored pat) of
                  None \<Rightarrow> []
                | Some is_match \<Rightarrow>
                    concat (map (\<lambda>(name, table).
                      if \<not> wants ctx (table_raw name) then []
                      else concat (map (\<lambda>(kind, n).
                             if is_match n then []
                             else extend_one (live_finding l (Some (table_raw name)) (Does_not_match name kind n pat)))
                           (names_of what name table)))
                      (entries schema)))))"

definition row_findings :: "(table_name, policy_table) btree \<Rightarrow> policies \<Rightarrow> eval_context \<Rightarrow> 'g policy_finding list" where
  "row_findings schema p ctx =
     (case live_of p DATA_MAX_ROWS ctx of
        None \<Rightarrow> []
      | Some l \<Rightarrow>
          (let limit = (case rows (lv_config l) of None \<Rightarrow> max_rows ctx | Some n \<Rightarrow> n) in
           concat (map (\<lambda>(name, table).
             if \<not> wants ctx (table_raw name) then []
             else (case pt_rows table of
                     None \<Rightarrow> []
                   | Some n \<Rightarrow>
                       if n > limit then extend_one (live_finding l (Some (table_raw name)) (Declared_rows name n limit)) else []))
             (entries schema))))"

definition type_findings :: "(table_name, policy_table) btree \<Rightarrow> policies \<Rightarrow> eval_context \<Rightarrow> 'g policy_finding list" where
  "type_findings schema p ctx =
     (case live_of p COLUMN_NO_DEPRECATED_TYPE ctx of
        None \<Rightarrow> []
      | Some l \<Rightarrow>
          concat (map (\<lambda>(name, table).
            if \<not> wants ctx (table_raw name) then []
            else concat (map (\<lambda>(column, ty).
                   case find (\<lambda>(base, _). base = ct_base ty) (deprecated_types ctx) of
                     None \<Rightarrow> []
                   | Some (_, advice) \<Rightarrow> extend_one (live_finding l (Some (table_raw name)) (Deprecated_type name column ty advice)))
                 (entries (pt_columns table))))
            (entries schema)))"

definition declarations ::
  "(string \<Rightarrow> (string \<Rightarrow> bool) option) \<Rightarrow> (table_name, policy_table) btree \<Rightarrow> policies \<Rightarrow> eval_context \<Rightarrow> 'g policy_finding list" where
  "declarations regex schema p ctx =
     concat (map (naming_findings regex schema p ctx)
       [(NAMING_TABLE, Naming_table), (NAMING_COLUMN, Naming_column), (NAMING_INDEX, Naming_index), (NAMING_CONSTRAINT, Naming_constraint)]) @
     row_findings schema p ctx @
     type_findings schema p ctx"

section \<open>The plan rules\<close>

text \<open>One turn of the walk of \<open>table_identities\<close>: the identity of the table a change names, and the names held afterwards.\<close>

definition identity_step :: "(table_name, nat) btree \<Rightarrow> nat \<Rightarrow> 'g change \<Rightarrow> nat option \<times> (table_name, nat) btree \<times> nat" where
  "identity_step current next c =
     (case change_table c of
        None \<Rightarrow> (None, current, next)
      | Some name \<Rightarrow>
          (let (i, current, next) =
             (case bget current name of Some i \<Rightarrow> (i, current, next) | None \<Rightarrow> (next, bput name next current, next + 1))
           in (Some i,
               case c of RenameTable old new \<Rightarrow> bput new i (bretain (\<lambda>k _. k \<noteq> old) current) | _ \<Rightarrow> current,
               next)))"

fun identities_from :: "(table_name, nat) btree \<Rightarrow> nat \<Rightarrow> 'g change list \<Rightarrow> nat option list" where
  "identities_from current next [] = []"
| "identities_from current next (c # cs) =
     (case identity_step current next c of (i, current, next) \<Rightarrow> i # identities_from current next cs)"

definition table_identities :: "'g planned_change list \<Rightarrow> nat option list" where
  "table_identities cs = identities_from bempty 0 (map change cs)"

definition added_columns :: "'g planned_change list \<Rightarrow> (nat \<times> column_name) set" where
  "added_columns cs = set (concat (map (\<lambda>(p, i).
     case (i, change p) of
       (Some t, AddColumn _ n) \<Rightarrow> [(t, n)]
     | (Some t, AddComputedColumn _ n) \<Rightarrow> [(t, n)]
     | _ \<Rightarrow> []) (zip cs (table_identities cs))))"

definition dropped_columns :: "'g planned_change list \<Rightarrow> (nat \<times> column_name) set" where
  "dropped_columns cs = set (concat (map (\<lambda>(p, i).
     case (i, change p) of
       (Some t, DropColumn c) \<Rightarrow> [(t, cr_name c)]
     | (Some t, DropComputedColumn _ n) \<Rightarrow> [(t, n)]
     | _ \<Rightarrow> []) (zip cs (table_identities cs))))"

text \<open>The two sides of the pattern: whether a change of the table with identity \<open>i\<close> adds, and the table it contracts.\<close>

definition adds_to :: "(nat \<times> column_name) set \<Rightarrow> nat \<Rightarrow> 'g change \<Rightarrow> bool" where
  "adds_to dropped i c =
     (case c of
        AddColumn _ _ \<Rightarrow> True
      | AddComputedColumn _ n \<Rightarrow> (i, n) \<notin> dropped
      | _ \<Rightarrow> False)"

definition contracted :: "(nat \<times> column_name) set \<Rightarrow> nat option \<Rightarrow> 'g planned_change \<Rightarrow> table_name option" where
  "contracted added i p =
     (case change p of
        DropColumn c \<Rightarrow> Some (cr_table c)
      | AlterColumnType c _ _ from_nullable to_nullable _ \<Rightarrow>
          if Narrowing \<in> risks p \<or> (from_nullable \<and> \<not> to_nullable) then Some (cr_table c) else None
      | AlterColumnNullability c to_nullable \<Rightarrow> if \<not> to_nullable then Some (cr_table c) else None
      | SetPartitionNotNull t not_null \<Rightarrow> if not_null then Some t else None
      | DropComputedColumn t n \<Rightarrow>
          if (case i of None \<Rightarrow> True | Some i \<Rightarrow> (i, n) \<notin> added) then Some t else None
      | _ \<Rightarrow> None)"

text \<open>The maps \<open>adds\<close> and \<open>contracts\<close>: the first index of each identity.\<close>

definition first_adds :: "'g planned_change list \<Rightarrow> (nat, nat) btree" where
  "first_adds cs =
     fold (\<lambda>(k, p, i) m. case i of
        Some i \<Rightarrow> if adds_to (dropped_columns cs) i (change p) then bentry i k m else m
      | None \<Rightarrow> m) (enumerate 0 (zip cs (table_identities cs))) bempty"

definition first_contracts :: "'g planned_change list \<Rightarrow> (nat, nat \<times> table_name) btree" where
  "first_contracts cs =
     fold (\<lambda>(k, p, i) m. case (contracted (added_columns cs) i p, i) of
        (Some t, Some i) \<Rightarrow> bentry i (k, t) m
      | _ \<Rightarrow> m) (enumerate 0 (zip cs (table_identities cs))) bempty"

definition expand_contract :: "'g planned_change list \<Rightarrow> policies \<Rightarrow> eval_context \<Rightarrow> (nat \<times> 'g policy_finding) list" where
  "expand_contract cs p ctx =
     (case live_of p CHANGE_EXPAND_CONTRACT ctx of
        None \<Rightarrow> []
      | Some l \<Rightarrow>
          concat (map (\<lambda>(i, k, t).
            if bhas (first_adds cs) i
            then extend_one (map_option (Pair k) (live_finding l (Some (table_raw t)) (Expand_contract t)))
            else []) (entries (first_contracts cs))))"

definition narrowing_message :: "'g change \<Rightarrow> 'g message" where
  "narrowing_message c =
     (if ac_using c then Converted (ac_column c) (ac_from c) (ac_to c)
      else if ct_array (ac_from c) \<or> ct_array (ac_to c) then Array_narrowed (ac_column c) (ac_from c) (ac_to c)
      else Depends_on_data (ac_column c) (ac_from c) (ac_to c))"

definition narrowing_findings :: "'g planned_change list \<Rightarrow> policies \<Rightarrow> eval_context \<Rightarrow> (nat \<times> 'g policy_finding) list" where
  "narrowing_findings cs p ctx =
     (case live_of p CHANGE_NARROWING_ON_DATA ctx of
        None \<Rightarrow> []
      | Some l \<Rightarrow>
          concat (map (\<lambda>(k, q).
            if is_AlterColumnType (change q) \<and> Narrowing \<in> risks q
            then extend_one (map_option (Pair k)
                   (live_finding l (Some (table_raw (cr_table (ac_column (change q))))) (narrowing_message (change q))))
            else []) (enumerate 0 cs)))"

definition grant_findings :: "'g planned_change list \<Rightarrow> policies \<Rightarrow> eval_context \<Rightarrow> (nat \<times> 'g policy_finding) list" where
  "grant_findings cs p ctx =
     (case live_of p GRANT_WIDEN ctx of
        None \<Rightarrow> []
      | Some l \<Rightarrow>
          concat (map (\<lambda>(k, q).
            case change q of
              Grant role g \<Rightarrow> extend_one (map_option (Pair k) (live_finding l (Some (''role '' @ role)) (Gains role g)))
            | _ \<Rightarrow> []) (enumerate 0 cs)))"

definition window_offset :: "rule_config \<Rightarrow> int" where
  "window_offset c =
     (case offset c of
        None \<Rightarrow> 0
      | Some t \<Rightarrow> (case parse_offset t of Inl _ \<Rightarrow> 0 | Inr m \<Rightarrow> m))"

definition inside_windows :: "rule_config \<Rightarrow> civil \<Rightarrow> bool" where
  "inside_windows c t =
     list_ex (\<lambda>w. case parse_window w of Inl _ \<Rightarrow> False | Inr v \<Rightarrow> contains v t) (allow c)"

definition window_findings :: "'g planned_change list \<Rightarrow> policies \<Rightarrow> eval_context \<Rightarrow> (nat \<times> 'g policy_finding) list" where
  "window_findings cs p ctx =
     (if \<not> connected ctx \<or> cs = [] then []
      else
        (case live_of p CHANGE_WINDOW ctx of
           None \<Rightarrow> []
         | Some l \<Rightarrow>
             (let t = at (ctx_now ctx) (window_offset (lv_config l)) in
              if inside_windows (lv_config l) t then []
              else extend_one (map_option (Pair 0) (live_finding l None
                     (Outside_windows (date t) (cv_hour t) (cv_minute t) (offset (lv_config l)) (allow (lv_config l))))))))"

definition plan :: "'g planned_change list \<Rightarrow> policies \<Rightarrow> eval_context \<Rightarrow> (nat \<times> 'g policy_finding) list" where
  "plan cs p ctx = expand_contract cs p ctx @ narrowing_findings cs p ctx @ grant_findings cs p ctx @ window_findings cs p ctx"

end
