(* ===== verification/Policy_Window.thy ===== *)
theory Policy_Window
  imports Policy
begin

text \<open>
  The change windows of \<open>crates/pbps-policy/src/evaluate.rs\<close>: what an accepted window holds, and that a window written
  \<open>mon-fri,sun 09:00-17:00\<close> admits the days and minutes it says, a range of days going around the week where it has to.
\<close>

section \<open>What is accepted\<close>

lemma weekday_range: "parse_weekday s = Inr n \<Longrightarrow> 0 \<le> n \<and> n \<le> 6"
  by (simp add: parse_weekday_iff)

lemma window_days_range:
  assumes "window_days ds part = Inr ds'" "ds \<subseteq> {0..6}"
  shows "ds' \<subseteq> {0..6} \<and> ds' \<noteq> {}"
proof (cases "split_once (CHR ''-'') part")
  case None
  then obtain d where "parse_weekday part = Inr d" "ds' = insert d ds" using assms(1) by (auto simp: window_days_def result_simps)
  then show ?thesis using weekday_range assms(2) by simp
next
  case (Some ab)
  obtain a b where "0 \<le> a" "a \<le> 6" "0 \<le> b" "b \<le> 6" "ds' = (if a \<le> b then ds \<union> {a..b} else ds \<union> ({a..6} \<union> {0..b}))"
    using assms(1) Some weekday_range by (cases ab) (simp add: window_days_def result_simps, blast)
  then show ?thesis using assms(2) by auto
qed

lemma all_window_days_range:
  "try_fold window_days ds parts = Inr ds' \<Longrightarrow> ds \<subseteq> {0..6} \<Longrightarrow> parts \<noteq> [] \<or> ds \<noteq> {} \<Longrightarrow> ds' \<subseteq> {0..6} \<and> ds' \<noteq> {}"
proof (induction parts arbitrary: ds)
  case (Cons part parts)
  then obtain ds1 where ds1: "window_days ds part = Inr ds1" "try_fold window_days ds1 parts = Inr ds'" by (auto simp: result_simps)
  with window_days_range [OF ds1(1)] Cons.prems Cons.IH show ?case by simp
qed auto

section \<open>What a written window admits\<close>

type_synonym day_range = "int \<times> int option"

definition day_name :: "int \<Rightarrow> string" where
  "day_name d = fst (weekday_names ! nat d)"

definition day_text :: "day_range \<Rightarrow> string" where
  "day_text r = (case r of (a, None) \<Rightarrow> day_name a | (a, Some b) \<Rightarrow> day_name a @ ''-'' @ day_name b)"

definition window_text :: "day_range list \<Rightarrow> int \<Rightarrow> int \<Rightarrow> string" where
  "window_text rs f t = join_with '','' (map day_text rs) @ '' '' @ clock f @ ''-'' @ clock t"

text \<open>The days reached from \<open>a\<close> going forward through the week, up to \<open>b\<close>.\<close>

definition day_range_days :: "day_range \<Rightarrow> int set" where
  "day_range_days r = (case r of (a, b) \<Rightarrow> (\<lambda>k. (a + k) mod 7) ` {0..((case b of None \<Rightarrow> a | Some b \<Rightarrow> b) - a) mod 7})"

definition a_day :: "int \<Rightarrow> bool" where
  "a_day d \<longleftrightarrow> 0 \<le> d \<and> d \<le> 6"

definition day_range_ok :: "day_range \<Rightarrow> bool" where
  "day_range_ok r = (case r of (a, b) \<Rightarrow> a_day a \<and> (case b of None \<Rightarrow> True | Some b \<Rightarrow> a_day b))"

lemma day_cases: "a_day d \<Longrightarrow> d \<in> set [0, 1, 2, 3, 4, 5, 6]"
  by (auto simp: a_day_def)

lemma day_names:
  assumes "a_day d"
  shows "parse_weekday (day_name d) = Inr d" "CHR ''-'' \<notin> set (day_name d)" "CHR '','' \<notin> set (day_name d)"
    "list_all graphic (day_name d)" "day_name d \<noteq> []"
proof -
  have "list_all (\<lambda>d. to_ascii_lowercase (day_name d) = day_name d \<and> \<not> list_ex (\<lambda>c. c = CHR ''-'' \<or> c = CHR '','') (day_name d) \<and>
      list_all graphic (day_name d) \<and> day_name d \<noteq> []) [0, 1, 2, 3, 4, 5, 6]" by code_simp
  with day_cases [OF assms] have n: "to_ascii_lowercase (day_name d) = day_name d" "CHR ''-'' \<notin> set (day_name d)" "CHR '','' \<notin> set (day_name d)"
    "list_all graphic (day_name d)" "day_name d \<noteq> []"
    unfolding list_all_iff list_ex_iff by blast+
  from n(4,5) have "trim (day_name d) = day_name d" by (intro trim_graphic) (simp_all add: list_all_iff)
  with n(1) assms show "parse_weekday (day_name d) = Inr d" by (simp add: parse_weekday_iff a_day_def) (simp add: day_name_def split: prod.split)
  show "CHR ''-'' \<notin> set (day_name d)" "CHR '','' \<notin> set (day_name d)" "list_all graphic (day_name d)" "day_name d \<noteq> []" using n by simp_all
qed

lemma week_range:
  assumes "a_day a" "a_day b"
  shows "(if a \<le> b then {a..b} else {a..6} \<union> {0..b}) = day_range_days (a, Some b)"
proof -
  have "list_all (\<lambda>a. list_all (\<lambda>b. (if a \<le> b then {a..b} else {a..6} \<union> {0..b}) = day_range_days (a, Some b)) [0, 1, 2, 3, 4, 5, 6]) [0, 1, 2, 3, 4, 5, 6]"
    by code_simp
  with day_cases [OF assms(1)] day_cases [OF assms(2)] show ?thesis unfolding list_all_iff by blast
qed

lemma read_day_text: "day_range_ok r \<Longrightarrow> window_days ds (day_text r) = Inr (ds \<union> day_range_days r)"
proof -
  assume ok: "day_range_ok r"
  obtain a b where r: "r = (a, b)" by force
  show ?thesis
  proof (cases b)
    case None
    with ok r have a: "a_day a" by (simp add: day_range_ok_def)
    then have "split_once (CHR ''-'') (day_name a) = None" by (simp add: split_once_None day_names)
    then show ?thesis using r None a by (simp add: window_days_def day_text_def day_names map_err_def day_range_days_def a_day_def)
  next
    case (Some b')
    with ok r have ab: "a_day a" "a_day b'" by (simp_all add: day_range_ok_def)
    then have "split_once (CHR ''-'') (day_name a @ ''-'' @ day_name b') = Some (day_name a, day_name b')" by (simp add: split_once_Some day_names)
    then show ?thesis unfolding r Some week_range [OF ab, symmetric] using ab by (simp add: window_days_def day_text_def day_names map_err_def)
  qed
qed

lemma read_day_texts: "list_all day_range_ok rs \<Longrightarrow> try_fold window_days ds (map day_text rs) = Inr (ds \<union> \<Union> (day_range_days ` set rs))"
  by (induction rs arbitrary: ds) (simp_all add: read_day_text Un_assoc)

lemma split_once_space_graphic:
  "list_all graphic a \<Longrightarrow> split_once_space (a @ CHR '' '' # b) = Some (a, b)"
proof (induction a)
  case Nil
  then show ?case by (simp add: white_space_def)
next
  case (Cons c a)
  have "find (\<lambda>w. prefix w (c # a @ CHR '' '' # b)) white_space = None"
  proof -
    have "\<not> prefix w (c # a @ CHR '' '' # b)" if "w \<in> set white_space" for w
      using white_space_heads [OF that] Cons.prems by (cases w) auto
    then show ?thesis unfolding find_None_iff by blast
  qed
  then show ?case using Cons by simp
qed

lemma clock_graphic: "0 \<le> t \<Longrightarrow> t \<le> 24 * 60 \<Longrightarrow> list_all graphic (clock t) \<and> clock t \<noteq> [] \<and> CHR ''-'' \<notin> set (clock t)"
proof -
  assume t: "0 \<le> t" "t \<le> 24 * 60"
  have two: "list_all graphic (zero_padded 2 i) \<and> CHR ''-'' \<notin> set (zero_padded 2 i)" if "0 \<le> i" "i < 100" for i
  proof -
    have "has_digits (zero_padded 2 i) 2" using digits_2_iff [of "zero_padded 2 i" i] that by simp
    from padded_digits [OF this] show ?thesis by (fastforce simp: list_all_iff graphic_def byte_def)
  qed
  have "0 \<le> t div 60" "t div 60 < 100" "0 \<le> t mod 60" "t mod 60 < 100" using t pos_mod_bound [of 60 t] by auto
  with two [of "t div 60"] two [of "t mod 60"] show ?thesis by (simp add: clock_def graphic_def byte_def)
qed

lemma day_text_graphic: "day_range_ok r \<Longrightarrow> list_all graphic (day_text r) \<and> day_text r \<noteq> [] \<and> CHR '','' \<notin> set (day_text r)"
  by (auto simp: day_text_def day_range_ok_def day_names graphic_def byte_def split: prod.splits option.splits)

lemma join_graphic:
  "list_all (\<lambda>x. list_all graphic x \<and> x \<noteq> []) xs \<Longrightarrow> xs \<noteq> [] \<Longrightarrow> list_all graphic (join_with '','' xs) \<and> join_with '','' xs \<noteq> []"
  by (induction "'',''" xs rule: join_with.induct) (auto simp: graphic_def byte_def)

lemma graphic_trim: "list_all graphic u \<Longrightarrow> u \<noteq> [] \<Longrightarrow> trim u = u"
  by (intro trim_graphic) (simp_all add: list_all_iff)

lemma parse_window_text:
  assumes "rs \<noteq> []" "list_all day_range_ok rs" "0 \<le> f" "f < t" "t \<le> 24 * 60" "trim s = window_text rs f t"
  shows "parse_window s = Inr \<lparr>days = \<Union> (day_range_days ` set rs), win_from = f, win_to = t\<rparr>"
proof -
  have ds: "list_all graphic (join_with '','' (map day_text rs))"
    using join_graphic [of "map day_text rs"] assms(1,2) by (simp add: list_all_iff) (metis day_text_graphic list_all_iff)
  have parts: "split_on (CHR '','') (join_with '','' (map day_text rs)) = map day_text rs"
    by (rule split_join_with) (use assms(1,2) in \<open>auto simp: list_all_iff day_text_graphic\<close>)
  note g = clock_graphic [of f] clock_graphic [of t]
  have hours: "trim (clock f @ ''-'' @ clock t) = clock f @ ''-'' @ clock t"
    by (rule graphic_trim) (use g assms(3-5) in \<open>simp_all add: graphic_def byte_def\<close>)
  have once: "split_once (CHR ''-'') (clock f @ ''-'' @ clock t) = Some (clock f, clock t)" using g assms(3-5) by (simp add: split_once_Some)
  have hm: "parse_hhmm (clock f) = Inr f" "parse_hhmm (clock t) = Inr t" unfolding parse_hhmm_iff using graphic_trim g assms(3-5) by simp_all
  show ?thesis
    unfolding parse_window_def assms(6) window_text_def
    using split_once_space_graphic [OF ds, of "clock f @ ''-'' @ clock t"] parts read_day_texts [OF assms(2), of "{}"] hours once hm assms(4)
    by (simp add: map_err_def)
qed

lemma written_window: "rs \<noteq> [] \<Longrightarrow> list_all day_range_ok rs \<Longrightarrow> 0 \<le> f \<Longrightarrow> f < t \<Longrightarrow> t \<le> 24 * 60 \<Longrightarrow> trim (window_text rs f t) = window_text rs f t"
proof -
  assume a: "rs \<noteq> []" "list_all day_range_ok rs" "0 \<le> f" "f < t" "t \<le> 24 * 60"
  have "list_all graphic (join_with '','' (map day_text rs)) \<and> join_with '','' (map day_text rs) \<noteq> []"
    by (rule join_graphic) (use a in \<open>auto simp: list_all_iff dest!: day_text_graphic\<close>)
  moreover have "list_all graphic (clock t) \<and> clock t \<noteq> []" using clock_graphic [of t] a by simp
  ultimately show ?thesis by (intro trim_graphic) (simp_all add: window_text_def list_all_iff)
qed

text \<open>C27. A window written as weekday ranges and a range of minutes is accepted, and admits a moment exactly when its weekday is reached going
  forward from the first to the last day of some range, around the week where the last comes first, and its minute is in the range, the end left
  out. The white space around the text makes no difference.\<close>

theorem written_windows_admit_what_they_say:
  assumes "rs \<noteq> []" "list_all day_range_ok rs" "0 \<le> f" "f < t" "t \<le> 24 * 60" "trim s = window_text rs f t"
  shows "\<exists>w. parse_window s = Inr w \<and>
     (\<forall>c. contains w c \<longleftrightarrow>
        list_ex (\<lambda>r. cv_weekday c \<in> day_range_days r) rs \<and> f \<le> minute_of_day c \<and> minute_of_day c < t)"
  using parse_window_text [OF assms] by (auto simp: contains_def list_ex_iff)

theorem written_windows_admit_what_they_say_witness:
  "\<exists>w. parse_window ''fri-mon,wed 22:00-24:00'' = Inr w \<and> contains w (at (6 * 86400 + 23 * 3600) 0) \<and> \<not> contains w (at (5 * 86400 + 23 * 3600) 0)
     \<and> \<not> contains w (at (6 * 86400 + 21 * 3600) 0)"
proof -
  have t: "trim ''fri-mon,wed 22:00-24:00'' = window_text [(4, Some 0), (2, None)] 1320 1440"
  proof -
    have "''fri-mon,wed 22:00-24:00'' = window_text [(4, Some 0), (2, None)] 1320 1440" by code_simp
    then show ?thesis using written_window [of "[(4, Some 0), (2, None)]" 1320 1440] by (simp add: day_range_ok_def a_day_def)
  qed
  have k: "list_all day_range_ok [(4, Some 0), (2, None)]" by code_simp
  obtain w where w: "parse_window ''fri-mon,wed 22:00-24:00'' = Inr w" "\<forall>c. contains w c \<longleftrightarrow>
        list_ex (\<lambda>r. cv_weekday c \<in> day_range_days r) [(4, Some 0), (2, None)] \<and> 1320 \<le> minute_of_day c \<and> minute_of_day c < 1440"
    using written_windows_admit_what_they_say [OF _ k _ _ _ t] by auto
  have e: "list_ex (\<lambda>r. cv_weekday (at (6 * 86400 + 23 * 3600) 0) \<in> day_range_days r) [(4, Some 0), (2, None)]"
    "\<not> list_ex (\<lambda>r. cv_weekday (at (5 * 86400 + 23 * 3600) 0) \<in> day_range_days r) [(4, Some 0), (2, None)]"
    "minute_of_day (at (6 * 86400 + 23 * 3600) 0) = 1380" "minute_of_day (at (6 * 86400 + 21 * 3600) 0) = 1260" by code_simp+
  show ?thesis using w e by simp
qed

text \<open>An accepted change window has at least one weekday, all of them weekdays, and is a non-empty range of minutes of a day.\<close>

lemma accepted_windows_are_not_empty:
  assumes "parse_window s = Inr w"
  shows "days w \<subseteq> {0..6} \<and> days w \<noteq> {} \<and> 0 \<le> win_from w \<and> win_from w < win_to w \<and> win_to w \<le> 24 * 60"
proof -
  obtain part hours f t where w: "try_fold window_days {} (split_on (CHR '','') part) = Inr (days w)"
    "parse_hhmm f = Inr (win_from w)" "parse_hhmm t = Inr (win_to w)" "win_from w < win_to w"
    using assms by (auto simp: parse_window_def result_simps split: if_splits)
  from all_window_days_range [OF w(1)] w(2-4) show ?thesis by (simp add: parse_hhmm_iff)
qed

end
