(* ===== verification/Policy_Plan.thy ===== *)
theory Policy_Plan
  imports Policy_Eval Policy_Window
begin

text \<open>
  What the plan rules of \<open>evaluate.rs\<close> report: a table is followed across the renames of the plan; a revision that both adds to and
  contracts one table is reported once, at the first contraction; a connected plan computed outside every window of a checked block is
  reported, and one inside is not; and nothing that is off or suppressed is reported.
\<close>

section \<open>Tables across renames\<close>

text \<open>The name a table has after some changes: a rename moves it, and a table renamed onto its name takes the name over.\<close>

definition follow_one :: "'g change \<Rightarrow> table_name \<Rightarrow> table_name option" where
  "follow_one c n = (case c of RenameTable old new \<Rightarrow> if n = old then Some new else if n = new then None else Some n | _ \<Rightarrow> Some n)"

fun follow :: "'g change list \<Rightarrow> table_name \<Rightarrow> table_name option" where
  "follow [] n = Some n"
| "follow (c # cs) n = (case follow_one c n of None \<Rightarrow> None | Some m \<Rightarrow> follow cs m)"

definition ids_inv :: "(table_name, nat) btree \<Rightarrow> nat \<Rightarrow> bool" where
  "ids_inv current next \<longleftrightarrow> (\<forall>a i. bget current a = Some i \<longrightarrow> i < next) \<and> (\<forall>a b i. bget current a = Some i \<longrightarrow> bget current b = Some i \<longrightarrow> a = b)"

lemma ids_inv_empty: "ids_inv bempty 0"
  by (simp add: ids_inv_def)

text \<open>The identity of a name: the one it holds, else the next.\<close>

definition name_id :: "(table_name, nat) btree \<Rightarrow> nat \<Rightarrow> table_name \<Rightarrow> nat" where
  "name_id current next n = (case bget current n of None \<Rightarrow> next | Some k \<Rightarrow> k)"

lemma identity_step_id:
  assumes "identity_step current next c = (i, current', next')"
  shows "i = map_option (name_id current next) (change_table c)" "next \<le> next'"
    "next' = (case change_table c of None \<Rightarrow> next | Some n \<Rightarrow> if bget current n = None then next + 1 else next)"
  using assms by (cases "change_table c"; cases "bget current (the (change_table c))"; simp add: identity_step_def name_id_def)+

lemma identity_step_get:
  assumes "identity_step current next c = (i, current', next')"
  shows "change_table c = None \<Longrightarrow> bget current' = bget current"
    "c = RenameTable old new \<Longrightarrow> bget current' = ((bget current)(old := None))(new \<mapsto> name_id current next old)"
    "\<not> is_RenameTable c \<Longrightarrow> change_table c = Some n \<Longrightarrow> bget current' = (bget current)(n \<mapsto> name_id current next n)"
proof -
  have r: "bget (bretain (\<lambda>k _. k \<noteq> x) m) = (bget m)(x := None)" for x and m :: "(table_name, nat) btree"
    by (rule ext) (auto simp: bget_bretain split: option.splits)
  show "change_table c = None \<Longrightarrow> bget current' = bget current"
    using assms by (simp add: identity_step_def)
  show "c = RenameTable old new \<Longrightarrow> bget current' = ((bget current)(old := None))(new \<mapsto> name_id current next old)"
    using assms by (auto simp: identity_step_def bget_bput r name_id_def split: option.splits)
  have "current' = snd (name_id current next n, if bget current n = None then bput n next current else current)"
    if "\<not> is_RenameTable c" "change_table c = Some n"
    using assms that by (cases c) (auto simp: identity_step_def split: option.splits)
  then show "\<not> is_RenameTable c \<Longrightarrow> change_table c = Some n \<Longrightarrow> bget current' = (bget current)(n \<mapsto> name_id current next n)"
    by (auto simp: bget_bput name_id_def fun_upd_idem split: option.splits)
qed

lemma name_id_new:
  assumes "ids_inv current next"
  shows "bget current a = Some (name_id current next n) \<Longrightarrow> a = n" "name_id current next n < next \<Longrightarrow> bget current n = Some (name_id current next n)"
    "bget current n = Some k \<Longrightarrow> name_id current next n = k"
  using assms by (auto simp: ids_inv_def name_id_def split: option.splits)

lemma change_kind:
  obtains "change_table c = None" | old new where "c = RenameTable old new" | n where "\<not> is_RenameTable c" "change_table c = Some n"
  by (cases "change_table c"; cases c) auto

lemma identity_step_inv:
  assumes "ids_inv current next" "identity_step current next c = (i, current', next')"
  shows "ids_inv current' next'"
proof -
  note inv = assms(1) and get = identity_step_get [OF assms(2)]
  have bound: "name_id current next n < next'" if "change_table c = Some n" for n
    using inv identity_step_id(3) [OF assms(2)] that by (auto simp: name_id_def ids_inv_def split: option.splits)
  have keep: "j < next'" if "bget current a = Some j" for a j
    using inv identity_step_id(2) [OF assms(2)] that unfolding ids_inv_def by (meson order_less_le_trans)
  have one: "a = b" if "bget current a = Some j" "bget current b = Some j" for a b j using inv that unfolding ids_inv_def by blast
  note new = name_id_new(1) [OF inv]
  show ?thesis
  proof (rule change_kind [of c])
    assume "change_table c = None"
    then show ?thesis using get(1) keep one unfolding ids_inv_def by auto
  next
    fix old new' assume c: "c = RenameTable old new'"
    then show ?thesis unfolding ids_inv_def get(2) [OF c] using bound [of old] keep
      by (auto split: if_splits dest: new new [OF sym] one)
  next
    fix n assume c: "\<not> is_RenameTable c" "change_table c = Some n"
    then show ?thesis unfolding ids_inv_def get(3) [OF c] using bound [of n] keep
      by (auto split: if_splits dest: new new [OF sym] one)
  qed
qed

lemma identity_step_follow:
  assumes "ids_inv current next" "identity_step current next c = (i, current', next')" "bget current n = Some k"
  shows "bget current' m = Some k \<longleftrightarrow> follow_one c n = Some m"
proof -
  note get = identity_step_get [OF assms(2)]
  have k: "bget current a = Some k \<longleftrightarrow> a = n" for a using assms(1,3) unfolding ids_inv_def by blast
  have "k < next" using assms(1,3) unfolding ids_inv_def by blast
  have id: "name_id current next a = k \<longleftrightarrow> a = n" for a
  proof
    assume "name_id current next a = k"
    with name_id_new(2) [OF assms(1), of a] \<open>k < next\<close> show "a = n" by (simp add: k)
  qed (use name_id_new(3) [OF assms(1,3)] in simp)
  show ?thesis
  proof (rule change_kind [of c])
    assume c: "change_table c = None"
    then show ?thesis unfolding get(1) [OF c] using k by (cases c) (auto simp: follow_one_def)
  next
    fix old new assume c: "c = RenameTable old new"
    then show ?thesis unfolding get(2) [OF c] using k id by (auto simp: follow_one_def)
  next
    fix x assume c: "\<not> is_RenameTable c" "change_table c = Some x"
    then have "follow_one c n = Some n" by (cases c) (simp_all add: follow_one_def)
    then show ?thesis unfolding get(3) [OF c] using k id by auto
  qed
qed

lemma identity_step_gone:
  assumes "identity_step current next c = (i, current', next')" "k < next" "\<forall>m. bget current m \<noteq> Some k"
  shows "bget current' m \<noteq> Some k"
proof -
  have id: "name_id current next n \<noteq> k" for n using assms(2,3) by (auto simp: name_id_def split: option.splits)
  note get = identity_step_get [OF assms(1)]
  show ?thesis by (rule change_kind [of c]) (use get id assms(3) in auto)
qed

fun ids_after :: "(table_name, nat) btree \<Rightarrow> nat \<Rightarrow> 'g change list \<Rightarrow> (table_name, nat) btree \<times> nat" where
  "ids_after current next [] = (current, next)"
| "ids_after current next (c # cs) = (case identity_step current next c of (_, current, next) \<Rightarrow> ids_after current next cs)"

lemma ids_after_inv: "ids_inv current next \<Longrightarrow> ids_after current next cs = (current', next') \<Longrightarrow> ids_inv current' next' \<and> next \<le> next'"
proof (induction cs arbitrary: current "next")
  case (Cons c cs)
  obtain i cur1 nxt1 where step: "identity_step current next c = (i, cur1, nxt1)" by (cases "identity_step current next c") auto
  with Cons identity_step_inv [OF Cons.prems(1) step] identity_step_id(2) [OF step] show ?case by fastforce
qed auto

lemma ids_after_gone:
  "ids_after current next cs = (current', next') \<Longrightarrow> k < next \<Longrightarrow> \<forall>m. bget current m \<noteq> Some k \<Longrightarrow> bget current' m \<noteq> Some k"
proof (induction cs arbitrary: current "next")
  case (Cons c cs)
  obtain i cur1 nxt1 where step: "identity_step current next c = (i, cur1, nxt1)" by (cases "identity_step current next c") auto
  with Cons identity_step_gone [OF step Cons.prems(2,3)] identity_step_id(2) [OF step] show ?case by simp
qed auto

lemma ids_after_follow:
  "ids_inv current next \<Longrightarrow> ids_after current next cs = (current', next') \<Longrightarrow> bget current n = Some k \<Longrightarrow>
   bget current' m = Some k \<longleftrightarrow> follow cs n = Some m"
proof (induction cs arbitrary: current "next" n)
  case Nil
  then show ?case by (auto simp: ids_inv_def)
next
  case (Cons c cs)
  obtain i cur1 nxt1 where step: "identity_step current next c = (i, cur1, nxt1)" by (cases "identity_step current next c") auto
  note f = identity_step_follow [OF Cons.prems(1) step Cons.prems(3)]
  have after: "ids_after cur1 nxt1 cs = (current', next')" using Cons.prems(2) step by simp
  show ?case
  proof (cases "follow_one c n")
    case None
    have "k < nxt1" using Cons.prems(1,3) identity_step_id(2) [OF step] unfolding ids_inv_def by fastforce
    then have "bget current' m \<noteq> Some k" using ids_after_gone [OF after] f None by simp
    then show ?thesis using None by simp
  next
    case (Some n')
    then show ?thesis using Cons.IH [OF identity_step_inv [OF Cons.prems(1) step] after, of n'] f by simp
  qed
qed

lemma identities_length [simp]: "length (identities_from current next cs) = length cs"
  by (induction cs arbitrary: current "next") (auto split: prod.splits)

lemma identities_nth:
  "j < length cs \<Longrightarrow> identities_from current next cs ! j =
     (case ids_after current next (take j cs) of (cur, nxt) \<Rightarrow> fst (identity_step cur nxt (cs ! j)))"
proof (induction cs arbitrary: current "next" j)
  case (Cons c cs)
  then show ?case by (cases j) (auto split: prod.splits)
qed simp

lemma ids_after_append: "ids_after current next (xs @ ys) = (case ids_after current next xs of (cur, nxt) \<Rightarrow> ids_after cur nxt ys)"
  by (induction xs arbitrary: current "next") (auto split: prod.splits)

lemma same_identity:
  assumes "i < j" "j < length cs" "change_table (cs ! i) = Some a" "change_table (cs ! j) = Some b"
  shows "identities_from bempty 0 cs ! i = identities_from bempty 0 cs ! j \<longleftrightarrow> follow (drop i (take j cs)) a = Some b"
proof -
  obtain cur nxt where at_i: "ids_after bempty 0 (take i cs) = (cur, nxt)" by fastforce
  obtain x cur1 nxt1 where step: "identity_step cur nxt (cs ! i) = (x, cur1, nxt1)" by (cases "identity_step cur nxt (cs ! i)") auto
  obtain cur2 nxt2 where at_j: "ids_after cur1 nxt1 (drop (Suc i) (take j cs)) = (cur2, nxt2)" by fastforce
  have split: "take j cs = take i cs @ cs ! i # drop (Suc i) (take j cs)" "drop i (take j cs) = cs ! i # drop (Suc i) (take j cs)"
    using assms(1,2) id_take_nth_drop [of i "take j cs"] Cons_nth_drop_Suc [of i "take j cs"] by (simp_all add: min_def)
  have "ids_after bempty 0 (take j cs) = (cur2, nxt2)" by (subst split(1)) (simp add: ids_after_append at_i step at_j)
  then have idj: "identities_from bempty 0 cs ! j = Some (name_id cur2 nxt2 b)"
    using assms(2,4) by (simp add: identities_nth prod_eq_iff [of "identity_step _ _ _"]) (metis fst_conv identity_step_id(1) option.simps(9) prod.collapse)
  have idi: "identities_from bempty 0 cs ! i = Some (name_id cur nxt a)"
    using assms(1-3) identity_step_id(1) [OF step] by (simp add: identities_nth at_i step)
  have inv: "ids_inv cur nxt" "ids_inv cur1 nxt1" "ids_inv cur2 nxt2" "nxt1 \<le> nxt2"
    using ids_after_inv [OF ids_inv_empty at_i] identity_step_inv [OF _ step] ids_after_inv [OF _ at_j] by auto
  define k where "k = name_id cur nxt a"
  obtain n1 where n1: "follow_one (cs ! i) a = Some n1" "bget cur1 n1 = Some k"
  proof (rule change_kind [of "cs ! i"])
    fix old new assume c: "cs ! i = RenameTable old new"
    then show thesis using that [of new] assms(3) identity_step_get(2) [OF step c] by (simp add: follow_one_def k_def)
  next
    fix n assume c: "\<not> is_RenameTable (cs ! i)" "change_table (cs ! i) = Some n"
    then have "follow_one (cs ! i) a = Some a" by (cases "cs ! i") (simp_all add: follow_one_def)
    then show thesis using that [of a] assms(3) c identity_step_get(3) [OF step c] by (simp add: k_def)
  qed (use assms(3) in simp)
  have "k < nxt1" using n1(2) inv(2) unfolding ids_inv_def by blast
  have "k = name_id cur2 nxt2 b \<longleftrightarrow> bget cur2 b = Some k"
    using \<open>k < nxt1\<close> inv(4) by (auto simp: name_id_def split: option.splits)
  also have "\<dots> \<longleftrightarrow> follow (drop i (take j cs)) a = Some b"
    using ids_after_follow [OF inv(2) at_j n1(2)] n1(1) by (simp add: split(2))
  finally show ?thesis by (simp add: idi idj k_def)
qed

text \<open>C24. Two changes are given one table identity exactly when the table the first names has, after the renames of the changes from the first up
  to the second, the name the second uses: a rename carries the identity to the new name, a table renamed onto a name takes it over, and a table that
  takes a freed name is another one.\<close>

theorem table_identities_follow_renames:
  assumes "i < j" "j < length cs" "change_table (change (cs ! i)) = Some a" "change_table (change (cs ! j)) = Some b"
  shows "table_identities cs ! i = table_identities cs ! j \<longleftrightarrow> follow (map change (drop i (take j cs))) a = Some b"
  using same_identity [of i j "map change cs" a b] assms by (simp add: table_identities_def drop_map take_map)

theorem table_identities_follow_renames_witness:
  "(let t = TableName ''app'' ''t''; u = TableName ''app'' ''u'';
        cs = map (\<lambda>c. \<lparr>change = c, risks = {}\<rparr>) [DropColumn (ColumnRef t ''c''), RenameTable t u, AddColumn u ''d'', AddColumn t ''e''] :: unit planned_change list
    in table_identities cs ! 0 = table_identities cs ! 2 \<and> table_identities cs ! 0 \<noteq> table_identities cs ! 3)"
proof -
  let ?t = "TableName ''app'' ''t''" and ?u = "TableName ''app'' ''u''"
  let ?cs = "map (\<lambda>c. \<lparr>change = c, risks = {}\<rparr>) [DropColumn (ColumnRef ?t ''c''), RenameTable ?t ?u, AddColumn ?u ''d'', AddColumn ?t ''e''] :: unit planned_change list"
  have "table_identities ?cs ! 0 = table_identities ?cs ! 2"
    using table_identities_follow_renames [of 0 2 ?cs ?t ?u] by (simp add: follow_one_def numeral_2_eq_2)
  moreover have "table_identities ?cs ! 0 \<noteq> table_identities ?cs ! 3"
    using table_identities_follow_renames [of 0 3 ?cs ?t ?t] by (simp add: follow_one_def numeral_3_eq_3)
  ultimately show ?thesis by (simp add: Let_def)
qed

section \<open>Expand and contract\<close>

lemma bget_fold_bentry:
  "bget (fold (\<lambda>x m. case f x of None \<Rightarrow> m | Some (i, v) \<Rightarrow> bentry i v m) xs m) i =
     (case bget m i of Some v \<Rightarrow> Some v | None \<Rightarrow> map_of (List.map_filter f xs) i)"
  by (induction xs arbitrary: m) (auto simp: List.map_filter_simps bget_bentry split: option.splits)

lemma first_of_enumerate:
  "map_of (List.map_filter (\<lambda>(k, z). map_option (\<lambda>i. (i, h k z)) (g z)) (enumerate b zs)) i = Some v \<longleftrightarrow>
     (\<exists>k < length zs. g (zs ! k) = Some i \<and> v = h (b + k) (zs ! k) \<and> \<not> (\<exists>k' < k. g (zs ! k') = Some i))"
proof (induction zs arbitrary: b)
  case Nil
  then show ?case by (simp add: List.map_filter_simps)
next
  case (Cons z zs)
  show ?case
  proof (cases "g z = Some i")
    case True
    have "(\<exists>k < length (z # zs). g ((z # zs) ! k) = Some i \<and> v = h (b + k) ((z # zs) ! k) \<and> \<not> (\<exists>k' < k. g ((z # zs) ! k') = Some i)) \<longleftrightarrow> v = h b z"
      using True by (auto simp: nth_Cons' split: if_splits)
    then show ?thesis using True by (auto simp: List.map_filter_simps enumerate_simps)
  next
    case False
    have shift: "map_of (List.map_filter (\<lambda>(k, z). map_option (\<lambda>i. (i, h k z)) (g z)) (enumerate b (z # zs))) i =
        map_of (List.map_filter (\<lambda>(k, z). map_option (\<lambda>i. (i, h k z)) (g z)) (enumerate (Suc b) zs)) i"
      using False by (auto simp: List.map_filter_simps enumerate_simps split: option.splits)
    show ?thesis unfolding shift Cons.IH using False by (simp add: Ex_less_Suc2 All_less_Suc2)
  qed
qed

lemma some_of_enumerate:
  "(\<exists>v. map_of (List.map_filter (\<lambda>(k, z). map_option (\<lambda>i. (i, h k z)) (g z)) (enumerate b zs)) i = Some v) \<longleftrightarrow>
     (\<exists>k < length zs. g (zs ! k) = Some i)"
proof -
  have "(\<exists>k < length zs. g (zs ! k) = Some i) \<longleftrightarrow>
      (\<exists>k. (k < length zs \<and> g (zs ! k) = Some i) \<and> (\<forall>k' < k. \<not> (k' < length zs \<and> g (zs ! k') = Some i)))"
    by (rule exists_least_iff)
  then show ?thesis unfolding first_of_enumerate by (metis less_trans)
qed

text \<open>The reference: a change expands its table when it adds a column under a name that no change of the table drops, or adds a stored one; it
  contracts it when it drops or narrows a column, a computed column under a name no change of the table adds.\<close>

definition one_table :: "'g planned_change list \<Rightarrow> nat \<Rightarrow> nat \<Rightarrow> bool" where
  "one_table cs i j \<longleftrightarrow> table_identities cs ! i = table_identities cs ! j"

definition adds_name :: "column_name \<Rightarrow> 'g change \<Rightarrow> bool" where
  "adds_name n c \<longleftrightarrow> (\<exists>t. c = AddColumn t n \<or> c = AddComputedColumn t n)"

definition drops_name :: "column_name \<Rightarrow> 'g change \<Rightarrow> bool" where
  "drops_name n c \<longleftrightarrow> (\<exists>t. c = DropColumn (ColumnRef t n) \<or> c = DropComputedColumn t n)"

definition expands :: "'g planned_change list \<Rightarrow> nat \<Rightarrow> bool" where
  "expands cs i \<longleftrightarrow>
     (\<exists>t n. change (cs ! i) = AddColumn t n) \<or>
     (\<exists>t n. change (cs ! i) = AddComputedColumn t n \<and> \<not> (\<exists>j < length cs. one_table cs i j \<and> drops_name n (change (cs ! j))))"

definition contracts :: "'g planned_change list \<Rightarrow> nat \<Rightarrow> bool" where
  "contracts cs k \<longleftrightarrow>
     (\<exists>c. change (cs ! k) = DropColumn c) \<or>
     (\<exists>c. change (cs ! k) = AlterColumnNullability c False) \<or>
     (\<exists>t. change (cs ! k) = SetPartitionNotNull t True) \<or>
     is_AlterColumnType (change (cs ! k)) \<and>
       (Narrowing \<in> risks (cs ! k) \<or> ac_from_nullable (change (cs ! k)) \<and> \<not> ac_to_nullable (change (cs ! k))) \<or>
     (\<exists>t n. change (cs ! k) = DropComputedColumn t n \<and> \<not> (\<exists>j < length cs. one_table cs k j \<and> adds_name n (change (cs ! j))))"

lemma table_identities_length [simp]: "length (table_identities cs) = length cs"
  by (simp add: table_identities_def)

lemma table_identities_None: "k < length cs \<Longrightarrow> table_identities cs ! k = None \<longleftrightarrow> change_table (change (cs ! k)) = None"
  by (auto simp: table_identities_def identities_nth identity_step_def split: prod.splits option.splits)

lemma added_iff: "(i, n) \<in> added_columns cs \<longleftrightarrow> (\<exists>j < length cs. table_identities cs ! j = Some i \<and> adds_name n (change (cs ! j)))"
proof -
  have "(i, n) \<in> set (case (x, change p) of (Some t, AddColumn _ n) \<Rightarrow> [(t, n)] | (Some t, AddComputedColumn _ n) \<Rightarrow> [(t, n)] | _ \<Rightarrow> []) \<longleftrightarrow>
      x = Some i \<and> adds_name n (change p)" for x and p :: "'a planned_change"
    by (cases x; cases "change p") (auto simp: adds_name_def)
  then show ?thesis by (simp add: added_columns_def set_zip) (metis nth_mem)?
qed

lemma dropped_iff: "(i, n) \<in> dropped_columns cs \<longleftrightarrow> (\<exists>j < length cs. table_identities cs ! j = Some i \<and> drops_name n (change (cs ! j)))"
proof -
  have "(i, n) \<in> set (case (x, change p) of (Some t, DropColumn c) \<Rightarrow> [(t, cr_name c)] | (Some t, DropComputedColumn _ n) \<Rightarrow> [(t, n)] | _ \<Rightarrow> []) \<longleftrightarrow>
      x = Some i \<and> drops_name n (change p)" for x and p :: "'a planned_change"
  proof -
    have "n = cr_name c \<longleftrightarrow> (\<exists>t. c = ColumnRef t n)" for c by (cases c) auto
    then show ?thesis by (cases x; cases "change p") (auto simp: drops_name_def)
  qed
  then show ?thesis by (simp add: dropped_columns_def set_zip) (metis nth_mem)?
qed

lemma first_adds_iff:
  "bhas (first_adds cs) i \<longleftrightarrow> (\<exists>k < length cs. table_identities cs ! k = Some i \<and> expands cs k)"
proof -
  let ?g = "\<lambda>(p, x). case x of None \<Rightarrow> None | Some i \<Rightarrow> if adds_to (dropped_columns cs) i (change p) then Some i else None"
  have f: "first_adds cs = fold (\<lambda>x m. case (\<lambda>(k, z). map_option (\<lambda>i. (i, k)) (?g z)) x of None \<Rightarrow> m | Some (i, v) \<Rightarrow> bentry i v m)
      (enumerate 0 (zip cs (table_identities cs))) bempty"
    unfolding first_adds_def by (rule arg_cong [where f = "\<lambda>f. fold f _ _"]) (auto simp: fun_eq_iff split: option.splits)
  have g: "?g (cs ! k, table_identities cs ! k) = Some i \<longleftrightarrow> table_identities cs ! k = Some i \<and> expands cs k" if "k < length cs" for k
  proof -
    have "adds_to (dropped_columns cs) i (change (cs ! k)) \<longleftrightarrow> expands cs k" if "table_identities cs ! k = Some i"
      using that by (cases "change (cs ! k)") (auto simp: adds_to_def expands_def dropped_iff one_table_def)
    then show ?thesis by (auto split: option.splits)
  qed
  have "bhas (first_adds cs) i \<longleftrightarrow> (\<exists>k < length (zip cs (table_identities cs)). ?g (zip cs (table_identities cs) ! k) = Some i)"
    unfolding bhas_iff f bget_fold_bentry bget_bempty option.case some_of_enumerate by (rule refl)
  then show ?thesis using g by auto
qed

lemma first_contracts_iff:
  "bget (first_contracts cs) i = Some (k, t) \<longleftrightarrow>
     k < length cs \<and> table_identities cs ! k = Some i \<and> contracts cs k \<and> change_table (change (cs ! k)) = Some t \<and>
     \<not> (\<exists>k' < k. table_identities cs ! k' = Some i \<and> contracts cs k')"
proof -
  let ?g = "\<lambda>(p, x). if contracted (added_columns cs) x p = None then None else x"
  let ?h = "\<lambda>k (p, x). (k :: nat, the (contracted (added_columns cs) x p))"
  have f: "first_contracts cs = fold (\<lambda>x m. case (\<lambda>(k, z). map_option (\<lambda>i. (i, ?h k z)) (?g z)) x of None \<Rightarrow> m | Some (i, v) \<Rightarrow> bentry i v m)
      (enumerate 0 (zip cs (table_identities cs))) bempty"
    unfolding first_contracts_def by (rule arg_cong [where f = "\<lambda>f. fold f _ _"]) (auto simp: fun_eq_iff split: option.splits)
  have c: "contracted (added_columns cs) (table_identities cs ! k) (cs ! k) = (if contracts cs k then change_table (change (cs ! k)) else None)"
    if "k < length cs" for k
  proof (cases "table_identities cs ! k")
    case None
    then have "change_table (change (cs ! k)) = None" using that by (simp add: table_identities_None)
    then show ?thesis by (cases "change (cs ! k)") (auto simp: contracted_def contracts_def)
  next
    case (Some i)
    then show ?thesis by (cases "change (cs ! k)") (auto simp: contracted_def contracts_def added_iff one_table_def)
  qed
  have g: "?g (cs ! k, table_identities cs ! k) = Some i \<longleftrightarrow> table_identities cs ! k = Some i \<and> contracts cs k" if "k < length cs" for k
    using c [OF that] table_identities_None [OF that] by auto
  have "bget (first_contracts cs) i = Some (k, t) \<longleftrightarrow>
      (\<exists>k2 < length cs. ?g (cs ! k2, table_identities cs ! k2) = Some i \<and> (k, t) = ?h k2 (cs ! k2, table_identities cs ! k2) \<and>
        \<not> (\<exists>k' < k2. ?g (cs ! k', table_identities cs ! k') = Some i))"
    unfolding f bget_fold_bentry bget_bempty option.case first_of_enumerate
  proof (rule ex_cong1)
    fix k2
    show "(k2 < length (zip cs (table_identities cs)) \<and> ?g (zip cs (table_identities cs) ! k2) = Some i \<and>
        (k, t) = ?h (0 + k2) (zip cs (table_identities cs) ! k2) \<and> \<not> (\<exists>k' < k2. ?g (zip cs (table_identities cs) ! k') = Some i)) \<longleftrightarrow>
      (k2 < length cs \<and> ?g (cs ! k2, table_identities cs ! k2) = Some i \<and> (k, t) = ?h k2 (cs ! k2, table_identities cs ! k2) \<and>
        \<not> (\<exists>k' < k2. ?g (cs ! k', table_identities cs ! k') = Some i))"
    proof (cases "k2 < length cs")
      case True
      then have z: "k' \<le> k2 \<Longrightarrow> zip cs (table_identities cs) ! k' = (cs ! k', table_identities cs ! k')" for k' by simp
      have "(\<exists>k' < k2. ?g (zip cs (table_identities cs) ! k') = Some i) \<longleftrightarrow> (\<exists>k' < k2. ?g (cs ! k', table_identities cs ! k') = Some i)"
        by (intro ex_cong1 conj_cong refl) (simp add: z)
      then show ?thesis using z [of k2] by simp
    qed simp
  qed
  also have "\<dots> \<longleftrightarrow> k < length cs \<and> ?g (cs ! k, table_identities cs ! k) = Some i \<and> t = the (contracted (added_columns cs) (table_identities cs ! k) (cs ! k)) \<and>
      \<not> (\<exists>k' < k. ?g (cs ! k', table_identities cs ! k') = Some i)" by auto
  also have "\<dots> \<longleftrightarrow> k < length cs \<and> (table_identities cs ! k = Some i \<and> contracts cs k) \<and> change_table (change (cs ! k)) = Some t \<and>
      \<not> (\<exists>k' < k. table_identities cs ! k' = Some i \<and> contracts cs k')"
  proof (cases "k < length cs \<and> table_identities cs ! k = Some i \<and> contracts cs k")
    case True
    then have "k < length cs" "contracts cs k" "table_identities cs ! k = Some i" by auto
    moreover have "change_table (change (cs ! k)) = Some t \<longleftrightarrow> t = the (change_table (change (cs ! k)))"
      using table_identities_None [of k cs] calculation by auto
    moreover have "(\<exists>k' < k. ?g (cs ! k', table_identities cs ! k') = Some i) \<longleftrightarrow> (\<exists>k' < k. table_identities cs ! k' = Some i \<and> contracts cs k')"
      by (intro ex_cong1 conj_cong refl) (use g calculation(1) in auto)
    ultimately show ?thesis using c [of k] g [of k] by simp
  qed (use g in blast)
  finally show ?thesis by blast
qed

text \<open>C23. The expand/contract rule, when it is on, reports exactly the first contraction of each table that some change of the same revision
  expands, under the name the table has there, unless a suppression names that table.\<close>

theorem expand_contract_reports_each_table_once:
  "(k, f) \<in> set (expand_contract cs p ctx) \<longleftrightarrow>
     (\<exists>s t. severity (effective p CHANGE_EXPAND_CONTRACT) = Some s \<and>
        k < length cs \<and> change_table (change (cs ! k)) = Some t \<and> contracts cs k \<and>
        \<not> (\<exists>k' < k. one_table cs k' k \<and> contracts cs k') \<and>
        (\<exists>i < length cs. one_table cs i k \<and> expands cs i) \<and>
        \<not> suppressed p CHANGE_EXPAND_CONTRACT (Some (table_raw t)) (today ctx) \<and>
        f = \<lparr>fd_id = CHANGE_EXPAND_CONTRACT, fd_severity = s, fd_message = Expand_contract t, fd_subject = Some (table_raw t)\<rparr>)"
proof (cases "severity (effective p CHANGE_EXPAND_CONTRACT)")
  case None
  then show ?thesis by (simp add: expand_contract_def live_of_def Let_def)
next
  case (Some s)
  let ?f = "\<lambda>t. \<lparr>fd_id = CHANGE_EXPAND_CONTRACT, fd_severity = s, fd_message = Expand_contract t, fd_subject = Some (table_raw t)\<rparr>"
  have "(k, f) \<in> set (expand_contract cs p ctx) \<longleftrightarrow>
      (\<exists>i t. bget (first_contracts cs) i = Some (k, t) \<and> bhas (first_adds cs) i \<and>
         \<not> suppressed p CHANGE_EXPAND_CONTRACT (Some (table_raw t)) (today ctx) \<and> f = ?f t)"
    by (fastforce simp: expand_contract_def live_of_def Let_def Some live_finding_def extend_one_def entries_bget [symmetric] split: if_splits)
  also have "\<dots> \<longleftrightarrow> (\<exists>t. k < length cs \<and> change_table (change (cs ! k)) = Some t \<and> contracts cs k \<and>
      \<not> (\<exists>k' < k. one_table cs k' k \<and> contracts cs k') \<and> (\<exists>i < length cs. one_table cs i k \<and> expands cs i) \<and>
      \<not> suppressed p CHANGE_EXPAND_CONTRACT (Some (table_raw t)) (today ctx) \<and> f = ?f t)"
    (is "?l \<longleftrightarrow> ?r")
  proof
    show "?l \<Longrightarrow> ?r" by (elim exE conjE) (auto simp: first_contracts_iff first_adds_iff one_table_def)
  next
    assume ?r
    then obtain t where r: "k < length cs" "change_table (change (cs ! k)) = Some t" "contracts cs k"
      "\<not> (\<exists>k' < k. one_table cs k' k \<and> contracts cs k')" "\<exists>i < length cs. one_table cs i k \<and> expands cs i"
      "\<not> suppressed p CHANGE_EXPAND_CONTRACT (Some (table_raw t)) (today ctx)" "f = ?f t" by blast
    then obtain i where "table_identities cs ! k = Some i" using table_identities_None [of k cs] by auto
    with r show ?l by (intro exI [of _ i] exI [of _ t]) (simp add: first_contracts_iff first_adds_iff one_table_def)
  qed
  finally show ?thesis using Some by simp
qed

section \<open>Change windows\<close>

lemma window_rule: "rule CHANGE_WINDOW = Some \<lparr>rule_id = CHANGE_WINDOW, point = ConnectedPlan, default = None, params = [''offset'', ''allow''], required = [''allow'']\<rparr>"
  by code_simp

lemma window_rule_set:
  assumes "check_policies compiles p = []" "severity (effective p CHANGE_WINDOW) = Some s"
  shows "allow (config (effective p CHANGE_WINDOW)) \<noteq> []"
    "list_all (\<lambda>w. is_ok (parse_window w)) (allow (config (effective p CHANGE_WINDOW)))"
    "case offset (config (effective p CHANGE_WINDOW)) of None \<Rightarrow> True | Some q \<Rightarrow> is_ok (parse_offset q)"
proof -
  obtain st where st: "bget (rules p) CHANGE_WINDOW = Some st"
    using assms(2) by (cases "bget (rules p) CHANGE_WINDOW") (auto simp: effective_def Let_def window_rule)
  then have "sound_rule compiles p (CHANGE_WINDOW, st)"
    using assms(1) by (auto simp: check_policies_sound list_all_iff entries_bget)
  then have r: "list_all (has (config (effective p CHANGE_WINDOW))) [''allow'']" "runs_on compiles \<lparr>rule_id = CHANGE_WINDOW, point = ConnectedPlan, default = None, params = [''offset'', ''allow''], required = [''allow'']\<rparr> (effective p CHANGE_WINDOW)"
    using assms(2) by (auto simp: sound_rule_def window_rule runs_on_def)
  from r(1) show "allow (config (effective p CHANGE_WINDOW)) \<noteq> []" by (simp add: has_def)
  from r(2) show "list_all (\<lambda>w. is_ok (parse_window w)) (allow (config (effective p CHANGE_WINDOW)))"
    "case offset (config (effective p CHANGE_WINDOW)) of None \<Rightarrow> True | Some q \<Rightarrow> is_ok (parse_offset q)"
    by (simp_all add: runs_on_def)
qed

text \<open>C25. A connected plan with changes, under a checked block that has the change window on, is evaluated with the offset the block gives and with
  every window it lists, none skipped and none replaced by a default: it is reported exactly when the local moment lies in none of them and the rule is
  not suppressed.\<close>

theorem a_plan_outside_its_windows_is_reported:
  assumes "check_policies compiles p = []" "severity (effective p CHANGE_WINDOW) = Some s" "connected ctx" "cs \<noteq> []"
  shows "\<exists>off vs. (case offset (config (effective p CHANGE_WINDOW)) of None \<Rightarrow> off = 0 | Some t \<Rightarrow> parse_offset t = Inr off) \<and>
     map parse_window (allow (config (effective p CHANGE_WINDOW))) = map Inr vs \<and> vs \<noteq> [] \<and>
     map fst (window_findings cs p ctx) =
       (if list_ex (\<lambda>v. contains v (at (ctx_now ctx) off)) vs \<or> suppressed p CHANGE_WINDOW None (today ctx) then [] else [0])"
proof -
  define c where "c = config (effective p CHANGE_WINDOW)"
  note w = window_rule_set [OF assms(1,2), folded c_def]
  define vs where "vs = map (projr \<circ> parse_window) (allow c)"
  have read: "map parse_window (allow c) = map Inr vs" unfolding vs_def using w(2) by (auto simp: list_all_iff is_ok_iff)
  have "vs \<noteq> []" using w(1) by (simp add: vs_def)
  have off: "case offset c of None \<Rightarrow> window_offset c = 0 | Some t \<Rightarrow> parse_offset t = Inr (window_offset c)"
    using w(3) by (auto simp: window_offset_def is_ok_iff split: option.splits)
  have "inside_windows c t \<longleftrightarrow> list_ex (\<lambda>v. contains v t) vs" for t
  proof -
    have "inside_windows c t \<longleftrightarrow> list_ex (\<lambda>r. case r of Inl _ \<Rightarrow> False | Inr v \<Rightarrow> contains v t) (map parse_window (allow c))"
      by (simp add: inside_windows_def list_ex_iff)
    then show ?thesis unfolding read by (simp add: list_ex_iff)
  qed
  then have "map fst (window_findings cs p ctx) =
      (if list_ex (\<lambda>v. contains v (at (ctx_now ctx) (window_offset c))) vs \<or> suppressed p CHANGE_WINDOW None (today ctx) then [] else [0])"
    using assms(2-4) by (simp add: window_findings_def live_of_def Let_def c_def [symmetric] live_finding_def extend_one_def)
  then show ?thesis unfolding c_def [symmetric] using off read \<open>vs \<noteq> []\<close> by blast
qed

text \<open>A block and two moments, 22:30 and 21:30 local time of a Wednesday.\<close>

definition sample_block :: policies where
  "sample_block =
     \<lparr>rules = bput ''change.window'' (Detailed (config_default\<lparr>cfg_severity := Some ''error'', offset := Some ''+08:00'', allow := [''wed 22:00-24:00'']\<rparr>)) bempty,
      suppress = []\<rparr>"

definition sample_context :: "int \<Rightarrow> eval_context" where
  "sample_context t = \<lparr>ctx_now = t, max_rows = 1000, connected = True, only = None, deprecated_types = []\<rparr>"

lemma sample_checked: "check_policies (\<lambda>_. True) sample_block = []"
  by code_simp

lemma sample_window:
  "config (effective sample_block CHANGE_WINDOW) = config_default\<lparr>cfg_severity := Some ''error'', offset := Some ''+08:00'', allow := [''wed 22:00-24:00'']\<rparr>"
  "severity (effective sample_block CHANGE_WINDOW) = Some Error"
  by code_simp+

theorem a_plan_outside_its_windows_is_reported_witness:
  "map fst (window_findings [\<lparr>change = Grant ''r'' (), risks = {}\<rparr>] sample_block (sample_context (6 * 86400 + 13 * 3600 + 1800))) = [0] \<and>
   window_findings [\<lparr>change = Grant ''r'' (), risks = {}\<rparr>] sample_block (sample_context (6 * 86400 + 14 * 3600 + 1800)) = []"
proof -
  have off: "parse_offset ''+08:00'' = Inr 480" and win: "parse_window ''wed 22:00-24:00'' = Inr \<lparr>days = {2}, win_from = 1320, win_to = 1440\<rparr>" by code_simp+
  have sup: "suppressed sample_block i x t = False" for i x t by (simp add: suppressed_def sample_block_def)
  have "map fst (window_findings [\<lparr>change = Grant ''r'' (), risks = {}\<rparr>] sample_block (sample_context t)) =
      (if contains \<lparr>days = {2}, win_from = 1320, win_to = 1440\<rparr> (at t 480) then [] else [0])" for t
    using a_plan_outside_its_windows_is_reported [OF sample_checked sample_window(2), of "sample_context t" "[\<lparr>change = Grant ''r'' (), risks = {}\<rparr>]"]
    by (auto simp: sample_window sup sample_context_def off win map_eq_Cons_conv Cons_eq_map_conv)
  moreover have "\<not> contains \<lparr>days = {2}, win_from = 1320, win_to = 1440\<rparr> (at (6 * 86400 + 13 * 3600 + 1800) 480)"
    "contains \<lparr>days = {2}, win_from = 1320, win_to = 1440\<rparr> (at (6 * 86400 + 14 * 3600 + 1800) 480)" by code_simp+
  ultimately show ?thesis by (metis map_is_Nil_conv)
qed

section \<open>What is reported\<close>

lemma live_of_Some:
  "live_of p i ctx = Some l \<Longrightarrow> lv_id l = i \<and> severity (effective p i) = Some (lv_severity l) \<and> lv_config l = config (effective p i) \<and> lv_policies l = p \<and> lv_today l = today ctx"
  by (auto simp: live_of_def Let_def split: option.splits)

lemma in_extend_one: "x \<in> set (extend_one y) \<longleftrightarrow> y = Some x"
  by (auto simp: extend_one_def split: option.splits)

lemma live_finding_Some:
  "live_finding l subject msg = Some f \<longleftrightarrow>
     \<not> suppressed (lv_policies l) (lv_id l) subject (lv_today l) \<and>
     f = \<lparr>fd_id = lv_id l, fd_severity = lv_severity l, fd_message = msg, fd_subject = subject\<rparr>"
  by (auto simp: live_finding_def)

definition live_report :: "policies \<Rightarrow> eval_context \<Rightarrow> string \<Rightarrow> 'g policy_finding \<Rightarrow> bool" where
  "live_report p ctx i f \<longleftrightarrow> fd_id f = i \<and> severity (effective p i) = Some (fd_severity f) \<and> \<not> suppressed p i (fd_subject f) (today ctx)"

lemma live_reports: "live_of p i ctx = Some l \<Longrightarrow> live_finding l subject msg = Some f \<Longrightarrow> live_report p ctx i f"
  by (auto simp: live_report_def live_finding_Some dest!: live_of_Some)

lemma narrowing_reported: "(k, f) \<in> set (narrowing_findings cs p ctx) \<Longrightarrow> k < length cs \<and> live_report p ctx CHANGE_NARROWING_ON_DATA f"
  by (cases "live_of p CHANGE_NARROWING_ON_DATA ctx")
    (auto simp: narrowing_findings_def in_extend_one map_option_eq_Some in_set_enumerate_eq intro: live_reports split: if_splits)

lemma grant_reported: "(k, f) \<in> set (grant_findings cs p ctx) \<Longrightarrow> k < length cs \<and> live_report p ctx GRANT_WIDEN f"
  by (cases "live_of p GRANT_WIDEN ctx")
    (auto simp: grant_findings_def in_extend_one map_option_eq_Some in_set_enumerate_eq intro: live_reports split: change.splits)

lemma window_reported: "(k, f) \<in> set (window_findings cs p ctx) \<Longrightarrow> k < length cs \<and> connected ctx \<and> live_report p ctx CHANGE_WINDOW f"
  by (cases "live_of p CHANGE_WINDOW ctx")
    (auto simp: window_findings_def in_extend_one map_option_eq_Some Let_def intro: live_reports split: if_splits)

lemma contract_reported: "(k, f) \<in> set (expand_contract cs p ctx) \<Longrightarrow> k < length cs \<and> live_report p ctx CHANGE_EXPAND_CONTRACT f"
  by (cases "live_of p CHANGE_EXPAND_CONTRACT ctx")
    (auto simp: expand_contract_def in_extend_one map_option_eq_Some entries_bget first_contracts_iff intro: live_reports split: if_splits)

text \<open>Every finding of the plan rules names a change of the plan and a rule of the catalogue that is evaluated there, over a connected plan where
  the rule needs one; the rule is on at the severity reported, and no suppression in force covers it.\<close>

theorem plan_reports_only_live_rules:
  assumes "(k, f) \<in> set (plan cs p ctx)"
  shows "k < length cs \<and> severity (effective p (fd_id f)) = Some (fd_severity f) \<and> \<not> suppressed p (fd_id f) (fd_subject f) (today ctx) \<and>
     (\<exists>r. rule (fd_id f) = Some r \<and> (point r = Plan \<or> point r = ConnectedPlan \<and> connected ctx))"
proof -
  have points: "\<exists>r. rule CHANGE_EXPAND_CONTRACT = Some r \<and> point r = Plan" "\<exists>r. rule CHANGE_NARROWING_ON_DATA = Some r \<and> point r = Plan"
    "\<exists>r. rule GRANT_WIDEN = Some r \<and> point r = Plan" "\<exists>r. rule CHANGE_WINDOW = Some r \<and> point r = ConnectedPlan"
    by (simp_all add: rule_def RULES_def rule_ids)
  from assms consider "(k, f) \<in> set (expand_contract cs p ctx)" | "(k, f) \<in> set (narrowing_findings cs p ctx)"
    | "(k, f) \<in> set (grant_findings cs p ctx)" | "(k, f) \<in> set (window_findings cs p ctx)" by (auto simp: plan_def)
  then show ?thesis
    using points by cases (auto dest!: contract_reported narrowing_reported grant_reported window_reported simp: live_report_def)
qed

theorem plan_reports_only_live_rules_witness:
  "severity (effective \<lparr>rules = bempty, suppress = []\<rparr> GRANT_WIDEN) = Some Note"
proof -
  have "(0, \<lparr>fd_id = GRANT_WIDEN, fd_severity = Note, fd_message = Gains ''r'' (), fd_subject = Some ''role r''\<rparr>)
      \<in> set (plan [\<lparr>change = Grant ''r'' (), risks = {}\<rparr>] \<lparr>rules = bempty, suppress = []\<rparr> (sample_context 0))"
    by (simp add: plan_def grant_findings_def live_of_def effective_def rule_def RULES_def rule_ids live_finding_def suppressed_def extend_one_def Let_def)
  from plan_reports_only_live_rules [OF this] show ?thesis by simp
qed

section \<open>The declaration rules\<close>

text \<open>A naming rule that is on reports exactly the names of its kind, in the tables evaluated and not suppressed, that its anchored pattern does not
  match.\<close>

theorem naming_rules_report_the_names_that_do_not_match:
  assumes "severity (effective p i) = Some s" "pattern (config (effective p i)) = Some pat" "regex (anchored pat) = Some is_match"
  shows "f \<in> set (naming_findings regex schema p ctx (i, what)) \<longleftrightarrow>
     (\<exists>name table kind n. bget schema name = Some table \<and> wants ctx (table_raw name) \<and> (kind, n) \<in> set (names_of what name table) \<and>
        \<not> is_match n \<and> \<not> suppressed p i (Some (table_raw name)) (today ctx) \<and>
        f = \<lparr>fd_id = i, fd_severity = s, fd_message = Does_not_match name kind n pat, fd_subject = Some (table_raw name)\<rparr>)"
proof -
  obtain l where l: "live_of p i ctx = Some l" using assms(1) by (simp add: live_of_def Let_def)
  note ls = live_of_Some [OF l]
  show ?thesis using ls assms
    by (simp add: naming_findings_def l Bex_def entries_bget in_extend_one live_finding_Some case_prod_beta) (fastforce split: if_splits)
qed

theorem naming_rules_report_the_names_that_do_not_match_witness:
  "(let p = \<lparr>rules = bput NAMING_TABLE (Detailed (config_default\<lparr>cfg_severity := Some ''error'', pattern := Some ''t''\<rparr>)) bempty, suppress = []\<rparr>;
        t = \<lparr>pt_columns = bempty, pt_computed = [], pt_indexes = [], pt_primary_key = None, pt_unique = [], pt_foreign_keys = [], pt_checks = [], pt_rows = None\<rparr>
    in \<lparr>fd_id = NAMING_TABLE, fd_severity = Error, fd_message = Does_not_match (TableName ''app'' ''u'') ''table'' ''u'' ''t'', fd_subject = Some ''app.u''\<rparr>
         \<in> set (naming_findings (\<lambda>r. Some (\<lambda>n. r = anchored n)) (bput (TableName ''app'' ''u'') t bempty) p (sample_context 0) (NAMING_TABLE, Naming_table)
             :: unit policy_finding list))"
proof -
  let ?p = "\<lparr>rules = bput NAMING_TABLE (Detailed (config_default\<lparr>cfg_severity := Some ''error'', pattern := Some ''t''\<rparr>)) bempty, suppress = []\<rparr>"
  let ?t = "\<lparr>pt_columns = bempty, pt_computed = [], pt_indexes = [], pt_primary_key = None, pt_unique = [], pt_foreign_keys = [], pt_checks = [], pt_rows = None\<rparr>"
  have w: "severity_word ''error'' = Some (Some Error)" "table_raw (TableName ''app'' ''u'') = ''app.u''" by code_simp+
  have e: "severity (effective ?p NAMING_TABLE) = Some Error" "pattern (config (effective ?p NAMING_TABLE)) = Some ''t''"
    by (simp_all add: effective_def Let_def bget_bput w)
  have n: "\<not> anchored ''t'' = anchored ''u''" by (simp add: anchored_def)
  show ?thesis
    unfolding Let_def naming_rules_report_the_names_that_do_not_match [where is_match = "\<lambda>n. anchored ''t'' = anchored n" and regex = "\<lambda>r. Some (\<lambda>n. r = anchored n)", OF e refl]
    using n by (intro exI [of _ "TableName ''app'' ''u''"] exI [of _ ?t] exI [of _ "''table''"] exI [of _ "''u''"])
      (simp add: bget_bput wants_def sample_context_def names_of_def suppressed_def w)
qed

end
