(* ===== verification/Pred_Syntax.thy ===== *)
theory Pred_Syntax
  imports Escape Type_Ref
begin

text \<open>
  The closed predicate language of \<open>crates/pbps-dialect/src/predicate.rs\<close> and its modules \<open>lex.rs\<close>, \<open>parse.rs\<close> and \<open>render.rs\<close>: the tree with its
  depth, the tokens, the operator-precedence reader, the writer, and the vetting between them.

  Text is the list of Unicode scalar values. A dialect is a value of \<open>dialect_syntax\<close>, the methods of the trait \<open>Syntax\<close> the code calls. The byte position
  that an error message ends with is left out. The reader's position is the list of the tokens left; the counters \<open>nesting\<close> and \<open>cases\<close>, which
  every successful return puts back, are arguments.
  The recursion of the reader has fuel: see \<open>Pred_Read\<close>.
\<close>

section \<open>Trees\<close>

datatype perror =
    Out_of_fuel | Too_deep | Too_long | Unterminated_comment | Unterminated_string | Unterminated_identifier | Binary_literal
  | Exponent_digits | Variable | Unsupported_token | Nul | Nesting_exceeded | Expected string | Expected_keyword | Expected_scalar
  | Expected_condition | Expected_test | Empty_list | Missing_expression | Expected_primary | Not_allowlisted | Invalid_arity utext
  | Reserved_word | Style_constant | Style_range | Bad_datepart | Directional_trim | Type_arguments | Case_nesting | Case_arms | Trailing
  | Unquotable utext | Type_refused | Unknown_column utext | Unknown_version | Version_required utext nat nat

datatype form = Ordinary_form | Cast_form | Convert_form | Datepart_form | Trim_form

datatype function_info = Function (fn_name: utext) (fn_form: form) (fn_least: nat) (fn_most: nat) (fn_major: nat)

datatype cast_type = CastType (cast_base: utext) (cast_args: "type_arg list")

datatype scalar = Scalar (scalar_kind: scalar_value) (scalar_depth: nat)
and scalar_value =
    Number utext
  | String utext bool
  | Null
  | Column utext
  | Unary string scalar
  | Binary string scalar scalar
  | Call function_info call_args
  | SimpleCase scalar "(scalar \<times> scalar) list" "scalar option"
  | SearchedCase "(predicate \<times> scalar) list" "scalar option"
and call_args =
    Ordinary "scalar list"
  | Cast scalar cast_type
  | Convert cast_type scalar "int option"
  | Datepart utext "scalar list"
  | Trim "string option" "scalar option" scalar
and predicate = Predicate (predicate_kind: condition) (predicate_depth: nat)
and condition =
    Compare string scalar scalar
  | IsNull scalar bool
  | InList scalar "scalar list" bool
  | Between scalar scalar scalar bool
  | Like scalar scalar "scalar option" bool
  | Not predicate
  | Logic string predicate predicate

record call_info =
  ci_arity :: nat
  directional :: bool
  literal_path :: bool

record lexicon =
  whitespace_is_ascii :: bool
  quoted_identifiers :: "(uchar \<times> uchar) list"
  string_prefixes :: "utext list"
  identifier_continues :: "uchar \<Rightarrow> bool"
  reserved :: "utext \<Rightarrow> bool"

record dialect_syntax =
  sx_lexicon :: lexicon
  string_literal :: "utext \<Rightarrow> bool \<Rightarrow> utext"
  quote_ident :: "utext \<Rightarrow> (perror, utext) result"
  find_function :: "utext \<Rightarrow> function_info option"
  find_cast_type :: "utext \<Rightarrow> type_arg list \<Rightarrow> (perror, cast_type) result"
  find_datepart :: "function_info \<Rightarrow> utext \<Rightarrow> utext option"
  requirement :: "function_info \<Rightarrow> call_info \<Rightarrow> nat \<times> nat"

text \<open>The depth of a node is one more than that of its deepest child, 128 at most.\<close>

definition node :: "('k \<Rightarrow> nat \<Rightarrow> 'n) \<Rightarrow> 'k \<Rightarrow> nat \<Rightarrow> (perror, 'n) result" where
  "node mk kind child_depth = (if child_depth \<ge> 128 then Inl Too_deep else Inr (mk kind (child_depth + 1)))"

definition maximum :: "nat list \<Rightarrow> nat" where
  "maximum ns = fold max ns 0"

primrec call_values :: "call_args \<Rightarrow> scalar list" where
  "call_values (Ordinary vs) = vs"
| "call_values (Datepart _ vs) = vs"
| "call_values (Cast v _) = [v]"
| "call_values (Convert _ v _) = [v]"
| "call_values (Trim _ chars v) = (case chars of None \<Rightarrow> [] | Some c \<Rightarrow> [c]) @ [v]"

definition call_info_of :: "call_args \<Rightarrow> call_info" where
  "call_info_of c =
     \<lparr>ci_arity =
        (case c of
           Cast _ _ \<Rightarrow> 1
         | Convert _ _ style \<Rightarrow> 2 + (if style = None then 0 else 1)
         | Datepart _ vs \<Rightarrow> length vs + 1
         | Ordinary vs \<Rightarrow> length vs
         | Trim _ _ _ \<Rightarrow> length (call_values c)),
      directional = (case c of Trim (Some _) _ _ \<Rightarrow> True | _ \<Rightarrow> False),
      literal_path = (case c of Ordinary (_ # s # _) \<Rightarrow> (case scalar_kind s of String _ _ \<Rightarrow> True | _ \<Rightarrow> False) | _ \<Rightarrow> False)\<rparr>"

definition optional_depth :: "scalar option \<Rightarrow> nat list" where
  "optional_depth v = (case v of None \<Rightarrow> [] | Some s \<Rightarrow> [scalar_depth s])"

definition child_depth :: "scalar_value \<Rightarrow> nat" where
  "child_depth kind =
     (case kind of
        Unary _ v \<Rightarrow> scalar_depth v
      | Binary _ a b \<Rightarrow> max (scalar_depth a) (scalar_depth b)
      | Call _ args \<Rightarrow> maximum (map scalar_depth (call_values args))
      | SimpleCase v arms otherwise \<Rightarrow>
          maximum (scalar_depth v # concat (map (\<lambda>(a, b). [scalar_depth a, scalar_depth b]) arms) @ optional_depth otherwise)
      | SearchedCase arms otherwise \<Rightarrow>
          maximum (concat (map (\<lambda>(a, b). [predicate_depth a, scalar_depth b]) arms) @ optional_depth otherwise)
      | _ \<Rightarrow> 0)"

definition make_scalar :: "scalar_value \<Rightarrow> (perror, scalar) result" where
  "make_scalar kind = node Scalar kind (child_depth kind)"

definition condition_depth :: "condition \<Rightarrow> nat" where
  "condition_depth kind =
     (case kind of
        Compare _ a b \<Rightarrow> max (scalar_depth a) (scalar_depth b)
      | IsNull v _ \<Rightarrow> scalar_depth v
      | InList v vs _ \<Rightarrow> maximum (scalar_depth v # map scalar_depth vs)
      | Between a b c _ \<Rightarrow> max (max (scalar_depth a) (scalar_depth b)) (scalar_depth c)
      | Like a b c _ \<Rightarrow> max (max (scalar_depth a) (scalar_depth b)) (case c of None \<Rightarrow> 0 | Some v \<Rightarrow> scalar_depth v)
      | Not v \<Rightarrow> predicate_depth v
      | Logic _ a b \<Rightarrow> max (predicate_depth a) (predicate_depth b))"

definition make_predicate :: "condition \<Rightarrow> (perror, predicate) result" where
  "make_predicate kind = node Predicate kind (condition_depth kind)"

section \<open>Tokens\<close>

datatype token = Word utext bool | Num utext | Str utext bool | Mark string

definition u_lower :: "uchar \<Rightarrow> uchar" where
  "u_lower c = (if 65 \<le> c \<and> c \<le> 90 then c + 32 else c)"

definition u_upper :: "uchar \<Rightarrow> uchar" where
  "u_upper c = (if 97 \<le> c \<and> c \<le> 122 then c - 32 else c)"

definition same_word :: "utext \<Rightarrow> utext \<Rightarrow> bool" where
  "same_word a b \<longleftrightarrow> map u_lower a = map u_lower b"

definition u_digit :: "uchar \<Rightarrow> bool" where
  "u_digit c \<longleftrightarrow> 48 \<le> c \<and> c \<le> 57"

text \<open>\<open>char::is_whitespace\<close>: the code points with the property \<open>White_Space\<close>.\<close>

definition u_whitespace :: "uchar \<Rightarrow> bool" where
  "u_whitespace c \<longleftrightarrow>
     9 \<le> c \<and> c \<le> 13 \<or> c = 32 \<or> c = 0x85 \<or> c = 0xa0 \<or> c = 0x1680 \<or> 0x2000 \<le> c \<and> c \<le> 0x200a \<or> c = 0x2028 \<or> c = 0x2029 \<or>
     c = 0x202f \<or> c = 0x205f \<or> c = 0x3000"

definition is_definition_whitespace :: "lexicon \<Rightarrow> uchar \<Rightarrow> bool" where
  "is_definition_whitespace lx c \<longleftrightarrow> u_whitespace c \<and> (\<not> whitespace_is_ascii lx \<or> c < 128)"

text \<open>\<open>quoted_piece\<close> without escapes, from behind the opening quote: the piece and what follows the closing one.\<close>

fun quoted_piece :: "uchar \<Rightarrow> utext \<Rightarrow> (utext \<times> utext) option" where
  "quoted_piece close [] = None"
| "quoted_piece close [c] = (if c = close then Some ([], []) else None)"
| "quoted_piece close (c # d # cs) =
     (if c = close then
        if d = close then map_option (\<lambda>(piece, rest). (close # piece, rest)) (quoted_piece close cs) else Some ([], d # cs)
      else map_option (\<lambda>(piece, rest). (c # piece, rest)) (quoted_piece close (d # cs)))"

text \<open>\<open>closing_block_comment\<close>: comments nest.\<close>

fun skip_comment :: "nat \<Rightarrow> utext \<Rightarrow> utext option" where
  "skip_comment depth (a # b # cs) =
     (if a = 47 \<and> b = 42 then skip_comment (depth + 1) cs
      else if a = 42 \<and> b = 47 then if depth - 1 = 0 then Some cs else skip_comment (depth - 1) cs
      else skip_comment depth (b # cs))"
| "skip_comment depth _ = None"

definition scan_digits :: "utext \<Rightarrow> utext \<times> utext" where
  "scan_digits t = (takeWhile u_digit t, dropWhile u_digit t)"

definition scan_fraction :: "utext \<Rightarrow> utext \<times> utext" where
  "scan_fraction t =
     (case t of
        c # cs \<Rightarrow> if c = 46 then (case scan_digits cs of (ds, rest) \<Rightarrow> (c # ds, rest)) else ([], t)
      | [] \<Rightarrow> ([], []))"

definition scan_exponent :: "utext \<Rightarrow> (perror, utext \<times> utext) result" where
  "scan_exponent t =
     (case t of
        c # cs \<Rightarrow>
          if c = 101 \<or> c = 69 then
            (let (sign, cs) = (case cs of d # ds \<Rightarrow> if d = 43 \<or> d = 45 then ([d], ds) else ([], cs) | [] \<Rightarrow> ([], []));
                 (ds, rest) = scan_digits cs
             in if ds = [] then Inl Exponent_digits else Inr (c # sign @ ds, rest))
          else Inr ([], t)
      | [] \<Rightarrow> Inr ([], []))"

definition scan_number :: "utext \<Rightarrow> (perror, utext \<times> utext) result" where
  "scan_number t =
     (let (whole, t) = scan_digits t;
          (fraction, t) = scan_fraction t
      in and_then (scan_exponent t) (\<lambda>(exponent, rest). Inr (whole @ fraction @ exponent, rest)))"

definition marks :: "string list" where
  "marks = [''!='', ''!<'', ''!>'', ''<='', ''>='', ''<>'', ''('', '')'', '','', ''+'', ''-'', ''*'', ''/'', ''%'', ''='', ''<'', ''>'', ''.'']"

definition is_national :: "lexicon \<Rightarrow> utext \<Rightarrow> bool" where
  "is_national lx t \<longleftrightarrow>
     list_ex (\<lambda>p. same_word p (lit ''n'')) (string_prefixes lx) \<and> (prefix [78, 39] t \<or> prefix [110, 39] t)"

definition next_token :: "lexicon \<Rightarrow> utext \<Rightarrow> (perror, token \<times> utext) result" where
  "next_token lx t =
     (let c = hd t in
      if c = 39 \<or> is_national lx t then
        (case quoted_piece 39 (drop (if is_national lx t then 2 else 1) t) of
           None \<Rightarrow> Inl Unterminated_string
         | Some (v, rest) \<Rightarrow> Inr (Str v (is_national lx t), rest))
      else
        (case find (\<lambda>(opening, _). opening = c) (quoted_identifiers lx) of
           Some (_, close) \<Rightarrow>
             (case quoted_piece close (tl t) of
                None \<Rightarrow> Inl Unterminated_identifier
              | Some (v, rest) \<Rightarrow> Inr (Word v True, rest))
         | None \<Rightarrow>
             if prefix (lit ''0x'') t \<or> prefix (lit ''0X'') t then Inl Binary_literal
             else if u_digit c \<or> c = 46 \<and> (case tl t of [] \<Rightarrow> False | d # _ \<Rightarrow> u_digit d) then
               (case scan_number t of
                  Inl e \<Rightarrow> Inl e
                | Inr (n, rest) \<Rightarrow> Inr (Num (map u_upper n), rest))
             else if c = 64 then Inl Variable
             else if identifier_continues lx c \<and> \<not> u_digit c then
               Inr (Word (takeWhile (identifier_continues lx) t) False, dropWhile (identifier_continues lx) t)
             else
               (case find (\<lambda>m. prefix (lit m) t) marks of
                  None \<Rightarrow> Inl Unsupported_token
                | Some m \<Rightarrow> Inr (Mark m, drop (length m) t))))"

lemma quoted_piece_shorter: "quoted_piece close t = Some (v, rest) \<Longrightarrow> length rest < length t"
  by (induction close t arbitrary: v rest rule: quoted_piece.induct) (fastforce split: if_splits)+

lemma skip_comment_shorter: "skip_comment depth t = Some rest \<Longrightarrow> length rest < length t"
proof (induction depth t rule: skip_comment.induct)
  case (1 depth a b cs)
  consider "a = 47 \<and> b = 42" | "\<not> (a = 47 \<and> b = 42)" "a = 42 \<and> b = 47" "depth - 1 = 0"
    | "\<not> (a = 47 \<and> b = 42)" "a = 42 \<and> b = 47" "depth - 1 \<noteq> 0" | "\<not> (a = 47 \<and> b = 42)" "\<not> (a = 42 \<and> b = 47)" by blast
  then show ?case
  proof cases
    case 1
    with "1.IH"(1) "1.prems" show ?thesis by simp
  next
    case 2
    with "1.prems" show ?thesis by simp
  next
    case 3
    with "1.IH"(2) "1.prems" show ?thesis by simp
  next
    case 4
    with "1.IH"(3) "1.prems" show ?thesis by (simp add: if_not_P)
  qed
qed simp_all

lemma scan_number_shorter:
  assumes "scan_number t = Inr (n, rest)" "u_digit (hd t) \<or> hd t = 46" "t \<noteq> []"
  shows "length rest < length t"
proof -
  obtain t1 t2 where t1: "t1 = dropWhile u_digit t" and t2: "scan_fraction t1 = (fst (scan_fraction t1), t2)" by (metis prod.collapse)
  have l1: "length t1 \<le> length t" "u_digit (hd t) \<Longrightarrow> length t1 < length t"
    unfolding t1 using assms(3) by (simp_all add: length_dropWhile_le) (cases t; simp add: le_imp_less_Suc length_dropWhile_le)
  have l2: "length t2 \<le> length t1" "t1 \<noteq> [] \<Longrightarrow> hd t1 = 46 \<Longrightarrow> length t2 < length t1"
    using t2 by (cases t1; auto simp: scan_fraction_def scan_digits_def length_dropWhile_le le_imp_less_Suc split: if_splits; metis length_dropWhile_le le_SucI le_imp_less_Suc)+
  have l3: "scan_exponent t2 = Inr (e, r) \<Longrightarrow> length r \<le> length t2" for e r
    by (auto simp: scan_exponent_def scan_digits_def split: list.splits if_splits prod.splits)
      (metis length_dropWhile_le le_SucI)+
  have "\<exists>e. scan_exponent t2 = Inr (e, rest)"
    using assms(1) t2 unfolding scan_number_def scan_digits_def Let_def t1 by (cases "scan_fraction (dropWhile u_digit t)") (auto simp: result_simps)
  then have "length rest \<le> length t2" using l3 by blast
  moreover have "\<not> u_digit (hd t) \<Longrightarrow> t1 = t" using assms(3) unfolding t1 by (cases t) auto
  ultimately show ?thesis using l1 l2 assms(2,3) by fastforce
qed

lemma marks_nonempty: "list_all (\<lambda>m. m \<noteq> []) marks"
  by (simp add: marks_def)

lemma find_mark: "find (\<lambda>m. prefix (lit m) t) marks = Some m \<Longrightarrow> m \<noteq> [] \<and> prefix (lit m) t"
proof -
  assume "find (\<lambda>m. prefix (lit m) t) marks = Some m"
  then have "m \<in> set marks" "prefix (lit m) t" by (auto simp: find_Some_iff)
  then show ?thesis using marks_nonempty unfolding list_all_iff by blast
qed

lemma next_token_shorter: "next_token lx t = Inr (tok, rest) \<Longrightarrow> t \<noteq> [] \<Longrightarrow> length rest < length t"
proof -
  assume n: "next_token lx t = Inr (tok, rest)" "t \<noteq> []"
  have q: "quoted_piece close (drop k t) = Some (v, rest) \<Longrightarrow> length rest < length t" for close k v
    using quoted_piece_shorter [of close "drop k t" v rest] by simp
  have q1: "quoted_piece close (tl t) = Some (v, rest) \<Longrightarrow> length rest < length t" for close v
    using quoted_piece_shorter [of close "tl t" v rest] by simp
  have m: "find (\<lambda>m. prefix (lit m) t) marks = Some m \<Longrightarrow> length (drop (length m) t) < length t" for m
    using find_mark [of t m] n(2) by (cases t; cases m) simp_all
  have i: "identifier_continues lx (hd t) \<Longrightarrow> length (dropWhile (identifier_continues lx) t) < length t"
    using n(2) by (cases t) (simp_all add: length_dropWhile_le le_imp_less_Suc)
  show ?thesis
    using n(1) unfolding next_token_def Let_def
    by (auto split: if_splits option.splits sum.splits prod.splits dest: q q1 m i scan_number_shorter [OF _ _ n(2)])
qed

function tokens :: "lexicon \<Rightarrow> utext \<Rightarrow> (perror, token list) result" where
  "tokens lx t =
     (if t = [] then Inr []
      else if is_definition_whitespace lx (hd t) then tokens lx (tl t)
      else if prefix (lit ''--'') t then tokens lx (dropWhile (\<lambda>c. c \<noteq> 13 \<and> c \<noteq> 10) t)
      else if prefix (lit ''/*'') t then
        (case skip_comment 0 t of None \<Rightarrow> Inl Unterminated_comment | Some rest \<Rightarrow> tokens lx rest)
      else
        (case next_token lx t of
           Inl e \<Rightarrow> Inl e
         | Inr (tok, rest) \<Rightarrow>
             if 0 \<in> set (take (length t - length rest) t) then Inl Nul
             else (case tokens lx rest of Inl e \<Rightarrow> Inl e | Inr toks \<Rightarrow> Inr (tok # toks))))"
  by pat_completeness auto
termination
proof (relation "measure (\<lambda>(lx, t). length t)", goal_cases)
  case (3 lx t)
  then obtain t' where "t = 45 # t'" by (cases t) (auto simp: lit_def)
  then show ?case by (simp add: length_dropWhile_le le_imp_less_Suc)
qed (auto dest: skip_comment_shorter next_token_shorter)

declare tokens.simps [simp del]

section \<open>The reader\<close>

datatype pratt_term = TValue scalar | TTest predicate

primrec as_value :: "pratt_term \<Rightarrow> (perror, scalar) result" where
  "as_value (TValue v) = Inr v"
| "as_value (TTest _) = Inl Expected_scalar"

primrec as_test :: "pratt_term \<Rightarrow> (perror, predicate) result" where
  "as_test (TTest p) = Inr p"
| "as_test (TValue _) = Inl Expected_condition"

definition is_tok :: "string \<Rightarrow> token list \<Rightarrow> bool" where
  "is_tok w ts =
     (case ts of
        Word x quoted # _ \<Rightarrow> \<not> quoted \<and> same_word x (lit w)
      | Mark m # _ \<Rightarrow> m = w
      | _ \<Rightarrow> False)"

definition eat :: "string \<Rightarrow> token list \<Rightarrow> token list option" where
  "eat w ts = (if is_tok w ts then Some (tl ts) else None)"

definition expect :: "string \<Rightarrow> token list \<Rightarrow> (perror, token list) result" where
  "expect w ts = ok_or (eat w ts) (Expected w)"

definition unquoted_word :: "token list \<Rightarrow> (perror, utext \<times> token list) result" where
  "unquoted_word ts = (case ts of Word w False # rest \<Rightarrow> Inr (w, rest) | _ \<Rightarrow> Inl Expected_keyword)"

text \<open>The operator at the position and how tightly it binds.\<close>

definition next_op :: "token list \<Rightarrow> (string \<times> nat) option" where
  "next_op ts =
     (case ts of
        Mark m # _ \<Rightarrow>
          if m \<in> {''*'', ''/'', ''%''} then Some (m, 60)
          else if m \<in> {''+'', ''-''} then Some (m, 50)
          else if m \<in> {''='', ''<'', ''>'', ''<='', ''>='', ''<>'', ''!='', ''!<'', ''!>''} then Some (m, 40)
          else None
      | _ \<Rightarrow>
          if is_tok ''AND'' ts then Some (''AND'', 20)
          else if is_tok ''OR'' ts then Some (''OR'', 10)
          else if list_ex (\<lambda>w. is_tok w ts) [''IS'', ''NOT'', ''IN'', ''BETWEEN'', ''LIKE''] then Some (''test'', 40)
          else None)"

definition combine :: "string \<Rightarrow> nat \<Rightarrow> pratt_term \<Rightarrow> pratt_term \<Rightarrow> (perror, pratt_term) result" where
  "combine op binding left right =
     (if binding \<ge> 50 then
        and_then (as_value left) (\<lambda>a. and_then (as_value right) (\<lambda>b. and_then (make_scalar (Binary op a b)) (\<lambda>v. Inr (TValue v))))
      else if binding = 40 then
        (let op = (if op = ''!='' then ''<>'' else if op = ''!<'' then ''>='' else if op = ''!>'' then ''<='' else op) in
         and_then (as_value left) (\<lambda>a. and_then (as_value right) (\<lambda>b. and_then (make_predicate (Compare op a b)) (\<lambda>p. Inr (TTest p)))))
      else
        and_then (as_test left) (\<lambda>a. and_then (as_test right) (\<lambda>b. and_then (make_predicate (Logic op a b)) (\<lambda>p. Inr (TTest p)))))"

text \<open>\<open>str::parse\<close> of an integer: digits, here behind a sign the caller has read, within the range of the type.\<close>

definition u_value :: "utext \<Rightarrow> nat" where
  "u_value t = foldl (\<lambda>n c. n * 10 + (c - 48)) 0 t"

definition parse_int :: "nat \<Rightarrow> bool \<Rightarrow> utext \<Rightarrow> int option" where
  "parse_int width negative t =
     (if t = [] \<or> \<not> list_all u_digit t then None
      else
        let n = (if negative then - int (u_value t) else int (u_value t))
        in if - (2 ^ (width - 1)) \<le> n \<and> n < 2 ^ (width - 1) then Some n else None)"

fun type_words :: "utext \<Rightarrow> token list \<Rightarrow> utext \<times> token list" where
  "type_words name (Word w False # ts) =
     (if is_tok ''AS'' (Word w False # ts) then (name, Word w False # ts) else type_words (name @ lit '' '' @ w) ts)"
| "type_words name ts = (name, ts)"

text \<open>The arguments of a type, from behind the opening parenthesis.\<close>

definition type_arg_at :: "token list \<Rightarrow> (perror, type_arg \<times> token list) result" where
  "type_arg_at ts =
     (case eat ''MAX'' ts of
        Some rest \<Rightarrow> Inr (ArgMax, rest)
      | None \<Rightarrow>
          (case ts of
             Num n # rest \<Rightarrow> (case parse_int 64 False n of None \<Rightarrow> Inl Type_arguments | Some i \<Rightarrow> Inr (ArgInt i, rest))
           | _ \<Rightarrow> Inl Type_arguments))"

fun type_args :: "nat \<Rightarrow> token list \<Rightarrow> (perror, type_arg list \<times> token list) result" where
  "type_args 0 ts = Inl Out_of_fuel"
| "type_args (Suc f) ts =
     and_then (type_arg_at ts) (\<lambda>(a, ts).
       case eat '','' ts of
         None \<Rightarrow> Inr ([a], ts)
       | Some ts \<Rightarrow> and_then (type_args f ts) (\<lambda>(rest, ts). Inr (a # rest, ts)))"

definition parse_type :: "dialect_syntax \<Rightarrow> token list \<Rightarrow> (perror, cast_type \<times> token list) result" where
  "parse_type S ts =
     and_then (unquoted_word ts) (\<lambda>(w, ts).
     case type_words w ts of (name, ts) \<Rightarrow>
     and_then
       (case eat ''('' ts of
          None \<Rightarrow> Inr ([], ts)
        | Some ts \<Rightarrow> and_then (type_args (length ts + 1) ts) (\<lambda>(args, ts). and_then (expect '')'' ts) (\<lambda>ts. Inr (args, ts))))
       (\<lambda>(args, ts). and_then (find_cast_type S name args) (\<lambda>t. Inr (t, ts))))"

end
