(* ===== verification/Pred_Read.thy ===== *)
theory Pred_Read
  imports Pred_Syntax
begin

text \<open>
  The reader and the writer of predicates (\<open>parse.rs\<close>, \<open>render.rs\<close>).
\<close>

section \<open>Reading\<close>

definition arity_ok :: "function_info \<Rightarrow> call_args \<Rightarrow> bool" where
  "arity_ok f c \<longleftrightarrow> fn_least f \<le> ci_arity (call_info_of c) \<and> ci_arity (call_info_of c) \<le> fn_most f"

text \<open>The style of \<open>CONVERT\<close>, from behind the comma.\<close>

definition parse_style :: "token list \<Rightarrow> (perror, int \<times> token list) result" where
  "parse_style ts =
     (let (negative, ts) =
        (case eat ''-'' ts of
           Some ts \<Rightarrow> (True, ts)
         | None \<Rightarrow> (False, case eat ''+'' ts of Some ts \<Rightarrow> ts | None \<Rightarrow> ts))
      in case ts of
           Num n # rest \<Rightarrow> (case parse_int 32 negative n of None \<Rightarrow> Inl Style_range | Some i \<Rightarrow> Inr (i, rest))
         | _ \<Rightarrow> Inl Style_constant)"

definition trim_direction :: "token list \<Rightarrow> string option \<times> token list" where
  "trim_direction ts =
     (case find (\<lambda>w. is_tok w ts) [''LEADING'', ''TRAILING'', ''BOTH''] of
        None \<Rightarrow> (None, ts)
      | Some w \<Rightarrow> (Some w, tl ts))"

text \<open>The recursion of the reader goes through \<open>expression\<close>, which is the argument \<open>ex\<close> of what it calls: the least binding, the counters \<open>nesting\<close> and
  \<open>cases\<close>, and the tokens.\<close>

type_synonym reader = "nat \<Rightarrow> nat \<Rightarrow> nat \<Rightarrow> token list \<Rightarrow> (perror, pratt_term \<times> token list) result"

definition parse_value :: "reader \<Rightarrow> nat \<Rightarrow> nat \<Rightarrow> token list \<Rightarrow> (perror, scalar \<times> token list) result" where
  "parse_value ex nesting cases ts =
     and_then (ex 41 nesting cases ts) (\<lambda>(t, ts). and_then (as_value t) (\<lambda>v. Inr (v, ts)))"

primrec list_items :: "nat \<Rightarrow> reader \<Rightarrow> nat \<Rightarrow> nat \<Rightarrow> token list \<Rightarrow> (perror, scalar list \<times> token list) result" where
  "list_items 0 ex nesting cases ts = Inl Out_of_fuel"
| "list_items (Suc f) ex nesting cases ts =
     and_then (parse_value ex nesting cases ts) (\<lambda>(v, ts).
     case eat '','' ts of
       None \<Rightarrow> Inr ([v], ts)
     | Some ts \<Rightarrow> and_then (list_items f ex nesting cases ts) (\<lambda>(vs, ts). Inr (v # vs, ts)))"

definition parse_list :: "reader \<Rightarrow> nat \<Rightarrow> nat \<Rightarrow> token list \<Rightarrow> (perror, scalar list \<times> token list) result" where
  "parse_list ex nesting cases ts =
     (if is_tok '')'' ts then Inr ([], ts) else list_items (length ts + 1) ex nesting cases ts)"

definition eat_not :: "token list \<Rightarrow> bool \<times> token list" where
  "eat_not ts = (case eat ''NOT'' ts of Some ts \<Rightarrow> (True, ts) | None \<Rightarrow> (False, ts))"

definition parse_test :: "reader \<Rightarrow> nat \<Rightarrow> nat \<Rightarrow> scalar \<Rightarrow> token list \<Rightarrow> (perror, predicate \<times> token list) result" where
  "parse_test ex nesting cases v ts =
     (case eat ''IS'' ts of
        Some ts \<Rightarrow>
          (case eat_not ts of (negated, ts) \<Rightarrow>
           and_then (expect ''NULL'' ts) (\<lambda>ts.
           and_then (make_predicate (IsNull v negated)) (\<lambda>p. Inr (p, ts))))
      | None \<Rightarrow>
          (case eat_not ts of (negated, ts) \<Rightarrow>
           and_then
             (case eat ''IN'' ts of
                Some ts \<Rightarrow>
                  and_then (expect ''('' ts) (\<lambda>ts.
                  and_then (parse_list ex nesting cases ts) (\<lambda>(vs, ts).
                  and_then (expect '')'' ts) (\<lambda>ts.
                  if vs = [] then Inl Empty_list else Inr (InList v vs negated, ts))))
              | None \<Rightarrow>
             case eat ''BETWEEN'' ts of
                Some ts \<Rightarrow>
                  and_then (parse_value ex nesting cases ts) (\<lambda>(low, ts).
                  and_then (expect ''AND'' ts) (\<lambda>ts.
                  and_then (parse_value ex nesting cases ts) (\<lambda>(high, ts). Inr (Between v low high negated, ts))))
              | None \<Rightarrow>
             case eat ''LIKE'' ts of
                Some ts \<Rightarrow>
                  and_then (parse_value ex nesting cases ts) (\<lambda>(pat, ts).
                  (case eat ''ESCAPE'' ts of
                     Some ts \<Rightarrow> and_then (parse_value ex nesting cases ts) (\<lambda>(e, ts). Inr (Like v pat (Some e) negated, ts))
                   | None \<Rightarrow> Inr (Like v pat None negated, ts)))
              | None \<Rightarrow> Inl Expected_test)
             (\<lambda>(kind, ts). and_then (make_predicate kind) (\<lambda>p. Inr (p, ts)))))"

definition parse_call ::
  "dialect_syntax \<Rightarrow> reader \<Rightarrow> nat \<Rightarrow> nat \<Rightarrow> function_info \<Rightarrow> token list \<Rightarrow> (perror, call_args \<times> token list) result" where
  "parse_call S ex nesting cases fn ts =
     (case fn_form fn of
        Ordinary_form \<Rightarrow> and_then (parse_list ex nesting cases ts) (\<lambda>(vs, ts). Inr (Ordinary vs, ts))
      | Cast_form \<Rightarrow>
          and_then (parse_value ex nesting cases ts) (\<lambda>(v, ts).
          and_then (expect ''AS'' ts) (\<lambda>ts.
          and_then (parse_type S ts) (\<lambda>(t, ts). Inr (Cast v t, ts))))
      | Convert_form \<Rightarrow>
          and_then (parse_type S ts) (\<lambda>(t, ts).
          and_then (expect '','' ts) (\<lambda>ts.
          and_then (parse_value ex nesting cases ts) (\<lambda>(v, ts).
          (case eat '','' ts of
             Some ts \<Rightarrow> and_then (parse_style ts) (\<lambda>(n, ts). Inr (Convert t v (Some n), ts))
           | None \<Rightarrow> Inr (Convert t v None, ts)))))
      | Datepart_form \<Rightarrow>
          and_then (unquoted_word ts) (\<lambda>(w, ts).
          and_then (ok_or (find_datepart S fn w) Bad_datepart) (\<lambda>part.
          and_then (expect '','' ts) (\<lambda>ts.
          and_then (parse_list ex nesting cases ts) (\<lambda>(vs, ts). Inr (Datepart part vs, ts)))))
      | Trim_form \<Rightarrow>
          (case trim_direction ts of (direction, ts) \<Rightarrow>
           and_then (parse_value ex nesting cases ts) (\<lambda>(first, ts).
           (case eat ''FROM'' ts of
              Some ts \<Rightarrow> and_then (parse_value ex nesting cases ts) (\<lambda>(v, ts). Inr (Trim direction (Some first) v, ts))
            | None \<Rightarrow> if direction \<noteq> None then Inl Directional_trim else Inr (Trim None None first, ts)))))"

primrec case_arms ::
  "nat \<Rightarrow> reader \<Rightarrow> nat \<Rightarrow> nat \<Rightarrow> bool \<Rightarrow> token list \<Rightarrow>
     (perror, ((scalar \<times> scalar) list \<times> (predicate \<times> scalar) list) \<times> token list) result" where
  "case_arms 0 ex nesting cases simple_case ts = Inl Out_of_fuel"
| "case_arms (Suc f) ex nesting cases simple_case ts =
     (case eat ''WHEN'' ts of
        None \<Rightarrow> Inr (([], []), ts)
      | Some ts \<Rightarrow>
          and_then (ex 0 nesting cases ts) (\<lambda>(test, ts).
          and_then (expect ''THEN'' ts) (\<lambda>ts.
          and_then (parse_value ex nesting cases ts) (\<lambda>(v, ts).
          if simple_case then
            and_then (as_value test) (\<lambda>t.
            and_then (case_arms f ex nesting cases simple_case ts) (\<lambda>((simple, searched), ts). Inr (((t, v) # simple, searched), ts)))
          else
            and_then (as_test test) (\<lambda>t.
            and_then (case_arms f ex nesting cases simple_case ts) (\<lambda>((simple, searched), ts). Inr ((simple, (t, v) # searched), ts)))))))"

definition parse_case :: "reader \<Rightarrow> nat \<Rightarrow> nat \<Rightarrow> token list \<Rightarrow> (perror, scalar \<times> token list) result" where
  "parse_case ex nesting cases0 ts =
     (let cases = cases0 + 1 in
      if cases > 10 then Inl Case_nesting
      else
        and_then
          (if is_tok ''WHEN'' ts then Inr (None, ts)
           else and_then (parse_value ex nesting cases ts) (\<lambda>(v, ts). Inr (Some v, ts)))
          (\<lambda>(input, ts).
        and_then (case_arms (length ts + 1) ex nesting cases (input \<noteq> None) ts) (\<lambda>((simple, searched), ts).
        if simple = [] \<and> searched = [] then Inl Case_arms
        else
        and_then
          (case eat ''ELSE'' ts of
             Some ts \<Rightarrow> and_then (parse_value ex nesting cases ts) (\<lambda>(v, ts). Inr (Some v, ts))
           | None \<Rightarrow> Inr (None, ts))
          (\<lambda>(otherwise, ts).
        and_then (expect ''END'' ts) (\<lambda>ts.
        and_then
          (make_scalar (case input of Some v \<Rightarrow> SimpleCase v simple otherwise | None \<Rightarrow> SearchedCase searched otherwise))
          (\<lambda>v. Inr (v, ts)))))))"

text \<open>The value a token starts.\<close>

definition token_value ::
  "dialect_syntax \<Rightarrow> reader \<Rightarrow> nat \<Rightarrow> nat \<Rightarrow> token \<Rightarrow> token list \<Rightarrow> (perror, scalar_value \<times> token list) result" where
  "token_value S ex nesting cases tok ts =
     (case tok of
        Num v \<Rightarrow> Inr (Number v, ts)
      | Str v n \<Rightarrow> Inr (String v n, ts)
      | Word w quoted \<Rightarrow>
          (case if quoted then None else eat ''('' ts of
             Some ts \<Rightarrow>
               and_then (ok_or (find_function S w) Not_allowlisted) (\<lambda>fn.
               and_then (parse_call S ex nesting cases fn ts) (\<lambda>(c, ts).
               and_then (expect '')'' ts) (\<lambda>ts.
               if \<not> arity_ok fn c then Inl (Invalid_arity (fn_name fn)) else Inr (Call fn c, ts))))
           | None \<Rightarrow>
               if \<not> quoted \<and> reserved (sx_lexicon S) (map u_lower w) then Inl Reserved_word else Inr (Column w, ts))
      | Mark _ \<Rightarrow> Inl Expected_primary)"

definition parse_primary :: "dialect_syntax \<Rightarrow> reader \<Rightarrow> nat \<Rightarrow> nat \<Rightarrow> token list \<Rightarrow> (perror, scalar \<times> token list) result" where
  "parse_primary S ex nesting cases ts =
     (case eat ''NULL'' ts of
        Some ts \<Rightarrow> and_then (make_scalar Null) (\<lambda>v. Inr (v, ts))
      | None \<Rightarrow>
      case eat ''CASE'' ts of
        Some ts \<Rightarrow> parse_case ex nesting cases ts
      | None \<Rightarrow>
      case ts of
        [] \<Rightarrow> Inl Missing_expression
      | tok # ts \<Rightarrow>
          and_then (token_value S ex nesting cases tok ts) (\<lambda>(kind, ts). and_then (make_scalar kind) (\<lambda>v. Inr (v, ts))))"

definition prefix_term :: "dialect_syntax \<Rightarrow> reader \<Rightarrow> nat \<Rightarrow> nat \<Rightarrow> token list \<Rightarrow> (perror, pratt_term \<times> token list) result" where
  "prefix_term S ex nesting cases ts =
     (case eat ''('' ts of
        Some ts \<Rightarrow>
          and_then (ex 0 nesting cases ts) (\<lambda>(v, ts).
          and_then (expect '')'' ts) (\<lambda>ts. Inr (v, ts)))
      | None \<Rightarrow>
      case eat ''NOT'' ts of
        Some ts \<Rightarrow>
          and_then (ex 30 nesting cases ts) (\<lambda>(t, ts).
          and_then (as_test t) (\<lambda>p.
          and_then (make_predicate (Not p)) (\<lambda>p. Inr (TTest p, ts))))
      | None \<Rightarrow>
          if is_tok ''+'' ts \<or> is_tok ''-'' ts then
            (let op = (if is_tok ''+'' ts then ''+'' else ''-'') in
             and_then (ex 51 nesting cases (tl ts)) (\<lambda>(t, ts).
             and_then (as_value t) (\<lambda>v.
             and_then (make_scalar (Unary op v)) (\<lambda>v. Inr (TValue v, ts)))))
          else and_then (parse_primary S ex nesting cases ts) (\<lambda>(v, ts). Inr (TValue v, ts)))"

primrec infix_loop :: "nat \<Rightarrow> reader \<Rightarrow> nat \<Rightarrow> nat \<Rightarrow> nat \<Rightarrow> pratt_term \<Rightarrow> token list \<Rightarrow> (perror, pratt_term \<times> token list) result" where
  "infix_loop 0 ex least nesting cases left ts = Inl Out_of_fuel"
| "infix_loop (Suc f) ex least nesting cases left ts =
     (case next_op ts of
        None \<Rightarrow> Inr (left, ts)
      | Some (op, binding) \<Rightarrow>
          if binding < least then Inr (left, ts)
          else if op = ''test'' then
            and_then (as_value left) (\<lambda>v.
            and_then (parse_test ex nesting cases v ts) (\<lambda>(p, ts).
            infix_loop f ex least nesting cases (TTest p) ts))
          else
            and_then (ex (binding + 1) nesting cases (tl ts)) (\<lambda>(right, ts).
            and_then (combine op binding left right) (\<lambda>left.
            infix_loop f ex least nesting cases left ts)))"

primrec expression :: "nat \<Rightarrow> dialect_syntax \<Rightarrow> reader" where
  "expression 0 S = (\<lambda>least nesting cases ts. Inl Out_of_fuel)"
| "expression (Suc f) S =
     (\<lambda>least nesting0 cases ts.
        let nesting = nesting0 + 1 in
        if nesting > 256 then Inl Nesting_exceeded
        else
          and_then (prefix_term S (expression f S) nesting cases ts) (\<lambda>(left, ts).
          infix_loop (length ts + 1) (expression f S) least nesting cases left ts))"

text \<open>One unit of fuel for each level of nesting, and one to refuse the next.\<close>

definition read_predicate :: "dialect_syntax \<Rightarrow> utext \<Rightarrow> (perror, predicate) result" where
  "read_predicate S t =
     and_then (tokens (sx_lexicon S) t) (\<lambda>ts.
     and_then (expression 257 S 0 0 0 ts) (\<lambda>(r, ts).
     and_then (as_test r) (\<lambda>p.
     if ts \<noteq> [] then Inl Trailing else Inr p)))"

definition utf8_length :: "utext \<Rightarrow> nat" where
  "utf8_length t = sum_list (map (\<lambda>c. if c < 0x80 then 1 else if c < 0x800 then 2 else if c < 0x10000 then 3 else 4) t)"

definition parse_predicate :: "dialect_syntax \<Rightarrow> utext \<Rightarrow> (perror, predicate) result" where
  "parse_predicate S t = (if utf8_length t > 65536 then Inl Too_long else read_predicate S t)"

section \<open>Writing\<close>

definition int_text :: "int \<Rightarrow> utext" where
  "int_text i = (if i < 0 then lit ''-'' else []) @ lit (decimal (nat \<bar>i\<bar>))"

definition type_arg_text :: "type_arg \<Rightarrow> utext" where
  "type_arg_text a = (case a of ArgInt i \<Rightarrow> int_text i | ArgMax \<Rightarrow> lit ''max'' | ArgIdent s \<Rightarrow> lit s)"

definition type_text :: "cast_type \<Rightarrow> utext" where
  "type_text t =
     map u_upper (cast_base t) @
     (if cast_args t = [] then [] else lit ''('' @ join_with (lit '', '') (map type_arg_text (cast_args t)) @ lit '')'')"

definition neg :: "bool \<Rightarrow> utext" where
  "neg negated = (if negated then lit ''NOT '' else [])"

definition all_texts :: "(perror, utext) result list \<Rightarrow> (perror, utext list) result" where
  "all_texts = try_map (\<lambda>r. r)"

definition join_texts :: "(perror, utext) result list \<Rightarrow> (perror, utext) result" where
  "join_texts rs = and_then (all_texts rs) (\<lambda>ts. Inr (join_with (lit '', '') ts))"

definition arm_texts :: "((perror, utext) result \<times> (perror, utext) result) list \<Rightarrow> (perror, utext) result" where
  "arm_texts arms =
     and_then (try_map (\<lambda>(a, b). and_then a (\<lambda>a. and_then b (\<lambda>b. Inr (lit '' WHEN '' @ a @ lit '' THEN '' @ b)))) arms)
       (\<lambda>ts. Inr (concat ts))"

definition finish_case :: "utext \<Rightarrow> (perror, utext) result option \<Rightarrow> (perror, utext) result" where
  "finish_case t otherwise =
     and_then (case otherwise of None \<Rightarrow> Inr [] | Some r \<Rightarrow> and_then r (\<lambda>v. Inr (lit '' ELSE '' @ v)))
       (\<lambda>e. Inr (lit ''('' @ t @ e @ lit '' END)''))"

primrec render_scalar :: "dialect_syntax \<Rightarrow> scalar \<Rightarrow> (perror, utext) result"
and render_value :: "dialect_syntax \<Rightarrow> scalar_value \<Rightarrow> (perror, utext) result"
and render_args :: "dialect_syntax \<Rightarrow> call_args \<Rightarrow> (perror, utext) result"
and render_predicate :: "dialect_syntax \<Rightarrow> predicate \<Rightarrow> (perror, utext) result"
and render_condition :: "dialect_syntax \<Rightarrow> condition \<Rightarrow> (perror, utext) result"
where
  "render_scalar S (Scalar kind d) = render_value S kind"
| "render_value S (Number n) = Inr n"
| "render_value S (String v n) = Inr (string_literal S v n)"
| "render_value S Null = Inr (lit ''NULL'')"
| "render_value S (Column n) = quote_ident S n"
| "render_value S (Unary op v) =
     and_then (render_scalar S v) (\<lambda>v. Inr (lit ''('' @ lit op @ lit '' '' @ v @ lit '')''))"
| "render_value S (Binary op a b) =
     and_then (render_scalar S a) (\<lambda>a. and_then (render_scalar S b) (\<lambda>b.
     Inr (lit ''('' @ a @ lit '' '' @ lit op @ lit '' '' @ b @ lit '')'')))"
| "render_value S (Call f c) = and_then (render_args S c) (\<lambda>args. Inr (fn_name f @ lit ''('' @ args @ lit '')''))"
| "render_value S (SimpleCase v arms otherwise) =
     and_then (render_scalar S v) (\<lambda>v.
     and_then (arm_texts (map (map_prod (render_scalar S) (render_scalar S)) arms)) (\<lambda>arms.
     finish_case (lit ''CASE '' @ v @ arms) (map_option (render_scalar S) otherwise)))"
| "render_value S (SearchedCase arms otherwise) =
     and_then (arm_texts (map (map_prod (render_predicate S) (render_scalar S)) arms)) (\<lambda>arms.
     finish_case (lit ''CASE'' @ arms) (map_option (render_scalar S) otherwise))"
| "render_args S (Ordinary vs) = join_texts (map (render_scalar S) vs)"
| "render_args S (Cast v t) = and_then (render_scalar S v) (\<lambda>v. Inr (v @ lit '' AS '' @ type_text t))"
| "render_args S (Convert t v style) =
     and_then (render_scalar S v) (\<lambda>v.
     Inr (type_text t @ lit '', '' @ v @ (case style of None \<Rightarrow> [] | Some n \<Rightarrow> lit '', '' @ int_text n)))"
| "render_args S (Datepart p vs) = and_then (join_texts (map (render_scalar S) vs)) (\<lambda>vs. Inr (p @ lit '', '' @ vs))"
| "render_args S (Trim direction chars v) =
     and_then
       (case map_option (render_scalar S) chars of None \<Rightarrow> Inr [] | Some r \<Rightarrow> and_then r (\<lambda>c. Inr (c @ lit '' FROM '')))
       (\<lambda>chars. and_then (render_scalar S v) (\<lambda>v.
       Inr ((case direction of None \<Rightarrow> [] | Some d \<Rightarrow> lit d @ lit '' '') @ chars @ v)))"
| "render_predicate S (Predicate kind d) = and_then (render_condition S kind) (\<lambda>t. Inr (lit ''('' @ t @ lit '')''))"
| "render_condition S (Compare op a b) =
     and_then (render_scalar S a) (\<lambda>a. and_then (render_scalar S b) (\<lambda>b. Inr (a @ lit '' '' @ lit op @ lit '' '' @ b)))"
| "render_condition S (IsNull v negated) =
     and_then (render_scalar S v) (\<lambda>v. Inr (v @ lit '' IS '' @ neg negated @ lit ''NULL''))"
| "render_condition S (InList v vs negated) =
     and_then (render_scalar S v) (\<lambda>v. and_then (join_texts (map (render_scalar S) vs)) (\<lambda>vs.
     Inr (v @ lit '' '' @ neg negated @ lit ''IN ('' @ vs @ lit '')'')))"
| "render_condition S (Between v low high negated) =
     and_then (render_scalar S v) (\<lambda>v. and_then (render_scalar S low) (\<lambda>low. and_then (render_scalar S high) (\<lambda>high.
     Inr (v @ lit '' '' @ neg negated @ lit ''BETWEEN '' @ low @ lit '' AND '' @ high))))"
| "render_condition S (Like v pat escape negated) =
     and_then (render_scalar S v) (\<lambda>v. and_then (render_scalar S pat) (\<lambda>pat.
     and_then (case map_option (render_scalar S) escape of None \<Rightarrow> Inr [] | Some r \<Rightarrow> and_then r (\<lambda>e. Inr (lit '' ESCAPE '' @ e)))
     (\<lambda>escape. Inr (v @ lit '' '' @ neg negated @ lit ''LIKE '' @ pat @ escape))))"
| "render_condition S (Not p) = and_then (render_predicate S p) (\<lambda>p. Inr (lit ''NOT '' @ p))"
| "render_condition S (Logic op a b) =
     and_then (render_predicate S a) (\<lambda>a. and_then (render_predicate S b) (\<lambda>b. Inr (a @ lit '' '' @ lit op @ lit '' '' @ b)))"

end
