(* ===== verification/Pred_Total.thy ===== *)
theory Pred_Total
  imports Pred_Read
begin

text \<open>
  The reader of predicates returns on every text: each part of it leaves fewer tokens than it was given, so its loops end, and the limit on
  nesting bounds the recursion.
\<close>

section \<open>Results that use up tokens\<close>

text \<open>A result that is no lack of fuel and leaves fewer than \<open>n\<close> tokens.\<close>

definition fine :: "nat \<Rightarrow> (perror, 'a \<times> token list) result \<Rightarrow> bool" where
  "fine n r \<longleftrightarrow> (case r of Inl e \<Rightarrow> e \<noteq> Out_of_fuel | Inr (_, rest) \<Rightarrow> length rest < n)"

named_theorems fine_intros \<open>how results that use up tokens compose\<close>

lemma fine_Inr [fine_intros]: "length rest < n \<Longrightarrow> fine n (Inr (x, rest))"
  by (simp add: fine_def)

lemma fine_Inl [fine_intros]: "e \<noteq> Out_of_fuel \<Longrightarrow> fine n (Inl e)"
  by (simp add: fine_def)

lemma fine_and_then: "fine m r \<Longrightarrow> (\<And>x rest. length rest < m \<Longrightarrow> fine n (g (x, rest))) \<Longrightarrow> fine n (and_then r g)"
  by (cases r) (auto simp: fine_def)

lemma fine_mono: "fine m r \<Longrightarrow> m \<le> n \<Longrightarrow> fine n r"
  by (auto simp: fine_def split: sum.splits)

lemma fine_pure: "r \<noteq> Inl Out_of_fuel \<Longrightarrow> (\<And>x. fine n (g x)) \<Longrightarrow> fine n (and_then r g)"
  by (cases r) (auto simp: fine_def)

lemma eat_shorter: "eat w ts = Some rest \<Longrightarrow> length rest < length ts"
  by (cases ts) (auto simp: eat_def is_tok_def split: if_splits)

lemma fine_eat [fine_intros]:
  "(\<And>rest. length rest < length ts \<Longrightarrow> fine n (g rest)) \<Longrightarrow> fine n d \<Longrightarrow> fine n (case eat w ts of None \<Rightarrow> d | Some rest \<Rightarrow> g rest)"
  by (auto split: option.splits dest: eat_shorter)

lemma fine_expect [fine_intros]: "(\<And>rest. length rest < length ts \<Longrightarrow> fine n (g rest)) \<Longrightarrow> fine n (and_then (expect w ts) g)"
  by (cases "eat w ts") (auto simp: expect_def fine_def dest: eat_shorter)

lemma fine_as [fine_intros]:
  "(\<And>v. fine n (g v)) \<Longrightarrow> fine n (and_then (as_value t) g)" "(\<And>p. fine n (h p)) \<Longrightarrow> fine n (and_then (as_test t) h)"
  by (cases t; simp add: fine_def)+

lemma fine_make [fine_intros]:
  "(\<And>v. fine n (g v)) \<Longrightarrow> fine n (and_then (make_scalar k) g)" "(\<And>p. fine n (h p)) \<Longrightarrow> fine n (and_then (make_predicate c) h)"
  by (auto simp: make_scalar_def make_predicate_def node_def fine_def)

lemma fine_ok_or [fine_intros]: "e \<noteq> Out_of_fuel \<Longrightarrow> (\<And>v. fine n (g v)) \<Longrightarrow> fine n (and_then (ok_or x e) g)"
  by (cases x) (auto simp: fine_def)

lemma fine_if [fine_intros]: "(b \<Longrightarrow> fine n x) \<Longrightarrow> (\<not> b \<Longrightarrow> fine n y) \<Longrightarrow> fine n (if b then x else y)"
  by simp

lemma fine_unquoted_word: "fine (length ts) (unquoted_word ts)"
  by (auto simp: unquoted_word_def fine_def split: list.splits token.splits bool.splits)

lemma type_words_shorter: "length (snd (type_words name ts)) \<le> length ts"
  by (induction name ts rule: type_words.induct) auto

lemma fine_type_arg_at: "fine (length ts) (type_arg_at ts)"
  unfolding type_arg_at_def by (intro fine_intros) (auto intro!: fine_intros split: list.splits token.splits option.splits)

lemma fine_type_args: "length ts < f \<Longrightarrow> fine (length ts) (type_args f ts)"
proof (induction f arbitrary: ts)
  case (Suc f)
  show ?case unfolding type_args.simps
  proof (rule fine_and_then [OF fine_type_arg_at], clarify, intro fine_intros)
    fix a and rest rest' :: "token list" assume "length rest < length ts" "length rest' < length rest"
    then show "fine (length ts) (and_then (type_args f rest') (\<lambda>(as, ts). Inr (a # as, ts)))"
      using Suc by (intro fine_and_then [OF Suc.IH]) (auto intro!: fine_intros)
  qed
qed simp

lemma fine_style: "fine (length ts) (parse_style ts)"
  by (auto simp: parse_style_def fine_def split: option.splits list.splits token.splits dest!: eat_shorter)

lemma eat_not_shorter: "length (snd (eat_not ts)) \<le> length ts"
  by (auto simp: eat_not_def split: option.splits dest!: eat_shorter)

lemma trim_direction_shorter: "length (snd (trim_direction ts)) \<le> length ts"
  by (auto simp: trim_direction_def split: option.splits)

text \<open>What the dialect must keep: its refusal of a type is no lack of fuel.\<close>

definition types_answered :: "dialect_syntax \<Rightarrow> bool" where
  "types_answered S \<longleftrightarrow> (\<forall>name args. find_cast_type S name args \<noteq> Inl Out_of_fuel)"

lemma fine_type: "types_answered S \<Longrightarrow> fine (length ts) (parse_type S ts)"
proof -
  assume S: "types_answered S"
  show ?thesis unfolding parse_type_def
  proof (rule fine_and_then [OF fine_unquoted_word], clarify)
    fix w and ts1 :: "token list" assume l: "length ts1 < length ts"
    obtain name ts2 where n: "type_words w ts1 = (name, ts2)" by force
    then have l2: "length ts2 < length ts" using type_words_shorter [of w ts1] l by simp
    show "fine (length ts) (case type_words w ts1 of (name, ts) \<Rightarrow>
        and_then (case eat ''('' ts of None \<Rightarrow> Inr ([], ts)
          | Some ts \<Rightarrow> and_then (type_args (length ts + 1) ts) (\<lambda>(args, ts). and_then (expect '')'' ts) (\<lambda>ts. Inr (args, ts))))
        (\<lambda>(args, ts). and_then (find_cast_type S name args) (\<lambda>t. Inr (t, ts))))"
      unfolding n prod.case
    proof (rule fine_and_then [where m = "Suc (length ts2)"])
      show "fine (Suc (length ts2)) (case eat ''('' ts2 of None \<Rightarrow> Inr ([], ts2)
          | Some ts \<Rightarrow> and_then (type_args (length ts + 1) ts) (\<lambda>(args, ts). and_then (expect '')'' ts) (\<lambda>ts. Inr (args, ts))))"
        by (intro fine_intros fine_and_then [OF fine_type_args]) (auto intro!: fine_intros)
    next
      fix args and rest :: "token list" assume "length rest < Suc (length ts2)"
      then show "fine (length ts) (case (args, rest) of (args, ts) \<Rightarrow> and_then (find_cast_type S name args) (\<lambda>t. Inr (t, ts)))"
        using S l2 unfolding types_answered_def by (auto intro!: fine_pure fine_intros)
    qed
  qed
qed

section \<open>The parts of the reader\<close>

definition good_at :: "reader \<Rightarrow> nat \<Rightarrow> bool" where
  "good_at ex nesting \<longleftrightarrow> (\<forall>least cases ts. fine (length ts) (ex least nesting cases ts))"

lemma good_fine: "good_at ex nesting \<Longrightarrow> fine (length ts) (ex least nesting cases ts)"
  by (simp add: good_at_def)

lemma fine_value: "good_at ex nesting \<Longrightarrow> fine (length ts) (parse_value ex nesting cases ts)"
  unfolding parse_value_def by (intro fine_and_then [OF good_fine]) (auto intro!: fine_intros)

lemma fine_list_items: "good_at ex nesting \<Longrightarrow> length ts < f \<Longrightarrow> fine (length ts) (list_items f ex nesting cases ts)"
proof (induction f arbitrary: ts)
  case (Suc f)
  show ?case unfolding list_items.simps
  proof (rule fine_and_then [OF fine_value [OF Suc.prems(1)]], clarify, intro fine_intros)
    fix v and rest rest' :: "token list" assume "length rest < length ts" "length rest' < length rest"
    then show "fine (length ts) (and_then (list_items f ex nesting cases rest') (\<lambda>(vs, ts). Inr (v # vs, ts)))"
      using Suc.prems by (intro fine_and_then [OF Suc.IH [OF Suc.prems(1)]]) (auto intro!: fine_intros)
  qed
qed simp

lemma fine_list: "good_at ex nesting \<Longrightarrow> fine (Suc (length ts)) (parse_list ex nesting cases ts)"
  unfolding parse_list_def by (intro fine_intros fine_mono [OF fine_list_items]) auto

lemma fine_test: "good_at ex nesting \<Longrightarrow> fine (length ts) (parse_test ex nesting cases v ts)"
proof -
  assume ex: "good_at ex nesting"
  obtain negated ts1 where n: "eat_not ts = (negated, ts1)" by force
  then have l: "length ts1 \<le> length ts" using eat_not_shorter [of ts] by simp
  have inner: "fine (length ts1)
     (case eat ''IN'' ts1 of
        Some ts \<Rightarrow>
          and_then (expect ''('' ts) (\<lambda>ts.
          and_then (parse_list ex nesting cases ts) (\<lambda>(vs, ts).
          and_then (expect '')'' ts) (\<lambda>ts.
          if vs = [] then Inl Empty_list else Inr (InList v vs negated, ts))))
      | None \<Rightarrow>
     case eat ''BETWEEN'' ts1 of
        Some ts \<Rightarrow>
          and_then (parse_value ex nesting cases ts) (\<lambda>(low, ts).
          and_then (expect ''AND'' ts) (\<lambda>ts.
          and_then (parse_value ex nesting cases ts) (\<lambda>(high, ts). Inr (Between v low high negated, ts))))
      | None \<Rightarrow>
     case eat ''LIKE'' ts1 of
        Some ts \<Rightarrow>
          and_then (parse_value ex nesting cases ts) (\<lambda>(pat, ts).
          (case eat ''ESCAPE'' ts of
             Some ts \<Rightarrow> and_then (parse_value ex nesting cases ts) (\<lambda>(e, ts). Inr (Like v pat (Some e) negated, ts))
           | None \<Rightarrow> Inr (Like v pat None negated, ts)))
      | None \<Rightarrow> Inl Expected_test)"
  proof (intro fine_eat)
    fix rest :: "token list" assume "length rest < length ts1"
    then show "fine (length ts1) (and_then (expect ''('' rest) (\<lambda>ts. and_then (parse_list ex nesting cases ts) (\<lambda>(vs, ts).
        and_then (expect '')'' ts) (\<lambda>ts. if vs = [] then Inl Empty_list else Inr (InList v vs negated, ts)))))"
      by (intro fine_expect fine_and_then [OF fine_list [OF ex]]) (auto intro!: fine_intros)
  next
    fix rest :: "token list" assume "length rest < length ts1"
    then show "fine (length ts1) (and_then (parse_value ex nesting cases rest) (\<lambda>(low, ts). and_then (expect ''AND'' ts) (\<lambda>ts.
        and_then (parse_value ex nesting cases ts) (\<lambda>(high, ts). Inr (Between v low high negated, ts)))))"
      by (intro fine_and_then [OF fine_value [OF ex]]) (auto intro!: fine_expect fine_and_then [OF fine_value [OF ex]] fine_Inr)
  next
    fix rest :: "token list" assume "length rest < length ts1"
    then show "fine (length ts1) (and_then (parse_value ex nesting cases rest) (\<lambda>(pat, ts).
        (case eat ''ESCAPE'' ts of
           Some ts \<Rightarrow> and_then (parse_value ex nesting cases ts) (\<lambda>(e, ts). Inr (Like v pat (Some e) negated, ts))
         | None \<Rightarrow> Inr (Like v pat None negated, ts))))"
      by (intro fine_and_then [OF fine_value [OF ex]]) (auto intro!: fine_eat fine_and_then [OF fine_value [OF ex]] fine_Inr)
  qed (simp add: fine_def)
  show ?thesis unfolding parse_test_def
  proof (intro fine_eat)
    fix rest :: "token list" assume r: "length rest < length ts"
    obtain b ts2 where b: "eat_not rest = (b, ts2)" by force
    then have "length ts2 \<le> length rest" using eat_not_shorter [of rest] by simp
    with r show "fine (length ts) (case eat_not rest of (negated, ts) \<Rightarrow> and_then (expect ''NULL'' ts) (\<lambda>ts.
        and_then (make_predicate (IsNull v negated)) (\<lambda>p. Inr (p, ts))))"
      unfolding b prod.case by (intro fine_intros) auto
  qed (unfold n prod.case, use l in \<open>intro fine_and_then [OF inner], auto intro!: fine_intros\<close>)
qed

lemma fine_call:
  assumes "good_at ex nesting" "types_answered S"
  shows "fine (Suc (length ts)) (parse_call S ex nesting cases fn ts)"
proof (cases "fn_form fn")
  case Ordinary_form
  then show ?thesis unfolding parse_call_def by (auto intro!: fine_and_then [OF fine_list [OF assms(1)]] fine_Inr)
next
  case Cast_form
  then show ?thesis unfolding parse_call_def
    by (auto intro!: fine_and_then [OF fine_value [OF assms(1)]] fine_expect fine_and_then [OF fine_type [OF assms(2)]] fine_Inr)
next
  case Convert_form
  then show ?thesis unfolding parse_call_def
    by (auto intro!: fine_and_then [OF fine_type [OF assms(2)]] fine_expect fine_and_then [OF fine_value [OF assms(1)]] fine_eat
        fine_and_then [OF fine_style] fine_Inr)
next
  case Datepart_form
  then show ?thesis unfolding parse_call_def
    by (auto intro!: fine_and_then [OF fine_unquoted_word] fine_ok_or fine_expect fine_and_then [OF fine_list [OF assms(1)]] fine_Inr)
next
  case Trim_form
  obtain d ts1 where d: "trim_direction ts = (d, ts1)" by force
  then have "length ts1 \<le> length ts" using trim_direction_shorter [of ts] by simp
  then show ?thesis unfolding parse_call_def Trim_form form.case d prod.case
    by (auto intro!: fine_and_then [OF fine_value [OF assms(1)]] fine_eat fine_if fine_Inl fine_Inr)
qed

lemma fine_case_arms: "good_at ex nesting \<Longrightarrow> length ts < f \<Longrightarrow> fine (Suc (length ts)) (case_arms f ex nesting cases b ts)"
proof (induction f arbitrary: ts)
  case (Suc f)
  note ex = Suc.prems(1)
  have rec: "fine (length ts) (and_then (case_arms f ex nesting cases b rest) g)"
    if "length rest < length ts" "\<And>x r. length r \<le> length rest \<Longrightarrow> fine (length ts) (g (x, r))" for rest g
    by (rule fine_and_then [OF Suc.IH [OF ex]]) (use that Suc.prems(2) in auto)
  have "fine (length ts) (and_then (ex 0 nesting cases rest) (\<lambda>(test, ts).
          and_then (expect ''THEN'' ts) (\<lambda>ts.
          and_then (parse_value ex nesting cases ts) (\<lambda>(v, ts).
          if b then
            and_then (as_value test) (\<lambda>t.
            and_then (case_arms f ex nesting cases b ts) (\<lambda>((simple, searched), ts). Inr (((t, v) # simple, searched), ts)))
          else
            and_then (as_test test) (\<lambda>t.
            and_then (case_arms f ex nesting cases b ts) (\<lambda>((simple, searched), ts). Inr ((simple, (t, v) # searched), ts)))))))"
    if "length rest < length ts" for rest
    using that
    by (auto intro!: fine_and_then [OF good_fine [OF ex]] fine_expect fine_and_then [OF fine_value [OF ex]] fine_if fine_as rec fine_Inr)
  then show ?case unfolding case_arms.simps by (intro fine_eat fine_Inr) (rule fine_mono, blast, simp_all)
qed simp

lemma fine_case: "good_at ex nesting \<Longrightarrow> fine (length ts) (parse_case ex nesting cases ts)"
proof -
  assume ex: "good_at ex nesting"
  have input: "fine (Suc (length ts)) (if is_tok ''WHEN'' ts then Inr (None, ts) else and_then (parse_value ex nesting k ts) (\<lambda>(v, ts). Inr (Some v, ts)))"
    for k by (auto intro!: fine_if fine_Inr fine_and_then [OF fine_value [OF ex]])
  have other: "fine (Suc (length ts)) (case eat ''ELSE'' ts of
      Some ts \<Rightarrow> and_then (parse_value ex nesting k ts) (\<lambda>(v, ts). Inr (Some v, ts)) | None \<Rightarrow> Inr (None, ts))" for k ts
    by (auto intro!: fine_eat fine_Inr fine_and_then [OF fine_value [OF ex]])
  have arms: "fine (Suc (length ts)) (case_arms (length ts + 1) ex nesting k b ts)" for k b ts
    by (rule fine_case_arms [OF ex]) simp
  show ?thesis unfolding parse_case_def Let_def
    by (intro fine_if fine_Inl fine_and_then [OF input], simp, clarify, intro fine_and_then [OF arms], clarify,
        intro fine_if fine_Inl fine_and_then [OF other], simp, clarify, intro fine_expect fine_make fine_Inr) simp
qed

lemma fine_parse_primary:
  assumes "good_at ex nesting" "types_answered S"
  shows "fine (length ts) (parse_primary S ex nesting cases ts)"
proof -
  have word: "fine (Suc (length ts)) (case if quoted then None else eat ''('' ts of
        Some ts \<Rightarrow>
          and_then (ok_or (find_function S w) Not_allowlisted) (\<lambda>fn.
          and_then (parse_call S ex nesting cases fn ts) (\<lambda>(c, ts).
          and_then (expect '')'' ts) (\<lambda>ts.
          if \<not> arity_ok fn c then Inl (Invalid_arity (fn_name fn)) else Inr (Call fn c, ts))))
      | None \<Rightarrow>
          if \<not> quoted \<and> reserved (sx_lexicon S) (map u_lower w) then Inl Reserved_word else Inr (Column w, ts))" for quoted w ts
    by (cases quoted)
      (auto intro!: fine_eat fine_if fine_Inl fine_Inr fine_ok_or fine_expect fine_and_then [OF fine_call [OF assms]])
  have tok: "fine (Suc (length ts)) (token_value S ex nesting cases tok ts)" for tok ts
    unfolding token_value_def
    using word by (cases tok) (auto intro!: fine_Inr fine_Inl simp del: if_True if_False)
  show ?thesis unfolding parse_primary_def
  proof (intro fine_eat fine_make fine_Inr)
    fix rest :: "token list" assume "length rest < length ts"
    then show "fine (length ts) (parse_case ex nesting cases rest)" using fine_case [OF assms(1)] by (meson fine_mono less_imp_le_nat)
  next
    show "fine (length ts) (case ts of [] \<Rightarrow> Inl Missing_expression | tok # ts \<Rightarrow>
        and_then (token_value S ex nesting cases tok ts) (\<lambda>(kind, ts). and_then (make_scalar kind) (\<lambda>v. Inr (v, ts))))"
      by (cases ts) (auto intro!: fine_and_then [OF tok] fine_make fine_Inr fine_Inl)
  qed simp
qed

lemma fine_prefix:
  assumes "good_at ex nesting" "types_answered S"
  shows "fine (length ts) (prefix_term S ex nesting cases ts)"
proof -
  have sign: "length (tl ts) < length ts" if "is_tok ''+'' ts \<or> is_tok ''-'' ts"
    using that by (cases ts) (auto simp: is_tok_def)
  have un: "fine (length ts) (and_then (ex 51 nesting cases (tl ts)) (\<lambda>(t, ts). and_then (as_value t) (\<lambda>v.
      and_then (make_scalar (Unary op v)) (\<lambda>v. Inr (TValue v, ts)))))" if "is_tok ''+'' ts \<or> is_tok ''-'' ts" for op
    using sign [OF that] by (auto intro!: fine_and_then [OF good_fine [OF assms(1)]] fine_as fine_make fine_Inr)
  show ?thesis unfolding prefix_term_def Let_def
    by (auto intro!: fine_eat fine_if fine_and_then [OF good_fine [OF assms(1)]] fine_expect fine_as fine_make fine_Inr
        fine_and_then [OF fine_parse_primary [OF assms]] un simp del: length_tl)
qed

lemma next_op_nonempty: "next_op ts = Some x \<Longrightarrow> ts \<noteq> []"
  by (auto simp: next_op_def is_tok_def)

lemma combine_answers: "combine op binding left right \<noteq> Inl Out_of_fuel"
  by (cases left; cases right) (auto simp: combine_def make_scalar_def make_predicate_def node_def Let_def)

lemma fine_infix: "good_at ex nesting \<Longrightarrow> length ts < f \<Longrightarrow> fine (Suc (length ts)) (infix_loop f ex least nesting cases left ts)"
proof (induction f arbitrary: ts left)
  case (Suc f)
  note ex = Suc.prems(1)
  have rec: "fine (Suc (length ts)) (infix_loop f ex least nesting cases l rest)" if "length rest < length ts" for l rest
    using Suc.IH [OF ex, of rest l] that Suc.prems(2) by (auto intro: fine_mono)
  show ?case
  proof (cases "next_op ts")
    case None
    then show ?thesis by (simp add: fine_Inr)
  next
    case (Some ob)
    obtain op b where ob: "ob = (op, b)" by force
    have ne: "ts \<noteq> []" using Some by (rule next_op_nonempty)
    have test: "fine (Suc (length ts)) (and_then (parse_test ex nesting cases v ts) (\<lambda>(p, ts). infix_loop f ex least nesting cases (TTest p) ts))" for v
      by (rule fine_and_then [OF fine_test [OF ex]]) (auto intro: rec)
    have bin: "fine (Suc (length ts)) (and_then (ex (b + 1) nesting cases (tl ts)) (\<lambda>(right, ts). and_then (combine op b left right) (\<lambda>left.
        infix_loop f ex least nesting cases left ts)))"
    proof (rule fine_and_then [OF good_fine [OF ex]], clarify)
      fix right and rest :: "token list" assume "length rest < length (tl ts)"
      then have "length rest < length ts" using ne by simp
      then show "fine (Suc (length ts)) (and_then (combine op b left right) (\<lambda>left. infix_loop f ex least nesting cases left rest))"
        by (intro fine_pure combine_answers rec)
    qed
    show ?thesis unfolding infix_loop.simps Some ob option.case prod.case using test bin
      by (auto intro!: fine_if fine_Inr fine_as)
  qed
qed simp

lemma fine_expression:
  "types_answered S \<Longrightarrow> 0 < f \<Longrightarrow> 257 \<le> f + nesting \<Longrightarrow> fine (length ts) (expression f S least nesting cases ts)"
proof (induction f arbitrary: least nesting cases ts)
  case (Suc f)
  show ?case
  proof (cases "256 < nesting + 1")
    case True
    then show ?thesis by (simp add: fine_Inl)
  next
    case False
    then have ex: "good_at (expression f S) (nesting + 1)" unfolding good_at_def using Suc by auto
    have "fine (length ts) (and_then (prefix_term S (expression f S) (nesting + 1) cases ts) (\<lambda>(left, ts).
        infix_loop (length ts + 1) (expression f S) least (nesting + 1) cases left ts))"
    proof (rule fine_and_then [OF fine_prefix [OF ex Suc.prems(1)]], clarify)
      fix left and rest :: "token list" assume "length rest < length ts"
      then show "fine (length ts) (infix_loop (length rest + 1) (expression f S) least (nesting + 1) cases left rest)"
        using fine_infix [OF ex, of rest "length rest + 1" least cases left] by (auto intro: fine_mono)
    qed
    with False show ?thesis by (simp only: expression.simps Let_def if_False)
  qed
qed simp

lemma answers:
  "(b \<Longrightarrow> x \<noteq> Inl e) \<Longrightarrow> (\<not> b \<Longrightarrow> y \<noteq> Inl e) \<Longrightarrow> (if b then x else y) \<noteq> Inl e"
  "d \<noteq> Inl e \<Longrightarrow> (\<And>v. g v \<noteq> Inl e) \<Longrightarrow> (case q of None \<Rightarrow> d | Some v \<Rightarrow> g v) \<noteq> Inl e"
  "(\<And>a b. h a b \<noteq> Inl e) \<Longrightarrow> (case w of (a, b) \<Rightarrow> h a b) \<noteq> Inl e"
  by (simp_all split: option.split prod.split)

text \<open>The reader answers every text where the dialect answers every type.\<close>

lemma reader_answers:
  assumes "types_answered S"
  shows "parse_predicate S t \<noteq> Inl Out_of_fuel"
proof -
  have nxt: "next_token lx t \<noteq> Inl Out_of_fuel" for lx t
  proof -
    have "scan_exponent u \<noteq> Inl Out_of_fuel" for u
      by (auto simp: scan_exponent_def Let_def split: list.split prod.split)
    then have "scan_number t \<noteq> Inl Out_of_fuel" by (auto simp: scan_number_def Let_def and_then_Inl_iff split: prod.splits)
    then show ?thesis unfolding next_token_def Let_def by (intro answers) (auto split: sum.split)
  qed
  have lexed: "tokens lx t \<noteq> Inl Out_of_fuel" for lx t
  proof (induction t rule: length_induct)
    case (1 t)
    then have IH: "length u < length t \<Longrightarrow> tokens lx u \<noteq> Inl Out_of_fuel" for u by blast
    have "tokens lx (dropWhile (\<lambda>c. c \<noteq> 13 \<and> c \<noteq> 10) t) \<noteq> Inl Out_of_fuel" if "prefix (lit ''--'') t"
      using that by (intro IH) (cases t, auto simp: lit_def length_dropWhile_le le_imp_less_Suc)
    moreover have "tokens lx u \<noteq> Inl Out_of_fuel" if "skip_comment 0 t = Some u" for u using that by (intro IH skip_comment_shorter)
    moreover have "tokens lx u \<noteq> Inl Out_of_fuel" if "next_token lx t = Inr (x, u)" "t \<noteq> []" for x u
      using that by (intro IH next_token_shorter)
    moreover have "tokens lx (tl t) \<noteq> Inl Out_of_fuel" if "t \<noteq> []" using that by (intro IH) simp
    ultimately show ?case using nxt [of lx t]
      by (subst tokens.simps) (auto split: sum.split option.split)
  qed
  show ?thesis
  proof
    assume "parse_predicate S t = Inl Out_of_fuel"
    then have "read_predicate S t = Inl Out_of_fuel" by (auto simp: parse_predicate_def split: if_splits)
    then obtain ts where "expression 257 S 0 0 0 ts = Inl Out_of_fuel \<or> (\<exists>r. as_test r = Inl Out_of_fuel)"
      using lexed by (auto simp: read_predicate_def and_then_Inl_iff split: if_splits)
    moreover have "as_test r \<noteq> Inl Out_of_fuel" for r by (cases r) simp_all
    ultimately have "expression 257 S 0 0 0 ts = Inl Out_of_fuel" by blast
    moreover have "fine (length ts) (expression 257 S 0 0 0 ts)" using assms by (intro fine_expression) simp_all
    ultimately show False by (simp add: fine_def)
  qed
qed

end
