(* ===== verification/Pred_Mssql.thy ===== *)
theory Pred_Mssql
  imports Pred_Total
begin

text \<open>
  SQL Server's part of the predicate language: \<open>crates/pbps-mssql/src/predicate.rs\<close> (functions, versions, types, date parts), and what it uses of
  \<open>ident.rs\<close> (quoting, reserved words) and \<open>types.rs\<close> (the type catalogue and its normal forms).

  \<open>char::is_alphanumeric\<close> of a character outside ASCII is the parameter \<open>alnum\<close>. A refusal of \<open>normalize\<close> is \<open>Type_refused\<close>, whatever its message. A type
  comes from \<open>ColumnType::new\<close> here, so that it is no reference, no array, and has its arguments behind the name.
\<close>

section \<open>Identifiers\<close>

text \<open>\<open>str::replace\<close> of one character by two of it.\<close>

definition doubled :: "uchar \<Rightarrow> utext \<Rightarrow> utext" where
  "doubled q t = concat (map (\<lambda>c. if c = q then [q, q] else [c]) t)"

definition MAX_IDENT_CHARS :: nat where
  "MAX_IDENT_CHARS = 128"

definition utf16_length :: "utext \<Rightarrow> nat" where
  "utf16_length t = sum_list (map (\<lambda>c. if c < 0x10000 then 1 else 2) t)"

definition mssql_quote :: "utext \<Rightarrow> (perror, utext) result" where
  "mssql_quote t =
     (if t = [] then Inl (Unquotable t)
      else if 0 \<in> set t then Inl (Unquotable t)
      else if utf16_length t > MAX_IDENT_CHARS then Inl (Unquotable t)
      else Inr (lit ''['' @ doubled 93 t @ lit '']''))"

definition mssql_literal :: "utext \<Rightarrow> utext" where
  "mssql_literal t = lit ''N'' @ [39] @ doubled 39 t @ [39]"

definition mssql_string_literal :: "utext \<Rightarrow> bool \<Rightarrow> utext" where
  "mssql_string_literal v national = (if national then mssql_literal v else [39] @ doubled 39 v @ [39])"

definition RESERVED :: "string list" where
  "RESERVED =
     [''add'', ''all'', ''alter'', ''and'', ''any'', ''as'', ''asc'', ''authorization'', ''backup'', ''begin'', ''between'', ''break'',
      ''browse'', ''bulk'', ''by'', ''cascade'', ''case'', ''check'', ''checkpoint'', ''close'', ''clustered'', ''coalesce'', ''collate'',
      ''column'', ''commit'', ''compute'', ''constraint'', ''contains'', ''containstable'', ''continue'', ''convert'', ''create'',
      ''cross'', ''current'', ''current_date'', ''current_time'', ''current_timestamp'', ''current_user'', ''cursor'', ''database'',
      ''dbcc'', ''deallocate'', ''declare'', ''default'', ''delete'', ''deny'', ''desc'', ''disk'', ''distinct'', ''distributed'',
      ''double'', ''drop'', ''dump'', ''else'', ''end'', ''errlvl'', ''escape'', ''except'', ''exec'', ''execute'', ''exists'', ''exit'',
      ''external'', ''fetch'', ''file'', ''fillfactor'', ''for'', ''foreign'', ''freetext'', ''freetexttable'', ''from'', ''full'',
      ''function'', ''goto'', ''grant'', ''group'', ''having'', ''holdlock'', ''identity'', ''identity_insert'', ''identitycol'', ''if'',
      ''in'', ''index'', ''inner'', ''insert'', ''intersect'', ''into'', ''is'', ''join'', ''key'', ''kill'', ''left'', ''like'',
      ''lineno'', ''load'', ''merge'', ''national'', ''nocheck'', ''nonclustered'', ''not'', ''null'', ''nullif'', ''of'', ''off'',
      ''offsets'', ''on'', ''open'', ''opendatasource'', ''openquery'', ''openrowset'', ''openxml'', ''option'', ''or'', ''order'',
      ''outer'', ''over'', ''percent'', ''pivot'', ''plan'', ''precision'', ''primary'', ''print'', ''proc'', ''procedure'', ''public'',
      ''raiserror'', ''read'', ''readtext'', ''reconfigure'', ''references'', ''replication'', ''restore'', ''restrict'', ''return'',
      ''revert'', ''revoke'', ''right'', ''rollback'', ''rowcount'', ''rowguidcol'', ''rule'', ''save'', ''schema'', ''securityaudit'',
      ''select'', ''semantickeyphrasetable'', ''semanticsimilaritydetailstable'', ''semanticsimilaritytable'', ''session_user'', ''set'',
      ''setuser'', ''shutdown'', ''some'', ''statistics'', ''system_user'', ''table'', ''tablesample'', ''textsize'', ''then'', ''to'',
      ''top'', ''tran'', ''transaction'', ''trigger'', ''truncate'', ''try_convert'', ''tsequal'', ''union'', ''unique'', ''unpivot'',
      ''update'', ''updatetext'', ''use'', ''user'', ''values'', ''varying'', ''view'', ''waitfor'', ''when'', ''where'', ''while'',
      ''with'', ''writetext'']"

definition is_reserved :: "utext \<Rightarrow> bool" where
  "is_reserved w \<longleftrightarrow> w \<in> set (map lit RESERVED)"

definition ascii_alnum :: "uchar \<Rightarrow> bool" where
  "ascii_alnum c \<longleftrightarrow> u_digit c \<or> 65 \<le> c \<and> c \<le> 90 \<or> 97 \<le> c \<and> c \<le> 122"

definition is_regular_identifier_continue :: "(uchar \<Rightarrow> bool) \<Rightarrow> uchar \<Rightarrow> bool" where
  "is_regular_identifier_continue alnum c \<longleftrightarrow>
     (if c < 128 then ascii_alnum c else alnum c) \<or> c = 95 \<or> c = 64 \<or> c = 35 \<or> c = 36"

definition mssql_lexicon :: "(uchar \<Rightarrow> bool) \<Rightarrow> lexicon" where
  "mssql_lexicon alnum =
     \<lparr>whitespace_is_ascii = False, quoted_identifiers = [(91, 93), (34, 34)], string_prefixes = [lit ''n''],
      identifier_continues = is_regular_identifier_continue alnum, reserved = is_reserved\<rparr>"

section \<open>Types\<close>

datatype arg_shape = No_args | Length int bool | Precision int int | Precision_scale | Float_precision

definition CATALOGUE :: "(string \<times> arg_shape) list" where
  "CATALOGUE =
     [(''bit'', No_args), (''tinyint'', No_args), (''smallint'', No_args), (''int'', No_args), (''bigint'', No_args),
      (''decimal'', Precision_scale), (''smallmoney'', No_args), (''money'', No_args), (''real'', No_args), (''float'', Float_precision),
      (''date'', No_args), (''time'', Precision 7 7), (''smalldatetime'', No_args), (''datetime'', No_args), (''datetime2'', Precision 7 7),
      (''datetimeoffset'', Precision 7 7), (''char'', Length 8000 False), (''varchar'', Length 8000 True), (''nchar'', Length 4000 False),
      (''nvarchar'', Length 4000 True), (''binary'', Length 8000 False), (''varbinary'', Length 8000 True), (''uniqueidentifier'', No_args),
      (''xml'', No_args), (''sql_variant'', No_args), (''hierarchyid'', No_args), (''geography'', No_args), (''geometry'', No_args),
      (''timestamp'', No_args), (''sysname'', No_args), (''text'', No_args), (''ntext'', No_args), (''image'', No_args)]"

definition ALIASES :: "(string \<times> string) list" where
  "ALIASES =
     [(''integer'', ''int''), (''dec'', ''decimal''), (''numeric'', ''decimal''), (''character'', ''char''), (''char varying'', ''varchar''),
      (''character varying'', ''varchar''), (''national char'', ''nchar''), (''national character'', ''nchar''),
      (''national char varying'', ''nvarchar''), (''national character varying'', ''nvarchar''), (''national text'', ''ntext''),
      (''binary varying'', ''varbinary''), (''double precision'', ''float''), (''rowversion'', ''timestamp'')]"

definition shape_of :: "utext \<Rightarrow> arg_shape option" where
  "shape_of base = map_option snd (find (\<lambda>(n, _). lit n = base) CATALOGUE)"

definition canonical_base :: "utext \<Rightarrow> utext" where
  "canonical_base base = (case find (\<lambda>(a, _). lit a = base) ALIASES of None \<Rightarrow> base | Some (_, c) \<Rightarrow> lit c)"

definition check_decimal :: "int \<Rightarrow> int \<Rightarrow> bool" where
  "check_decimal p s \<longleftrightarrow> 1 \<le> p \<and> p \<le> 38 \<and> 0 \<le> s \<and> s \<le> p"

text \<open>\<open>split_whitespace\<close>.\<close>

function u_words :: "utext \<Rightarrow> utext list" where
  "u_words [] = []"
| "u_words (c # cs) =
     (if u_whitespace c then u_words cs
      else (c # takeWhile (\<lambda>x. \<not> u_whitespace x) cs) # u_words (dropWhile (\<lambda>x. \<not> u_whitespace x) cs))"
  by pat_completeness auto
termination
  by (relation "measure length") (simp_all add: length_dropWhile_le le_imp_less_Suc)

definition shaped_args :: "arg_shape \<Rightarrow> type_arg list \<Rightarrow> type_arg list option" where
  "shaped_args shape args =
     (case shape of
        No_args \<Rightarrow> if args \<noteq> [] then None else Some []
      | Length max_len allows_max \<Rightarrow>
          (case args of
             [] \<Rightarrow> Some [ArgInt 1]
           | [ArgMax] \<Rightarrow> if allows_max then Some [ArgMax] else None
           | [ArgInt n] \<Rightarrow> if 1 \<le> n \<and> n \<le> max_len then Some [ArgInt n] else None
           | _ \<Rightarrow> None)
      | Precision most dflt \<Rightarrow>
          (case args of
             [] \<Rightarrow> Some [ArgInt dflt]
           | [ArgInt n] \<Rightarrow> if 0 \<le> n \<and> n \<le> most then Some [ArgInt n] else None
           | _ \<Rightarrow> None)
      | Precision_scale \<Rightarrow>
          (case args of
             [] \<Rightarrow> Some [ArgInt 18, ArgInt 0]
           | [ArgInt p] \<Rightarrow> if check_decimal p 0 then Some [ArgInt p, ArgInt 0] else None
           | [ArgInt p, ArgInt s] \<Rightarrow> if check_decimal p s then Some [ArgInt p, ArgInt s] else None
           | _ \<Rightarrow> None)
      | Float_precision \<Rightarrow> None)"

definition normalize :: "utext \<Rightarrow> type_arg list \<Rightarrow> (utext \<times> type_arg list) option" where
  "normalize base0 args =
     (let base = canonical_base (join_with (lit '' '') (u_words base0)) in
      case shape_of base of
        None \<Rightarrow> None
      | Some Float_precision \<Rightarrow>
          (case args of
             [] \<Rightarrow> Some (lit ''float'', [ArgInt 53])
           | [ArgInt n] \<Rightarrow>
               if 1 \<le> n \<and> n \<le> 24 then Some (lit ''real'', [])
               else if 25 \<le> n \<and> n \<le> 53 then Some (base, [ArgInt 53])
               else None
           | _ \<Rightarrow> None)
      | Some shape \<Rightarrow> map_option (Pair base) (shaped_args shape args))"

definition cast_bases :: "string list" where
  "cast_bases =
     [''bit'', ''tinyint'', ''smallint'', ''int'', ''bigint'', ''decimal'', ''smallmoney'', ''money'', ''real'', ''float'', ''date'', ''time'',
      ''smalldatetime'', ''datetime'', ''datetime2'', ''datetimeoffset'', ''char'', ''varchar'', ''nchar'', ''nvarchar'', ''binary'',
      ''varbinary'', ''uniqueidentifier'', ''xml'', ''sql_variant'']"

definition mssql_cast_type :: "utext \<Rightarrow> type_arg list \<Rightarrow> (perror, cast_type) result" where
  "mssql_cast_type name args =
     (case normalize (map u_lower name) args of
        None \<Rightarrow> Inl Type_refused
      | Some (base, nargs) \<Rightarrow>
          (let nargs =
             (if args = [] \<and> base \<in> set (map lit [''char'', ''varchar'', ''nchar'', ''nvarchar'', ''binary'', ''varbinary''])
              then [ArgInt 30] else nargs);
               (base, nargs) = (if base = lit ''sysname'' then (lit ''nvarchar'', [ArgInt 128]) else (base, nargs))
           in case find (\<lambda>b. lit b = base) cast_bases of
                None \<Rightarrow> Inl Type_refused
              | Some b \<Rightarrow> Inr (CastType (lit b) nargs)))"

section \<open>Functions\<close>

definition FUNCTIONS :: "function_info list" where
  "FUNCTIONS =
     [Function (lit ''CAST'') Cast_form 1 1 10,
      Function (lit ''CONVERT'') Convert_form 2 3 10,
      Function (lit ''COALESCE'') Ordinary_form 2 65536 10,
      Function (lit ''ISNULL'') Ordinary_form 2 2 10,
      Function (lit ''NULLIF'') Ordinary_form 2 2 10,
      Function (lit ''LEFT'') Ordinary_form 2 2 10,
      Function (lit ''RIGHT'') Ordinary_form 2 2 10,
      Function (lit ''SUBSTRING'') Ordinary_form 2 3 10,
      Function (lit ''CHARINDEX'') Ordinary_form 2 3 10,
      Function (lit ''REPLACE'') Ordinary_form 3 3 10,
      Function (lit ''LOWER'') Ordinary_form 1 1 10,
      Function (lit ''UPPER'') Ordinary_form 1 1 10,
      Function (lit ''LTRIM'') Ordinary_form 1 2 10,
      Function (lit ''RTRIM'') Ordinary_form 1 2 10,
      Function (lit ''TRIM'') Trim_form 1 2 14,
      Function (lit ''LEN'') Ordinary_form 1 1 10,
      Function (lit ''CONCAT'') Ordinary_form 2 254 11,
      Function (lit ''ROUND'') Ordinary_form 2 3 10,
      Function (lit ''FLOOR'') Ordinary_form 1 1 10,
      Function (lit ''CEILING'') Ordinary_form 1 1 10,
      Function (lit ''ABS'') Ordinary_form 1 1 10,
      Function (lit ''DATEADD'') Datepart_form 3 3 10,
      Function (lit ''DATEDIFF'') Datepart_form 3 3 10,
      Function (lit ''DATEPART'') Datepart_form 2 2 10,
      Function (lit ''DATEFROMPARTS'') Ordinary_form 3 3 11,
      Function (lit ''JSON_VALUE'') Ordinary_form 2 2 13]"

definition mssql_function :: "utext \<Rightarrow> function_info option" where
  "mssql_function name = find (\<lambda>f. same_word (fn_name f) name) FUNCTIONS"

definition mssql_requirement :: "function_info \<Rightarrow> call_info \<Rightarrow> nat \<times> nat" where
  "mssql_requirement f c =
     (if fn_name f = lit ''TRIM'' \<and> directional c then (16, 160)
      else if (fn_name f = lit ''LTRIM'' \<or> fn_name f = lit ''RTRIM'') \<and> ci_arity c = 2 then (16, 160)
      else if fn_name f = lit ''SUBSTRING'' \<and> ci_arity c = 2 then (17, 0)
      else if fn_name f = lit ''JSON_VALUE'' \<and> \<not> literal_path c then (14, 0)
      else (fn_major f, 0))"

definition date_parts :: "(string list \<times> string) list" where
  "date_parts =
     [([''year'', ''yy'', ''yyyy''], ''YEAR''), ([''quarter'', ''qq'', ''q''], ''QUARTER''), ([''month'', ''mm'', ''m''], ''MONTH''),
      ([''dayofyear'', ''dy'', ''y''], ''DAYOFYEAR''), ([''day'', ''dd'', ''d''], ''DAY''), ([''week'', ''wk'', ''ww''], ''WEEK''),
      ([''weekday'', ''dw'', ''w''], ''WEEKDAY''), ([''hour'', ''hh''], ''HOUR''), ([''minute'', ''mi'', ''n''], ''MINUTE''),
      ([''second'', ''ss'', ''s''], ''SECOND''), ([''millisecond'', ''ms''], ''MILLISECOND''), ([''microsecond'', ''mcs''], ''MICROSECOND''),
      ([''nanosecond'', ''ns''], ''NANOSECOND'')]"

definition datepart_only :: "(string list \<times> string) list" where
  "datepart_only = [([''tzoffset'', ''tz''], ''TZOFFSET''), ([''iso_week'', ''isowk'', ''isoww''], ''ISO_WEEK'')]"

definition mssql_datepart :: "function_info \<Rightarrow> utext \<Rightarrow> utext option" where
  "mssql_datepart f name =
     map_option (\<lambda>(_, part). lit part)
       (find (\<lambda>(words, _). map u_lower name \<in> set (map lit words))
         (date_parts @ (if fn_name f = lit ''DATEPART'' then datepart_only else [])))"

definition mssql_syntax :: "(uchar \<Rightarrow> bool) \<Rightarrow> dialect_syntax" where
  "mssql_syntax alnum =
     \<lparr>sx_lexicon = mssql_lexicon alnum, string_literal = mssql_string_literal, quote_ident = mssql_quote, find_function = mssql_function,
      find_cast_type = mssql_cast_type, find_datepart = mssql_datepart, requirement = mssql_requirement\<rparr>"

lemma mssql_types_refused: "mssql_cast_type name args = Inl e \<Longrightarrow> e = Type_refused"
  by (auto simp: mssql_cast_type_def Let_def split: option.splits prod.splits if_splits)

lemma mssql_types_answered: "types_answered (mssql_syntax alnum)"
  unfolding types_answered_def mssql_syntax_def by (auto dest: mssql_types_refused)

text \<open>C7. The reader of predicates answers every text, with a predicate or with a reason: neither its recursion, which the limit of 256 levels
  bounds, nor its loops, each turn of which uses up a token, go on for ever.\<close>

theorem the_predicate_reader_answers: "parse_predicate (mssql_syntax alnum) t \<noteq> Inl Out_of_fuel"
  by (rule reader_answers [OF mssql_types_answered])

end
