(* ===== verification/Pred_Canon.thy ===== *)
theory Pred_Canon
  imports Pred_Read
begin

text \<open>
  The trees the reader builds, and the tokens of what the writer makes of them: \<open>wf_scalar\<close> and \<open>wf_predicate\<close> are the limits of \<open>node\<close> and of the CASE counter
  together with what each production of the grammar checks; \<open>rt_scalar\<close> and \<open>rt_predicate\<close> are the tokens of the written text.
\<close>

section \<open>Children\<close>

primrec kind_scalars :: "scalar_value \<Rightarrow> scalar list" where
  "kind_scalars (Number _) = []"
| "kind_scalars (String _ _) = []"
| "kind_scalars Null = []"
| "kind_scalars (Column _) = []"
| "kind_scalars (Unary _ v) = [v]"
| "kind_scalars (Binary _ a b) = [a, b]"
| "kind_scalars (Call _ c) = call_values c"
| "kind_scalars (SimpleCase v arms otherwise) = v # map fst arms @ map snd arms @ (case otherwise of None \<Rightarrow> [] | Some e \<Rightarrow> [e])"
| "kind_scalars (SearchedCase arms otherwise) = map snd arms @ (case otherwise of None \<Rightarrow> [] | Some e \<Rightarrow> [e])"

primrec kind_predicates :: "scalar_value \<Rightarrow> predicate list" where
  "kind_predicates (Number _) = []"
| "kind_predicates (String _ _) = []"
| "kind_predicates Null = []"
| "kind_predicates (Column _) = []"
| "kind_predicates (Unary _ _) = []"
| "kind_predicates (Binary _ _ _) = []"
| "kind_predicates (Call _ _) = []"
| "kind_predicates (SimpleCase _ _ _) = []"
| "kind_predicates (SearchedCase arms _) = map fst arms"

primrec condition_scalars :: "condition \<Rightarrow> scalar list" where
  "condition_scalars (Compare _ a b) = [a, b]"
| "condition_scalars (IsNull v _) = [v]"
| "condition_scalars (InList v vs _) = v # vs"
| "condition_scalars (Between a b c _) = [a, b, c]"
| "condition_scalars (Like a b c _) = [a, b] @ (case c of None \<Rightarrow> [] | Some e \<Rightarrow> [e])"
| "condition_scalars (Not _) = []"
| "condition_scalars (Logic _ _ _) = []"

primrec condition_predicates :: "condition \<Rightarrow> predicate list" where
  "condition_predicates (Compare _ _ _) = []"
| "condition_predicates (IsNull _ _) = []"
| "condition_predicates (InList _ _ _) = []"
| "condition_predicates (Between _ _ _ _) = []"
| "condition_predicates (Like _ _ _ _) = []"
| "condition_predicates (Not p) = [p]"
| "condition_predicates (Logic _ a b) = [a, b]"

lemma maximum_ge: "x \<in> set ns \<Longrightarrow> x \<le> maximum ns"
proof -
  have "x \<in> set ns \<Longrightarrow> x \<le> fold max ns m" "m \<le> fold max ns m" for m
    by (induction ns arbitrary: m) (auto, metis max.cobounded1 le_trans, metis le_trans max.cobounded2)
  then show "x \<in> set ns \<Longrightarrow> x \<le> maximum ns" unfolding maximum_def by blast
qed

lemma child_depth_scalar: "v \<in> set (kind_scalars kind) \<Longrightarrow> scalar_depth v \<le> child_depth kind"
  by (cases kind; auto simp: child_depth_def optional_depth_def intro!: maximum_ge split: option.splits; blast)

lemma child_depth_predicate: "p \<in> set (kind_predicates kind) \<Longrightarrow> predicate_depth p \<le> child_depth kind"
  by (cases kind; auto simp: child_depth_def intro!: maximum_ge; blast)

lemma condition_depth_scalar: "v \<in> set (condition_scalars c) \<Longrightarrow> scalar_depth v \<le> condition_depth c"
  by (cases c) (auto simp: condition_depth_def intro!: maximum_ge split: option.splits)

lemma condition_depth_predicate: "p \<in> set (condition_predicates c) \<Longrightarrow> predicate_depth p \<le> condition_depth c"
  by (cases c) (auto simp: condition_depth_def)

section \<open>Well-formed trees\<close>

text \<open>A number as the reader keeps it: scanned to its end, in capitals.\<close>

definition number_ok :: "utext \<Rightarrow> bool" where
  "number_ok n \<longleftrightarrow>
     n \<noteq> [] \<and> (u_digit (hd n) \<or> hd n = 46 \<and> tl n \<noteq> [] \<and> u_digit (hd (tl n))) \<and> scan_number n = Inr (n, []) \<and> map u_upper n = n"

text \<open>The words and marks that decide how the reader goes on where an expression may start.\<close>

definition leading_words :: "string list" where
  "leading_words = [''('', '')'', ''+'', ''-'', ''NOT'', ''NULL'', ''CASE'', ''WHEN'', ''LEADING'', ''TRAILING'', ''BOTH'']"

definition cast_ok :: "dialect_syntax \<Rightarrow> cast_type \<Rightarrow> bool" where
  "cast_ok S t \<longleftrightarrow>
     find_cast_type S (map u_upper (cast_base t)) (cast_args t) = Inr t \<and>
     list_all (\<lambda>a. case a of ArgInt i \<Rightarrow> 0 \<le> i \<and> i < 2 ^ 63 | ArgMax \<Rightarrow> True | ArgIdent _ \<Rightarrow> False) (cast_args t)"

definition call_form_ok :: "dialect_syntax \<Rightarrow> function_info \<Rightarrow> call_args \<Rightarrow> bool" where
  "call_form_ok S f c \<longleftrightarrow>
     (case c of
        Ordinary _ \<Rightarrow> fn_form f = Ordinary_form
      | Cast _ t \<Rightarrow> fn_form f = Cast_form \<and> cast_ok S t
      | Convert t _ style \<Rightarrow>
          fn_form f = Convert_form \<and> cast_ok S t \<and> (case style of None \<Rightarrow> True | Some i \<Rightarrow> - (2 ^ 31) \<le> i \<and> i < 2 ^ 31)
      | Datepart p _ \<Rightarrow> fn_form f = Datepart_form \<and> find_datepart S f p = Some p
      | Trim direction chars _ \<Rightarrow>
          fn_form f = Trim_form \<and>
          (case direction of None \<Rightarrow> True | Some d \<Rightarrow> d \<in> {''LEADING'', ''TRAILING'', ''BOTH''} \<and> chars \<noteq> None))"

definition call_ok :: "dialect_syntax \<Rightarrow> function_info \<Rightarrow> call_args \<Rightarrow> bool" where
  "call_ok S f c \<longleftrightarrow> find_function S (fn_name f) = Some f \<and> arity_ok f c \<and> call_form_ok S f c"

definition kind_ok :: "dialect_syntax \<Rightarrow> scalar_value \<Rightarrow> bool" where
  "kind_ok S kind \<longleftrightarrow>
     (case kind of
        Number n \<Rightarrow> number_ok n
      | String v n \<Rightarrow> 0 \<notin> set v
      | Unary op _ \<Rightarrow> op \<in> {''+'', ''-''}
      | Binary op _ _ \<Rightarrow> op \<in> {''*'', ''/'', ''%'', ''+'', ''-''}
      | Call f c \<Rightarrow> call_ok S f c
      | SimpleCase _ arms _ \<Rightarrow> arms \<noteq> []
      | SearchedCase arms _ \<Rightarrow> arms \<noteq> []
      | _ \<Rightarrow> True)"

definition condition_ok :: "condition \<Rightarrow> bool" where
  "condition_ok c \<longleftrightarrow>
     (case c of
        Compare op _ _ \<Rightarrow> op \<in> {''='', ''<'', ''>'', ''<='', ''>='', ''<>''}
      | InList _ vs _ \<Rightarrow> vs \<noteq> []
      | Logic op _ _ \<Rightarrow> op \<in> {''AND'', ''OR''}
      | _ \<Rightarrow> True)"

text \<open>The CASE levels that are left below a value, of the \<open>k\<close> at it.\<close>

definition below :: "scalar_value \<Rightarrow> nat \<Rightarrow> nat option" where
  "below kind k =
     (case kind of
        SimpleCase _ _ _ \<Rightarrow> if k = 0 then None else Some (k - 1)
      | SearchedCase _ _ \<Rightarrow> if k = 0 then None else Some (k - 1)
      | _ \<Rightarrow> Some k)"

inductive wf_scalar :: "dialect_syntax \<Rightarrow> nat \<Rightarrow> scalar \<Rightarrow> bool"
and wf_predicate :: "dialect_syntax \<Rightarrow> nat \<Rightarrow> predicate \<Rightarrow> bool"
for S where
  wf_scalar_node:
    "kind_ok S kind \<Longrightarrow> below kind k = Some k' \<Longrightarrow> child_depth kind < 128 \<Longrightarrow>
     (\<And>v. v \<in> set (kind_scalars kind) \<Longrightarrow> wf_scalar S k' v) \<Longrightarrow> (\<And>p. p \<in> set (kind_predicates kind) \<Longrightarrow> wf_predicate S k' p) \<Longrightarrow>
     wf_scalar S k (Scalar kind (child_depth kind + 1))"
| wf_predicate_node:
    "condition_ok c \<Longrightarrow> condition_depth c < 128 \<Longrightarrow>
     (\<And>v. v \<in> set (condition_scalars c) \<Longrightarrow> wf_scalar S k v) \<Longrightarrow> (\<And>p. p \<in> set (condition_predicates c) \<Longrightarrow> wf_predicate S k p) \<Longrightarrow>
     wf_predicate S k (Predicate c (condition_depth c + 1))"

section \<open>The tokens of the written text\<close>

definition kw :: "string \<Rightarrow> token" where
  "kw w = Word (lit w) False"

definition listed :: "token list list \<Rightarrow> token list" where
  "listed = join_with [Mark '','']"

definition arm_tokens :: "(token list \<times> token list) list \<Rightarrow> token list" where
  "arm_tokens arms = concat (map (\<lambda>(a, b). kw ''WHEN'' # a @ kw ''THEN'' # b) arms)"

definition else_tokens :: "token list option \<Rightarrow> token list" where
  "else_tokens e = (case e of None \<Rightarrow> [] | Some e \<Rightarrow> kw ''ELSE'' # e)"

definition not_tokens :: "bool \<Rightarrow> token list" where
  "not_tokens negated = (if negated then [kw ''NOT''] else [])"

definition int_tokens :: "int \<Rightarrow> token list" where
  "int_tokens i = (if i < 0 then [Mark ''-''] else []) @ [Num (lit (decimal (nat \<bar>i\<bar>)))]"

definition type_arg_token :: "type_arg \<Rightarrow> token" where
  "type_arg_token a = (case a of ArgInt i \<Rightarrow> Num (lit (decimal (nat i))) | ArgMax \<Rightarrow> kw ''max'' | ArgIdent s \<Rightarrow> kw s)"

definition type_tokens :: "cast_type \<Rightarrow> token list" where
  "type_tokens t =
     Word (map u_upper (cast_base t)) False #
     (if cast_args t = [] then [] else Mark ''('' # listed (map (\<lambda>a. [type_arg_token a]) (cast_args t)) @ [Mark '')''])"

primrec rt_scalar :: "scalar \<Rightarrow> token list"
and rt_value :: "scalar_value \<Rightarrow> token list"
and rt_args :: "call_args \<Rightarrow> token list"
and rt_predicate :: "predicate \<Rightarrow> token list"
and rt_condition :: "condition \<Rightarrow> token list"
where
  "rt_scalar (Scalar kind d) = rt_value kind"
| "rt_value (Number n) = [Num n]"
| "rt_value (String v n) = [Str v n]"
| "rt_value Null = [kw ''NULL'']"
| "rt_value (Column n) = [Word n True]"
| "rt_value (Unary op v) = Mark ''('' # Mark op # rt_scalar v @ [Mark '')'']"
| "rt_value (Binary op a b) = Mark ''('' # rt_scalar a @ Mark op # rt_scalar b @ [Mark '')'']"
| "rt_value (Call f c) = Word (fn_name f) False # Mark ''('' # rt_args c @ [Mark '')'']"
| "rt_value (SimpleCase v arms otherwise) =
     Mark ''('' # kw ''CASE'' # rt_scalar v @ arm_tokens (map (map_prod rt_scalar rt_scalar) arms) @
       else_tokens (map_option rt_scalar otherwise) @ [kw ''END'', Mark '')'']"
| "rt_value (SearchedCase arms otherwise) =
     Mark ''('' # kw ''CASE'' # arm_tokens (map (map_prod rt_predicate rt_scalar) arms) @
       else_tokens (map_option rt_scalar otherwise) @ [kw ''END'', Mark '')'']"
| "rt_args (Ordinary vs) = listed (map rt_scalar vs)"
| "rt_args (Cast v t) = rt_scalar v @ kw ''AS'' # type_tokens t"
| "rt_args (Convert t v style) =
     type_tokens t @ Mark '','' # rt_scalar v @ (case style of None \<Rightarrow> [] | Some i \<Rightarrow> Mark '','' # int_tokens i)"
| "rt_args (Datepart p vs) = Word p False # Mark '','' # listed (map rt_scalar vs)"
| "rt_args (Trim direction chars v) =
     (case direction of None \<Rightarrow> [] | Some d \<Rightarrow> [kw d]) @
     (case map_option rt_scalar chars of None \<Rightarrow> [] | Some c \<Rightarrow> c @ [kw ''FROM'']) @ rt_scalar v"
| "rt_predicate (Predicate kind d) = Mark ''('' # rt_condition kind @ [Mark '')'']"
| "rt_condition (Compare op a b) = rt_scalar a @ Mark op # rt_scalar b"
| "rt_condition (IsNull v negated) = rt_scalar v @ kw ''IS'' # not_tokens negated @ [kw ''NULL'']"
| "rt_condition (InList v vs negated) =
     rt_scalar v @ not_tokens negated @ kw ''IN'' # Mark ''('' # listed (map rt_scalar vs) @ [Mark '')'']"
| "rt_condition (Between v low high negated) =
     rt_scalar v @ not_tokens negated @ kw ''BETWEEN'' # rt_scalar low @ kw ''AND'' # rt_scalar high"
| "rt_condition (Like v pat escape negated) =
     rt_scalar v @ not_tokens negated @ kw ''LIKE'' # rt_scalar pat @
       (case map_option rt_scalar escape of None \<Rightarrow> [] | Some e \<Rightarrow> kw ''ESCAPE'' # e)"
| "rt_condition (Not p) = kw ''NOT'' # rt_predicate p"
| "rt_condition (Logic op a b) = rt_predicate a @ kw op # rt_predicate b"

end
