(* ===== verification/Pred_Lex.thy ===== *)
theory Pred_Lex
  imports Pred_Canon
begin

text \<open>
  The lexer on what the writer writes. Every piece of written text is followed by the end or by a space, a parenthesis or a comma; before such a
  delimiter each piece is lexed to its own tokens (\<open>lexes\<close>).
\<close>

section \<open>Pieces\<close>

definition delim :: "utext \<Rightarrow> bool" where
  "delim rest \<longleftrightarrow> rest = [] \<or> hd rest \<in> {32, 40, 41, 44}"

definition prepend :: "token list \<Rightarrow> (perror, token list) result \<Rightarrow> (perror, token list) result" where
  "prepend ts r = and_then r (\<lambda>us. Inr (ts @ us))"

definition lexes :: "lexicon \<Rightarrow> utext \<Rightarrow> token list \<Rightarrow> bool" where
  "lexes lx t ts \<longleftrightarrow> (\<forall>rest. delim rest \<longrightarrow> tokens lx (t @ rest) = prepend ts (tokens lx rest))"

lemma lexesI: "(\<And>rest. delim rest \<Longrightarrow> tokens lx (t @ rest) = prepend ts (tokens lx rest)) \<Longrightarrow> lexes lx t ts"
  by (simp add: lexes_def)

lemma lexesD: "lexes lx t ts \<Longrightarrow> delim rest \<Longrightarrow> tokens lx (t @ rest) = prepend ts (tokens lx rest)"
  by (simp add: lexes_def)

lemma prepend_simps [simp]: "prepend a (prepend b r) = prepend (a @ b) r" "prepend [] r = r" "prepend a (Inr b) = Inr (a @ b)"
  by (cases r; simp add: prepend_def)+

lemma delim_simps [simp]: "delim []" "delim (c # cs) \<longleftrightarrow> c \<in> {32, 40, 41, 44}" "delim (lit (a # s) @ cs) \<longleftrightarrow> of_char a \<in> {32, 40, 41, 44 :: nat}"
  by (simp_all add: delim_def lit_def)

lemma lexes_all: "lexes lx t ts \<Longrightarrow> tokens lx t = Inr ts"
  using lexesD [of lx t ts "[]"] tokens.simps [of lx "[]"] by simp

text \<open>One token, at its text.\<close>

lemma tokens_token:
  assumes "next_token lx (u @ rest) = Inr (tok, rest)" "u \<noteq> []" "0 \<notin> set u" "\<not> u_whitespace (hd u)"
    and "\<not> prefix (lit ''--'') (u @ rest)" "\<not> prefix (lit ''/*'') (u @ rest)"
  shows "tokens lx (u @ rest) = prepend [tok] (tokens lx rest)"
  using assms by (subst tokens.simps) (auto simp: is_definition_whitespace_def prepend_def and_then_def split: sum.split)

lemma tokens_space [simp]: "tokens lx (32 # rest) = tokens lx rest"
  by (subst tokens.simps) (simp add: is_definition_whitespace_def u_whitespace_def)

section \<open>Words, marks and numbers\<close>

definition name_char :: "uchar \<Rightarrow> bool" where
  "name_char c \<longleftrightarrow> u_digit c \<or> 65 \<le> c \<and> c \<le> 90 \<or> 97 \<le> c \<and> c \<le> 122 \<or> c = 95"

definition mark_char :: "uchar \<Rightarrow> bool" where
  "mark_char c \<longleftrightarrow> c \<in> {32, 33, 37, 39, 40, 41, 42, 43, 44, 45, 46, 47, 60, 61, 62}"

definition plain_word :: "utext \<Rightarrow> bool" where
  "plain_word w \<longleftrightarrow> w \<noteq> [] \<and> list_all name_char w \<and> \<not> u_digit (hd w)"

text \<open>What the lexer needs of a lexicon.\<close>

locale plain_lexicon =
  fixes lx :: lexicon
  assumes name_continues: "name_char c \<Longrightarrow> identifier_continues lx c"
    and mark_ends: "mark_char c \<Longrightarrow> \<not> identifier_continues lx c"
    and opens: "(c, close) \<in> set (quoted_identifiers lx) \<Longrightarrow> \<not> name_char c \<and> \<not> mark_char c"
begin

lemma no_opening: "name_char c \<or> mark_char c \<Longrightarrow> find (\<lambda>(opening, _). opening = c) (quoted_identifiers lx) = None"
  using opens by (fastforce simp: find_None_iff)

lemma delim_ends: "delim rest \<Longrightarrow> takeWhile (identifier_continues lx) rest = [] \<and> dropWhile (identifier_continues lx) rest = rest"
  using mark_ends by (cases rest) (auto simp: delim_def mark_char_def)

lemma word_lexes:
  assumes "plain_word w"
  shows "lexes lx w [Word w False]"
proof (rule lexesI)
  fix rest :: utext assume d: "delim rest"
  obtain c cs where w: "w = c # cs" "name_char c" "list_all name_char cs" "\<not> u_digit c" using assms by (cases w) (auto simp: plain_word_def)
  have c: "c \<noteq> 39 \<and> c \<noteq> 64 \<and> c \<noteq> 46 \<and> c \<noteq> 48 \<and> c \<noteq> 45 \<and> c \<noteq> 47 \<and> \<not> u_whitespace c"
    using w(2,4) by (auto simp: name_char_def u_digit_def u_whitespace_def)
  have "\<not> prefix [39] (cs @ rest)" using w(3) d by (cases cs; cases rest) (auto simp: name_char_def u_digit_def)
  then have national: "\<not> is_national lx (w @ rest)" by (auto simp: is_national_def w(1))
  have all: "list_all (identifier_continues lx) w" using assms name_continues by (auto simp: plain_word_def list_all_iff)
  then have "takeWhile (identifier_continues lx) (w @ rest) = w" "dropWhile (identifier_continues lx) (w @ rest) = rest"
    using delim_ends [OF d] by (simp_all add: list_all_iff takeWhile_append dropWhile_append)
  then have "next_token lx (w @ rest) = Inr (Word w False, rest)"
    using c w(1,2,4) national no_opening [of c] name_continues [of c] by (simp add: next_token_def Let_def lit_def)
  moreover have "0 \<notin> set w" using assms by (auto simp: plain_word_def list_all_iff name_char_def u_digit_def)
  ultimately show "tokens lx (w @ rest) = prepend [Word w False] (tokens lx rest)"
    using c w(1) by (intro tokens_token) (auto simp: lit_def)
qed

lemma mark_token:
  assumes "find (\<lambda>n. prefix (lit n) (lit m @ rest)) marks = Some m" "lit m = c # cs" "mark_char c" "c \<notin> {32, 39, 46}" "0 \<notin> set cs"
    and "\<not> prefix (lit ''--'') (lit m @ rest)" "\<not> prefix (lit ''/*'') (lit m @ rest)"
  shows "tokens lx (lit m @ rest) = prepend [Mark m] (tokens lx rest)"
proof -
  have c: "c \<noteq> 39 \<and> c \<noteq> 64 \<and> c \<noteq> 46 \<and> c \<noteq> 48 \<and> c \<noteq> 78 \<and> c \<noteq> 110 \<and> c \<noteq> 0 \<and> \<not> u_digit c \<and> \<not> u_whitespace c"
    using assms(3,4) by (auto simp: mark_char_def u_digit_def u_whitespace_def)
  have "length m = length (lit m)" by (simp add: lit_def)
  then have "drop (length m) (lit m @ rest) = rest" by simp
  moreover have "\<not> is_national lx (lit m @ rest)" using c by (simp add: is_national_def assms(2))
  ultimately have "next_token lx (lit m @ rest) = Inr (Mark m, rest)"
    using c no_opening [of c] mark_ends [OF assms(3)] assms(1,3) assms(2) by (simp add: next_token_def Let_def) (simp add: lit_def)
  then show ?thesis using c assms(2,5-7) by (intro tokens_token) auto
qed

lemma paren_tokens [simp]:
  "tokens lx (40 # rest) = prepend [Mark ''(''] (tokens lx rest)" "tokens lx (41 # rest) = prepend [Mark '')''] (tokens lx rest)"
  "tokens lx (44 # rest) = prepend [Mark '',''] (tokens lx rest)"
  using mark_token [of "''(''" rest 40 "[]"] mark_token [of "'')''" rest 41 "[]"] mark_token [of "'',''" rest 44 "[]"]
  by (simp_all add: marks_def lit_def mark_char_def)

lemma operator_lexes:
  assumes "m \<in> {''*'', ''/'', ''%'', ''+'', ''-'', ''='', ''<'', ''>'', ''<='', ''>='', ''<>''}" "delim rest"
  shows "tokens lx (lit m @ rest) = prepend [Mark m] (tokens lx rest)"
proof (rule mark_token)
  show "lit m = hd (lit m) # tl (lit m)" "mark_char (hd (lit m))" "hd (lit m) \<notin> {32, 39, 46}" "0 \<notin> set (tl (lit m))"
    using assms(1) by (auto simp: lit_def mark_char_def)
  have r: "rest = [] \<or> (\<exists>c cs. rest = c # cs \<and> (c = 32 \<or> c = 40 \<or> c = 41 \<or> c = 44))" using assms(2) by (cases rest) auto
  show "\<not> prefix (lit ''--'') (lit m @ rest)" "\<not> prefix (lit ''/*'') (lit m @ rest)" using assms(1) r by (auto simp: lit_def)
  show "find (\<lambda>n. prefix (lit n) (lit m @ rest)) marks = Some m"
    using assms(1) r by (elim insertE disjE exE conjE emptyE) (simp_all add: marks_def lit_def)
qed

lemma minus_token: "rest \<noteq> [] \<Longrightarrow> u_digit (hd rest) \<Longrightarrow> tokens lx (lit ''-'' @ rest) = prepend [Mark ''-''] (tokens lx rest)"
  by (rule mark_token [of _ _ 45 "[]"]; cases rest) (auto simp: marks_def lit_def mark_char_def u_digit_def)

end

text \<open>Numbers: the scanner before a delimiter.\<close>

lemma delim_scan: "delim rest \<Longrightarrow> takeWhile u_digit rest = [] \<and> dropWhile u_digit rest = rest"
  by (cases rest) (auto simp: u_digit_def)

lemma scan_digits_append: "delim rest \<Longrightarrow> scan_digits (t @ rest) = (fst (scan_digits t), snd (scan_digits t) @ rest)"
  using delim_scan [of rest] by (induction t) (auto simp: scan_digits_def)

lemma scan_fraction_append: "delim rest \<Longrightarrow> scan_fraction (t @ rest) = (fst (scan_fraction t), snd (scan_fraction t) @ rest)"
  by (cases t; cases rest) (auto simp: scan_fraction_def scan_digits_append split: prod.split)

lemma scan_exponent_append:
  assumes "delim rest" "scan_exponent t = Inr (ds, us)"
  shows "scan_exponent (t @ rest) = Inr (ds, us @ rest)"
proof (cases t)
  case Nil
  then show ?thesis using assms by (cases rest) (auto simp: scan_exponent_def)
next
  case (Cons c cs)
  show ?thesis
  proof (cases "c = 101 \<or> c = 69")
    case True
    then obtain d es where "cs = d # es" using assms(2) Cons by (cases cs) (auto simp: scan_exponent_def scan_digits_def)
    then show ?thesis using assms Cons True scan_digits_append [OF assms(1), of es] scan_digits_append [OF assms(1), of cs]
      by (auto simp: scan_exponent_def Let_def split: prod.splits if_splits)
  qed (use assms Cons in \<open>auto simp: scan_exponent_def\<close>)
qed

lemma scan_number_append:
  assumes "delim rest" "scan_number t = Inr (n, us)"
  shows "scan_number (t @ rest) = Inr (n, us @ rest)"
  using assms(2) scan_exponent_append [OF assms(1)] unfolding scan_number_def Let_def scan_digits_append [OF assms(1)]
  by (auto simp: and_then_Inr_iff scan_fraction_append [OF assms(1)] split: prod.splits)

lemma scan_number_iff:
  "scan_number t = Inr (n, us) \<longleftrightarrow>
     (\<exists>e. scan_exponent (snd (scan_fraction (snd (scan_digits t)))) = Inr (e, us) \<and>
        n = fst (scan_digits t) @ fst (scan_fraction (snd (scan_digits t))) @ e)"
  by (auto simp: scan_number_def Let_def and_then_Inr_iff split: prod.splits)

lemma scan_number_chars:
  assumes "scan_number t = Inr (n, us)"
  shows "c \<in> set n \<Longrightarrow> u_digit c \<or> c \<in> {46, 101, 69, 43, 45}"
proof -
  have ds: "c \<in> set (fst (scan_digits u)) \<Longrightarrow> u_digit c" for u by (auto simp: scan_digits_def dest: set_takeWhileD)
  have "c \<in> set (fst (scan_fraction u)) \<Longrightarrow> u_digit c \<or> c = 46" for u
    using ds by (auto simp: scan_fraction_def split: list.splits if_splits prod.splits) (metis fst_conv)
  moreover have "c \<in> set e \<Longrightarrow> u_digit c \<or> c \<in> {46, 101, 69, 43, 45}" if "scan_exponent u = Inr (e, v)" for u e v
    using that by (auto simp: scan_exponent_def scan_digits_def Let_def split: list.splits if_splits prod.splits dest: set_takeWhileD)
  ultimately show "c \<in> set n \<Longrightarrow> u_digit c \<or> c \<in> {46, 101, 69, 43, 45}"
    using assms ds unfolding scan_number_iff by (elim exE conjE) (simp, blast)
qed

context plain_lexicon
begin

lemma number_lexes:
  assumes "number_ok n"
  shows "lexes lx n [Num n]"
proof (rule lexesI)
  fix rest :: utext assume d: "delim rest"
  obtain c cs where n: "n = c # cs" using assms by (cases n) (auto simp: number_ok_def)
  have c: "u_digit c \<or> c = 46 \<and> (\<exists>d ds. cs = d # ds \<and> u_digit d)" using assms n by (cases cs) (auto simp: number_ok_def)
  then have c': "c \<noteq> 39 \<and> c \<noteq> 78 \<and> c \<noteq> 110 \<and> c \<noteq> 45 \<and> c \<noteq> 47 \<and> \<not> u_whitespace c \<and> (name_char c \<or> mark_char c)"
    by (auto simp: u_digit_def u_whitespace_def name_char_def mark_char_def)
  have sc: "scan_number (n @ rest) = Inr (n, rest)" using assms scan_number_append [OF d] by (fastforce simp: number_ok_def)
  have nx: "x \<noteq> 120 \<and> x \<noteq> 88" if "n @ rest = 48 # x # xs" for x xs
    using sc d that unfolding that by (auto simp: scan_number_def scan_digits_def u_digit_def scan_fraction_def scan_exponent_def and_then_Inr_iff n)
  have "\<not> prefix (lit ''0x'') (n @ rest)" "\<not> prefix (lit ''0X'') (n @ rest)" using nx by (auto simp: lit_def prefix_def)
  moreover have "\<not> is_national lx (n @ rest)" using c' by (simp add: is_national_def n)
  ultimately have "next_token lx (n @ rest) = Inr (Num (map u_upper n), rest)"
    using c c' sc no_opening [of c] by (auto simp: next_token_def Let_def n)
  then have "next_token lx (n @ rest) = Inr (Num n, rest)" using assms by (simp add: number_ok_def)
  moreover have "0 \<notin> set n" using scan_number_chars [OF sc] by (fastforce simp: u_digit_def)
  ultimately show "tokens lx (n @ rest) = prepend [Num n] (tokens lx rest)"
    using c' n by (intro tokens_token) (auto simp: lit_def)
qed

end

end
