(* ===== verification/Pred_Back.thy ===== *)
theory Pred_Back
  imports Pred_Canon
begin

text \<open>
  The reader on the tokens the writer makes: a well-formed tree comes back. A node of depth \<open>d\<close> takes at most \<open>2 * d - 1\<close> levels of the reader's nesting, one
  for the node and one for the parentheses around it, so that the limit of 128 on trees stays within the limit of 256 on nesting.
\<close>

section \<open>Single tokens\<close>

lemmas word_simps = kw_def is_tok_def same_word_def lit_def u_lower_def

lemma eat_mark [simp]: "eat w (Mark m # ts) = (if m = w then Some ts else None)" "expect m (Mark m # ts) = Inr ts"
  by (simp_all add: eat_def expect_def is_tok_def)

lemma eat_other [simp]:
  "eat w (Num n # ts) = None" "eat w (Str v b # ts) = None" "eat w (Word x True # ts) = None" "eat w [] = None"
  "is_tok w (Num n # ts) = False" "is_tok w (Str v b # ts) = False" "is_tok w (Word x True # ts) = False"
  "is_tok w (Mark m # ts) = (m = w)"
  by (simp_all add: eat_def is_tok_def)

lemma eat_word: "eat w (Word x False # ts) = (if same_word x (lit w) then Some ts else None)"
  by (simp add: eat_def is_tok_def)

lemma expect_kw [simp]: "expect w (kw w # ts) = Inr ts"
  by (simp add: expect_def eat_def is_tok_def kw_def same_word_def)

text \<open>Where the loop over operators stops.\<close>

definition stops :: "nat \<Rightarrow> token list \<Rightarrow> bool" where
  "stops least ts \<longleftrightarrow> (case next_op ts of None \<Rightarrow> True | Some (_, binding) \<Rightarrow> binding < least)"

lemma stops_simps [simp]:
  "stops n (Mark '')'' # ts)" "stops n (Mark '','' # ts)"
  "stops n (kw ''THEN'' # ts)" "stops n (kw ''WHEN'' # ts)" "stops n (kw ''ELSE'' # ts)" "stops n (kw ''END'' # ts)" "stops n (kw ''AS'' # ts)"
  "stops n (kw ''FROM'' # ts)" "stops n (kw ''ESCAPE'' # ts)" "stops 41 (kw ''AND'' # ts)"
  by (simp_all add: stops_def next_op_def word_simps)

lemma infix_stops: "stops least ts \<Longrightarrow> infix_loop (Suc m) ex least n cases left ts = Inr (left, ts)"
  by (auto simp: stops_def split: option.splits prod.splits)

section \<open>Values and tests inside others\<close>

definition value_read :: "dialect_syntax \<Rightarrow> nat \<Rightarrow> scalar \<Rightarrow> bool" where
  "value_read S k v \<longleftrightarrow>
     0 < scalar_depth v \<and>
     (\<forall>f n cases rest. f + n = 257 \<longrightarrow> 2 * scalar_depth v \<le> f + 1 \<longrightarrow> cases + k \<le> 10 \<longrightarrow>
        prefix_term S (expression f S) n cases (rt_scalar v @ rest) = Inr (TValue v, rest))"

definition test_read :: "dialect_syntax \<Rightarrow> nat \<Rightarrow> predicate \<Rightarrow> bool" where
  "test_read S k p \<longleftrightarrow>
     0 < predicate_depth p \<and>
     (\<forall>f n cases rest. f + n = 257 \<longrightarrow> 2 * predicate_depth p \<le> f + 1 \<longrightarrow> cases + k \<le> 10 \<longrightarrow>
        prefix_term S (expression f S) n cases (rt_predicate p @ rest) = Inr (TTest p, rest))"

text \<open>The state of the reader in which what has depth \<open>d\<close> can be read.\<close>

definition room :: "nat \<Rightarrow> nat \<Rightarrow> nat \<Rightarrow> nat \<Rightarrow> bool" where
  "room k f n cases \<longleftrightarrow> f + n = 257 \<and> cases + k \<le> 10"

lemma expression_enters:
  assumes "room k f n cases" "2 \<le> f"
  shows "room k (f - 1) (n + 1) cases"
    "expression f S least n cases ts = and_then (prefix_term S (expression (f - 1) S) (n + 1) cases ts) (\<lambda>(left, ts).
       infix_loop (Suc (length ts)) (expression (f - 1) S) least (n + 1) cases left ts)"
proof -
  obtain g where "f = Suc g" using assms(2) by (cases f) auto
  with assms show "room k (f - 1) (n + 1) cases"
    "expression f S least n cases ts = and_then (prefix_term S (expression (f - 1) S) (n + 1) cases ts) (\<lambda>(left, ts).
       infix_loop (Suc (length ts)) (expression (f - 1) S) least (n + 1) cases left ts)"
    by (simp_all add: room_def Let_def del: infix_loop.simps)
qed

lemma expression_term:
  assumes "room k f n cases" "2 \<le> f" "prefix_term S (expression (f - 1) S) (n + 1) cases ts = Inr (x, rest)" "stops least rest"
  shows "expression f S least n cases ts = Inr (x, rest)"
  unfolding expression_enters(2) [OF assms(1,2)] assms(3) and_then_simps prod.case by (rule infix_stops [OF assms(4)])

lemma expression_value:
  assumes "value_read S k v" "room k f n cases" "2 * scalar_depth v \<le> f" "stops least rest"
  shows "expression f S least n cases (rt_scalar v @ rest) = Inr (TValue v, rest)"
proof -
  have f: "2 \<le> f" using assms(1,3) by (simp add: value_read_def)
  have "prefix_term S (expression (f - 1) S) (n + 1) cases (rt_scalar v @ rest) = Inr (TValue v, rest)"
    using expression_enters(1) [OF assms(2) f] assms(1,3) f by (simp add: value_read_def room_def)
  then show ?thesis by (rule expression_term [OF assms(2) f _ assms(4)])
qed

lemma expression_test:
  assumes "test_read S k p" "room k f n cases" "2 * predicate_depth p \<le> f" "stops least rest"
  shows "expression f S least n cases (rt_predicate p @ rest) = Inr (TTest p, rest)"
proof -
  have f: "2 \<le> f" using assms(1,3) by (simp add: test_read_def)
  have "prefix_term S (expression (f - 1) S) (n + 1) cases (rt_predicate p @ rest) = Inr (TTest p, rest)"
    using expression_enters(1) [OF assms(2) f] assms(1,3) f by (simp add: test_read_def room_def)
  then show ?thesis by (rule expression_term [OF assms(2) f _ assms(4)])
qed

lemma parse_value_read:
  assumes "value_read S k v" "room k f n cases" "2 * scalar_depth v \<le> f" "stops 41 rest"
  shows "parse_value (expression f S) n cases (rt_scalar v @ rest) = Inr (v, rest)"
  unfolding parse_value_def by (simp add: expression_value [OF assms])

lemma list_items_read:
  assumes "room k f n cases" "stops 41 rest" "eat '','' rest = None"
    and "\<And>v. v \<in> set vs \<Longrightarrow> value_read S k v \<and> 2 * scalar_depth v \<le> f" "vs \<noteq> []" "length vs \<le> m"
  shows "list_items m (expression f S) n cases (listed (map rt_scalar vs) @ rest) = Inr (vs, rest)"
  using assms(4-6)
proof (induction vs arbitrary: m)
  case (Cons v vs)
  then obtain l where m: "m = Suc l" "length vs \<le> l" by (cases m) auto
  have v: "value_read S k v" "2 * scalar_depth v \<le> f" using Cons.prems(1) by auto
  show ?case
  proof (cases vs)
    case Nil
    then show ?thesis using m v assms(2,3) by (simp add: listed_def parse_value_read [OF v(1) assms(1) v(2)])
  next
    case (Cons w ws)
    then have "list_items l (expression f S) n cases (listed (map rt_scalar vs) @ rest) = Inr (vs, rest)"
      using Cons.IH Cons.prems(1) m(2) by simp
    then show ?thesis using Cons m v by (simp add: listed_def parse_value_read [OF v(1) assms(1) v(2)])
  qed
qed simp

lemma listed_length: "length xs \<le> length (listed xs) + 1"
  unfolding listed_def by (induction "[Mark '','']" xs rule: join_with.induct) auto

lemma parse_list_read:
  assumes "room k f n cases" and vs: "\<And>v. v \<in> set vs \<Longrightarrow> value_read S k v \<and> 2 * scalar_depth v \<le> f"
    and "\<And>v ts. v \<in> set vs \<Longrightarrow> \<not> is_tok '')'' (rt_scalar v @ ts)"
  shows "parse_list (expression f S) n cases (listed (map rt_scalar vs) @ Mark '')'' # rest) = Inr (vs, Mark '')'' # rest)"
proof (cases vs)
  case Nil
  then show ?thesis by (simp add: parse_list_def listed_def)
next
  case (Cons v ws)
  have "listed (map rt_scalar vs) = rt_scalar v @ (if ws = [] then [] else Mark '','' # listed (map rt_scalar ws))"
    unfolding Cons listed_def by (cases ws) simp_all
  then have "\<not> is_tok '')'' (listed (map rt_scalar vs) @ Mark '')'' # rest)" using assms(3) [of v] Cons by simp
  moreover have "length vs \<le> length (listed (map rt_scalar vs) @ Mark '')'' # rest) + 1" using listed_length [of "map rt_scalar vs"] by simp
  ultimately show ?thesis unfolding parse_list_def
    using list_items_read [OF assms(1) _ _ vs, of "Mark '')'' # rest" vs] Cons by (simp del: list_items.simps)
qed

section \<open>Operators\<close>

lemma prefix_value:
  "value_read S k v \<Longrightarrow> room k f n cases \<Longrightarrow> 2 * scalar_depth v \<le> f + 1 \<Longrightarrow>
   prefix_term S (expression f S) n cases (rt_scalar v @ rest) = Inr (TValue v, rest)"
  by (simp add: value_read_def room_def)

lemma prefix_test:
  "test_read S k p \<Longrightarrow> room k f n cases \<Longrightarrow> 2 * predicate_depth p \<le> f + 1 \<Longrightarrow>
   prefix_term S (expression f S) n cases (rt_predicate p @ rest) = Inr (TTest p, rest)"
  by (simp add: test_read_def room_def)

lemma prefix_parens:
  assumes "expression f S 0 n cases (ts @ Mark '')'' # rest) = Inr (x, Mark '')'' # rest)"
  shows "prefix_term S (expression f S) n cases (Mark ''('' # ts @ Mark '')'' # rest) = Inr (x, rest)"
  unfolding prefix_term_def by (simp add: assms)

lemma next_op_here: "next_op ts = Some x \<Longrightarrow> ts \<noteq> []"
  by (auto simp: next_op_def is_tok_def)

lemma infix_step:
  assumes "next_op ts = Some (op, b)" "least \<le> b" "stops least rest"
    and "(op \<noteq> ''test'' \<and> (\<exists>right. ex (b + 1) n cases (tl ts) = Inr (right, rest) \<and> combine op b left right = Inr x)) \<or>
         (op = ''test'' \<and> (\<exists>v p. left = TValue v \<and> x = TTest p \<and> parse_test ex n cases v ts = Inr (p, rest)))"
  shows "infix_loop (Suc (length ts)) ex least n cases left ts = Inr (x, rest)"
proof -
  obtain m where m: "length ts = Suc m" using next_op_here [OF assms(1)] by (cases ts) auto
  have st: "infix_loop (length ts) ex least n cases y rest = Inr (y, rest)" for y unfolding m by (rule infix_stops [OF assms(3)])
  have b: "\<not> b < least" using assms(2) by simp
  show ?thesis using assms(4) unfolding infix_loop.simps(2) [of "length ts"] assms(1) option.case prod.case if_not_P [OF b]
    by (elim disjE) (auto simp: st simp del: infix_loop.simps)
qed

lemma expression_infix:
  assumes "room k f n cases" "2 \<le> f" "prefix_term S (expression (f - 1) S) (n + 1) cases ts = Inr (left, us)"
    and "next_op us = Some (op, b)" "least \<le> b" "op \<noteq> ''test''"
    and "expression (f - 1) S (b + 1) (n + 1) cases (tl us) = Inr (right, rest)" "combine op b left right = Inr x" "stops least rest"
  shows "expression f S least n cases ts = Inr (x, rest)"
  unfolding expression_enters(2) [OF assms(1,2)] assms(3) and_then_simps prod.case
  by (rule infix_step [OF assms(4,5,9)]) (use assms(6-8) in blast)

lemma expression_tested:
  assumes "room k f n cases" "2 \<le> f" "prefix_term S (expression (f - 1) S) (n + 1) cases ts = Inr (TValue v, us)"
    and "next_op us = Some (''test'', b)" "least \<le> b" "parse_test (expression (f - 1) S) (n + 1) cases v us = Inr (p, rest)" "stops least rest"
  shows "expression f S least n cases ts = Inr (TTest p, rest)"
  unfolding expression_enters(2) [OF assms(1,2)] assms(3) and_then_simps prod.case
  by (rule infix_step [OF assms(4,5,7)]) (use assms(6) in blast)

text \<open>What the parser makes of a node it has the parts of.\<close>

lemma make_scalar_ok: "child_depth kind < 128 \<Longrightarrow> make_scalar kind = Inr (Scalar kind (child_depth kind + 1))"
  by (simp add: make_scalar_def node_def)

lemma make_predicate_ok: "condition_depth c < 128 \<Longrightarrow> make_predicate c = Inr (Predicate c (condition_depth c + 1))"
  by (simp add: make_predicate_def node_def)

definition made :: "scalar_value \<Rightarrow> scalar" where
  "made kind = Scalar kind (child_depth kind + 1)"

definition made_test :: "condition \<Rightarrow> predicate" where
  "made_test c = Predicate c (condition_depth c + 1)"

lemma value_readI:
  assumes "\<And>f n cases rest. room k f n cases \<Longrightarrow> 2 * child_depth kind + 1 \<le> f \<Longrightarrow>
    prefix_term S (expression f S) n cases (rt_value kind @ rest) = Inr (TValue (made kind), rest)"
  shows "value_read S k (made kind)"
  unfolding value_read_def made_def using assms by (auto simp: room_def made_def)

lemma test_readI:
  assumes "\<And>f n cases rest. room k f n cases \<Longrightarrow> 2 * condition_depth c + 1 \<le> f \<Longrightarrow>
    expression f S 0 n cases (rt_condition c @ Mark '')'' # rest) = Inr (TTest (made_test c), Mark '')'' # rest)"
  shows "test_read S k (made_test c)"
  unfolding test_read_def made_test_def using assms by (auto simp: room_def made_test_def prefix_parens)

lemma value_read_unary:
  assumes "kind_ok S (Unary op v)" "child_depth (Unary op v) < 128" "value_read S k v"
  shows "value_read S k (made (Unary op v))"
proof (rule value_readI)
  fix f n cases rest assume r: "room k f n cases" and f: "2 * child_depth (Unary op v) + 1 \<le> f"
  have d: "2 * scalar_depth v + 1 \<le> f" "0 < scalar_depth v" using f assms(3) by (simp_all add: child_depth_def value_read_def)
  have "expression (f - 1) S 51 (n + 1) cases (rt_scalar v @ Mark '')'' # rest) = Inr (TValue v, Mark '')'' # rest)"
    using d by (intro expression_value [OF assms(3) expression_enters(1) [OF r]]) simp_all
  moreover have "op = ''+'' \<or> op = ''-''" using assms(1) by (auto simp: kind_ok_def)
  ultimately have "prefix_term S (expression (f - 1) S) (n + 1) cases (Mark op # rt_scalar v @ Mark '')'' # rest) =
      Inr (TValue (made (Unary op v)), Mark '')'' # rest)"
    unfolding prefix_term_def using assms(2) by (auto simp: make_scalar_ok made_def)
  then have "expression f S 0 n cases ((Mark op # rt_scalar v) @ Mark '')'' # rest) = Inr (TValue (made (Unary op v)), Mark '')'' # rest)"
    using d by (intro expression_term [OF r]) simp_all
  from prefix_parens [OF this]
  show "prefix_term S (expression f S) n cases (rt_value (Unary op v) @ rest) = Inr (TValue (made (Unary op v)), rest)" by simp
qed

lemma value_read_binary:
  assumes "kind_ok S (Binary op a b)" "child_depth (Binary op a b) < 128" "value_read S k a" "value_read S k b"
  shows "value_read S k (made (Binary op a b))"
proof (rule value_readI)
  fix f n cases rest assume r: "room k f n cases" and f: "2 * child_depth (Binary op a b) + 1 \<le> f"
  have d: "2 * scalar_depth a + 1 \<le> f" "2 * scalar_depth b + 1 \<le> f" "0 < scalar_depth a"
    using f assms(3) by (simp_all add: child_depth_def value_read_def)
  obtain p where p: "next_op (Mark op # ts) = Some (op, p)" "p = 50 \<or> p = 60" "op \<noteq> ''test''" for ts
    using assms(1) that [of 50] that [of 60] by (auto simp: kind_ok_def next_op_def)
  have "expression f S 0 n cases (rt_scalar a @ Mark op # rt_scalar b @ Mark '')'' # rest) = Inr (TValue (made (Binary op a b)), Mark '')'' # rest)"
  proof (rule expression_infix [OF r _ _ p(1) _ p(3)])
    show "prefix_term S (expression (f - 1) S) (n + 1) cases (rt_scalar a @ Mark op # rt_scalar b @ Mark '')'' # rest) =
        Inr (TValue a, Mark op # rt_scalar b @ Mark '')'' # rest)"
      using d by (intro prefix_value [OF assms(3) expression_enters(1) [OF r]]) simp_all
    show "expression (f - 1) S (p + 1) (n + 1) cases (tl (Mark op # rt_scalar b @ Mark '')'' # rest)) = Inr (TValue b, Mark '')'' # rest)"
      unfolding list.sel using d by (intro expression_value [OF assms(4) expression_enters(1) [OF r]]) simp_all
    show "combine op p (TValue a) (TValue b) = Inr (TValue (made (Binary op a b)))"
      using p(2) assms(2) by (auto simp: combine_def make_scalar_ok made_def)
  qed (use d in simp_all)
  then have "prefix_term S (expression f S) n cases (Mark ''('' # (rt_scalar a @ Mark op # rt_scalar b) @ Mark '')'' # rest) =
      Inr (TValue (made (Binary op a b)), rest)" by (intro prefix_parens) simp
  then show "prefix_term S (expression f S) n cases (rt_value (Binary op a b) @ rest) = Inr (TValue (made (Binary op a b)), rest)" by simp
qed

section \<open>Conditions\<close>

lemma next_op_test:
  "next_op (kw ''IS'' # ts) = Some (''test'', 40)" "next_op (kw ''NOT'' # ts) = Some (''test'', 40)" "next_op (kw ''IN'' # ts) = Some (''test'', 40)"
  "next_op (kw ''BETWEEN'' # ts) = Some (''test'', 40)" "next_op (kw ''LIKE'' # ts) = Some (''test'', 40)"
  by (simp_all add: next_op_def word_simps)

lemma next_op_not_tokens:
  assumes "w \<in> {''IN'', ''BETWEEN'', ''LIKE''}"
  shows "next_op (not_tokens negated @ kw w # ts) = Some (''test'', 40)"
  using assms by (auto simp: not_tokens_def next_op_test)

lemma eat_not_tokens:
  assumes "w \<in> {''IN'', ''BETWEEN'', ''LIKE'', ''NULL''}"
  shows "eat_not (not_tokens negated @ kw w # ts) = (negated, kw w # ts)"
  using assms by (cases negated) (auto simp: not_tokens_def eat_not_def eat_def word_simps)

lemma eat_keywords:
  assumes "w \<in> {''IN'', ''BETWEEN'', ''LIKE''}"
  shows "eat ''IS'' (not_tokens negated @ kw w # ts) = None" "eat ''IN'' (kw w # ts) = (if w = ''IN'' then Some ts else None)"
    "eat ''BETWEEN'' (kw w # ts) = (if w = ''BETWEEN'' then Some ts else None)" "eat ''LIKE'' (kw w # ts) = (if w = ''LIKE'' then Some ts else None)"
  using assms by (auto simp: not_tokens_def eat_def word_simps)

text \<open>A test of \<open>v\<close>, from the tokens behind it.\<close>

lemma test_read_tested:
  assumes v: "value_read S k v" and d: "scalar_depth v \<le> condition_depth c" "condition_depth c < 128" and rt: "rt_condition c = rt_scalar v @ ts"
    and op: "\<And>us. next_op (ts @ us) = Some (''test'', 40)"
    and t: "\<And>f n cases rest. room k f n cases \<Longrightarrow> 2 * condition_depth c \<le> f \<Longrightarrow>
      parse_test (expression f S) n cases v (ts @ Mark '')'' # rest) = Inr (made_test c, Mark '')'' # rest)"
  shows "test_read S k (made_test c)"
proof (rule test_readI)
  fix f n cases rest assume r: "room k f n cases" and f: "2 * condition_depth c + 1 \<le> f"
  have "0 < scalar_depth v" using v by (simp add: value_read_def)
  then have f2: "2 \<le> f" using d(1) f by simp
  note r' = expression_enters(1) [OF r f2]
  show "expression f S 0 n cases (rt_condition c @ Mark '')'' # rest) = Inr (TTest (made_test c), Mark '')'' # rest)"
    unfolding rt append_assoc
  proof (rule expression_tested [OF r f2 _ op _ t [OF r']])
    show "prefix_term S (expression (f - 1) S) (n + 1) cases (rt_scalar v @ ts @ Mark '')'' # rest) = Inr (TValue v, ts @ Mark '')'' # rest)"
      using d(1) f by (intro prefix_value [OF v r']) simp
  qed (use f in simp_all)
qed

lemma test_read_is_null:
  assumes "condition_depth (IsNull v negated) < 128" "value_read S k v"
  shows "test_read S k (made_test (IsNull v negated))"
proof (rule test_read_tested [OF assms(2) _ assms(1)])
  fix f n cases rest
  have "eat ''IS'' (kw ''IS'' # ts) = Some ts" for ts by (simp add: eat_def word_simps)
  moreover have "eat_not (not_tokens negated @ kw ''NULL'' # ts) = (negated, kw ''NULL'' # ts)" for ts by (simp add: eat_not_tokens)
  ultimately show "parse_test (expression f S) n cases v ((kw ''IS'' # not_tokens negated @ [kw ''NULL'']) @ Mark '')'' # rest) =
      Inr (made_test (IsNull v negated), Mark '')'' # rest)"
    using assms(1) by (simp add: parse_test_def make_predicate_ok made_test_def)
qed (simp_all add: condition_depth_def next_op_test)

lemma test_read_in_list:
  assumes "condition_depth (InList v vs negated) < 128" "value_read S k v" "\<And>w. w \<in> set vs \<Longrightarrow> value_read S k w"
    and "\<And>w ts. w \<in> set vs \<Longrightarrow> \<not> is_tok '')'' (rt_scalar w @ ts)" "vs \<noteq> []"
  shows "test_read S k (made_test (InList v vs negated))"
proof (rule test_read_tested [OF assms(2) condition_depth_scalar assms(1)])
  fix f n cases rest assume r: "room k f n cases" and f: "2 * condition_depth (InList v vs negated) \<le> f"
  have "2 * scalar_depth w \<le> f" if "w \<in> set vs" for w
    using condition_depth_scalar [of w "InList v vs negated"] that f by simp
  then have "parse_list (expression f S) n cases (listed (map rt_scalar vs) @ Mark '')'' # ts) = Inr (vs, Mark '')'' # ts)" for ts
    using assms(3,4) by (intro parse_list_read [OF r]) simp_all
  then show "parse_test (expression f S) n cases v
      ((not_tokens negated @ kw ''IN'' # Mark ''('' # listed (map rt_scalar vs) @ [Mark '')'']) @ Mark '')'' # rest) =
      Inr (made_test (InList v vs negated), Mark '')'' # rest)"
    using assms(1,5) by (simp add: parse_test_def eat_not_tokens eat_keywords make_predicate_ok made_test_def)
qed (simp_all add: next_op_not_tokens)

lemma test_read_between:
  assumes "condition_depth (Between v low high negated) < 128" "value_read S k v" "value_read S k low" "value_read S k high"
  shows "test_read S k (made_test (Between v low high negated))"
proof (rule test_read_tested [OF assms(2) _ assms(1)])
  fix f n cases rest assume r: "room k f n cases" and f: "2 * condition_depth (Between v low high negated) \<le> f"
  have "parse_value (expression f S) n cases (rt_scalar low @ kw ''AND'' # ts) = Inr (low, kw ''AND'' # ts)" for ts
    using f by (intro parse_value_read [OF assms(3) r]) (simp_all add: condition_depth_def)
  moreover have "parse_value (expression f S) n cases (rt_scalar high @ Mark '')'' # ts) = Inr (high, Mark '')'' # ts)" for ts
    using f by (intro parse_value_read [OF assms(4) r]) (simp_all add: condition_depth_def)
  ultimately show "parse_test (expression f S) n cases v
      ((not_tokens negated @ kw ''BETWEEN'' # rt_scalar low @ kw ''AND'' # rt_scalar high) @ Mark '')'' # rest) =
      Inr (made_test (Between v low high negated), Mark '')'' # rest)"
    using assms(1) by (simp add: parse_test_def eat_not_tokens eat_keywords make_predicate_ok made_test_def)
qed (simp_all add: next_op_not_tokens condition_depth_def)

lemma test_read_like:
  assumes "condition_depth (Like v pat escape negated) < 128" "value_read S k v" "value_read S k pat" "\<And>e. escape = Some e \<Longrightarrow> value_read S k e"
  shows "test_read S k (made_test (Like v pat escape negated))"
proof (rule test_read_tested [OF assms(2) _ assms(1)])
  fix f n cases rest assume r: "room k f n cases" and f: "2 * condition_depth (Like v pat escape negated) \<le> f"
  have pat: "parse_value (expression f S) n cases (rt_scalar pat @ ts) = Inr (pat, ts)" if "stops 41 ts" for ts
    using f that by (intro parse_value_read [OF assms(3) r]) (simp_all add: condition_depth_def)
  have esc: "parse_value (expression f S) n cases (rt_scalar e @ Mark '')'' # rest) = Inr (e, Mark '')'' # rest)" if "escape = Some e" for e
    using f that by (intro parse_value_read [OF assms(4) r]) (simp_all add: condition_depth_def)
  have "eat ''ESCAPE'' (kw ''ESCAPE'' # ts) = Some ts" for ts by (simp add: eat_def word_simps)
  then show "parse_test (expression f S) n cases v
      ((not_tokens negated @ kw ''LIKE'' # rt_scalar pat @ (case map_option rt_scalar escape of None \<Rightarrow> [] | Some e \<Rightarrow> kw ''ESCAPE'' # e)) @
        Mark '')'' # rest) = Inr (made_test (Like v pat escape negated), Mark '')'' # rest)"
    using assms(1) pat esc by (cases escape) (simp_all add: parse_test_def eat_not_tokens eat_keywords make_predicate_ok made_test_def)
qed (simp_all add: next_op_not_tokens condition_depth_def)

lemma test_read_compare:
  assumes "condition_ok (Compare op a b)" "condition_depth (Compare op a b) < 128" "value_read S k a" "value_read S k b"
  shows "test_read S k (made_test (Compare op a b))"
proof (rule test_readI)
  fix f n cases rest assume r: "room k f n cases" and f: "2 * condition_depth (Compare op a b) + 1 \<le> f"
  have d: "2 * scalar_depth a + 1 \<le> f" "2 * scalar_depth b + 1 \<le> f" "0 < scalar_depth a"
    using f assms(3) by (simp_all add: condition_depth_def value_read_def)
  have p: "next_op (Mark op # ts) = Some (op, 40)" "op \<noteq> ''test''" for ts using assms(1) by (auto simp: condition_ok_def next_op_def)
  have "expression f S 0 n cases (rt_scalar a @ Mark op # rt_scalar b @ Mark '')'' # rest) = Inr (TTest (made_test (Compare op a b)), Mark '')'' # rest)"
  proof (rule expression_infix [OF r _ _ p(1) _ p(2)])
    show "prefix_term S (expression (f - 1) S) (n + 1) cases (rt_scalar a @ Mark op # rt_scalar b @ Mark '')'' # rest) =
        Inr (TValue a, Mark op # rt_scalar b @ Mark '')'' # rest)"
      using d by (intro prefix_value [OF assms(3) expression_enters(1) [OF r]]) simp_all
    show "expression (f - 1) S (40 + 1) (n + 1) cases (tl (Mark op # rt_scalar b @ Mark '')'' # rest)) = Inr (TValue b, Mark '')'' # rest)"
      unfolding list.sel using d by (intro expression_value [OF assms(4) expression_enters(1) [OF r]]) simp_all
    show "combine op 40 (TValue a) (TValue b) = Inr (TTest (made_test (Compare op a b)))"
      using assms(1,2) by (auto simp: combine_def condition_ok_def make_predicate_ok made_test_def)
  qed (use d in simp_all)
  then show "expression f S 0 n cases (rt_condition (Compare op a b) @ Mark '')'' # rest) =
      Inr (TTest (made_test (Compare op a b)), Mark '')'' # rest)" by simp
qed

lemma test_read_logic:
  assumes "condition_ok (Logic op a b)" "condition_depth (Logic op a b) < 128" "test_read S k a" "test_read S k b"
  shows "test_read S k (made_test (Logic op a b))"
proof (rule test_readI)
  fix f n cases rest assume r: "room k f n cases" and f: "2 * condition_depth (Logic op a b) + 1 \<le> f"
  have d: "2 * predicate_depth a + 1 \<le> f" "2 * predicate_depth b + 1 \<le> f" "0 < predicate_depth a"
    using f assms(3) by (simp_all add: condition_depth_def test_read_def)
  obtain p where p: "next_op (kw op # ts) = Some (op, p)" "p = 10 \<or> p = 20" "op \<noteq> ''test''" for ts
    using assms(1) that [of 10] that [of 20] by (auto simp: condition_ok_def next_op_def word_simps)
  have "expression f S 0 n cases (rt_predicate a @ kw op # rt_predicate b @ Mark '')'' # rest) = Inr (TTest (made_test (Logic op a b)), Mark '')'' # rest)"
  proof (rule expression_infix [OF r _ _ p(1) _ p(3)])
    show "prefix_term S (expression (f - 1) S) (n + 1) cases (rt_predicate a @ kw op # rt_predicate b @ Mark '')'' # rest) =
        Inr (TTest a, kw op # rt_predicate b @ Mark '')'' # rest)"
      using d by (intro prefix_test [OF assms(3) expression_enters(1) [OF r]]) simp_all
    show "expression (f - 1) S (p + 1) (n + 1) cases (tl (kw op # rt_predicate b @ Mark '')'' # rest)) = Inr (TTest b, Mark '')'' # rest)"
      unfolding list.sel using d by (intro expression_test [OF assms(4) expression_enters(1) [OF r]]) simp_all
    show "combine op p (TTest a) (TTest b) = Inr (TTest (made_test (Logic op a b)))"
      using p(2) assms(2) by (auto simp: combine_def make_predicate_ok made_test_def)
  qed (use d in simp_all)
  then show "expression f S 0 n cases (rt_condition (Logic op a b) @ Mark '')'' # rest) =
      Inr (TTest (made_test (Logic op a b)), Mark '')'' # rest)" by simp
qed

lemma test_read_not:
  assumes "condition_depth (Not p) < 128" "test_read S k p"
  shows "test_read S k (made_test (Not p))"
proof (rule test_readI)
  fix f n cases rest assume r: "room k f n cases" and f: "2 * condition_depth (Not p) + 1 \<le> f"
  have d: "2 * predicate_depth p + 1 \<le> f" "0 < predicate_depth p" using f assms(2) by (simp_all add: condition_depth_def test_read_def)
  have "expression (f - 1) S 30 (n + 1) cases (rt_predicate p @ Mark '')'' # rest) = Inr (TTest p, Mark '')'' # rest)"
    using d by (intro expression_test [OF assms(2) expression_enters(1) [OF r]]) simp_all
  then have "prefix_term S (expression (f - 1) S) (n + 1) cases (kw ''NOT'' # rt_predicate p @ Mark '')'' # rest) =
      Inr (TTest (made_test (Not p)), Mark '')'' # rest)"
    unfolding prefix_term_def using assms(1) by (simp add: eat_def word_simps make_predicate_ok made_test_def)
  then show "expression f S 0 n cases (rt_condition (Not p) @ Mark '')'' # rest) = Inr (TTest (made_test (Not p)), Mark '')'' # rest)"
    using d by (intro expression_term [OF r]) simp_all
qed

end
