(* ===== verification/Pred_Back_Calls.thy ===== *)
theory Pred_Back_Calls
  imports Pred_Back
begin

text \<open>
  The rest of the reader on the tokens the writer makes: numbers, types, calls and CASE, and with them every well-formed tree. What the reader needs of the
  dialect is the locale \<open>predicate_grammar\<close>: no function has the name of a word that starts another expression.
\<close>

section \<open>Integers and types\<close>

lemma lit_append: "lit (a @ b) = lit a @ lit b"
  by (simp add: lit_def)

lemma u_value_snoc: "u_value (t @ [c]) = u_value t * 10 + (c - 48)"
  by (simp add: u_value_def)

lemma of_char_digit: "n < 10 \<Longrightarrow> (of_char (digit n) :: nat) = 48 + n"
  by (simp add: digit_def)

lemma lit_singleton: "lit [c] = [of_char c]"
  by (simp add: lit_def)

lemma decimal_reads: "lit (decimal n) \<noteq> [] \<and> list_all u_digit (lit (decimal n)) \<and> u_value (lit (decimal n)) = n"
proof (induction n rule: decimal.induct)
  case (1 n)
  show ?case
  proof (cases "n < 10")
    case True
    then have "lit (decimal n) = [48 + n]" by (subst decimal.simps) (simp add: lit_def of_char_digit)
    with True show ?thesis by (simp add: u_digit_def u_value_def)
  next
    case False
    then have "lit (decimal n) = lit (decimal (n div 10)) @ [48 + n mod 10]"
      by (subst decimal.simps) (simp add: lit_append lit_singleton of_char_digit)
    with 1 False show ?thesis by (simp add: u_value_snoc u_digit_def)
  qed
qed

lemma parse_int_decimal:
  "- (2 ^ (w - 1)) \<le> i \<Longrightarrow> i < 2 ^ (w - 1) \<Longrightarrow> parse_int w (i < 0) (lit (decimal (nat \<bar>i\<bar>))) = Some i"
  using decimal_reads [of "nat \<bar>i\<bar>"] by (auto simp: parse_int_def Let_def)

lemma parse_style_read:
  assumes "- (2 ^ 31) \<le> i" "i < 2 ^ 31"
  shows "parse_style (int_tokens i @ rest) = Inr (i, rest)"
  using parse_int_decimal [of 32 i] assms by (auto simp: parse_style_def int_tokens_def)

lemma type_args_read:
  assumes "list_all (\<lambda>a. case a of ArgInt i \<Rightarrow> 0 \<le> i \<and> i < 2 ^ 63 | ArgMax \<Rightarrow> True | ArgIdent _ \<Rightarrow> False) as" "as \<noteq> []" "length as \<le> m"
  shows "type_args m (listed (map (\<lambda>a. [type_arg_token a]) as) @ Mark '')'' # rest) = Inr (as, Mark '')'' # rest)"
  using assms
proof (induction as arbitrary: m)
  case (Cons a as)
  then obtain l where m: "m = Suc l" "length as \<le> l" by (cases m) auto
  have one: "type_arg_at (type_arg_token a # ts) = Inr (a, ts)" for ts
  proof (cases a)
    case (ArgInt i)
    then show ?thesis using parse_int_decimal [of 64 i] Cons.prems(1) by (auto simp: type_arg_at_def type_arg_token_def)
  qed (use Cons.prems(1) in \<open>auto simp: type_arg_at_def type_arg_token_def eat_def word_simps\<close>)
  show ?case
  proof (cases as)
    case Nil
    then show ?thesis using m one by (simp add: listed_def)
  next
    case (Cons b bs)
    with Cons.IH [of l] Cons.prems(1) m show ?thesis by (simp add: listed_def one)
  qed
qed simp

lemma parse_type_read:
  assumes "cast_ok S t" "m = '','' \<or> m = '')''"
  shows "parse_type S (type_tokens t @ Mark m # rest) = Inr (t, Mark m # rest)"
proof (cases "cast_args t = []")
  case True
  with assms show ?thesis by (auto simp: parse_type_def type_tokens_def unquoted_word_def cast_ok_def)
next
  case False
  define ts where "ts = listed (map (\<lambda>a. [type_arg_token a]) (cast_args t)) @ Mark '')'' # Mark m # rest"
  have "length (cast_args t) \<le> length ts + 1" using listed_length [of "map (\<lambda>a. [type_arg_token a]) (cast_args t)"] by (simp add: ts_def)
  then have "type_args (length ts + 1) ts = Inr (cast_args t, Mark '')'' # Mark m # rest)"
    unfolding ts_def using assms(1) False by (intro type_args_read) (simp_all add: cast_ok_def)
  moreover have "type_tokens t @ Mark m # rest = Word (map u_upper (cast_base t)) False # Mark ''('' # ts"
    using False by (simp add: type_tokens_def ts_def)
  ultimately show ?thesis using assms(1) by (simp add: parse_type_def unquoted_word_def cast_ok_def del: type_args.simps)
qed

section \<open>Calls\<close>

text \<open>A value whose first token starts no list end, no arm and no trim direction.\<close>

definition starts :: "scalar \<Rightarrow> bool" where
  "starts v \<longleftrightarrow> list_all (\<lambda>w. \<forall>ts. \<not> is_tok w (rt_scalar v @ ts)) ['')'', ''WHEN'', ''LEADING'', ''TRAILING'', ''BOTH'']"

lemma trim_direction_none: "starts v \<Longrightarrow> trim_direction (rt_scalar v @ ts) = (None, rt_scalar v @ ts)"
  by (simp add: trim_direction_def starts_def)

lemma trim_direction_some: "d \<in> {''LEADING'', ''TRAILING'', ''BOTH''} \<Longrightarrow> trim_direction (kw d # ts) = (Some d, ts)"
  by (auto simp: trim_direction_def word_simps)

lemma parse_trim_read:
  assumes "fn_form fn = Trim_form" "room k f n cases"
    and "\<And>w. w \<in> set (call_values (Trim direction chars v)) \<Longrightarrow> value_read S k w \<and> starts w \<and> 2 * scalar_depth w \<le> f"
    and "case direction of None \<Rightarrow> True | Some d \<Rightarrow> d \<in> {''LEADING'', ''TRAILING'', ''BOTH''} \<and> chars \<noteq> None"
  shows "parse_call S (expression f S) n cases fn (rt_args (Trim direction chars v) @ Mark '')'' # rest) =
    Inr (Trim direction chars v, Mark '')'' # rest)"
proof -
  have pv: "parse_value (expression f S) n cases (rt_scalar w @ ts) = Inr (w, ts)"
    if "w \<in> set (call_values (Trim direction chars v))" "stops 41 ts" for w ts
    using assms(3) [OF that(1)] parse_value_read [OF _ assms(2) _ that(2)] by blast
  have fr: "eat ''FROM'' (kw ''FROM'' # ts) = Some ts" for ts by (simp add: eat_def word_simps)
  show ?thesis
  proof (cases chars)
    case None
    then have "direction = None" using assms(4) by (cases direction) auto
    with None pv assms(1,3) show ?thesis by (simp add: parse_call_def trim_direction_none)
  next
    case (Some c)
    then have "trim_direction ((case direction of None \<Rightarrow> [] | Some d \<Rightarrow> [kw d]) @ rt_scalar c @ ts) = (direction, rt_scalar c @ ts)" for ts
      using assms(3) [of c] assms(4) by (cases direction) (simp_all add: trim_direction_none trim_direction_some)
    with Some pv assms(1) fr show ?thesis by (simp add: parse_call_def)
  qed
qed

lemma parse_call_read:
  assumes "call_ok S fn c" "room k f n cases"
    and "\<And>w. w \<in> set (call_values c) \<Longrightarrow> value_read S k w \<and> starts w \<and> 2 * scalar_depth w \<le> f"
  shows "parse_call S (expression f S) n cases fn (rt_args c @ Mark '')'' # rest) = Inr (c, Mark '')'' # rest)"
proof -
  have pv: "parse_value (expression f S) n cases (rt_scalar w @ ts) = Inr (w, ts)" if "w \<in> set (call_values c)" "stops 41 ts" for w ts
    using assms(3) [OF that(1)] parse_value_read [OF _ assms(2) _ that(2)] by blast
  have pl: "parse_list (expression f S) n cases (listed (map rt_scalar vs) @ Mark '')'' # ts) = Inr (vs, Mark '')'' # ts)"
    if "call_values c = vs" for vs ts
    using assms(3) that by (intro parse_list_read [OF assms(2)]) (simp_all add: starts_def)
  show ?thesis
  proof (cases c)
    case (Ordinary vs)
    then show ?thesis using assms(1) pl [of vs] by (simp add: parse_call_def call_ok_def call_form_ok_def)
  next
    case (Cast v t)
    then show ?thesis using assms(1) pv [of v] by (simp add: parse_call_def call_ok_def call_form_ok_def parse_type_read)
  next
    case (Convert t v style)
    then show ?thesis using assms(1) pv [of v] parse_style_read
      by (cases style) (simp_all add: parse_call_def call_ok_def call_form_ok_def parse_type_read)
  next
    case (Datepart p vs)
    then show ?thesis using assms(1) pl [of vs] by (simp add: parse_call_def call_ok_def call_form_ok_def unquoted_word_def)
  next
    case (Trim direction chars v)
    then show ?thesis using assms parse_trim_read [OF _ assms(2), of fn direction chars v] by (simp add: call_ok_def call_form_ok_def)
  qed
qed

section \<open>CASE\<close>

definition arms_end :: "token list \<Rightarrow> bool" where
  "arms_end ts \<longleftrightarrow> stops 41 ts \<and> eat ''WHEN'' ts = None"

lemma eat_when [simp]: "eat ''WHEN'' (kw ''WHEN'' # ts) = Some ts"
  by (simp add: eat_def word_simps)

lemma stops_arms: "arms_end rest \<Longrightarrow> stops 41 (arm_tokens arms @ rest)"
  by (cases arms) (auto simp: arms_end_def arm_tokens_def)

lemma case_arms_simple:
  assumes "room k f n cases" "arms_end rest"
    and "\<And>a b. (a, b) \<in> set arms \<Longrightarrow> value_read S k a \<and> 2 * scalar_depth a \<le> f \<and> value_read S k b \<and> 2 * scalar_depth b \<le> f"
    and "length arms < m"
  shows "case_arms m (expression f S) n cases True (arm_tokens (map (map_prod rt_scalar rt_scalar) arms) @ rest) = Inr ((arms, []), rest)"
  using assms(3,4)
proof (induction arms arbitrary: m)
  case Nil
  then show ?case using assms(2) by (cases m) (simp_all add: arm_tokens_def arms_end_def)
next
  case (Cons ab arms)
  obtain a b l where ab: "ab = (a, b)" and m: "m = Suc l" "length arms < l" using Cons.prems(2) by (cases ab; cases m) auto
  let ?more = "arm_tokens (map (map_prod rt_scalar rt_scalar) arms) @ rest"
  have "expression f S 0 n cases (rt_scalar a @ kw ''THEN'' # ts) = Inr (TValue a, kw ''THEN'' # ts)" for ts
    using Cons.prems(1) [of a b] ab by (intro expression_value [OF _ assms(1)]) simp_all
  moreover have "parse_value (expression f S) n cases (rt_scalar b @ ?more) = Inr (b, ?more)"
    using Cons.prems(1) [of a b] ab by (intro parse_value_read [OF _ assms(1)] stops_arms [OF assms(2)]) simp_all
  moreover have "case_arms l (expression f S) n cases True ?more = Inr ((arms, []), rest)" using m(2) by (intro Cons.IH Cons.prems(1)) simp_all
  ultimately show ?case unfolding ab m(1) by (simp add: arm_tokens_def)
qed

lemma case_arms_searched:
  assumes "room k f n cases" "arms_end rest"
    and "\<And>a b. (a, b) \<in> set arms \<Longrightarrow> test_read S k a \<and> 2 * predicate_depth a \<le> f \<and> value_read S k b \<and> 2 * scalar_depth b \<le> f"
    and "length arms < m"
  shows "case_arms m (expression f S) n cases False (arm_tokens (map (map_prod rt_predicate rt_scalar) arms) @ rest) = Inr (([], arms), rest)"
  using assms(3,4)
proof (induction arms arbitrary: m)
  case Nil
  then show ?case using assms(2) by (cases m) (simp_all add: arm_tokens_def arms_end_def)
next
  case (Cons ab arms)
  obtain a b l where ab: "ab = (a, b)" and m: "m = Suc l" "length arms < l" using Cons.prems(2) by (cases ab; cases m) auto
  let ?more = "arm_tokens (map (map_prod rt_predicate rt_scalar) arms) @ rest"
  have "expression f S 0 n cases (rt_predicate a @ kw ''THEN'' # ts) = Inr (TTest a, kw ''THEN'' # ts)" for ts
    using Cons.prems(1) [of a b] ab by (intro expression_test [OF _ assms(1)]) simp_all
  moreover have "parse_value (expression f S) n cases (rt_scalar b @ ?more) = Inr (b, ?more)"
    using Cons.prems(1) [of a b] ab by (intro parse_value_read [OF _ assms(1)] stops_arms [OF assms(2)]) simp_all
  moreover have "case_arms l (expression f S) n cases False ?more = Inr (([], arms), rest)" using m(2) by (intro Cons.IH Cons.prems(1)) simp_all
  ultimately show ?case unfolding ab m(1) by (simp add: arm_tokens_def)
qed

lemma arm_tokens_length: "length arms \<le> length (arm_tokens arms)"
  by (induction arms) (auto simp: arm_tokens_def)

lemma arms_end_else: "arms_end (else_tokens e @ kw ''END'' # ts)"
  by (cases e) (simp_all add: else_tokens_def arms_end_def eat_def word_simps, simp_all add: stops_def next_op_def word_simps)

text \<open>The end of a CASE, behind the arms.\<close>

lemma else_read:
  assumes "room k f n cases" "\<And>e. otherwise = Some e \<Longrightarrow> value_read S k e \<and> 2 * scalar_depth e \<le> f"
  shows "(case eat ''ELSE'' (else_tokens (map_option rt_scalar otherwise) @ kw ''END'' # ts) of
       Some us \<Rightarrow> and_then (parse_value (expression f S) n cases us) (\<lambda>(v, us). Inr (Some v, us))
     | None \<Rightarrow> Inr (None, else_tokens (map_option rt_scalar otherwise) @ kw ''END'' # ts)) = Inr (otherwise, kw ''END'' # ts)"
proof (cases otherwise)
  case None
  then show ?thesis by (simp add: else_tokens_def eat_def word_simps)
next
  case (Some e)
  then have "parse_value (expression f S) n cases (rt_scalar e @ kw ''END'' # ts) = Inr (e, kw ''END'' # ts)"
    using assms(2) by (intro parse_value_read [OF _ assms(1)]) simp_all
  moreover have "eat ''ELSE'' (kw ''ELSE'' # us) = Some us" for us by (simp add: eat_def word_simps)
  ultimately show ?thesis using Some by (simp add: else_tokens_def)
qed

lemma case_scalars:
  "v \<in> set (kind_scalars (SimpleCase w arms otherwise)) \<longleftrightarrow> v = w \<or> (\<exists>a b. (a, b) \<in> set arms \<and> (v = a \<or> v = b)) \<or> otherwise = Some v"
  "v \<in> set (kind_scalars (SearchedCase tests otherwise)) \<longleftrightarrow> (\<exists>a. (a, v) \<in> set tests) \<or> otherwise = Some v"
  by (auto split: option.splits) force+

lemma parse_simple_case:
  assumes "arms \<noteq> []" "child_depth (SimpleCase v arms otherwise) < 128" "starts v" "room k f n (cases + 1)"
    and vs: "\<And>w. w \<in> set (kind_scalars (SimpleCase v arms otherwise)) \<Longrightarrow> value_read S k w \<and> 2 * scalar_depth w \<le> f"
  shows "parse_case (expression f S) n cases
    (rt_scalar v @ arm_tokens (map (map_prod rt_scalar rt_scalar) arms) @ else_tokens (map_option rt_scalar otherwise) @ kw ''END'' # rest) =
    Inr (made (SimpleCase v arms otherwise), rest)"
proof -
  let ?tail = "else_tokens (map_option rt_scalar otherwise) @ kw ''END'' # rest"
  let ?arms = "arm_tokens (map (map_prod rt_scalar rt_scalar) arms)"
  have "cases + 1 \<le> 10" using assms(4) by (simp add: room_def)
  moreover have "\<not> is_tok ''WHEN'' (rt_scalar v @ ts)" for ts using assms(3) by (simp add: starts_def)
  moreover have "parse_value (expression f S) n (cases + 1) (rt_scalar v @ ?arms @ ?tail) = Inr (v, ?arms @ ?tail)"
    using vs [of v] by (intro parse_value_read [OF _ assms(4)] stops_arms arms_end_else) simp_all
  moreover have "case_arms (length (?arms @ ?tail) + 1) (expression f S) n (cases + 1) True (?arms @ ?tail) = Inr ((arms, []), ?tail)"
    using arm_tokens_length [of "map (map_prod rt_scalar rt_scalar) arms"] vs
    by (intro case_arms_simple [OF assms(4) arms_end_else]) (unfold case_scalars, simp_all, blast)
  moreover note else_read [OF assms(4), of otherwise S rest]
  ultimately show ?thesis unfolding parse_case_def Let_def
    using assms(1,2) vs by (simp add: case_scalars make_scalar_ok made_def del: case_arms.simps kind_scalars.simps)
qed

lemma parse_searched_case:
  assumes "arms \<noteq> []" "child_depth (SearchedCase arms otherwise) < 128" "room k f n (cases + 1)"
    and vs: "\<And>w. w \<in> set (kind_scalars (SearchedCase arms otherwise)) \<Longrightarrow> value_read S k w \<and> 2 * scalar_depth w \<le> f"
    and ps: "\<And>p. p \<in> set (map fst arms) \<Longrightarrow> test_read S k p \<and> 2 * predicate_depth p \<le> f"
  shows "parse_case (expression f S) n cases
    (arm_tokens (map (map_prod rt_predicate rt_scalar) arms) @ else_tokens (map_option rt_scalar otherwise) @ kw ''END'' # rest) =
    Inr (made (SearchedCase arms otherwise), rest)"
proof -
  let ?tail = "else_tokens (map_option rt_scalar otherwise) @ kw ''END'' # rest"
  let ?arms = "arm_tokens (map (map_prod rt_predicate rt_scalar) arms)"
  have "cases + 1 \<le> 10" using assms(3) by (simp add: room_def)
  moreover have "is_tok ''WHEN'' (?arms @ ts)" for ts using assms(1) by (cases arms) (auto simp: arm_tokens_def word_simps)
  moreover have "case_arms (length (?arms @ ?tail) + 1) (expression f S) n (cases + 1) False (?arms @ ?tail) = Inr (([], arms), ?tail)"
    using arm_tokens_length [of "map (map_prod rt_predicate rt_scalar) arms"] vs ps
    by (intro case_arms_searched [OF assms(3) arms_end_else]) (unfold case_scalars, force, simp)
  moreover note else_read [OF assms(3), of otherwise S rest]
  ultimately show ?thesis unfolding parse_case_def Let_def
    using assms(1,2) vs by (simp add: case_scalars make_scalar_ok made_def del: case_arms.simps kind_scalars.simps)
qed

lemma prefix_case: "parse_case ex n cases ts = Inr (v, rest) \<Longrightarrow> prefix_term S ex n cases (kw ''CASE'' # ts) = Inr (TValue v, rest)"
  by (simp add: prefix_term_def parse_primary_def token_value_def eat_def word_simps)

lemma value_read_case:
  assumes "\<And>f n cases rest. room k f n (cases + 1) \<Longrightarrow> 2 * child_depth kind \<le> f \<Longrightarrow>
      parse_case (expression f S) n cases (ts @ kw ''END'' # rest) = Inr (made kind, rest)"
    and "rt_value kind = Mark ''('' # kw ''CASE'' # ts @ [kw ''END'', Mark '')'']" "0 < child_depth kind"
  shows "value_read S (Suc k) (made kind)"
proof (rule value_readI)
  fix f n cases rest assume r: "room (Suc k) f n cases" and f: "2 * child_depth kind + 1 \<le> f"
  have f2: "2 \<le> f" using f assms(3) by simp
  have "room k (f - 1) (n + 1) (cases + 1)" using expression_enters(1) [OF r f2] by (simp add: room_def)
  with assms(1) f have "parse_case (expression (f - 1) S) (n + 1) cases (ts @ kw ''END'' # Mark '')'' # rest) = Inr (made kind, Mark '')'' # rest)"
    by simp
  from expression_term [OF r f2 prefix_case [OF this], of 0]
  have "expression f S 0 n cases ((kw ''CASE'' # ts @ [kw ''END'']) @ Mark '')'' # rest) = Inr (TValue (made kind), Mark '')'' # rest)" by simp
  from prefix_parens [OF this]
  show "prefix_term S (expression f S) n cases (rt_value kind @ rest) = Inr (TValue (made kind), rest)" by (simp add: assms(2))
qed

section \<open>Every well-formed tree\<close>

locale predicate_grammar =
  fixes S :: dialect_syntax
  assumes function_words: "find_function S name = Some f \<Longrightarrow> list_all (\<lambda>w. \<not> same_word (fn_name f) (lit w)) leading_words"
begin

lemma starts_made: "kind_ok S kind \<Longrightarrow> starts (Scalar kind d)"
proof (cases kind)
  case (Call f c)
  moreover assume "kind_ok S kind"
  ultimately show ?thesis using function_words [of "fn_name f" f] by (auto simp: starts_def kind_ok_def call_ok_def call_form_ok_def leading_words_def is_tok_def)
qed (simp_all add: starts_def kind_ok_def word_simps)

lemma value_read_call:
  assumes "call_ok S fn c" "child_depth (Call fn c) < 128" "\<And>w. w \<in> set (call_values c) \<Longrightarrow> value_read S k w \<and> starts w"
  shows "value_read S k (made (Call fn c))"
proof (rule value_readI)
  fix f n cases rest assume r: "room k f n cases" and f: "2 * child_depth (Call fn c) + 1 \<le> f"
  have "2 * scalar_depth w \<le> f" if "w \<in> set (call_values c)" for w using child_depth_scalar [of w "Call fn c"] that f by simp
  then have "parse_call S (expression f S) n cases fn (rt_args c @ Mark '')'' # rest) = Inr (c, Mark '')'' # rest)"
    using assms(3) by (intro parse_call_read [OF assms(1) r]) simp
  moreover have "find_function S (fn_name fn) = Some fn" "arity_ok fn c" using assms(1) by (simp_all add: call_ok_def call_form_ok_def)
  moreover note function_words [OF this(1)]
  ultimately show "prefix_term S (expression f S) n cases (rt_value (Call fn c) @ rest) = Inr (TValue (made (Call fn c)), rest)"
    using assms(2) by (simp add: prefix_term_def parse_primary_def token_value_def eat_word is_tok_def leading_words_def make_scalar_ok made_def)
qed

lemma value_read_leaf:
  assumes "(\<exists>n. kind = Number n) \<or> (\<exists>v n. kind = String v n) \<or> kind = Null \<or> (\<exists>n. kind = Column n)"
  shows "value_read S k (made kind)"
proof (rule value_readI)
  have d: "child_depth kind = 0" using assms by (auto simp: child_depth_def)
  show "prefix_term S (expression f S) n cases (rt_value kind @ rest) = Inr (TValue (made kind), rest)" for f n cases rest
  proof (cases kind)
    case Null
    then show ?thesis using d by (simp add: prefix_term_def parse_primary_def token_value_def eat_def word_simps make_scalar_ok made_def)
  qed (use assms d in \<open>auto simp: prefix_term_def parse_primary_def token_value_def make_scalar_ok made_def\<close>)
qed

lemma value_read_kind:
  assumes ok: "kind_ok S kind" "below kind k = Some k'" "child_depth kind < 128"
    and vs: "\<And>v. v \<in> set (kind_scalars kind) \<Longrightarrow> value_read S k' v \<and> starts v"
    and ps: "\<And>p. p \<in> set (kind_predicates kind) \<Longrightarrow> test_read S k' p"
  shows "value_read S k (made kind)"
proof -
  have dv: "0 < scalar_depth v \<and> scalar_depth v \<le> child_depth kind" if "v \<in> set (kind_scalars kind)" for v
    using vs [OF that] child_depth_scalar [OF that] by (simp add: value_read_def)
  have dp: "0 < predicate_depth p \<and> predicate_depth p \<le> child_depth kind" if "p \<in> set (kind_predicates kind)" for p
    using ps [OF that] child_depth_predicate [OF that] by (simp add: test_read_def)
  have vf: "value_read S k' v \<and> 2 * scalar_depth v \<le> f" if "2 * child_depth kind \<le> f" "v \<in> set (kind_scalars kind)" for v f
    using vs [OF that(2)] dv [OF that(2)] that(1) by simp
  have pf: "test_read S k' p \<and> 2 * predicate_depth p \<le> f" if "2 * child_depth kind \<le> f" "p \<in> set (kind_predicates kind)" for p f
    using ps [OF that(2)] dp [OF that(2)] that(1) by simp
  show ?thesis
  proof (cases kind)
    case (Unary op v)
    then show ?thesis using ok vs by (intro value_read_unary [of S op v, folded Unary]) (simp_all add: below_def)
  next
    case (Binary op a b)
    then show ?thesis using ok vs by (intro value_read_binary [of S op a b, folded Binary]) (simp_all add: below_def)
  next
    case (Call fn c)
    then show ?thesis using ok vs by (intro value_read_call [of fn c, folded Call]) (simp_all add: below_def kind_ok_def)
  next
    case (SimpleCase v arms otherwise)
    then have k: "k = Suc k'" using ok(2) by (auto simp: below_def split: if_splits)
    show ?thesis unfolding k
    proof (rule value_read_case)
      show "rt_value kind = Mark ''('' # kw ''CASE'' # (rt_scalar v @ arm_tokens (map (map_prod rt_scalar rt_scalar) arms) @
          else_tokens (map_option rt_scalar otherwise)) @ [kw ''END'', Mark '')'']" by (simp add: SimpleCase)
      show "0 < child_depth kind" using dv [of v] SimpleCase by simp
    next
      fix f n cases rest assume r: "room k' f n (cases + 1)" and f: "2 * child_depth kind \<le> f"
      show "parse_case (expression f S) n cases ((rt_scalar v @ arm_tokens (map (map_prod rt_scalar rt_scalar) arms) @
          else_tokens (map_option rt_scalar otherwise)) @ kw ''END'' # rest) = Inr (made kind, rest)"
        unfolding append_assoc SimpleCase
        by (rule parse_simple_case [OF _ _ _ r vf [OF f, unfolded SimpleCase]]) (use ok vs [of v] SimpleCase in \<open>simp_all add: kind_ok_def\<close>)
    qed
  next
    case (SearchedCase arms otherwise)
    then have k: "k = Suc k'" using ok(2) by (auto simp: below_def split: if_splits)
    show ?thesis unfolding k
    proof (rule value_read_case)
      show "rt_value kind = Mark ''('' # kw ''CASE'' # (arm_tokens (map (map_prod rt_predicate rt_scalar) arms) @
          else_tokens (map_option rt_scalar otherwise)) @ [kw ''END'', Mark '')'']" by (simp add: SearchedCase)
      show "0 < child_depth kind" using dp [of "fst (hd arms)"] SearchedCase ok(1) by (simp add: kind_ok_def)
    next
      fix f n cases rest assume r: "room k' f n (cases + 1)" and f: "2 * child_depth kind \<le> f"
      show "parse_case (expression f S) n cases ((arm_tokens (map (map_prod rt_predicate rt_scalar) arms) @
          else_tokens (map_option rt_scalar otherwise)) @ kw ''END'' # rest) = Inr (made kind, rest)"
        unfolding append_assoc SearchedCase
        by (rule parse_searched_case [OF _ _ r vf [OF f, unfolded SearchedCase] pf [OF f, unfolded SearchedCase kind_predicates.simps]])
          (use ok SearchedCase in \<open>simp_all add: kind_ok_def\<close>)
    qed
  qed (auto intro!: value_read_leaf)
qed

lemma test_read_condition:
  assumes ok: "condition_ok c" "condition_depth c < 128"
    and vs: "\<And>v. v \<in> set (condition_scalars c) \<Longrightarrow> value_read S k v \<and> starts v"
    and ps: "\<And>p. p \<in> set (condition_predicates c) \<Longrightarrow> test_read S k p"
  shows "test_read S k (made_test c)"
proof (cases c)
  case (Compare op a b)
  then show ?thesis using ok vs by (intro test_read_compare [of op a b, folded Compare]) simp_all
next
  case (IsNull v negated)
  then show ?thesis using ok vs by (intro test_read_is_null [of v negated, folded IsNull]) simp_all
next
  case (InList v ws negated)
  then show ?thesis using ok vs by (intro test_read_in_list [of v ws negated, folded InList]) (simp_all add: condition_ok_def starts_def)
next
  case (Between v low high negated)
  then show ?thesis using ok vs by (intro test_read_between [of v low high negated, folded Between]) simp_all
next
  case (Like v pat escape negated)
  then show ?thesis using ok vs by (intro test_read_like [of v pat escape negated, folded Like]) simp_all
next
  case (Not p)
  then show ?thesis using ok ps by (intro test_read_not [of p, folded Not]) simp_all
next
  case (Logic op a b)
  then show ?thesis using ok ps by (intro test_read_logic [of op a b, folded Logic]) simp_all
qed

text \<open>Every well-formed tree comes back from its tokens.\<close>

lemma wf_read:
  "wf_scalar S k v \<Longrightarrow> value_read S k v \<and> starts v"
  "wf_predicate S k p \<Longrightarrow> test_read S k p"
proof (induction rule: wf_scalar_wf_predicate.inducts)
  case (wf_scalar_node kind k k')
  then show ?case using value_read_kind [of kind k k'] starts_made by (simp add: made_def)
next
  case (wf_predicate_node c k)
  then show ?case using test_read_condition [of c k] by (simp add: made_test_def)
qed

lemma wf_depth: "wf_predicate S k p \<Longrightarrow> predicate_depth p \<le> 128"
  by (auto elim: wf_predicate.cases)

lemma tokens_read_back:
  assumes "wf_predicate S 10 p"
  shows "expression 257 S 0 0 0 (rt_predicate p) = Inr (TTest p, [])"
proof -
  have "expression 257 S 0 0 0 (rt_predicate p @ []) = Inr (TTest p, [])"
    using wf_depth [OF assms] by (intro expression_test [OF wf_read(2) [OF assms]]) (simp_all add: room_def stops_def next_op_def is_tok_def)
  then show ?thesis by simp
qed

end

end
