(* ===== verification/Pred_Text.thy ===== *)
theory Pred_Text
  imports Pred_Lex Pred_Back_Calls
begin

text \<open>
  What the writer writes is lexed to the tokens of the tree, and so is read back as it. What this needs of a dialect is the locale \<open>predicate_text\<close>: a literal and a
  quoted identifier are one token each, and the names the dialect gives to functions, types and date parts are words it finds again.
\<close>

section \<open>The dialect\<close>

locale predicate_text = predicate_grammar S + plain_lexicon "sx_lexicon S" for S +
  assumes string_lexes: "0 \<notin> set v \<Longrightarrow> lexes (sx_lexicon S) (string_literal S v national) [Str v national]"
    and ident_lexes: "quote_ident S n = Inr t \<Longrightarrow> lexes (sx_lexicon S) t [Word n True]"
    and function_found: "find_function S name = Some f \<Longrightarrow> find_function S (fn_name f) = Some f \<and> plain_word (fn_name f)"
    and type_found: "find_cast_type S name args = Inr ty \<Longrightarrow> cast_ok S ty \<and> plain_word (map u_upper (cast_base ty))"
    and datepart_found: "find_datepart S f name = Some part \<Longrightarrow> find_datepart S f part = Some part \<and> plain_word part"
begin

abbreviation lx :: lexicon where
  "lx \<equiv> sx_lexicon S"

lemma keyword_token: "plain_word (lit w) \<Longrightarrow> delim rest \<Longrightarrow> tokens lx (lit w @ rest) = prepend [kw w] (tokens lx rest)"
  using lexesD [OF word_lexes] by (simp add: kw_def)

lemma keyword_texts [simp]:
  "tokens lx (lit '' AS '' @ x) = prepend [kw ''AS''] (tokens lx x)"
  "tokens lx (lit '' IS '' @ x) = prepend [kw ''IS''] (tokens lx x)"
  "tokens lx (lit ''NOT '' @ x) = prepend [kw ''NOT''] (tokens lx x)"
  "tokens lx (lit ''BETWEEN '' @ x) = prepend [kw ''BETWEEN''] (tokens lx x)"
  "tokens lx (lit '' AND '' @ x) = prepend [kw ''AND''] (tokens lx x)"
  "tokens lx (lit ''LIKE '' @ x) = prepend [kw ''LIKE''] (tokens lx x)"
  "tokens lx (lit '' ESCAPE '' @ x) = prepend [kw ''ESCAPE''] (tokens lx x)"
  "tokens lx (lit '' FROM '' @ x) = prepend [kw ''FROM''] (tokens lx x)"
  "tokens lx (lit ''CASE '' @ x) = prepend [kw ''CASE''] (tokens lx x)"
  "tokens lx (lit '' WHEN '' @ x) = prepend [kw ''WHEN''] (tokens lx x)"
  "tokens lx (lit '' THEN '' @ x) = prepend [kw ''THEN''] (tokens lx x)"
  "tokens lx (lit '' ELSE '' @ x) = prepend [kw ''ELSE''] (tokens lx x)"
  using keyword_token [of "''AS''" "32 # x"] keyword_token [of "''IS''" "32 # x"] keyword_token [of "''NOT''" "32 # x"]
    keyword_token [of "''BETWEEN''" "32 # x"] keyword_token [of "''AND''" "32 # x"] keyword_token [of "''LIKE''" "32 # x"]
    keyword_token [of "''ESCAPE''" "32 # x"] keyword_token [of "''FROM''" "32 # x"] keyword_token [of "''CASE''" "32 # x"]
    keyword_token [of "''WHEN''" "32 # x"] keyword_token [of "''THEN''" "32 # x"] keyword_token [of "''ELSE''" "32 # x"]
  by (simp_all add: lit_def plain_word_def name_char_def u_digit_def)

lemma mark_texts [simp]:
  "tokens lx (lit ''('' @ x) = prepend [Mark ''(''] (tokens lx x)"
  "tokens lx (lit '')'' @ x) = prepend [Mark '')''] (tokens lx x)"
  "tokens lx (lit '', '' @ x) = prepend [Mark '',''] (tokens lx x)"
  "tokens lx (lit '' '' @ x) = tokens lx x"
  "tokens lx (lit '' END)'' @ x) = prepend [kw ''END'', Mark '')''] (tokens lx x)"
  "tokens lx (lit ''IN ('' @ x) = prepend [kw ''IN'', Mark ''(''] (tokens lx x)"
  using keyword_token [of "''END''" "41 # x"] keyword_token [of "''IN''" "32 # 40 # x"]
  by (simp_all add: lit_def plain_word_def name_char_def u_digit_def)

lemma word_texts [simp]:
  "delim x \<Longrightarrow> tokens lx (lit ''NULL'' @ x) = prepend [kw ''NULL''] (tokens lx x)"
  "delim x \<Longrightarrow> tokens lx (lit ''CASE'' @ x) = prepend [kw ''CASE''] (tokens lx x)"
  "delim x \<Longrightarrow> d \<in> {''LEADING'', ''TRAILING'', ''BOTH'', ''AND'', ''OR'', ''max''} \<Longrightarrow> tokens lx (lit d @ x) = prepend [kw d] (tokens lx x)"
  by (rule keyword_token; auto simp: plain_word_def name_char_def u_digit_def lit_def)+

lemma neg_text [simp]: "tokens lx (neg negated @ x) = prepend (not_tokens negated) (tokens lx x)"
  by (simp add: neg_def not_tokens_def)

lemma lexes_join:
  assumes "list_all2 (lexes lx) texts toks"
  shows "lexes lx (join_with (lit '', '') texts) (listed toks)"
  using assms
proof (induction rule: list_all2_induct)
  case Nil
  then show ?case by (simp add: lexes_def listed_def)
next
  case (Cons t texts ts toks)
  then show ?case by (cases texts; cases toks) (auto intro!: lexesI simp: listed_def lexesD)
qed

section \<open>Types and integers\<close>

lemma digits_number:
  assumes "list_all u_digit n" "n \<noteq> []"
  shows "number_ok n"
proof -
  have w: "takeWhile u_digit n = n" "dropWhile u_digit n = []" using assms(1) by (auto simp: list_all_iff takeWhile_eq_all_conv)
  have "scan_number n = Inr (n, [])" unfolding scan_number_def scan_digits_def w by (simp add: scan_fraction_def scan_exponent_def)
  moreover have "map u_upper n = n" using assms(1) by (induction n) (auto simp: u_upper_def u_digit_def)
  ultimately show ?thesis using assms by (cases n) (auto simp: number_ok_def)
qed

lemma decimal_lexes: "lexes lx (lit (decimal n)) [Num (lit (decimal n))]"
  by (rule number_lexes [OF digits_number]) (use decimal_reads [of n] in simp_all)

lemma int_lexes: "lexes lx (int_text i) (int_tokens i)"
proof (rule lexesI)
  fix rest :: utext assume "delim rest"
  then have d: "tokens lx (lit (decimal (nat \<bar>i\<bar>)) @ rest) = prepend [Num (lit (decimal (nat \<bar>i\<bar>)))] (tokens lx rest)"
    by (rule lexesD [OF decimal_lexes])
  have "u_digit (hd (lit (decimal (nat \<bar>i\<bar>))))" "lit (decimal (nat \<bar>i\<bar>)) \<noteq> []"
    using decimal_reads [of "nat \<bar>i\<bar>"] by (simp_all add: list_all_iff)
  then have "tokens lx (lit ''-'' @ lit (decimal (nat \<bar>i\<bar>)) @ rest) = prepend [Mark ''-'', Num (lit (decimal (nat \<bar>i\<bar>)))] (tokens lx rest)"
    by (subst minus_token) (simp_all add: d)
  with d show "tokens lx (int_text i @ rest) = prepend (int_tokens i) (tokens lx rest)"
    by (cases "i < 0") (simp_all add: int_text_def int_tokens_def)
qed

lemma type_lexes:
  assumes "cast_ok S ty" "plain_word (map u_upper (cast_base ty))"
  shows "lexes lx (type_text ty) (type_tokens ty)"
proof -
  have "lexes lx (type_arg_text a) [type_arg_token a]" if "a \<in> set (cast_args ty)" for a
  proof (cases a)
    case (ArgInt i)
    with assms(1) that have "0 \<le> i" by (auto simp: cast_ok_def list_all_iff)
    with ArgInt show ?thesis using int_lexes [of i] by (simp add: type_arg_text_def type_arg_token_def int_tokens_def)
  next
    case ArgMax
    then show ?thesis by (simp add: type_arg_text_def type_arg_token_def lexes_def)
  next
    case (ArgIdent s)
    with assms(1) that show ?thesis by (auto simp: cast_ok_def list_all_iff)
  qed
  then have args: "lexes lx (join_with (lit '', '') (map type_arg_text (cast_args ty))) (listed (map (\<lambda>a. [type_arg_token a]) (cast_args ty)))"
    by (intro lexes_join) (simp add: list_all2_conv_all_nth)
  show ?thesis using lexesD [OF word_lexes [OF assms(2)]] lexesD [OF args] by (auto intro!: lexesI simp: type_text_def type_tokens_def)
qed

section \<open>Trees\<close>

lemma join_texts_lexes:
  assumes "join_texts (map (render_scalar S) vs) = Inr t" "\<And>v t. v \<in> set vs \<Longrightarrow> render_scalar S v = Inr t \<Longrightarrow> lexes lx t (rt_scalar v)"
  shows "lexes lx t (listed (map rt_scalar vs))"
proof -
  obtain ts where "list_all2 (\<lambda>v u. render_scalar S v = Inr u) vs ts" "t = join_with (lit '', '') ts"
    using assms(1) by (auto simp: join_texts_def all_texts_def and_then_Inr_iff try_map_ok list_all2_map1)
  moreover from this(1) assms(2) have "list_all2 (lexes lx) ts (map rt_scalar vs)"
    by (auto simp: list_all2_conv_all_nth)
  ultimately show ?thesis by (auto intro: lexes_join)
qed

lemma arm_texts_Cons:
  "arm_texts ((ra, rb) # arms) = Inr t \<longleftrightarrow>
     (\<exists>a b u. ra = Inr a \<and> rb = Inr b \<and> arm_texts arms = Inr u \<and> t = lit '' WHEN '' @ a @ lit '' THEN '' @ b @ u)"
  unfolding arm_texts_def by (cases ra; cases rb) (auto simp: and_then_Inr_iff)

lemma arm_texts_delim: "arm_texts arms = Inr u \<Longrightarrow> delim rest \<Longrightarrow> delim (u @ rest)"
proof (cases arms)
  case (Cons ab more)
  moreover assume "arm_texts arms = Inr u"
  ultimately show ?thesis by (cases ab) (auto simp: arm_texts_Cons)
qed (simp add: arm_texts_def)

lemma arm_texts_lexes:
  assumes "arm_texts (map (map_prod f g) arms) = Inr t"
    and "\<And>a b t. (a, b) \<in> set arms \<Longrightarrow> f a = Inr t \<Longrightarrow> lexes lx t (x a)" "\<And>a b t. (a, b) \<in> set arms \<Longrightarrow> g b = Inr t \<Longrightarrow> lexes lx t (y b)"
  shows "lexes lx t (arm_tokens (map (map_prod x y) arms))"
  using assms
proof (induction arms arbitrary: t)
  case Nil
  then show ?case by (simp add: arm_texts_def arm_tokens_def lexes_def)
next
  case (Cons ab arms)
  obtain a b where ab: "ab = (a, b)" by (cases ab)
  with Cons.prems(1) obtain ta tb u where r: "f a = Inr ta" "g b = Inr tb" "arm_texts (map (map_prod f g) arms) = Inr u"
    and t: "t = lit '' WHEN '' @ ta @ lit '' THEN '' @ tb @ u" by (auto simp: arm_texts_Cons)
  have u: "lexes lx u (arm_tokens (map (map_prod x y) arms))" by (rule Cons.IH [OF r(3)]) (auto intro: Cons.prems(2,3))
  have la: "lexes lx ta (x a)" and lb: "lexes lx tb (y b)" using Cons.prems(2) [of a b ta] Cons.prems(3) [of a b tb] ab r by simp_all
  show ?case unfolding t ab
    by (rule lexesI) (simp add: arm_tokens_def lexesD [OF la] lexesD [OF lb] lexesD [OF u, unfolded arm_tokens_def] arm_texts_delim [OF r(3)])
qed

lemma finish_case_lexes:
  assumes "finish_case u (map_option (render_scalar S) otherwise) = Inr t" "lexes lx u us"
    and "\<And>v w. otherwise = Some v \<Longrightarrow> render_scalar S v = Inr w \<Longrightarrow> lexes lx w (rt_scalar v)"
  shows "lexes lx t (Mark ''('' # us @ else_tokens (map_option rt_scalar otherwise) @ [kw ''END'', Mark '')''])"
proof (cases otherwise)
  case None
  then have "t = lit ''('' @ u @ lit '' END)''" using assms(1) by (simp add: finish_case_def)
  then show ?thesis by (auto intro!: lexesI simp: None else_tokens_def lexesD [OF assms(2)])
next
  case (Some v)
  then obtain w where w: "render_scalar S v = Inr w" and t: "t = lit ''('' @ u @ lit '' ELSE '' @ w @ lit '' END)''"
    using assms(1) by (auto simp: finish_case_def and_then_Inr_iff)
  show ?thesis unfolding t by (rule lexesI) (simp add: Some else_tokens_def lexesD [OF assms(2)] lexesD [OF assms(3) [OF Some w]])
qed

lemma args_lexes:
  assumes "call_ok S f c" "render_args S c = Inr t"
    and "\<And>v t. v \<in> set (call_values c) \<Longrightarrow> render_scalar S v = Inr t \<Longrightarrow> lexes lx t (rt_scalar v)"
  shows "lexes lx t (rt_args c)"
proof (cases c)
  case (Ordinary vs)
  then show ?thesis using assms(2,3) by (auto intro: join_texts_lexes)
next
  case (Cast v ty)
  then obtain u where u: "render_scalar S v = Inr u" and t: "t = u @ lit '' AS '' @ type_text ty" using assms(2) by (auto simp: and_then_Inr_iff)
  have ty: "lexes lx (type_text ty) (type_tokens ty)"
    using assms(1) Cast type_found [of "map u_upper (cast_base ty)" "cast_args ty" ty] by (intro type_lexes) (auto simp: call_ok_def call_form_ok_def cast_ok_def)
  have "lexes lx u (rt_scalar v)" using assms(3) u Cast by simp
  then show ?thesis unfolding t using ty by (auto intro!: lexesI simp: Cast lexesD)
next
  case (Convert ty v style)
  then obtain u where u: "render_scalar S v = Inr u"
    and t: "t = type_text ty @ lit '', '' @ u @ (case style of None \<Rightarrow> [] | Some n \<Rightarrow> lit '', '' @ int_text n)" using assms(2) by (auto simp: and_then_Inr_iff)
  have ty: "lexes lx (type_text ty) (type_tokens ty)"
    using assms(1) Convert type_found [of "map u_upper (cast_base ty)" "cast_args ty" ty] by (intro type_lexes) (auto simp: call_ok_def call_form_ok_def cast_ok_def)
  have "lexes lx u (rt_scalar v)" using assms(3) u Convert by simp
  then show ?thesis unfolding t using ty by (cases style) (auto intro!: lexesI simp: Convert lexesD lexesD [OF int_lexes])
next
  case (Datepart p vs)
  then obtain u where u: "join_texts (map (render_scalar S) vs) = Inr u" and t: "t = p @ lit '', '' @ u" using assms(2) by (auto simp: and_then_Inr_iff)
  have "lexes lx u (listed (map rt_scalar vs))" using u assms(3) Datepart by (auto intro: join_texts_lexes)
  moreover have "plain_word p" using datepart_found [of f p p] assms(1) Datepart by (simp add: call_ok_def call_form_ok_def)
  ultimately show ?thesis unfolding t by (auto intro!: lexesI simp: Datepart lexesD lexesD [OF word_lexes])
next
  case (Trim direction chars v)
  then obtain u where u: "render_scalar S v = Inr u" using assms(2) by (auto simp: and_then_Inr_iff)
  have lu: "lexes lx u (rt_scalar v)" using assms(3) u Trim by simp
  have dir: "tokens lx ((case direction of None \<Rightarrow> [] | Some d \<Rightarrow> lit d @ lit '' '') @ x) =
      prepend (case direction of None \<Rightarrow> [] | Some d \<Rightarrow> [kw d]) (tokens lx x)" for x
    using assms(1) Trim by (cases direction) (auto simp: call_ok_def call_form_ok_def)
  show ?thesis
  proof (cases chars)
    case None
    then have "t = (case direction of None \<Rightarrow> [] | Some d \<Rightarrow> lit d @ lit '' '') @ u" using assms(2) u Trim by simp
    then show ?thesis using dir by (auto intro!: lexesI simp: Trim None lexesD [OF lu])
  next
    case (Some ch)
    then obtain w where w: "render_scalar S ch = Inr w" using assms(2) Trim by (auto simp: and_then_Inr_iff)
    then have "t = (case direction of None \<Rightarrow> [] | Some d \<Rightarrow> lit d @ lit '' '') @ w @ lit '' FROM '' @ u" using assms(2) u Trim Some by simp
    moreover have "lexes lx w (rt_scalar ch)" using assms(3) w Trim Some by simp
    ultimately show ?thesis using dir by (auto intro!: lexesI simp: Trim Some lexesD [OF lu] lexesD)
  qed
qed

lemma value_lexes:
  assumes ok: "kind_ok S kind" and t: "render_value S kind = Inr t"
    and vs: "\<And>v t. v \<in> set (kind_scalars kind) \<Longrightarrow> render_scalar S v = Inr t \<Longrightarrow> lexes lx t (rt_scalar v)"
    and ps: "\<And>p t. p \<in> set (kind_predicates kind) \<Longrightarrow> render_predicate S p = Inr t \<Longrightarrow> lexes lx t (rt_predicate p)"
  shows "lexes lx t (rt_value kind)"
proof (cases kind)
  case (Number n)
  then show ?thesis using ok t by (auto simp: kind_ok_def intro: number_lexes)
next
  case (String v n)
  then show ?thesis using ok t by (auto simp: kind_ok_def intro: string_lexes)
next
  case Null
  then show ?thesis using t by (auto intro!: lexesI)
next
  case (Column n)
  then show ?thesis using t by (auto intro: ident_lexes)
next
  case (Unary op v)
  then obtain a where a: "render_scalar S v = Inr a" "t = lit ''('' @ lit op @ lit '' '' @ a @ lit '')''" using t by (auto simp: and_then_Inr_iff)
  have "lexes lx a (rt_scalar v)" using vs a Unary by simp
  then show ?thesis using ok unfolding a(2) by (auto intro!: lexesI simp: Unary kind_ok_def lexesD operator_lexes)
next
  case (Binary op v w)
  then obtain a b where a: "render_scalar S v = Inr a" "render_scalar S w = Inr b" "t = lit ''('' @ a @ lit '' '' @ lit op @ lit '' '' @ b @ lit '')''"
    using t by (auto simp: and_then_Inr_iff)
  have l: "lexes lx a (rt_scalar v)" "lexes lx b (rt_scalar w)" using vs a Binary by simp_all
  have "op \<in> {''*'', ''/'', ''%'', ''+'', ''-'', ''='', ''<'', ''>'', ''<='', ''>='', ''<>''}" using ok Binary by (auto simp: kind_ok_def)
  from operator_lexes [OF this] show ?thesis unfolding a(3) by (intro lexesI) (simp add: Binary lexesD [OF l(1)] lexesD [OF l(2)])
next
  case (Call f c)
  then obtain a where a: "render_args S c = Inr a" "t = fn_name f @ lit ''('' @ a @ lit '')''" using t by (auto simp: and_then_Inr_iff)
  have c: "call_ok S f c" using ok Call by (simp add: kind_ok_def)
  have "lexes lx a (rt_args c)" using vs Call by (intro args_lexes [OF c a(1)]) simp
  moreover have "plain_word (fn_name f)" using c function_found [of "fn_name f" f] by (simp add: call_ok_def call_form_ok_def)
  ultimately show ?thesis unfolding a(2) by (auto intro!: lexesI simp: Call lexesD lexesD [OF word_lexes])
next
  case (SimpleCase v arms otherwise)
  then obtain a u where a: "render_scalar S v = Inr a" "arm_texts (map (map_prod (render_scalar S) (render_scalar S)) arms) = Inr u"
    "finish_case (lit ''CASE '' @ a @ u) (map_option (render_scalar S) otherwise) = Inr t" using t by (auto simp: and_then_Inr_iff)
  have "lexes lx a (rt_scalar v)" using vs a(1) SimpleCase by simp
  moreover have "lexes lx u (arm_tokens (map (map_prod rt_scalar rt_scalar) arms))"
  proof (rule arm_texts_lexes [OF a(2)])
    show "lexes lx w (rt_scalar x)" if "(x, y) \<in> set arms" "render_scalar S x = Inr w" for x y w
      using that(1) by (intro vs [OF _ that(2)]) (unfold SimpleCase case_scalars, blast)
    show "lexes lx w (rt_scalar y)" if "(x, y) \<in> set arms" "render_scalar S y = Inr w" for x y w
      using that(1) by (intro vs [OF _ that(2)]) (unfold SimpleCase case_scalars, blast)
  qed
  ultimately have "lexes lx (lit ''CASE '' @ a @ u) (kw ''CASE'' # rt_scalar v @ arm_tokens (map (map_prod rt_scalar rt_scalar) arms))"
    by (intro lexesI) (simp add: lexesD arm_texts_delim [OF a(2)])
  from finish_case_lexes [OF a(3) this] vs show ?thesis by (simp add: SimpleCase)
next
  case (SearchedCase arms otherwise)
  then obtain u where a: "arm_texts (map (map_prod (render_predicate S) (render_scalar S)) arms) = Inr u"
    "finish_case (lit ''CASE'' @ u) (map_option (render_scalar S) otherwise) = Inr t" using t by (auto simp: and_then_Inr_iff)
  have "lexes lx u (arm_tokens (map (map_prod rt_predicate rt_scalar) arms))"
  proof (rule arm_texts_lexes [OF a(1)])
    show "lexes lx w (rt_predicate p)" if "(p, b) \<in> set arms" "render_predicate S p = Inr w" for p b w
      using that ps [of p w] by (force simp: SearchedCase)
    show "lexes lx w (rt_scalar b)" if "(p, b) \<in> set arms" "render_scalar S b = Inr w" for p b w
      using that(1) by (intro vs [OF _ that(2)]) (unfold SearchedCase case_scalars, blast)
  qed
  then have "lexes lx (lit ''CASE'' @ u) (kw ''CASE'' # arm_tokens (map (map_prod rt_predicate rt_scalar) arms))"
    by (intro lexesI) (simp add: lexesD arm_texts_delim [OF a(1)])
  from finish_case_lexes [OF a(2) this] vs show ?thesis by (simp add: SearchedCase)
qed

lemma condition_lexes:
  assumes ok: "condition_ok c" and t: "render_condition S c = Inr t"
    and vs: "\<And>v t. v \<in> set (condition_scalars c) \<Longrightarrow> render_scalar S v = Inr t \<Longrightarrow> lexes lx t (rt_scalar v)"
    and ps: "\<And>p t. p \<in> set (condition_predicates c) \<Longrightarrow> render_predicate S p = Inr t \<Longrightarrow> lexes lx t (rt_predicate p)"
  shows "lexes lx t (rt_condition c)"
proof (cases c)
  case (Compare op v w)
  then obtain a b where a: "render_scalar S v = Inr a" "render_scalar S w = Inr b" "t = a @ lit '' '' @ lit op @ lit '' '' @ b"
    using t by (auto simp: and_then_Inr_iff)
  have l: "lexes lx a (rt_scalar v)" "lexes lx b (rt_scalar w)" using vs a Compare by simp_all
  have "op \<in> {''*'', ''/'', ''%'', ''+'', ''-'', ''='', ''<'', ''>'', ''<='', ''>='', ''<>''}" using ok Compare by (auto simp: condition_ok_def)
  from operator_lexes [OF this] show ?thesis unfolding a(3) by (intro lexesI) (simp add: Compare lexesD [OF l(1)] lexesD [OF l(2)])
next
  case (IsNull v negated)
  then obtain a where a: "render_scalar S v = Inr a" "t = a @ lit '' IS '' @ neg negated @ lit ''NULL''" using t by (auto simp: and_then_Inr_iff)
  have "lexes lx a (rt_scalar v)" using vs a IsNull by simp
  then show ?thesis unfolding a(2) by (intro lexesI) (simp add: IsNull lexesD)
next
  case (InList v ws negated)
  then obtain a b where a: "render_scalar S v = Inr a" "join_texts (map (render_scalar S) ws) = Inr b"
    "t = a @ lit '' '' @ neg negated @ lit ''IN ('' @ b @ lit '')''" using t by (auto simp: and_then_Inr_iff)
  have "lexes lx a (rt_scalar v)" using vs a InList by simp
  moreover have "lexes lx b (listed (map rt_scalar ws))" using vs InList by (intro join_texts_lexes [OF a(2)]) simp
  ultimately show ?thesis unfolding a(3) by (intro lexesI) (simp add: InList lexesD)
next
  case (Between v low high negated)
  then obtain a b d where a: "render_scalar S v = Inr a" "render_scalar S low = Inr b" "render_scalar S high = Inr d"
    "t = a @ lit '' '' @ neg negated @ lit ''BETWEEN '' @ b @ lit '' AND '' @ d" using t by (auto simp: and_then_Inr_iff)
  have "lexes lx a (rt_scalar v)" "lexes lx b (rt_scalar low)" "lexes lx d (rt_scalar high)" using vs a Between by simp_all
  then show ?thesis unfolding a(4) by (intro lexesI) (simp add: Between lexesD)
next
  case (Like v pat escape negated)
  then obtain a b where a: "render_scalar S v = Inr a" "render_scalar S pat = Inr b" using t by (auto simp: and_then_Inr_iff)
  have l: "lexes lx a (rt_scalar v)" "lexes lx b (rt_scalar pat)" using vs a Like by simp_all
  show ?thesis
  proof (cases escape)
    case None
    then have "t = a @ lit '' '' @ neg negated @ lit ''LIKE '' @ b" using t a Like by simp
    then show ?thesis by (auto intro!: lexesI simp: Like None lexesD [OF l(1)] lexesD [OF l(2)])
  next
    case (Some e)
    then obtain d where d: "render_scalar S e = Inr d" using t Like by (auto simp: and_then_Inr_iff)
    then have "t = a @ lit '' '' @ neg negated @ lit ''LIKE '' @ b @ lit '' ESCAPE '' @ d" using t a Like Some by simp
    moreover have "lexes lx d (rt_scalar e)" using vs d Like Some by simp
    ultimately show ?thesis by (auto intro!: lexesI simp: Like Some lexesD [OF l(1)] lexesD [OF l(2)] lexesD)
  qed
next
  case (Not p)
  then obtain a where a: "render_predicate S p = Inr a" "t = lit ''NOT '' @ a" using t by (auto simp: and_then_Inr_iff)
  have "lexes lx a (rt_predicate p)" using ps a Not by simp
  then show ?thesis unfolding a(2) by (intro lexesI) (simp add: Not lexesD)
next
  case (Logic op p q)
  then obtain a b where a: "render_predicate S p = Inr a" "render_predicate S q = Inr b" "t = a @ lit '' '' @ lit op @ lit '' '' @ b"
    using t by (auto simp: and_then_Inr_iff)
  have l: "lexes lx a (rt_predicate p)" "lexes lx b (rt_predicate q)" using ps a Logic by simp_all
  have "op \<in> {''LEADING'', ''TRAILING'', ''BOTH'', ''AND'', ''OR'', ''max''}" using ok Logic by (auto simp: condition_ok_def)
  from word_texts(3) [OF _ this] show ?thesis unfolding a(3) by (intro lexesI) (simp add: Logic lexesD [OF l(1)] lexesD [OF l(2)])
qed

lemma wf_lexes:
  "wf_scalar S k v \<Longrightarrow> render_scalar S v = Inr t \<Longrightarrow> lexes lx t (rt_scalar v)"
  "wf_predicate S k p \<Longrightarrow> render_predicate S p = Inr u \<Longrightarrow> lexes lx u (rt_predicate p)"
proof (induction arbitrary: t and u rule: wf_scalar_wf_predicate.inducts)
  case (wf_scalar_node kind k k')
  then show ?case using value_lexes [of kind t] by simp
next
  case (wf_predicate_node c k)
  then obtain w where w: "render_condition S c = Inr w" "u = lit ''('' @ w @ lit '')''" by (auto simp: and_then_Inr_iff)
  have "lexes lx w (rt_condition c)" using wf_predicate_node by (intro condition_lexes [OF _ w(1)]) simp_all
  then show ?case unfolding w(2) by (intro lexesI) (simp add: lexesD)
qed

text \<open>The written text of a well-formed tree is read as the tree.\<close>

lemma written_reads_back:
  assumes "wf_predicate S 10 p" "render_predicate S p = Inr t"
  shows "read_predicate S t = Inr p"
  unfolding read_predicate_def lexes_all [OF wf_lexes(2) [OF assms]] by (simp add: tokens_read_back [OF assms(1)])

end

end
