(* ===== verification/Pred_Sound.thy ===== *)
theory Pred_Sound
  imports Pred_Text
begin

text \<open>
  The trees the reader builds are well-formed: every production checks what \<open>wf_scalar\<close> and \<open>wf_predicate\<close> ask of its node.
\<close>

section \<open>Tokens\<close>

primrec tok_ok :: "token \<Rightarrow> bool" where
  "tok_ok (Word w quoted) \<longleftrightarrow> True"
| "tok_ok (Num n) \<longleftrightarrow> number_ok n"
| "tok_ok (Str v national) \<longleftrightarrow> 0 \<notin> set v"
| "tok_ok (Mark m) \<longleftrightarrow> True"

lemma quoted_piece_chars:
  "quoted_piece close t = Some (v, rest) \<Longrightarrow> set v \<subseteq> set (take (length t - length rest) t)"
proof -
  have "\<exists>used. t = used @ rest \<and> set v \<subseteq> set used" if "quoted_piece close t = Some (v, rest)"
    using that
  proof (induction close t arbitrary: v rest rule: quoted_piece.induct)
    case (3 close c d cs)
    consider "c = close" "d = close" | "c = close" "d \<noteq> close" | "c \<noteq> close" by blast
    then show ?case
    proof cases
      case 1
      with "3.prems" obtain v' where "quoted_piece close cs = Some (v', rest)" "v = close # v'" by auto
      with "3.IH"(1) 1 obtain used where "cs = used @ rest" "set v' \<subseteq> set used" by blast
      with 1 \<open>v = close # v'\<close> show ?thesis by (intro exI [of _ "c # d # used"]) auto
    next
      case 2
      with "3.prems" show ?thesis by (intro exI [of _ "[c]"]) auto
    next
      case 3
      with "3.prems" obtain v' where "quoted_piece close (d # cs) = Some (v', rest)" "v = c # v'" by auto
      with "3.IH"(2) 3 obtain used where "d # cs = used @ rest" "set v' \<subseteq> set used" by blast
      with \<open>v = c # v'\<close> show ?thesis by (intro exI [of _ "c # used"]) auto
    qed
  qed (auto split: if_splits)
  then show "quoted_piece close t = Some (v, rest) \<Longrightarrow> set v \<subseteq> set (take (length t - length rest) t)" by fastforce
qed

text \<open>A number is its digits, fraction and exponent, and is scanned to its end.\<close>

lemma scan_digits_stop: "list_all u_digit ds \<Longrightarrow> t = [] \<or> \<not> u_digit (hd t) \<Longrightarrow> scan_digits (ds @ t) = (ds, t)"
  by (induction ds) (cases t; auto simp: scan_digits_def)+

definition fraction_ok :: "utext \<Rightarrow> bool" where
  "fraction_ok f \<longleftrightarrow> f = [] \<or> hd f = 46 \<and> list_all u_digit (tl f)"

definition exponent_ok :: "utext \<Rightarrow> bool" where
  "exponent_ok e \<longleftrightarrow> e = [] \<or> (\<exists>sign ds. e = 69 # sign @ ds \<and> sign \<in> {[], [43], [45]} \<and> ds \<noteq> [] \<and> list_all u_digit ds)"

lemma exponent_scans: "exponent_ok e \<Longrightarrow> scan_exponent e = Inr (e, [])"
proof -
  assume "exponent_ok e"
  then consider "e = []" | sign ds where "e = 69 # sign @ ds" "sign \<in> {[], [43], [45]}" "ds \<noteq> []" "list_all u_digit ds"
    unfolding exponent_ok_def by blast
  then show ?thesis
  proof cases
    case 1
    then show ?thesis by (simp add: scan_exponent_def)
  next
    case 2
    have "scan_digits ds = (ds, [])" using scan_digits_stop [OF 2(4), of "[]"] by simp
    moreover have "hd ds \<noteq> 43" "hd ds \<noteq> 45" using 2(3,4) by (auto simp: list_all_iff u_digit_def dest!: hd_in_set)
    ultimately show ?thesis using 2 by (cases ds) (auto simp: scan_exponent_def)
  qed
qed

lemma exponent_head: "exponent_ok e \<Longrightarrow> e = [] \<or> hd e = 69"
  by (auto simp: exponent_ok_def)

lemma parts_scan:
  assumes "list_all u_digit w" "fraction_ok f" "exponent_ok e"
  shows "scan_number (w @ f @ e) = Inr (w @ f @ e, [])"
proof -
  have e: "e = [] \<or> \<not> u_digit (hd e)" "e = [] \<or> hd e \<noteq> 46" using exponent_head [OF assms(3)] by (auto simp: u_digit_def)
  have "f @ e = [] \<or> \<not> u_digit (hd (f @ e))" using assms(2) e(1) by (cases f) (auto simp: fraction_ok_def u_digit_def)
  then have "scan_digits (w @ f @ e) = (w, f @ e)" by (rule scan_digits_stop [OF assms(1)])
  moreover have "scan_fraction (f @ e) = (f, e)"
    using assms(2) e scan_digits_stop [OF _ e(1), of "tl f"] by (cases f; cases e) (auto simp: fraction_ok_def scan_fraction_def)
  ultimately show ?thesis using exponent_scans [OF assms(3)] by (simp add: scan_number_def)
qed

lemma upper_digits: "list_all u_digit ds \<Longrightarrow> map u_upper ds = ds"
  by (induction ds) (auto simp: u_upper_def u_digit_def)

lemma scanned_digits: "list_all u_digit (fst (scan_digits t))"
  by (auto simp: scan_digits_def list_all_iff dest: set_takeWhileD)

lemma scanned_fraction: "fraction_ok (fst (scan_fraction t)) \<and> map u_upper (fst (scan_fraction t)) = fst (scan_fraction t)"
  using scanned_digits [of "tl t"] upper_digits [OF scanned_digits, of "tl t"]
  by (cases t) (auto simp: scan_fraction_def fraction_ok_def u_upper_def split: prod.splits)

lemma scanned_exponent: "scan_exponent t = Inr (e, rest) \<Longrightarrow> exponent_ok (map u_upper e)"
proof (cases t)
  case (Cons c cs)
  assume s: "scan_exponent t = Inr (e, rest)"
  show ?thesis
  proof (cases "c = 101 \<or> c = 69")
    case True
    obtain sign u where p: "(case cs of d # ds \<Rightarrow> if d = 43 \<or> d = 45 then ([d], ds) else ([], cs) | [] \<Rightarrow> ([], [])) = (sign, u)" by (rule prod.exhaust)
    have "sign \<in> {[], [43], [45]}" using p by (auto split: list.splits if_splits)
    moreover from this have "map u_upper sign = sign" by (auto simp: u_upper_def)
    moreover have "e = c # sign @ fst (scan_digits u)" "fst (scan_digits u) \<noteq> []"
      using s True unfolding Cons scan_exponent_def list.case p by (auto split: prod.splits if_splits)
    ultimately show ?thesis using True scanned_digits [of u] upper_digits [OF scanned_digits, of u]
      unfolding exponent_ok_def by (intro disjI2 exI [of _ sign] exI [of _ "fst (scan_digits u)"]) (auto simp: u_upper_def)
  qed (use s Cons in \<open>auto simp: scan_exponent_def exponent_ok_def\<close>)
qed (simp add: scan_exponent_def exponent_ok_def)

lemma upper_upper: "map u_upper (map u_upper n) = map u_upper n"
  by (auto simp: u_upper_def)

lemma scanned_number:
  assumes "scan_number t = Inr (n, rest)" "u_digit (hd t) \<or> hd t = 46 \<and> tl t \<noteq> [] \<and> u_digit (hd (tl t))" "t \<noteq> []"
  shows "number_ok (map u_upper n)"
proof -
  define w where "w = fst (scan_digits t)"
  define f where "f = fst (scan_fraction (snd (scan_digits t)))"
  obtain e where e: "scan_exponent (snd (scan_fraction (snd (scan_digits t)))) = Inr (e, rest)" and n: "n = w @ f @ e"
    using assms(1) unfolding scan_number_iff w_def f_def by blast
  have "map u_upper n = w @ f @ map u_upper e"
    unfolding n w_def f_def using upper_digits [OF scanned_digits] scanned_fraction by simp
  moreover note upper_upper [of n]
  moreover have "scan_number (w @ f @ map u_upper e) = Inr (w @ f @ map u_upper e, [])"
    unfolding w_def f_def by (intro parts_scan scanned_digits scanned_fraction [THEN conjunct1] scanned_exponent [OF e])
  moreover have "(w \<noteq> [] \<and> u_digit (hd w)) \<or> (w = [] \<and> f \<noteq> [] \<and> hd f = 46 \<and> tl f \<noteq> [] \<and> u_digit (hd (tl f)))"
    using assms(2,3) unfolding w_def f_def by (cases t; cases "tl t") (auto simp: scan_digits_def scan_fraction_def u_digit_def)
  ultimately show ?thesis unfolding number_ok_def by (cases w; cases f) (auto simp: hd_append)
qed

lemma next_token_ok:
  assumes "next_token lx t = Inr (tok, rest)" "t \<noteq> []" "0 \<notin> set (take (length t - length rest) t)"
  shows "tok_ok tok"
proof (cases tok)
  case (Num n)
  then obtain m where m: "scan_number t = Inr (m, rest)" "n = map u_upper m"
    and h: "u_digit (hd t) \<or> hd t = 46 \<and> (case tl t of [] \<Rightarrow> False | d # _ \<Rightarrow> u_digit d)"
    using assms(1) by (auto simp: next_token_def Let_def split: if_splits option.splits sum.splits)
  have "u_digit (hd t) \<or> hd t = 46 \<and> tl t \<noteq> [] \<and> u_digit (hd (tl t))" using h by (cases "tl t") auto
  from scanned_number [OF m(1) this assms(2)] show ?thesis by (simp add: Num m(2))
next
  case (Str v national)
  then obtain k where q: "quoted_piece 39 (drop k t) = Some (v, rest)"
    using assms(1) by (auto simp: next_token_def Let_def split: if_splits option.splits sum.splits)
  have "set (take (length (drop k t) - length rest) (drop k t)) \<subseteq> set (take (length t - length rest) t)"
  proof -
    have "take (length (drop k t) - length rest) (drop k t) = drop k (take (length t - length rest) t)"
      using quoted_piece_shorter [OF q] by (simp add: take_drop)
    then show ?thesis by (metis set_drop_subset)
  qed
  with quoted_piece_chars [OF q] assms(3) show ?thesis by (auto simp: Str)
qed simp_all

lemma tokens_ok: "tokens lx t = Inr ts \<Longrightarrow> list_all tok_ok ts"
proof (induction lx t arbitrary: ts rule: tokens.induct)
  case (1 lx t)
  show ?case
  proof (cases "t = [] \<or> is_definition_whitespace lx (hd t) \<or> prefix (lit ''--'') t \<or> prefix (lit ''/*'') t")
    case True
    then show ?thesis using "1.prems" "1.IH"(1-3) by (subst (asm) (1) tokens.simps) (auto split: if_splits option.splits)
  next
    case False
    then obtain tok rest us where n: "next_token lx t = Inr (tok, rest)" "0 \<notin> set (take (length t - length rest) t)"
      "tokens lx rest = Inr us" "ts = tok # us"
      using "1.prems" by (subst (asm) (1) tokens.simps) (auto split: if_splits sum.splits)
    with False have "list_all tok_ok us" using "1.IH"(4) by simp
    with n next_token_ok [OF n(1)] False show ?thesis by simp
  qed
qed

section \<open>Results\<close>

definition gives :: "('a \<Rightarrow> bool) \<Rightarrow> (perror, 'a) result \<Rightarrow> bool" where
  "gives P r \<longleftrightarrow> (\<forall>x. r = Inr x \<longrightarrow> P x)"

named_theorems gives_intros \<open>how results with a property compose\<close>

lemma gives_Inr [gives_intros]: "P x \<Longrightarrow> gives P (Inr x)"
  by (simp add: gives_def)

lemma gives_Inl [gives_intros]: "gives P (Inl e)"
  by (simp add: gives_def)

lemma gives_Inr_iff [simp]: "gives P (Inr x) \<longleftrightarrow> P x"
  by (simp add: gives_def)

lemma gives_if [gives_intros]: "(b \<Longrightarrow> gives P x) \<Longrightarrow> (\<not> b \<Longrightarrow> gives P y) \<Longrightarrow> gives P (if b then x else y)"
  by simp

lemma gives_then: "gives P r \<Longrightarrow> (\<And>x. P x \<Longrightarrow> gives Q (g x)) \<Longrightarrow> gives Q (and_then r g)"
  by (auto simp: gives_def and_then_Inr_iff)

lemma gives_and_then: "gives (\<lambda>(a, b). P a b) r \<Longrightarrow> (\<And>a b. P a b \<Longrightarrow> gives Q (g a b)) \<Longrightarrow> gives Q (and_then r (\<lambda>(a, b). g a b))"
  by (auto simp: gives_def and_then_Inr_iff)

lemma gives_mono: "gives P r \<Longrightarrow> (\<And>x. P x \<Longrightarrow> Q x) \<Longrightarrow> gives Q r"
  by (auto simp: gives_def)

lemma gives_eat [gives_intros]:
  "list_all tok_ok ts \<Longrightarrow> (\<And>rest. list_all tok_ok rest \<Longrightarrow> gives P (g rest)) \<Longrightarrow> (gives P d) \<Longrightarrow>
   gives P (case eat w ts of None \<Rightarrow> d | Some rest \<Rightarrow> g rest)"
  by (cases ts) (auto simp: eat_def is_tok_def)

lemma gives_expect [gives_intros]:
  "list_all tok_ok ts \<Longrightarrow> (\<And>rest. list_all tok_ok rest \<Longrightarrow> gives P (g rest)) \<Longrightarrow> gives P (and_then (expect w ts) g)"
  by (cases ts) (auto simp: expect_def eat_def is_tok_def gives_def)

lemma gives_ok_or [gives_intros]: "(\<And>v. x = Some v \<Longrightarrow> gives P (g v)) \<Longrightarrow> gives P (and_then (ok_or x e) g)"
  by (cases x) (auto simp: gives_def)

primrec wf_term :: "dialect_syntax \<Rightarrow> nat \<Rightarrow> pratt_term \<Rightarrow> bool" where
  "wf_term S k (TValue v) \<longleftrightarrow> wf_scalar S k v"
| "wf_term S k (TTest p) \<longleftrightarrow> wf_predicate S k p"

lemma gives_as [gives_intros]:
  "wf_term S k t \<Longrightarrow> (\<And>v. wf_scalar S k v \<Longrightarrow> gives P (g v)) \<Longrightarrow> gives P (and_then (as_value t) g)"
  "wf_term S k t \<Longrightarrow> (\<And>p. wf_predicate S k p \<Longrightarrow> gives P (h p)) \<Longrightarrow> gives P (and_then (as_test t) h)"
  by (cases t; simp add: gives_def)+

lemma gives_make_scalar:
  assumes "kind_ok S kind" "below kind k = Some k'" "list_all (wf_scalar S k') (kind_scalars kind)" "list_all (wf_predicate S k') (kind_predicates kind)"
    and "\<And>v. wf_scalar S k v \<Longrightarrow> gives P (g v)"
  shows "gives P (and_then (make_scalar kind) g)"
  using wf_scalar_node [OF assms(1,2)] assms(3-5) by (auto simp: make_scalar_def node_def gives_def list_all_iff)

lemma gives_make_predicate:
  assumes "condition_ok c" "list_all (wf_scalar S k) (condition_scalars c)" "list_all (wf_predicate S k) (condition_predicates c)"
    and "\<And>p. wf_predicate S k p \<Longrightarrow> gives P (g p)"
  shows "gives P (and_then (make_predicate c) g)"
  using wf_predicate_node [OF assms(1), of S k] assms(2-4) by (auto simp: make_predicate_def node_def gives_def list_all_iff)

section \<open>The reader\<close>

text \<open>A reader whose results are well-formed, with the CASE levels that \<open>cases\<close> leaves.\<close>

definition reads_wf :: "dialect_syntax \<Rightarrow> reader \<Rightarrow> bool" where
  "reads_wf S ex \<longleftrightarrow>
     (\<forall>least nesting cases ts. list_all tok_ok ts \<longrightarrow>
        gives (\<lambda>(t, rest). wf_term S (10 - cases) t \<and> list_all tok_ok rest) (ex least nesting cases ts))"

definition rest_ok :: "('a \<Rightarrow> bool) \<Rightarrow> 'a \<times> token list \<Rightarrow> bool" where
  "rest_ok P = (\<lambda>(x, rest). P x \<and> list_all tok_ok rest)"

lemma rest_ok_simp [simp]: "rest_ok P (x, rest) \<longleftrightarrow> P x \<and> list_all tok_ok rest"
  by (simp add: rest_ok_def)

lemma gives_rest:
  "gives (rest_ok P) r \<Longrightarrow> (\<And>x rest. P x \<Longrightarrow> list_all tok_ok rest \<Longrightarrow> gives Q (g x rest)) \<Longrightarrow> gives Q (and_then r (\<lambda>(x, rest). g x rest))"
  by (auto simp: gives_def and_then_Inr_iff)

lemma gives_ex: "reads_wf S ex \<Longrightarrow> list_all tok_ok ts \<Longrightarrow> gives (rest_ok (wf_term S (10 - cases))) (ex least nesting cases ts)"
  by (simp add: reads_wf_def rest_ok_def)

lemma gives_parse_value:
  assumes "reads_wf S ex" "list_all tok_ok ts"
  shows "gives (rest_ok (wf_scalar S (10 - cases))) (parse_value ex nesting cases ts)"
  unfolding parse_value_def by (rule gives_rest [OF gives_ex [OF assms, where cases = cases]]) (auto intro!: gives_intros)

lemma gives_list_items:
  assumes "reads_wf S ex" "list_all tok_ok ts"
  shows "gives (rest_ok (list_all (wf_scalar S (10 - cases)))) (list_items f ex nesting cases ts)"
  using assms(2)
proof (induction f arbitrary: ts)
  case (Suc f)
  show ?case unfolding list_items.simps
  proof (rule gives_rest [OF gives_parse_value [OF assms(1) Suc.prems]], intro gives_intros)
    fix v and rest rest' assume "wf_scalar S (10 - cases) v" "list_all tok_ok rest'"
    then show "gives (rest_ok (list_all (wf_scalar S (10 - cases)))) (and_then (list_items f ex nesting cases rest') (\<lambda>(vs, ts). Inr (v # vs, ts)))"
      by (intro gives_rest [OF Suc.IH] gives_intros) simp_all
  qed simp_all
qed (simp add: gives_def)

lemma gives_parse_list:
  assumes "reads_wf S ex" "list_all tok_ok ts"
  shows "gives (rest_ok (list_all (wf_scalar S (10 - cases)))) (parse_list ex nesting cases ts)"
  unfolding parse_list_def using gives_list_items [OF assms] assms(2) by (auto intro!: gives_intros simp del: list_items.simps)

lemma eat_not_ok: "list_all tok_ok ts \<Longrightarrow> eat_not ts = (negated, rest) \<Longrightarrow> list_all tok_ok rest"
  by (cases ts) (auto simp: eat_not_def eat_def split: if_splits)

lemma gives_parse_test:
  assumes ex: "reads_wf S ex" and ts: "list_all tok_ok ts" and v: "wf_scalar S (10 - cases) v"
  shows "gives (rest_ok (wf_predicate S (10 - cases))) (parse_test ex nesting cases v ts)"
proof -
  let ?made = "rest_ok (\<lambda>c. condition_ok c \<and> list_all (wf_scalar S (10 - cases)) (condition_scalars c) \<and> condition_predicates c = [])"
  have make: "gives (rest_ok (wf_predicate S (10 - cases))) (and_then (make_predicate c) (\<lambda>p. Inr (p, us)))"
    if "condition_ok c \<and> list_all (wf_scalar S (10 - cases)) (condition_scalars c) \<and> condition_predicates c = []" "list_all tok_ok us" for c us
    using that by (intro gives_make_predicate [of c S "10 - cases"] gives_intros) simp_all
  have eat_not: "gives P (case eat_not us of (n, us) \<Rightarrow> g n us)" if "list_all tok_ok us" "\<And>n us. list_all tok_ok us \<Longrightarrow> gives P (g n us)"
    for P :: "'z \<Rightarrow> bool" and us g
    using that by (cases "eat_not us") (auto dest: eat_not_ok)
  have pv: "gives (rest_ok (wf_scalar S (10 - cases))) (parse_value ex nesting cases us)" if "list_all tok_ok us" for us
    by (rule gives_parse_value [OF ex that])
  have inl: "gives ?made (and_then (expect ''('' us) (\<lambda>ts. and_then (parse_list ex nesting cases ts) (\<lambda>(vs, ts). and_then (expect '')'' ts) (\<lambda>ts.
      if vs = [] then Inl Empty_list else Inr (InList v vs n, ts)))))" if "list_all tok_ok us" for us n
    using that v by (intro gives_intros gives_rest [OF gives_parse_list [OF ex, where cases = cases]]) (simp_all add: condition_ok_def)
  have bet: "gives ?made (and_then (parse_value ex nesting cases us) (\<lambda>(low, ts). and_then (expect ''AND'' ts) (\<lambda>ts.
      and_then (parse_value ex nesting cases ts) (\<lambda>(high, ts). Inr (Between v low high n, ts)))))" if "list_all tok_ok us" for us n
    using that v by (intro gives_intros gives_rest [OF pv]) (simp_all add: condition_ok_def)
  have like: "gives ?made (and_then (parse_value ex nesting cases us) (\<lambda>(pat, ts). case eat ''ESCAPE'' ts of
      Some ts \<Rightarrow> and_then (parse_value ex nesting cases ts) (\<lambda>(e, ts). Inr (Like v pat (Some e) n, ts))
    | None \<Rightarrow> Inr (Like v pat None n, ts)))" if "list_all tok_ok us" for us n
    using that v by (intro gives_intros gives_rest [OF pv]) (simp_all add: condition_ok_def)
  show ?thesis unfolding parse_test_def
    using v ts by (intro gives_intros eat_not make gives_rest [where P = "\<lambda>c. condition_ok c \<and> list_all (wf_scalar S (10 - cases)) (condition_scalars c) \<and>
      condition_predicates c = []"] inl bet like) (simp_all add: condition_ok_def)
qed

lemma gives_unquoted_word: "list_all tok_ok ts \<Longrightarrow> gives (rest_ok (\<lambda>w. True)) (unquoted_word ts)"
  by (auto simp: unquoted_word_def gives_def split: list.splits token.splits bool.splits)

lemma gives_parse_style: "list_all tok_ok ts \<Longrightarrow> gives (rest_ok (\<lambda>i. - (2 ^ 31) \<le> i \<and> i < 2 ^ 31)) (parse_style ts)"
proof -
  have "parse_int 32 negative n = Some i \<Longrightarrow> - (2 ^ 31) \<le> i \<and> i < 2 ^ 31" for negative n i
    by (auto simp: parse_int_def Let_def split: if_splits)
  then show "list_all tok_ok ts \<Longrightarrow> gives (rest_ok (\<lambda>i. - (2 ^ 31) \<le> i \<and> i < 2 ^ 31)) (parse_style ts)"
    by (cases ts) (auto simp: parse_style_def gives_def eat_def split: option.splits list.splits token.splits if_splits prod.splits)
qed

lemma type_words_ok: "list_all tok_ok ts \<Longrightarrow> type_words name ts = (w, rest) \<Longrightarrow> list_all tok_ok rest"
  by (induction name ts rule: type_words.induct) (auto split: if_splits)

lemma gives_type_args: "list_all tok_ok ts \<Longrightarrow> gives (rest_ok (\<lambda>as. True)) (type_args f ts)"
proof (induction f arbitrary: ts)
  case (Suc f)
  have "gives (rest_ok (\<lambda>a. True)) (type_arg_at ts)"
    unfolding type_arg_at_def using Suc.prems by (intro gives_intros) (auto simp: gives_def split: list.splits token.splits option.splits)
  then show ?case unfolding type_args.simps using Suc.prems by (intro gives_rest gives_intros gives_rest [OF Suc.IH]) simp_all
qed (simp add: gives_def)

context predicate_text
begin

lemma gives_parse_type: "list_all tok_ok ts \<Longrightarrow> gives (rest_ok (cast_ok S)) (parse_type S ts)"
  unfolding parse_type_def
proof (rule gives_rest [OF gives_unquoted_word], assumption)
  fix w and rest :: "token list" assume "list_all tok_ok rest"
  then obtain name us where n: "type_words w rest = (name, us)" "list_all tok_ok us" using type_words_ok by (cases "type_words w rest") blast
  have "gives (rest_ok (\<lambda>as. True)) (case eat ''('' us of None \<Rightarrow> Inr ([], us)
      | Some ts \<Rightarrow> and_then (type_args (length ts + 1) ts) (\<lambda>(args, ts). and_then (expect '')'' ts) (\<lambda>ts. Inr (args, ts))))"
    using n(2) by (intro gives_intros gives_rest [OF gives_type_args]) simp_all
  then have "gives (rest_ok (cast_ok S)) (and_then (case eat ''('' us of None \<Rightarrow> Inr ([], us)
      | Some ts \<Rightarrow> and_then (type_args (length ts + 1) ts) (\<lambda>(args, ts). and_then (expect '')'' ts) (\<lambda>ts. Inr (args, ts))))
      (\<lambda>(args, ts). and_then (find_cast_type S name args) (\<lambda>t. Inr (t, ts))))"
    by (rule gives_rest) (auto simp: gives_def and_then_Inr_iff dest: type_found)
  then show "gives (rest_ok (cast_ok S)) (case type_words w rest of (name, ts) \<Rightarrow> and_then (case eat ''('' ts of None \<Rightarrow> Inr ([], ts)
      | Some ts \<Rightarrow> and_then (type_args (length ts + 1) ts) (\<lambda>(args, ts). and_then (expect '')'' ts) (\<lambda>ts. Inr (args, ts))))
      (\<lambda>(args, ts). and_then (find_cast_type S name args) (\<lambda>t. Inr (t, ts))))" by (simp add: n(1))
qed

lemma trim_direction_ok:
  assumes "list_all tok_ok ts" "trim_direction ts = (direction, rest)"
  shows "list_all tok_ok rest" "case direction of None \<Rightarrow> True | Some d \<Rightarrow> d \<in> {''LEADING'', ''TRAILING'', ''BOTH''}"
  using assms by (cases ts; auto simp: trim_direction_def split: option.splits if_splits)+

lemma gives_parse_call:
  assumes ex: "reads_wf S ex" and ts: "list_all tok_ok ts"
  shows "gives (rest_ok (\<lambda>c. call_form_ok S fn c \<and> list_all (wf_scalar S (10 - cases)) (call_values c))) (parse_call S ex nesting cases fn ts)"
proof -
  note pv = gives_rest [OF gives_parse_value [OF ex, where cases = cases]]
  note pl = gives_rest [OF gives_parse_list [OF ex, where cases = cases]]
  note pt = gives_rest [OF gives_parse_type]
  show ?thesis
  proof (cases "fn_form fn")
    case Ordinary_form
    then show ?thesis unfolding parse_call_def using ts by (auto intro!: pl gives_intros simp: call_form_ok_def)
  next
    case Cast_form
    then show ?thesis unfolding parse_call_def using ts by (auto intro!: pv pt gives_intros simp: call_form_ok_def)
  next
    case Convert_form
    then show ?thesis unfolding parse_call_def using ts
      by (auto intro!: pv pt gives_rest [OF gives_parse_style] gives_intros simp: call_form_ok_def)
  next
    case Datepart_form
    then show ?thesis unfolding parse_call_def using ts
      by (auto intro!: pl gives_rest [OF gives_unquoted_word] gives_intros simp: call_form_ok_def dest: datepart_found)
  next
    case Trim_form
    obtain direction us where d: "trim_direction ts = (direction, us)" by (rule prod.exhaust)
    show ?thesis unfolding parse_call_def using trim_direction_ok [OF ts d] Trim_form
      by (auto intro!: pv gives_intros simp: call_form_ok_def d split: option.splits)
  qed
qed

lemma gives_case_arms:
  assumes ex: "reads_wf S ex" and "list_all tok_ok ts"
  shows "gives (rest_ok (\<lambda>(simple, searched).
      list_all (wf_scalar S (10 - cases)) (map fst simple @ map snd simple @ map snd searched) \<and> list_all (wf_predicate S (10 - cases)) (map fst searched) \<and>
      (simple_case \<longrightarrow> searched = []) \<and> (\<not> simple_case \<longrightarrow> simple = [])))
    (case_arms f ex nesting cases simple_case ts)"
  using assms(2)
proof (induction f arbitrary: ts)
  case (Suc f)
  note pv = gives_rest [OF gives_parse_value [OF ex, where cases = cases]]
  note pe = gives_rest [OF gives_ex [OF ex, where cases = cases]]
  note as = gives_as [where k = "10 - cases" and S = S]
  show ?case unfolding case_arms.simps using Suc.prems
    by (intro gives_intros pe pv as gives_rest [OF Suc.IH]; auto split: prod.splits)
qed (simp add: gives_def)

lemma gives_parse_case:
  assumes ex: "reads_wf S ex" and ts: "list_all tok_ok ts"
  shows "gives (rest_ok (wf_scalar S (10 - cases0))) (parse_case ex nesting cases0 ts)"
proof (cases "cases0 + 1 > 10")
  case False
  note pv = gives_rest [OF gives_parse_value [OF ex, where cases = "cases0 + 1"]]
  have made: "gives (rest_ok (wf_scalar S (10 - cases0))) (and_then (make_scalar kind) (\<lambda>v. Inr (v, us)))"
    if "kind_ok S kind" "below kind (10 - cases0) = Some (10 - (cases0 + 1))" "list_all (wf_scalar S (10 - (cases0 + 1))) (kind_scalars kind)"
      "list_all (wf_predicate S (10 - (cases0 + 1))) (kind_predicates kind)" "list_all tok_ok us" for kind us
    by (rule gives_make_scalar [OF that(1-4)]) (use that(5) in simp)
  let ?opt = "\<lambda>v. list_all (wf_scalar S (10 - (cases0 + 1))) (case v of None \<Rightarrow> [] | Some e \<Rightarrow> [e])"
  have input: "gives (rest_ok ?opt) (if is_tok ''WHEN'' ts then Inr (None, ts)
      else and_then (parse_value ex nesting (cases0 + 1) ts) (\<lambda>(v, ts). Inr (Some v, ts)))"
    using ts by (intro gives_intros pv) simp_all
  have otherwise: "gives (rest_ok ?opt) (case eat ''ELSE'' us of
      Some ts \<Rightarrow> and_then (parse_value ex nesting (cases0 + 1) ts) (\<lambda>(v, ts). Inr (Some v, ts)) | None \<Rightarrow> Inr (None, us))"
    if "list_all tok_ok us" for us
    using that by (intro gives_intros pv) simp_all
  note arms = gives_rest [OF gives_case_arms [OF ex, where cases = "cases0 + 1"]]
  have body: "gives (rest_ok (wf_scalar S (10 - cases0))) (and_then (case_arms m ex nesting (cases0 + 1) (input \<noteq> None) us) (\<lambda>((simple, searched), ts).
        if simple = [] \<and> searched = [] then Inl Case_arms
        else and_then
          (case eat ''ELSE'' ts of
             Some ts \<Rightarrow> and_then (parse_value ex nesting (cases0 + 1) ts) (\<lambda>(v, ts). Inr (Some v, ts))
           | None \<Rightarrow> Inr (None, ts))
          (\<lambda>(otherwise, ts). and_then (expect ''END'' ts) (\<lambda>ts. and_then
          (make_scalar (case input of Some v \<Rightarrow> SimpleCase v simple otherwise | None \<Rightarrow> SearchedCase searched otherwise))
          (\<lambda>v. Inr (v, ts))))))" if "?opt input" "list_all tok_ok us" for input us m
  proof (rule arms [OF that(2)], clarify, intro gives_intros gives_rest [OF otherwise] made, goal_cases)
  qed (use False that(1) in \<open>auto simp: kind_ok_def below_def split: option.splits\<close>)
  show ?thesis unfolding parse_case_def Let_def if_not_P [OF False] by (rule gives_rest [OF input]) (rule body)
qed (simp add: parse_case_def gives_def)

lemma gives_parse_primary:
  assumes ex: "reads_wf S ex" and ts: "list_all tok_ok ts"
  shows "gives (rest_ok (wf_scalar S (10 - cases))) (parse_primary S ex nesting cases ts)"
proof -
  let ?made = "rest_ok (\<lambda>kind. kind_ok S kind \<and> below kind (10 - cases) = Some (10 - cases) \<and>
    list_all (wf_scalar S (10 - cases)) (kind_scalars kind) \<and> kind_predicates kind = [])"
  have make: "gives (rest_ok (wf_scalar S (10 - cases))) (and_then (make_scalar kind) (\<lambda>v. Inr (v, us)))"
    if "kind_ok S kind \<and> below kind (10 - cases) = Some (10 - cases) \<and> list_all (wf_scalar S (10 - cases)) (kind_scalars kind) \<and>
      kind_predicates kind = []" "list_all tok_ok us" for kind us
    using that by (intro gives_make_scalar [of S kind "10 - cases" "10 - cases"]) simp_all
  have call: "gives ?made (and_then (ok_or (find_function S w) Not_allowlisted) (\<lambda>fn. and_then (parse_call S ex nesting cases fn us) (\<lambda>(c, ts).
      and_then (expect '')'' ts) (\<lambda>ts. if \<not> arity_ok fn c then Inl (Invalid_arity (fn_name fn)) else Inr (Call fn c, ts)))))"
    if "list_all tok_ok us" for w us
    using that by (intro gives_intros gives_rest [OF gives_parse_call [OF ex, where cases = cases]])
      (auto simp: kind_ok_def call_ok_def below_def dest: function_found)
  have column: "gives ?made (Inr (Column w, us))" if "list_all tok_ok us" for w us using that by (simp add: kind_ok_def below_def)
  have token: "gives ?made (token_value S ex nesting cases tok us)" if "list_all tok_ok us" "tok_ok tok" for tok us
  proof (cases tok)
    case (Word w quoted)
    have "gives ?made (if b then Inl e else Inr (Column w, us))" for b e using column [OF that(1)] by (intro gives_if gives_Inl)
    then show ?thesis unfolding token_value_def Word token.case
      by (cases quoted) (simp_all only: if_True if_False option.case, rule gives_eat [OF that(1) call])
  qed (use that in \<open>auto simp: token_value_def kind_ok_def below_def gives_Inl\<close>)
  have rest: "gives (rest_ok (wf_scalar S (10 - cases))) (case ts of [] \<Rightarrow> Inl Missing_expression
      | tok # us \<Rightarrow> and_then (token_value S ex nesting cases tok us) (\<lambda>(kind, ts). and_then (make_scalar kind) (\<lambda>v. Inr (v, ts))))"
  proof (cases ts)
    case (Cons tok us)
    show ?thesis unfolding Cons list.case by (rule gives_rest [OF token make]) (use ts Cons in simp_all)
  qed (simp add: gives_def)
  show ?thesis unfolding parse_primary_def
    by (intro gives_intros ts rest gives_parse_case [OF ex] make) (simp_all add: kind_ok_def below_def)
qed

lemma gives_prefix_term:
  assumes ex: "reads_wf S ex" and ts: "list_all tok_ok ts"
  shows "gives (rest_ok (wf_term S (10 - cases))) (prefix_term S ex nesting cases ts)"
proof -
  note pe = gives_rest [OF gives_ex [OF ex, where cases = cases]]
  note as = gives_as [where k = "10 - cases" and S = S]
  have tl: "list_all tok_ok (tl ts)" using ts by (cases ts) simp_all
  have unary: "gives (rest_ok (wf_term S (10 - cases))) (and_then (ex 51 nesting cases (tl ts)) (\<lambda>(t, ts). and_then (as_value t) (\<lambda>v.
      and_then (make_scalar (Unary op v)) (\<lambda>v. Inr (TValue v, ts)))))" if "op = ''+'' \<or> op = ''-''" for op
    using that tl by (intro pe as gives_make_scalar [where k = "10 - cases" and k' = "10 - cases" and S = S]) (auto simp: kind_ok_def below_def)
  have neg: "gives (rest_ok (wf_term S (10 - cases))) (and_then (ex 30 nesting cases us) (\<lambda>(t, ts). and_then (as_test t) (\<lambda>p.
      and_then (make_predicate (Not p)) (\<lambda>p. Inr (TTest p, ts)))))" if "list_all tok_ok us" for us
    using that by (intro pe as gives_make_predicate [where k = "10 - cases" and S = S]) (auto simp: condition_ok_def)
  have parens: "gives (rest_ok (wf_term S (10 - cases))) (and_then (ex 0 nesting cases us) (\<lambda>(v, ts). and_then (expect '')'' ts) (\<lambda>ts. Inr (v, ts))))"
    if "list_all tok_ok us" for us
    using that by (intro pe gives_expect) simp_all
  have scal: "gives (rest_ok (wf_term S (10 - cases))) (and_then (parse_primary S ex nesting cases ts) (\<lambda>(v, ts). Inr (TValue v, ts)))"
    by (rule gives_rest [OF gives_parse_primary [OF ex ts]]) simp
  show ?thesis unfolding prefix_term_def Let_def
    by (rule gives_eat [OF ts parens], assumption, rule gives_eat [OF ts neg], assumption, rule gives_if, rule unary) (simp_all add: scal)
qed

lemma next_op_cases:
  assumes "next_op ts = Some (op, b)"
  shows "b = 60 \<and> op \<in> {''*'', ''/'', ''%''} \<or> b = 50 \<and> op \<in> {''+'', ''-''} \<or>
    b = 40 \<and> op \<in> {''='', ''<'', ''>'', ''<='', ''>='', ''<>'', ''!='', ''!<'', ''!>'', ''test''} \<or> b = 20 \<and> op = ''AND'' \<or> b = 10 \<and> op = ''OR''"
  using assms by (auto simp: next_op_def split: list.splits token.splits if_splits)

lemma gives_combine:
  assumes op: "next_op ts = Some (op, b)" "op \<noteq> ''test''" and left: "wf_term S k left" and right: "wf_term S k right"
  shows "gives (wf_term S k) (combine op b left right)"
proof -
  note as = gives_as(1) [OF left] gives_as(2) [OF left] gives_as(1) [OF right] gives_as(2) [OF right]
  have scal: "gives (wf_term S k) (and_then (as_value left) (\<lambda>a. and_then (as_value right) (\<lambda>b. and_then (make_scalar (Binary op a b)) (\<lambda>v. Inr (TValue v)))))"
    if "b \<ge> 50" using next_op_cases [OF op(1)] that
    by (intro as gives_make_scalar [where k = k and k' = k and S = S]) (auto simp: kind_ok_def below_def)
  have compare: "gives (wf_term S k) (and_then (as_value left) (\<lambda>a. and_then (as_value right) (\<lambda>b. and_then (make_predicate (Compare c a b)) (\<lambda>p. Inr (TTest p)))))"
    if "c \<in> {''='', ''<'', ''>'', ''<='', ''>='', ''<>''}" for c
    using that by (intro as gives_make_predicate [where k = k and S = S]) (auto simp: condition_ok_def)
  have logic: "gives (wf_term S k) (and_then (as_test left) (\<lambda>a. and_then (as_test right) (\<lambda>b. and_then (make_predicate (Logic op a b)) (\<lambda>p. Inr (TTest p)))))"
    if "b < 40" using next_op_cases [OF op(1)] that
    by (intro as gives_make_predicate [where k = k and S = S]) (auto simp: condition_ok_def)
  have c: "(if op = ''!='' then ''<>'' else if op = ''!<'' then ''>='' else if op = ''!>'' then ''<='' else op) \<in> {''='', ''<'', ''>'', ''<='', ''>='', ''<>''}"
    if "b = 40" using next_op_cases [OF op(1)] op(2) that by auto
  have "b < 40 \<or> b = 40 \<or> b \<ge> 50" using next_op_cases [OF op(1)] by auto
  then show ?thesis unfolding combine_def Let_def
    by (intro gives_if scal compare c logic) auto
qed

lemma gives_infix_loop:
  assumes ex: "reads_wf S ex"
  shows "wf_term S (10 - cases) left \<Longrightarrow> list_all tok_ok ts \<Longrightarrow>
    gives (rest_ok (wf_term S (10 - cases))) (infix_loop f ex least nesting cases left ts)"
proof (induction f arbitrary: left ts)
  case (Suc f)
  show ?case
  proof (cases "next_op ts")
    case (Some ob)
    obtain op b where ob: "ob = (op, b)" by (cases ob)
    note op = Some [unfolded ob]
    have tl: "list_all tok_ok (tl ts)" using Suc.prems(2) by (cases ts) simp_all
    have test: "gives (rest_ok (wf_term S (10 - cases))) (and_then (as_value left) (\<lambda>v. and_then (parse_test ex nesting cases v ts) (\<lambda>(p, ts).
        infix_loop f ex least nesting cases (TTest p) ts)))"
      by (intro gives_as(1) [OF Suc.prems(1)] gives_rest [OF gives_parse_test [OF ex Suc.prems(2), where cases = cases]] Suc.IH) simp_all
    have oper: "gives (rest_ok (wf_term S (10 - cases))) (and_then (ex (b + 1) nesting cases (tl ts)) (\<lambda>(right, ts).
        and_then (combine op b left right) (\<lambda>left. infix_loop f ex least nesting cases left ts)))" if "op \<noteq> ''test''"
      by (intro gives_rest [OF gives_ex [OF ex tl, where cases = cases]] gives_then [OF gives_combine [OF op that Suc.prems(1)]] Suc.IH)
    show ?thesis unfolding infix_loop.simps op option.case prod.case
      by (intro gives_if test oper gives_Inr) (use Suc.prems in simp_all)
  qed (use Suc.prems in simp)
qed (simp add: gives_def)

lemma expression_wf: "reads_wf S (expression f S)"
proof (induction f)
  case (Suc f)
  show ?case unfolding reads_wf_def rest_ok_def [symmetric] expression.simps Let_def
    by (intro allI impI gives_if gives_Inl gives_rest [OF gives_prefix_term [OF Suc]] gives_infix_loop [OF Suc])
qed (simp add: reads_wf_def gives_def)

text \<open>What is read is well-formed.\<close>

lemma read_is_wf: "read_predicate S t = Inr p \<Longrightarrow> wf_predicate S 10 p"
proof -
  assume "read_predicate S t = Inr p"
  then obtain ts r us where ts: "tokens lx t = Inr ts" and r: "expression 257 S 0 0 0 ts = Inr (r, us)" and p: "as_test r = Inr p"
    by (auto simp: read_predicate_def and_then_Inr_iff split: if_splits)
  have "gives (rest_ok (wf_term S (10 - 0))) (expression 257 S 0 0 0 ts)" by (rule gives_ex [OF expression_wf tokens_ok [OF ts]])
  with r p show ?thesis by (cases r) (simp_all add: gives_def)
qed

end

end
