(* ===== verification/Pred_Vet.thy ===== *)
theory Pred_Vet
  imports Pred_Canon
begin

text \<open>
  The vetting of a predicate that was read (\<open>Parsed::vet\<close> and \<open>Parsed::column_names\<close> of \<open>predicate.rs\<close>): every column is put through the resolver of the
  target table, every call is checked against the version of the server, in the order \<open>visit\<close> goes through the tree. The closure \<open>column\<close> is a parameter.
\<close>

section \<open>Vetting\<close>

record capabilities =
  cap_major :: nat
  cap_compatibility :: nat

definition vet_call :: "dialect_syntax \<Rightarrow> capabilities \<Rightarrow> function_info \<Rightarrow> call_args \<Rightarrow> (perror, unit) result" where
  "vet_call S caps f c =
     (case requirement S f (call_info_of c) of (major, compatibility) \<Rightarrow>
      if cap_major caps < major \<or> cap_compatibility caps < compatibility then Inl (Version_required (fn_name f) major compatibility)
      else Inr ())"

definition both :: "('e, 'a) result \<times> ('e, 'b) result \<Rightarrow> ('e, 'a \<times> 'b) result" where
  "both p = and_then (fst p) (\<lambda>a. and_then (snd p) (\<lambda>b. Inr (a, b)))"

definition optionally :: "('e, 'a) result option \<Rightarrow> ('e, 'a option) result" where
  "optionally r = (case r of None \<Rightarrow> Inr None | Some r \<Rightarrow> and_then r (\<lambda>v. Inr (Some v)))"

primrec vet_scalar :: "dialect_syntax \<Rightarrow> (utext \<Rightarrow> utext option) \<Rightarrow> capabilities \<Rightarrow> scalar \<Rightarrow> (perror, scalar) result"
and vet_value :: "dialect_syntax \<Rightarrow> (utext \<Rightarrow> utext option) \<Rightarrow> capabilities \<Rightarrow> scalar_value \<Rightarrow> (perror, scalar_value) result"
and vet_args :: "dialect_syntax \<Rightarrow> (utext \<Rightarrow> utext option) \<Rightarrow> capabilities \<Rightarrow> call_args \<Rightarrow> (perror, call_args) result"
and vet_predicate :: "dialect_syntax \<Rightarrow> (utext \<Rightarrow> utext option) \<Rightarrow> capabilities \<Rightarrow> predicate \<Rightarrow> (perror, predicate) result"
and vet_condition :: "dialect_syntax \<Rightarrow> (utext \<Rightarrow> utext option) \<Rightarrow> capabilities \<Rightarrow> condition \<Rightarrow> (perror, condition) result"
where
  "vet_scalar S col caps (Scalar kind d) = and_then (vet_value S col caps kind) (\<lambda>kind. Inr (Scalar kind d))"
| "vet_value S col caps (Number n) = Inr (Number n)"
| "vet_value S col caps (String v n) = Inr (String v n)"
| "vet_value S col caps Null = Inr Null"
| "vet_value S col caps (Column n) = and_then (ok_or (col n) (Unknown_column n)) (\<lambda>n. Inr (Column n))"
| "vet_value S col caps (Unary op v) = and_then (vet_scalar S col caps v) (\<lambda>v. Inr (Unary op v))"
| "vet_value S col caps (Binary op a b) =
     and_then (both (vet_scalar S col caps a, vet_scalar S col caps b)) (\<lambda>(a, b). Inr (Binary op a b))"
| "vet_value S col caps (Call f c) =
     and_then (vet_call S caps f c) (\<lambda>_. and_then (vet_args S col caps c) (\<lambda>c. Inr (Call f c)))"
| "vet_value S col caps (SimpleCase v arms otherwise) =
     and_then (vet_scalar S col caps v) (\<lambda>v.
     and_then (try_map both (map (map_prod (vet_scalar S col caps) (vet_scalar S col caps)) arms)) (\<lambda>arms.
     and_then (optionally (map_option (vet_scalar S col caps) otherwise)) (\<lambda>otherwise. Inr (SimpleCase v arms otherwise))))"
| "vet_value S col caps (SearchedCase arms otherwise) =
     and_then (try_map both (map (map_prod (vet_predicate S col caps) (vet_scalar S col caps)) arms)) (\<lambda>arms.
     and_then (optionally (map_option (vet_scalar S col caps) otherwise)) (\<lambda>otherwise. Inr (SearchedCase arms otherwise)))"
| "vet_args S col caps (Ordinary vs) = and_then (try_map id (map (vet_scalar S col caps) vs)) (\<lambda>vs. Inr (Ordinary vs))"
| "vet_args S col caps (Cast v t) = and_then (vet_scalar S col caps v) (\<lambda>v. Inr (Cast v t))"
| "vet_args S col caps (Convert t v style) = and_then (vet_scalar S col caps v) (\<lambda>v. Inr (Convert t v style))"
| "vet_args S col caps (Datepart p vs) = and_then (try_map id (map (vet_scalar S col caps) vs)) (\<lambda>vs. Inr (Datepart p vs))"
| "vet_args S col caps (Trim direction chars v) =
     and_then (optionally (map_option (vet_scalar S col caps) chars)) (\<lambda>chars.
     and_then (vet_scalar S col caps v) (\<lambda>v. Inr (Trim direction chars v)))"
| "vet_predicate S col caps (Predicate kind d) = and_then (vet_condition S col caps kind) (\<lambda>kind. Inr (Predicate kind d))"
| "vet_condition S col caps (Compare op a b) =
     and_then (both (vet_scalar S col caps a, vet_scalar S col caps b)) (\<lambda>(a, b). Inr (Compare op a b))"
| "vet_condition S col caps (IsNull v negated) = and_then (vet_scalar S col caps v) (\<lambda>v. Inr (IsNull v negated))"
| "vet_condition S col caps (InList v vs negated) =
     and_then (both (vet_scalar S col caps v, try_map id (map (vet_scalar S col caps) vs))) (\<lambda>(v, vs). Inr (InList v vs negated))"
| "vet_condition S col caps (Between v low high negated) =
     and_then (vet_scalar S col caps v) (\<lambda>v.
     and_then (both (vet_scalar S col caps low, vet_scalar S col caps high)) (\<lambda>(low, high). Inr (Between v low high negated)))"
| "vet_condition S col caps (Like v pat escape negated) =
     and_then (both (vet_scalar S col caps v, vet_scalar S col caps pat)) (\<lambda>(v, pat).
     and_then (optionally (map_option (vet_scalar S col caps) escape)) (\<lambda>escape. Inr (Like v pat escape negated)))"
| "vet_condition S col caps (Not p) = and_then (vet_predicate S col caps p) (\<lambda>p. Inr (Not p))"
| "vet_condition S col caps (Logic op a b) =
     and_then (both (vet_predicate S col caps a, vet_predicate S col caps b)) (\<lambda>(a, b). Inr (Logic op a b))"

definition vet :: "dialect_syntax \<Rightarrow> (utext \<Rightarrow> utext option) \<Rightarrow> capabilities \<Rightarrow> predicate \<Rightarrow> (perror, predicate) result" where
  "vet S col caps p =
     (if cap_major caps < 10 \<or> cap_compatibility caps = 0 then Inl Unknown_version else vet_predicate S col caps p)"

section \<open>Columns\<close>

primrec columns_scalar :: "scalar \<Rightarrow> utext set"
and columns_value :: "scalar_value \<Rightarrow> utext set"
and columns_args :: "call_args \<Rightarrow> utext set"
and column_names :: "predicate \<Rightarrow> utext set"
and columns_condition :: "condition \<Rightarrow> utext set"
where
  "columns_scalar (Scalar kind d) = columns_value kind"
| "columns_value (Number n) = {}"
| "columns_value (String v n) = {}"
| "columns_value Null = {}"
| "columns_value (Column n) = {n}"
| "columns_value (Unary op v) = columns_scalar v"
| "columns_value (Binary op a b) = columns_scalar a \<union> columns_scalar b"
| "columns_value (Call f c) = columns_args c"
| "columns_value (SimpleCase v arms otherwise) =
     columns_scalar v \<union> \<Union>(set (map (\<lambda>(a, b). a \<union> b) (map (map_prod columns_scalar columns_scalar) arms))) \<union>
     (case map_option columns_scalar otherwise of None \<Rightarrow> {} | Some s \<Rightarrow> s)"
| "columns_value (SearchedCase arms otherwise) =
     \<Union>(set (map (\<lambda>(a, b). a \<union> b) (map (map_prod column_names columns_scalar) arms))) \<union>
     (case map_option columns_scalar otherwise of None \<Rightarrow> {} | Some s \<Rightarrow> s)"
| "columns_args (Ordinary vs) = \<Union>(set (map columns_scalar vs))"
| "columns_args (Cast v t) = columns_scalar v"
| "columns_args (Convert t v style) = columns_scalar v"
| "columns_args (Datepart p vs) = \<Union>(set (map columns_scalar vs))"
| "columns_args (Trim direction chars v) =
     (case map_option columns_scalar chars of None \<Rightarrow> {} | Some s \<Rightarrow> s) \<union> columns_scalar v"
| "column_names (Predicate kind d) = columns_condition kind"
| "columns_condition (Compare op a b) = columns_scalar a \<union> columns_scalar b"
| "columns_condition (IsNull v negated) = columns_scalar v"
| "columns_condition (InList v vs negated) = columns_scalar v \<union> \<Union>(set (map columns_scalar vs))"
| "columns_condition (Between v low high negated) = columns_scalar v \<union> columns_scalar low \<union> columns_scalar high"
| "columns_condition (Like v pat escape negated) =
     columns_scalar v \<union> columns_scalar pat \<union> (case map_option columns_scalar escape of None \<Rightarrow> {} | Some s \<Rightarrow> s)"
| "columns_condition (Not p) = column_names p"
| "columns_condition (Logic op a b) = column_names a \<union> column_names b"

section \<open>Induction over trees\<close>

lemma tree_induct:
  assumes scal: "\<And>kind d. (\<And>v. v \<in> set (kind_scalars kind) \<Longrightarrow> P v) \<Longrightarrow> (\<And>p. p \<in> set (kind_predicates kind) \<Longrightarrow> Q p) \<Longrightarrow> P (Scalar kind d)"
    and test: "\<And>c d. (\<And>v. v \<in> set (condition_scalars c) \<Longrightarrow> P v) \<Longrightarrow> (\<And>p. p \<in> set (condition_predicates c) \<Longrightarrow> Q p) \<Longrightarrow> Q (Predicate c d)"
  shows "P v" "Q p"
proof -
  have "P v \<and> Q p" for v p
  proof -
    have "P v" "(\<forall>v \<in> set (kind_scalars kind). P v) \<and> (\<forall>p \<in> set (kind_predicates kind). Q p)" "\<forall>v \<in> set (call_values args). P v"
      "Q p" "(\<forall>v \<in> set (condition_scalars c). P v) \<and> (\<forall>p \<in> set (condition_predicates c). Q p)" for kind args c
      by (induction v and kind and args and p and c) (auto intro: scal test split: option.splits)
    then show ?thesis by blast
  qed
  then show "P v" "Q p" by blast+
qed

section \<open>The children of a vetted node\<close>

definition vetted :: "dialect_syntax \<Rightarrow> (utext \<Rightarrow> utext option) \<Rightarrow> capabilities \<Rightarrow> scalar \<Rightarrow> scalar \<Rightarrow> bool" where
  "vetted S col caps = (\<lambda>v w. vet_scalar S col caps v = Inr w)"

definition vetted_test :: "dialect_syntax \<Rightarrow> (utext \<Rightarrow> utext option) \<Rightarrow> capabilities \<Rightarrow> predicate \<Rightarrow> predicate \<Rightarrow> bool" where
  "vetted_test S col caps = (\<lambda>p q. vet_predicate S col caps p = Inr q)"

lemma both_ok: "both (x, y) = Inr (a, b) \<longleftrightarrow> x = Inr a \<and> y = Inr b"
  by (auto simp: both_def and_then_Inr_iff)

lemma optionally_ok: "optionally (map_option f x) = Inr y \<longleftrightarrow> rel_option (\<lambda>a b. f a = Inr b) x y"
  by (cases x; cases y) (auto simp: optionally_def and_then_Inr_iff)

lemma try_map_id_ok: "try_map id (map f xs) = Inr ys \<longleftrightarrow> list_all2 (\<lambda>x y. f x = Inr y) xs ys"
  by (simp add: try_map_ok list_all2_map1)

lemma try_both_ok:
  "try_map both (map (map_prod f g) xs) = Inr ys \<longleftrightarrow>
     list_all2 (\<lambda>x y. f x = Inr y) (map fst xs) (map fst ys) \<and> list_all2 (\<lambda>x y. g x = Inr y) (map snd xs) (map snd ys)"
proof -
  have "try_map both (map (map_prod f g) xs) = Inr ys \<longleftrightarrow> list_all2 (\<lambda>x y. f (fst x) = Inr (fst y) \<and> g (snd x) = Inr (snd y)) xs ys"
    by (simp add: try_map_ok list_all2_map1 both_def and_then_Inr_iff case_prod_unfold)
      (auto simp: list_all2_conv_all_nth prod_eq_iff)
  then show ?thesis by (auto simp: list_all2_conv_all_nth)
qed

lemma optional_kids: "rel_option R x y \<Longrightarrow> list_all2 R (case x of None \<Rightarrow> [] | Some e \<Rightarrow> [e]) (case y of None \<Rightarrow> [] | Some e \<Rightarrow> [e])"
  by (cases x; cases y) simp_all

lemmas vet_ok = and_then_Inr_iff both_ok optionally_ok try_map_id_ok try_both_ok vetted_def vetted_test_def ok_or_iff

lemma vet_args_kids: "vet_args S col caps c = Inr c' \<Longrightarrow> list_all2 (vetted S col caps) (call_values c) (call_values c')"
  by (cases c) (auto simp: vet_ok intro!: list_all2_appendI optional_kids)

lemma vet_value_kids:
  assumes "vet_value S col caps kind = Inr kind'"
  shows "list_all2 (vetted S col caps) (kind_scalars kind) (kind_scalars kind') \<and>
    list_all2 (vetted_test S col caps) (kind_predicates kind) (kind_predicates kind')"
proof (cases kind)
  case (Call f c)
  then show ?thesis using assms vet_args_kids [of S col caps c] by (auto simp: and_then_Inr_iff)
next
  case (SimpleCase v arms otherwise)
  then show ?thesis using assms by (auto simp: vet_ok intro!: list_all2_appendI optional_kids)
next
  case (SearchedCase arms otherwise)
  then show ?thesis using assms by (auto simp: vet_ok intro!: list_all2_appendI optional_kids)
qed (use assms in \<open>auto simp: vet_ok\<close>)

lemma vet_condition_kids:
  assumes "vet_condition S col caps c = Inr c'"
  shows "list_all2 (vetted S col caps) (condition_scalars c) (condition_scalars c') \<and>
    list_all2 (vetted_test S col caps) (condition_predicates c) (condition_predicates c')"
proof (cases c)
  case (Like v pat escape negated)
  then show ?thesis using assms by (auto simp: vet_ok intro!: optional_kids)
qed (use assms in \<open>auto simp: vet_ok\<close>)

section \<open>What vetting keeps\<close>

lemma maximum_same: "set xs = set ys \<Longrightarrow> maximum xs = maximum ys"
  unfolding maximum_def by (metis Max.set_eq_fold list.simps(15))

lemma child_depth_kids: "child_depth kind = maximum (map scalar_depth (kind_scalars kind) @ map predicate_depth (kind_predicates kind))"
proof (cases kind)
  case (SimpleCase v arms otherwise)
  then show ?thesis by (auto simp: child_depth_def optional_depth_def intro!: maximum_same split: option.splits; force)
next
  case (SearchedCase arms otherwise)
  then show ?thesis by (auto simp: child_depth_def optional_depth_def intro!: maximum_same split: option.splits; force)
qed (auto simp: child_depth_def maximum_def max.commute)

lemma condition_depth_kids:
  "condition_depth c = maximum (map scalar_depth (condition_scalars c) @ map predicate_depth (condition_predicates c))"
  by (cases c) (auto simp: condition_depth_def maximum_def ac_simps split: option.splits)

lemma vetted_depth: "vetted S col caps v w \<Longrightarrow> scalar_depth w = scalar_depth v" "vetted_test S col caps p q \<Longrightarrow> predicate_depth q = predicate_depth p"
  by (cases v; auto simp: vetted_def and_then_Inr_iff) (cases p; auto simp: vetted_test_def and_then_Inr_iff)

lemma vetted_depths:
  "list_all2 (vetted S col caps) vs ws \<Longrightarrow> map scalar_depth ws = map scalar_depth vs"
  "list_all2 (vetted_test S col caps) ps qs \<Longrightarrow> map predicate_depth qs = map predicate_depth ps"
  by (auto simp: list_all2_conv_all_nth vetted_depth intro!: nth_equalityI)

lemma vet_value_depth: "vet_value S col caps kind = Inr kind' \<Longrightarrow> child_depth kind' = child_depth kind"
  using vet_value_kids [of S col caps kind kind'] unfolding child_depth_kids by (metis vetted_depths)

lemma vet_condition_depth: "vet_condition S col caps c = Inr c' \<Longrightarrow> condition_depth c' = condition_depth c"
  using vet_condition_kids [of S col caps c c'] unfolding condition_depth_kids by (metis vetted_depths)

lemma vetted_string: "vetted S col caps v w \<Longrightarrow> (\<exists>s n. scalar_kind w = String s n) \<longleftrightarrow> (\<exists>s n. scalar_kind v = String s n)"
proof (cases v)
  case (Scalar kind d)
  moreover assume "vetted S col caps v w"
  ultimately show ?thesis by (cases kind) (auto simp: vetted_def and_then_Inr_iff)
qed

lemma string_case: "(case scalar_kind v of String _ _ \<Rightarrow> True | _ \<Rightarrow> False) \<longleftrightarrow> (\<exists>s n. scalar_kind v = String s n)"
  by (cases "scalar_kind v") simp_all

lemma vet_args_info:
  assumes "vet_args S col caps c = Inr c'"
  shows "call_info_of c' = call_info_of c"
proof (cases c)
  case (Ordinary vs)
  then obtain ws where c': "c' = Ordinary ws" "list_all2 (vetted S col caps) vs ws" using assms by (auto simp: vet_ok)
  have "length ws = length vs" using c'(2) by (simp add: list_all2_lengthD)
  moreover have "(case ws of _ # w # _ \<Rightarrow> (case scalar_kind w of String _ _ \<Rightarrow> True | _ \<Rightarrow> False) | _ \<Rightarrow> False) =
      (case vs of _ # v # _ \<Rightarrow> (case scalar_kind v of String _ _ \<Rightarrow> True | _ \<Rightarrow> False) | _ \<Rightarrow> False)"
    using c'(2) by (cases vs; cases "tl vs") (auto simp: list_all2_Cons1 string_case vetted_string)
  ultimately show ?thesis unfolding call_info_of_def Ordinary c'(1) by simp
next
  case (Trim direction chars v)
  then show ?thesis using assms vet_args_kids [OF assms] by (auto simp: vet_ok call_info_of_def dest!: list_all2_lengthD)
qed (use assms in \<open>auto simp: vet_ok call_info_of_def dest: list_all2_lengthD\<close>)

lemma vet_value_ok: "vet_value S col caps kind = Inr kind' \<Longrightarrow> kind_ok T kind \<Longrightarrow> kind_ok T kind' \<and> below kind' k = below kind k"
proof (cases kind)
  case (Call f c)
  assume "vet_value S col caps kind = Inr kind'" and ok: "kind_ok T kind"
  with Call obtain c' where c': "vet_args S col caps c = Inr c'" "kind' = Call f c'" by (auto simp: and_then_Inr_iff)
  then have "call_form_ok T f c' \<longleftrightarrow> call_form_ok T f c"
    by (cases c) (auto simp: vet_ok call_form_ok_def split: option.splits elim: option.rel_cases)
  with ok vet_args_info [OF c'(1)] show ?thesis by (simp add: Call c'(2) kind_ok_def call_ok_def arity_ok_def below_def)
next
  case (SimpleCase v arms otherwise)
  moreover assume "vet_value S col caps kind = Inr kind'" "kind_ok T kind"
  ultimately show ?thesis by (auto simp: vet_ok kind_ok_def below_def)
next
  case (SearchedCase arms otherwise)
  moreover assume "vet_value S col caps kind = Inr kind'" "kind_ok T kind"
  ultimately show ?thesis by (auto simp: vet_ok kind_ok_def below_def)
qed (auto simp: vet_ok kind_ok_def below_def)

lemma vet_condition_ok: "vet_condition S col caps c = Inr c' \<Longrightarrow> condition_ok c \<Longrightarrow> condition_ok c'"
  by (cases c) (auto simp: vet_ok condition_ok_def)

text \<open>A vetted tree is well-formed where the tree is.\<close>

lemma list_all2_back: "list_all2 R xs ys \<Longrightarrow> y \<in> set ys \<Longrightarrow> \<exists>x \<in> set xs. R x y"
  by (auto simp: list_all2_conv_all_nth in_set_conv_nth) (metis nth_mem)

lemma vetted_wf:
  "wf_scalar T k v \<Longrightarrow> vetted S col caps v w \<Longrightarrow> wf_scalar T k w"
  "wf_predicate T k p \<Longrightarrow> vetted_test S col caps p q \<Longrightarrow> wf_predicate T k q"
proof (induction arbitrary: w and q rule: wf_scalar_wf_predicate.inducts)
  case (wf_scalar_node kind k k')
  then obtain kind' where k: "vet_value S col caps kind = Inr kind'" and "w = Scalar kind' (child_depth kind + 1)"
    by (auto simp: vetted_def and_then_Inr_iff)
  then have w: "w = Scalar kind' (child_depth kind' + 1)" by (simp add: vet_value_depth)
  note kids = vet_value_kids [OF k]
  show ?case unfolding w
  proof (rule wf_scalar_wf_predicate.wf_scalar_node)
    show "kind_ok T kind'" "below kind' k = Some k'" using vet_value_ok [OF k, of T k] wf_scalar_node by simp_all
    show "child_depth kind' < 128" using vet_value_depth [OF k] wf_scalar_node by simp
  qed (use kids wf_scalar_node list_all2_back in metis)+
next
  case (wf_predicate_node c k)
  then obtain c' where k: "vet_condition S col caps c = Inr c'" and "q = Predicate c' (condition_depth c + 1)"
    by (auto simp: vetted_test_def and_then_Inr_iff)
  then have q: "q = Predicate c' (condition_depth c' + 1)" by (simp add: vet_condition_depth)
  note kids = vet_condition_kids [OF k]
  show ?case unfolding q
  proof (rule wf_scalar_wf_predicate.wf_predicate_node)
    show "condition_ok c'" using vet_condition_ok [OF k] wf_predicate_node by simp
    show "condition_depth c' < 128" using vet_condition_depth [OF k] wf_predicate_node by simp
  qed (use kids wf_predicate_node list_all2_back in metis)+
qed

section \<open>What vetting checks\<close>

text \<open>A value of a tree, at any depth.\<close>

inductive inside_scalar :: "scalar \<Rightarrow> scalar \<Rightarrow> bool"
and inside :: "predicate \<Rightarrow> scalar \<Rightarrow> bool"
where
  inside_self: "inside_scalar v v"
| inside_value: "w \<in> set (kind_scalars kind) \<Longrightarrow> inside_scalar w x \<Longrightarrow> inside_scalar (Scalar kind d) x"
| inside_arm: "p \<in> set (kind_predicates kind) \<Longrightarrow> inside p x \<Longrightarrow> inside_scalar (Scalar kind d) x"
| inside_operand: "w \<in> set (condition_scalars c) \<Longrightarrow> inside_scalar w x \<Longrightarrow> inside (Predicate c d) x"
| inside_condition: "p \<in> set (condition_predicates c) \<Longrightarrow> inside p x \<Longrightarrow> inside (Predicate c d) x"

inductive_simps inside_scalar_iff: "inside_scalar (Scalar kind d) x"
inductive_simps inside_iff: "inside (Predicate c d) x"

text \<open>What the server can do with a value.\<close>

definition permitted :: "dialect_syntax \<Rightarrow> capabilities \<Rightarrow> scalar_value \<Rightarrow> bool" where
  "permitted S caps kind \<longleftrightarrow>
     (case kind of
        Call f c \<Rightarrow> fst (requirement S f (call_info_of c)) \<le> cap_major caps \<and> snd (requirement S f (call_info_of c)) \<le> cap_compatibility caps
      | _ \<Rightarrow> True)"

definition resolved :: "utext set \<Rightarrow> scalar_value \<Rightarrow> bool" where
  "resolved names kind \<longleftrightarrow> (case kind of Column n \<Rightarrow> n \<in> names | _ \<Rightarrow> True)"

lemma vet_call_ok: "vet_call S caps f c = Inr u \<longleftrightarrow> permitted S caps (Call f c)"
  by (auto simp: vet_call_def permitted_def not_less split: prod.splits if_splits)

lemma vet_value_checks: "vet_value S col caps kind = Inr kind' \<Longrightarrow> permitted S caps kind' \<and> resolved (ran col) kind'"
proof (cases kind)
  case (Call f c)
  moreover assume "vet_value S col caps kind = Inr kind'"
  ultimately show ?thesis
    by (auto simp: and_then_Inr_iff vet_call_ok permitted_def resolved_def vet_args_info)
qed (auto simp: vet_ok permitted_def resolved_def ran_def)

lemma vetted_inside:
  "vetted S col caps v w \<Longrightarrow> inside_scalar w x \<Longrightarrow> permitted S caps (scalar_kind x) \<and> resolved (ran col) (scalar_kind x)"
  "vetted_test S col caps p q \<Longrightarrow> inside q x \<Longrightarrow> permitted S caps (scalar_kind x) \<and> resolved (ran col) (scalar_kind x)"
proof (induction v and p arbitrary: w x and q x rule: tree_induct)
  case (1 kind d)
  then obtain kind' where k: "vet_value S col caps kind = Inr kind'" and w: "w = Scalar kind' d" by (auto simp: vetted_def and_then_Inr_iff)
  from 1 show ?case using vet_value_kids [OF k] vet_value_checks [OF k] unfolding w inside_scalar_iff
    by (metis list_all2_back scalar.sel(1))
next
  case (2 c d)
  then obtain c' where k: "vet_condition S col caps c = Inr c'" and q: "q = Predicate c' d" by (auto simp: vetted_test_def and_then_Inr_iff)
  from 2 show ?case using vet_condition_kids [OF k] unfolding q inside_iff by (metis list_all2_back)
qed

text \<open>Where vetting succeeds.\<close>

definition succeeds :: "('e, 'a) result \<Rightarrow> bool" where
  "succeeds r \<longleftrightarrow> \<not> isl r"

lemma succeeds_Inr [simp]: "succeeds (Inr x)" "\<not> succeeds (Inl e)"
  by (simp_all add: succeeds_def)

lemma succeeds_and_then [simp]: "succeeds (and_then r f) \<longleftrightarrow> succeeds r \<and> succeeds (f (projr r))"
  by (cases r) simp_all

lemma succeeds_both [simp]: "succeeds (both p) \<longleftrightarrow> succeeds (fst p) \<and> succeeds (snd p)"
  by (simp add: both_def)

lemma succeeds_try_map [simp]: "succeeds (try_map g xs) \<longleftrightarrow> list_all (\<lambda>x. succeeds (g x)) xs"
  by (induction xs) simp_all

lemma succeeds_optionally [simp]: "succeeds (optionally (map_option f x)) \<longleftrightarrow> (\<forall>e. x = Some e \<longrightarrow> succeeds (f e))"
  by (cases x) (simp_all add: optionally_def)

lemma succeeds_ok_or [simp]: "succeeds (ok_or y e) \<longleftrightarrow> y \<noteq> None"
  by (cases y) simp_all

lemma succeeds_vet_call: "succeeds (vet_call S caps f c) \<longleftrightarrow> permitted S caps (Call f c)"
  by (auto simp: vet_call_def permitted_def split: prod.splits)

lemma succeeds_vet_args: "succeeds (vet_args S col caps c) \<longleftrightarrow> (\<forall>v \<in> set (call_values c). succeeds (vet_scalar S col caps v))"
  by (cases c) (auto simp: list_all_iff split: option.splits)

lemma succeeds_vet_value:
  "succeeds (vet_value S col caps kind) \<longleftrightarrow>
     permitted S caps kind \<and> resolved (dom col) kind \<and> (\<forall>v \<in> set (kind_scalars kind). succeeds (vet_scalar S col caps v)) \<and>
     (\<forall>p \<in> set (kind_predicates kind). succeeds (vet_predicate S col caps p))"
  by (cases kind)
    (auto simp: list_all_iff permitted_def resolved_def succeeds_vet_call succeeds_vet_args split: option.splits prod.splits)

lemma succeeds_vet_condition:
  "succeeds (vet_condition S col caps c) \<longleftrightarrow>
     (\<forall>v \<in> set (condition_scalars c). succeeds (vet_scalar S col caps v)) \<and> (\<forall>p \<in> set (condition_predicates c). succeeds (vet_predicate S col caps p))"
  by (cases c) (auto simp: list_all_iff split: option.splits prod.splits)

lemma succeeds_inside:
  "succeeds (vet_scalar S col caps v) \<longleftrightarrow> (\<forall>x. inside_scalar v x \<longrightarrow> permitted S caps (scalar_kind x) \<and> resolved (dom col) (scalar_kind x))"
  "succeeds (vet_predicate S col caps p) \<longleftrightarrow> (\<forall>x. inside p x \<longrightarrow> permitted S caps (scalar_kind x) \<and> resolved (dom col) (scalar_kind x))"
proof (induction v and p rule: tree_induct)
  case (1 kind d)
  have "succeeds (vet_scalar S col caps (Scalar kind d)) \<longleftrightarrow> succeeds (vet_value S col caps kind)" by simp
  also have "\<dots> \<longleftrightarrow> (\<forall>x. inside_scalar (Scalar kind d) x \<longrightarrow> permitted S caps (scalar_kind x) \<and> resolved (dom col) (scalar_kind x))"
    unfolding succeeds_vet_value inside_scalar_iff using 1 by (metis scalar.sel(1))
  finally show ?case .
next
  case (2 c d)
  have "succeeds (vet_predicate S col caps (Predicate c d)) \<longleftrightarrow> succeeds (vet_condition S col caps c)" by simp
  also have "\<dots> \<longleftrightarrow> (\<forall>x. inside (Predicate c d) x \<longrightarrow> permitted S caps (scalar_kind x) \<and> resolved (dom col) (scalar_kind x))"
    unfolding succeeds_vet_condition inside_iff using 2 by metis
  finally show ?case .
qed

section \<open>Properties\<close>

text \<open>C20. Vetting accepts exactly the predicates whose columns the target table has and whose calls the server's version and compatibility level allow, on a
  server of a known version, wherever in the tree they stand.\<close>

theorem vetting_accepts_exactly:
  "succeeds (vet S col caps p) \<longleftrightarrow>
     10 \<le> cap_major caps \<and> cap_compatibility caps \<noteq> 0 \<and>
     {scalar_kind x | x. inside p x} \<subseteq> {kind. permitted S caps kind \<and> resolved (dom col) kind}"
  unfolding vet_def using succeeds_inside(2) [of S col caps p] by auto

definition sample_read :: predicate where
  "sample_read = Predicate (Compare ''='' (Scalar (Column [97]) 1) (Scalar (Number [49]) 1)) 2"

definition sample_vetted :: predicate where
  "sample_vetted = Predicate (Compare ''='' (Scalar (Column [65]) 1) (Scalar (Number [49]) 1)) 2"

lemma sample_vets: "vet S [[97] \<mapsto> [65]] \<lparr>cap_major = 16, cap_compatibility = 160\<rparr> sample_read = Inr sample_vetted"
  by (simp add: vet_def sample_read_def sample_vetted_def both_def)

end
