(* ===== verification/Pred_Laws.thy ===== *)
theory Pred_Laws
  imports Pred_Mssql Pred_Sound Pred_Vet
begin

text \<open>
  SQL Server's syntax keeps the laws of \<open>predicate_text\<close>. With them what the writer writes of a tree that was read, and vetted, is read back as the
  tree.
\<close>

section \<open>Quoting\<close>

lemma quoted_piece_doubled: "rest = [] \<or> hd rest \<noteq> q \<Longrightarrow> quoted_piece q (doubled q v @ q # rest) = Some (v, rest)"
proof (induction v)
  case Nil
  then show ?case by (cases rest) (simp_all add: doubled_def)
next
  case (Cons c v)
  then show ?case
  proof (cases "c = q")
    case True
    with Cons show ?thesis by (simp add: doubled_def)
  next
    case False
    have "doubled q v @ q # rest \<noteq> []" by simp
    then obtain d ds where "doubled q v @ q # rest = d # ds" by (cases "doubled q v @ q # rest") auto
    with Cons False show ?thesis by (simp add: doubled_def)
  qed
qed

lemma doubled_nul: "0 \<notin> set v \<Longrightarrow> q \<noteq> 0 \<Longrightarrow> 0 \<notin> set (doubled q v)"
  by (auto simp: doubled_def)

lemma delim_not_quote: "delim rest \<Longrightarrow> q \<in> {39, 93} \<Longrightarrow> rest = [] \<or> hd rest \<noteq> q"
  by (auto simp: delim_def)

lemma mssql_plain_lexicon: "plain_lexicon (mssql_lexicon alnum)"
  by unfold_locales
    (auto simp: mssql_lexicon_def is_regular_identifier_continue_def ascii_alnum_def name_char_def mark_char_def u_digit_def)

lemma mssql_string_lexes:
  assumes "0 \<notin> set v"
  shows "lexes (mssql_lexicon alnum) (mssql_string_literal v national) [Str v national]"
proof (rule lexesI)
  fix rest :: utext assume d: "delim rest"
  note q = quoted_piece_doubled [OF delim_not_quote [OF d, of 39], of v]
  have "next_token (mssql_lexicon alnum) (mssql_string_literal v national @ rest) = Inr (Str v national, rest)"
    using q by (cases national)
      (simp_all add: next_token_def mssql_string_literal_def mssql_literal_def is_national_def mssql_lexicon_def same_word_def lit_def)
  then show "tokens (mssql_lexicon alnum) (mssql_string_literal v national @ rest) = prepend [Str v national] (tokens (mssql_lexicon alnum) rest)"
    using doubled_nul [OF assms, of 39]
    by (intro tokens_token) (auto simp: mssql_string_literal_def mssql_literal_def lit_def u_whitespace_def)
qed

lemma mssql_ident_lexes:
  assumes "mssql_quote n = Inr t"
  shows "lexes (mssql_lexicon alnum) t [Word n True]"
proof (rule lexesI)
  fix rest :: utext assume d: "delim rest"
  have n: "0 \<notin> set n" "t = 91 # doubled 93 n @ [93]" using assms by (auto simp: mssql_quote_def lit_def split: if_splits)
  note q = quoted_piece_doubled [OF delim_not_quote [OF d, of 93], of n]
  have "next_token (mssql_lexicon alnum) (t @ rest) = Inr (Word n True, rest)"
    using q by (simp add: next_token_def is_national_def mssql_lexicon_def n(2))
  then show "tokens (mssql_lexicon alnum) (t @ rest) = prepend [Word n True] (tokens (mssql_lexicon alnum) rest)"
    using doubled_nul [OF n(1), of 93] by (intro tokens_token) (auto simp: n(2) lit_def u_whitespace_def)
qed

section \<open>Names\<close>

lemma find_distinct: "distinct (map g xs) \<Longrightarrow> x \<in> set xs \<Longrightarrow> find (\<lambda>y. g y = g x) xs = Some x"
  by (induction xs) (auto simp: image_iff)

lemma find_Some_in: "find P xs = Some x \<Longrightarrow> x \<in> set xs \<and> P x"
  by (induction xs) (auto split: if_splits)

lemma lit_inj: "lit a = lit b \<longleftrightarrow> a = b"
  unfolding lit_def by (rule inj_map_eq_map) (rule inj_onI, simp)

definition function_names :: "string list" where
  "function_names =
     [''cast'', ''convert'', ''coalesce'', ''isnull'', ''nullif'', ''left'', ''right'', ''substring'', ''charindex'', ''replace'', ''lower'', ''upper'', ''ltrim'',
      ''rtrim'', ''trim'', ''len'', ''concat'', ''round'', ''floor'', ''ceiling'', ''abs'', ''dateadd'', ''datediff'', ''datepart'', ''datefromparts'', ''json_value'']"

lemma lowered_names: "map (\<lambda>f. map u_lower (fn_name f)) FUNCTIONS = map lit function_names"
  by (simp add: FUNCTIONS_def function_names_def lit_def u_lower_def)

lemma lowered_leading:
  "map (\<lambda>w. map u_lower (lit w)) leading_words =
     map lit [''('', '')'', ''+'', ''-'', ''not'', ''null'', ''case'', ''when'', ''leading'', ''trailing'', ''both'']"
  by (simp add: leading_words_def lit_def u_lower_def)

lemma names_distinct: "distinct function_names"
  by (simp add: function_names_def)

lemma names_not_leading:
  "set function_names \<inter> set [''('', '')'', ''+'', ''-'', ''not'', ''null'', ''case'', ''when'', ''leading'', ''trailing'', ''both''] = {}"
  by (simp add: function_names_def)

lemma names_plain: "list_all (\<lambda>f. plain_word (fn_name f)) FUNCTIONS"
  by (simp add: FUNCTIONS_def plain_word_def name_char_def u_digit_def lit_def)

lemma mssql_function_laws:
  assumes "mssql_function name = Some f"
  shows "mssql_function (fn_name f) = Some f" "plain_word (fn_name f)" "list_all (\<lambda>w. \<not> same_word (fn_name f) (lit w)) leading_words"
proof -
  have f: "f \<in> set FUNCTIONS" using assms unfolding mssql_function_def by (blast dest: find_Some_in)
  then show "plain_word (fn_name f)" using names_plain by (simp add: list_all_iff)
  have "distinct (map (\<lambda>f. map u_lower (fn_name f)) FUNCTIONS)"
    unfolding lowered_names using names_distinct by (simp add: distinct_map inj_on_def lit_inj)
  from find_distinct [OF this f] show "mssql_function (fn_name f) = Some f" by (simp add: mssql_function_def same_word_def)
  have "map u_lower (fn_name f) \<in> lit ` set function_names" using f lowered_names by (metis (mono_tags) image_eqI list.set_map)
  moreover have "map u_lower (lit w) \<notin> lit ` set function_names" if "w \<in> set leading_words" for w
  proof -
    have "map u_lower (lit w) \<in> lit ` set [''('', '')'', ''+'', ''-'', ''not'', ''null'', ''case'', ''when'', ''leading'', ''trailing'', ''both'']"
      using that lowered_leading by (metis (mono_tags) image_eqI list.set_map)
    then show ?thesis using names_not_leading by (auto simp: lit_inj simp del: list.set)
  qed
  ultimately show "list_all (\<lambda>w. \<not> same_word (fn_name f) (lit w)) leading_words"
    unfolding list_all_iff same_word_def by metis
qed

lemma list_all_pairD: "list_all (\<lambda>(a, b). P a b) xs \<Longrightarrow> (a, b) \<in> set xs \<Longrightarrow> P a b"
  by (auto simp: list_all_iff)

lemma mssql_datepart_laws:
  assumes "mssql_datepart f name = Some part"
  shows "mssql_datepart f part = Some part" "plain_word part"
proof -
  let ?parts = "date_parts @ (if fn_name f = lit ''DATEPART'' then datepart_only else [])"
  have all: "list_all (\<lambda>(words, p). plain_word (lit p) \<and> map_option snd (find (\<lambda>(words, _). map u_lower (lit p) \<in> set (map lit words)) ?parts) = Some p) ?parts"
    by (cases "fn_name f = lit ''DATEPART''")
      (simp_all add: date_parts_def datepart_only_def plain_word_def name_char_def u_digit_def lit_def u_lower_def)
  obtain words p where p: "(words, p) \<in> set ?parts" "part = lit p"
    using assms unfolding mssql_datepart_def by (auto dest!: find_Some_in simp del: set_append)
  from list_all_pairD [OF all p(1)] show "plain_word part" "mssql_datepart f part = Some part"
    unfolding mssql_datepart_def p(2) by (auto simp del: set_append)
qed

section \<open>Types\<close>

text \<open>The arguments that normalization leaves alone.\<close>

definition settled :: "utext \<Rightarrow> type_arg list \<Rightarrow> bool" where
  "settled base args \<longleftrightarrow>
     (case shape_of base of
        None \<Rightarrow> False
      | Some shape \<Rightarrow> if shape = Float_precision then args = [ArgInt 53] else shaped_args shape args = Some args)"

lemma catalogue_shapes:
  assumes "shape_of base = Some shape"
  shows "case shape of Precision m d \<Rightarrow> 0 \<le> d \<and> d \<le> m \<and> m \<le> 8000 | Length m _ \<Rightarrow> 128 \<le> m \<and> m \<le> 8000 | _ \<Rightarrow> True"
proof -
  have "list_all (\<lambda>(_, s). case s of Precision m d \<Rightarrow> 0 \<le> d \<and> d \<le> m \<and> m \<le> 8000 | Length m _ \<Rightarrow> 128 \<le> m \<and> m \<le> 8000 | _ \<Rightarrow> True) CATALOGUE"
    by (simp add: CATALOGUE_def)
  moreover obtain n where "(n, shape) \<in> set CATALOGUE" using assms unfolding shape_of_def by (auto dest!: find_Some_in)
  ultimately show ?thesis by (rule list_all_pairD)
qed

lemma shaped_args_settle:
  assumes "shape_of base = Some shape" "shaped_args shape args = Some nargs"
  shows "shaped_args shape nargs = Some nargs"
  using assms(2) catalogue_shapes [OF assms(1)]
  by (cases shape) (auto simp: shaped_args_def check_decimal_def split: list.splits type_arg.splits if_splits)

lemma shapes_of:
  "shape_of (lit ''float'') = Some Float_precision" "shape_of (lit ''real'') = Some No_args" "shape_of (lit ''char'') = Some (Length 8000 False)"
  "shape_of (lit ''varchar'') = Some (Length 8000 True)" "shape_of (lit ''nchar'') = Some (Length 4000 False)"
  "shape_of (lit ''nvarchar'') = Some (Length 4000 True)" "shape_of (lit ''binary'') = Some (Length 8000 False)"
  "shape_of (lit ''varbinary'') = Some (Length 8000 True)"
  by (simp_all add: shape_of_def CATALOGUE_def lit_inj)

lemma text_shapes: "base \<in> set (map lit [''char'', ''varchar'', ''nchar'', ''nvarchar'', ''binary'', ''varbinary'']) \<Longrightarrow> \<exists>m b. shape_of base = Some (Length m b)"
  using shapes_of by auto

lemma normalize_settled:
  assumes "normalize name args = Some (base, nargs)"
  shows "settled base nargs"
proof -
  define b where "b = canonical_base (join_with (lit '' '') (u_words name))"
  obtain shape where sh: "shape_of b = Some shape" using assms by (cases "shape_of b") (auto simp: normalize_def b_def Let_def)
  show ?thesis
  proof (cases "shape = Float_precision")
    case True
    then show ?thesis using assms sh unfolding normalize_def Let_def b_def [symmetric]
      by (auto simp: settled_def shapes_of shaped_args_def split: list.splits type_arg.splits if_splits)
  next
    case False
    then have "base = b" "shaped_args shape args = Some nargs"
      using assms sh unfolding normalize_def Let_def b_def [symmetric] by (auto split: arg_shape.splits)
    with False sh shaped_args_settle [OF sh] show ?thesis by (simp add: settled_def)
  qed
qed

lemma settled_default:
  "base \<in> set (map lit [''char'', ''varchar'', ''nchar'', ''nvarchar'', ''binary'', ''varbinary'']) \<Longrightarrow> settled base [ArgInt 30]"
  using text_shapes [of base] catalogue_shapes [of base] by (force simp: settled_def shaped_args_def)

lemma settled_sysname: "settled (lit ''nvarchar'') [ArgInt 128]"
  by (simp add: settled_def shapes_of shaped_args_def)

lemma cast_type_settled:
  assumes "mssql_cast_type name args = Inr t"
  shows "\<exists>b \<in> set cast_bases. cast_base t = lit b \<and> settled (lit b) (cast_args t)"
proof -
  obtain base nargs where n: "normalize (map u_lower name) args = Some (base, nargs)"
    using assms by (cases "normalize (map u_lower name) args") (auto simp: mssql_cast_type_def)
  define nargs' where "nargs' = (if args = [] \<and> base \<in> set (map lit [''char'', ''varchar'', ''nchar'', ''nvarchar'', ''binary'', ''varbinary''])
    then [ArgInt 30] else nargs)"
  obtain base'' nargs'' where b: "(if base = lit ''sysname'' then (lit ''nvarchar'', [ArgInt 128]) else (base, nargs')) = (base'', nargs'')"
    by (rule prod.exhaust)
  have "settled base nargs'" unfolding nargs'_def using normalize_settled [OF n] settled_default [of base] by simp
  then have s: "settled base'' nargs''" using b settled_sysname by (auto split: if_splits)
  obtain c where c: "find (\<lambda>b. lit b = base'') cast_bases = Some c" "t = CastType (lit c) nargs''"
    using assms unfolding mssql_cast_type_def n option.case prod.case Let_def nargs'_def [symmetric] b by (auto split: option.splits)
  with s find_Some_in [OF c(1)] show ?thesis by auto
qed

lemma cast_bases_plain:
  "list_all (\<lambda>b. map u_lower (map u_upper (lit b)) = lit b \<and> u_words (lit b) = [lit b] \<and> plain_word (map u_upper (lit b))) cast_bases"
  by (simp add: cast_bases_def lit_def u_lower_def u_upper_def plain_word_def name_char_def u_digit_def u_whitespace_def)

lemma cast_bases_canonical: "list_all (\<lambda>b. canonical_base (lit b) = lit b \<and> b \<noteq> ''sysname'') cast_bases"
  by (simp add: cast_bases_def canonical_base_def ALIASES_def lit_inj)

lemma settled_normalize:
  assumes "b \<in> set cast_bases" "settled (lit b) args"
  shows "normalize (map u_lower (map u_upper (lit b))) args = Some (lit b, args)"
proof -
  have "map u_lower (map u_upper (lit b)) = lit b" "u_words (lit b) = [lit b]" "canonical_base (lit b) = lit b"
    using assms(1) cast_bases_plain cast_bases_canonical by (auto simp: list_all_iff simp del: map_map)
  moreover obtain shape where "shape_of (lit b) = Some shape" using assms(2) by (auto simp: settled_def split: option.splits)
  ultimately show ?thesis using assms(2) by (cases shape) (auto simp: normalize_def settled_def Let_def simp del: map_map)
qed

lemma cast_type_again:
  assumes b: "b \<in> set cast_bases" and s: "settled (lit b) args"
  shows "mssql_cast_type (map u_upper (lit b)) args = Inr (CastType (lit b) args)"
proof -
  have "\<not> (args = [] \<and> lit b \<in> set (map lit [''char'', ''varchar'', ''nchar'', ''nvarchar'', ''binary'', ''varbinary'']))"
    using s text_shapes [of "lit b"] by (auto simp: settled_def shaped_args_def)
  moreover have "lit b \<noteq> lit ''sysname''" using b cast_bases_canonical by (auto simp: list_all_iff lit_inj)
  moreover obtain c where c: "find (\<lambda>c. lit c = lit b) cast_bases = Some c"
    using b by (cases "find (\<lambda>c. lit c = lit b) cast_bases") (auto simp: find_None_iff)
  moreover have "lit c = lit b" using find_Some_in [OF c] by simp
  ultimately show ?thesis unfolding mssql_cast_type_def settled_normalize [OF b s] option.case prod.case Let_def by (simp only: if_False prod.case option.case)
qed

lemma settled_args:
  assumes "settled base args"
  shows "list_all (\<lambda>a. case a of ArgInt i \<Rightarrow> 0 \<le> i \<and> i < 2 ^ 63 | ArgMax \<Rightarrow> True | ArgIdent _ \<Rightarrow> False) args"
proof -
  obtain shape where sh: "shape_of base = Some shape" using assms by (auto simp: settled_def split: option.splits)
  show ?thesis using assms sh catalogue_shapes [OF sh]
    by (cases shape) (auto simp: settled_def shaped_args_def check_decimal_def split: list.splits type_arg.splits if_splits)
qed

section \<open>The interpretation\<close>

interpretation mssql: predicate_text "mssql_syntax alnum" for alnum
proof (rule predicate_text.intro)
  show "predicate_grammar (mssql_syntax alnum)" by unfold_locales (simp add: mssql_syntax_def mssql_function_laws(3))
  show "plain_lexicon (sx_lexicon (mssql_syntax alnum))" by (simp add: mssql_syntax_def mssql_plain_lexicon)
  have "cast_ok (mssql_syntax alnum) t \<and> plain_word (map u_upper (cast_base t))" if "mssql_cast_type name args = Inr t" for name args t
  proof -
    note ct = cast_type_settled [OF that]
    obtain b where b: "b \<in> set cast_bases" "cast_base t = lit b" "settled (lit b) (cast_args t)" using ct by blast
    have "t = CastType (lit b) (cast_args t)" using b(2) by (cases t) simp
    with cast_type_again [OF b(1,3)] have "mssql_cast_type (map u_upper (cast_base t)) (cast_args t) = Inr t" by (simp add: b(2))
    moreover have "plain_word (map u_upper (cast_base t))" using b(1,2) cast_bases_plain by (simp add: list_all_iff)
    ultimately show ?thesis using settled_args [OF b(3)] by (simp add: cast_ok_def mssql_syntax_def)
  qed
  then show "predicate_text_axioms (mssql_syntax alnum)"
    by unfold_locales (auto simp: mssql_syntax_def mssql_string_lexes mssql_ident_lexes mssql_function_laws mssql_datepart_laws)
qed

section \<open>Reading back\<close>

text \<open>C3. What is written of a predicate that was read and vetted is read as the vetted predicate: quoting, parentheses, the spelling of types and the limits
  on depth and nesting all agree between the writer and the reader, so no column name or literal escapes its place.\<close>

theorem vetted_sql_reads_back:
  assumes "parse_predicate (mssql_syntax alnum) t = Inr p" "vet (mssql_syntax alnum) col caps p = Inr q" "render_predicate (mssql_syntax alnum) q = Inr sql"
  shows "read_predicate (mssql_syntax alnum) sql = Inr q"
proof -
  have p: "wf_predicate (mssql_syntax alnum) 10 p" using assms(1) by (intro mssql.read_is_wf) (auto simp: parse_predicate_def split: if_splits)
  have q: "vetted_test (mssql_syntax alnum) col caps p q" using assms(2) by (auto simp: vet_def vetted_test_def split: if_splits)
  show ?thesis by (rule mssql.written_reads_back [OF vetted_wf(2) [OF p q] assms(3)])
qed

text \<open>The text \<open>a=1\<close>, with the column \<open>A\<close> for \<open>a\<close>.\<close>

lemma sample_tokens: "tokens (mssql_lexicon (\<lambda>_. False)) [97, 61, 49] = Inr [Word [97] False, Mark ''='', Num [49]]"
  by code_simp

lemma sample_expression:
  "expression 257 (mssql_syntax (\<lambda>_. False)) 0 0 0 [Word [97] False, Mark ''='', Num [49]] = Inr (TTest sample_read, [])"
  by code_simp

lemma sample_parses: "parse_predicate (mssql_syntax (\<lambda>_. False)) [97, 61, 49] = Inr sample_read"
  unfolding parse_predicate_def read_predicate_def
  using sample_tokens sample_expression by (simp add: utf8_length_def mssql_syntax_def del: expression.simps)

lemma sample_renders: "render_predicate (mssql_syntax (\<lambda>_. False)) sample_vetted = Inr (lit ''([A] = 1)'')"
  by (simp add: sample_vetted_def mssql_syntax_def mssql_quote_def doubled_def utf16_length_def MAX_IDENT_CHARS_def lit_def)

theorem vetted_sql_reads_back_witness: "read_predicate (mssql_syntax (\<lambda>_. False)) (lit ''([A] = 1)'') = Inr sample_vetted"
  by (rule vetted_sql_reads_back [OF sample_parses sample_vets sample_renders])

text \<open>C21. A vetted predicate has no column but what the resolver gave, and no call the server does not support; its depths are those of the predicate.\<close>

theorem vetted_holds_only_the_checked:
  assumes "vet S col caps p = Inr q"
  shows "{scalar_kind x | x. inside q x} \<subseteq> {kind. permitted S caps kind \<and> resolved (ran col) kind} \<and> predicate_depth q = predicate_depth p"
proof -
  have "vetted_test S col caps p q" using assms by (auto simp: vet_def vetted_test_def split: if_splits)
  with vetted_inside(2) [OF this] vetted_depth(2) [OF this] show ?thesis by blast
qed

theorem vetted_holds_only_the_checked_witness:
  "{scalar_kind x | x. inside sample_vetted x} \<subseteq>
     {kind. permitted (mssql_syntax (\<lambda>_. False)) \<lparr>cap_major = 16, cap_compatibility = 160\<rparr> kind \<and> resolved (ran [[97] \<mapsto> [65]]) kind} \<and>
   predicate_depth sample_vetted = 2"
  using vetted_holds_only_the_checked [OF sample_vets, of "mssql_syntax (\<lambda>_. False)"] by (simp add: sample_read_def)

end
