(* ===== verification/Mssql_Types.thy ===== *)
theory Mssql_Types
  imports Complex_Main Pred_Laws Policy_Eval
begin

text \<open>
  SQL Server's types as declared on columns (\<open>crates/pbps-mssql/src/types.rs\<close> and \<open>type_change_risk\<close> of \<open>lib.rs\<close>): what may be a key or an identity, and the risk of a
  change of type. A declared type is seen through what \<open>normalize\<close> reads of it. The numbers the code keeps in \<open>i128\<close> are integers here, which
  \<open>families_fit\<close> bounds.

  A change is safe between numeric types exactly when every value of the one is a value of the other, and safe changes compose.
\<close>

section \<open>Declared types\<close>

record column_decl =
  cd_base :: utext
  cd_args :: "type_arg list"
  cd_reference :: bool
  cd_array :: bool
  cd_after_word :: bool

type_synonym mssql_type = "utext \<times> type_arg list"

definition normalize_decl :: "column_decl \<Rightarrow> mssql_type option" where
  "normalize_decl d = (if cd_reference d \<or> cd_array d \<or> cd_after_word d then None else normalize (cd_base d) (cd_args d))"

definition takes_collation :: "utext \<Rightarrow> bool" where
  "takes_collation base \<longleftrightarrow>
     base \<in> set (map lit [''char'', ''varchar'', ''text'', ''nchar'', ''nvarchar'', ''ntext'', ''sysname''])"

definition can_be_identity :: "column_decl \<Rightarrow> bool" where
  "can_be_identity d =
     (case normalize_decl d of
        None \<Rightarrow> False
      | Some (base, args) \<Rightarrow>
          if base \<in> set (map lit [''tinyint'', ''smallint'', ''int'', ''bigint'']) then True
          else if base = lit ''decimal'' then (case args of _ # a # _ \<Rightarrow> a = ArgInt 0 | _ \<Rightarrow> False)
          else False)"

definition is_indexable :: "column_decl \<Rightarrow> bool" where
  "is_indexable d =
     (case normalize_decl d of
        None \<Rightarrow> False
      | Some (base, args) \<Rightarrow>
          base \<notin> set (map lit [''text'', ''ntext'', ''image'', ''xml'']) \<and> \<not> (case args of a # _ \<Rightarrow> a = ArgMax | [] \<Rightarrow> False))"

section \<open>Families\<close>

datatype len = Bounded int | Unbounded

definition fits_in :: "len \<Rightarrow> len \<Rightarrow> bool" where
  "fits_in a b =
     (case b of
        Unbounded \<Rightarrow> True
      | Bounded n \<Rightarrow> (case a of Unbounded \<Rightarrow> False | Bounded k \<Rightarrow> k \<le> n))"

datatype family =
    Exact int int nat
  | Approx int
  | Text_family len bool bool
  | Binary_family len bool
  | Temporal bool bool bool int int
  | Opaque

definition fixed_alias_capacity :: "utext \<Rightarrow> int option" where
  "fixed_alias_capacity base = (if base = lit ''sysname'' then Some 128 else None)"

definition int_arg :: "type_arg list \<Rightarrow> nat \<Rightarrow> int" where
  "int_arg args i = (if i < length args then (case args ! i of ArgInt n \<Rightarrow> n | _ \<Rightarrow> 0) else 0)"

definition len_arg :: "type_arg list \<Rightarrow> len" where
  "len_arg args = (case args of ArgMax # _ \<Rightarrow> Unbounded | ArgInt n # _ \<Rightarrow> Bounded n | _ \<Rightarrow> Bounded 1)"

definition family_of :: "mssql_type \<Rightarrow> family" where
  "family_of t =
     (let base = fst t; args = snd t in
      if base = lit ''bit'' then Exact 0 1 0
      else if base = lit ''tinyint'' then Exact 0 255 0
      else if base = lit ''smallint'' then Exact (- (2 ^ 15)) (2 ^ 15 - 1) 0
      else if base = lit ''int'' then Exact (- (2 ^ 31)) (2 ^ 31 - 1) 0
      else if base = lit ''bigint'' then Exact (- (2 ^ 63)) (2 ^ 63 - 1) 0
      else if base = lit ''decimal'' then
        (let most = 10 ^ nat (int_arg args 0) - 1 in Exact (- most) most (nat (int_arg args 1)))
      else if base = lit ''smallmoney'' then Exact (- (2 ^ 31)) (2 ^ 31 - 1) 4
      else if base = lit ''money'' then Exact (- (2 ^ 63)) (2 ^ 63 - 1) 4
      else if base = lit ''real'' then Approx (2 ^ 24)
      else if base = lit ''float'' then Approx (2 ^ 53)
      else if base = lit ''char'' then Text_family (len_arg args) False True
      else if base = lit ''varchar'' then Text_family (len_arg args) False False
      else if base = lit ''nchar'' then Text_family (len_arg args) True True
      else if base = lit ''nvarchar'' then Text_family (len_arg args) True False
      else if base = lit ''sysname'' then
        Text_family (Bounded (case fixed_alias_capacity (lit ''sysname'') of Some n \<Rightarrow> n | None \<Rightarrow> 0)) True False
      else if base = lit ''text'' then Text_family Unbounded False False
      else if base = lit ''ntext'' then Text_family Unbounded True False
      else if base = lit ''binary'' then Binary_family (len_arg args) True
      else if base = lit ''varbinary'' then Binary_family (len_arg args) False
      else if base = lit ''timestamp'' then Opaque
      else if base = lit ''image'' then Binary_family Unbounded False
      else if base = lit ''date'' then Temporal True False False 0 2
      else if base = lit ''time'' then Temporal False True False (int_arg args 0) 2
      else if base = lit ''smalldatetime'' then Temporal True True False 0 0
      else if base = lit ''datetime'' then Temporal True True False 3 1
      else if base = lit ''datetime2'' then Temporal True True False (int_arg args 0) 2
      else if base = lit ''datetimeoffset'' then Temporal True True True (int_arg args 0) 2
      else Opaque)"

section \<open>Risk\<close>

datatype type_change_risk = Safe | Narrows | Incompatible

definition risk_class_of :: "type_change_risk \<Rightarrow> risk_class option" where
  "risk_class_of r = (case r of Safe \<Rightarrow> None | Narrows \<Rightarrow> Some Narrowing | Incompatible \<Rightarrow> Some Narrowing)"

definition safe_if :: "bool \<Rightarrow> type_change_risk" where
  "safe_if b = (if b then Safe else Narrows)"

text \<open>Division of \<open>i128\<close>, toward zero.\<close>

definition trunc_div :: "int \<Rightarrow> int \<Rightarrow> int" where
  "trunc_div a b = sgn a * (\<bar>a\<bar> div b)"

fun family_risk :: "family \<Rightarrow> family \<Rightarrow> type_change_risk" where
  "family_risk (Exact amin amax asc) (Exact bmin bmax bsc) =
     (if bsc < asc then Narrows
      else
        let factor = 10 ^ (bsc - asc)
        in safe_if (trunc_div bmin factor \<le> amin \<and> amax \<le> trunc_div bmax factor))"
| "family_risk (Exact low high scale) (Approx most) = safe_if (scale = 0 \<and> - most \<le> low \<and> high \<le> most)"
| "family_risk (Approx a) (Approx b) = safe_if (a \<le> b)"
| "family_risk (Approx a) (Exact _ _ _) = Narrows"
| "family_risk (Text_family al au af) (Text_family bl bu bf) =
     (if au \<and> \<not> bu then Narrows else if \<not> af \<and> bf then Narrows else safe_if (fits_in al bl))"
| "family_risk (Binary_family al af) (Binary_family bl bf) =
     (if bf \<and> (\<not> af \<or> al \<noteq> bl) then Narrows else safe_if (fits_in al bl))"
| "family_risk (Temporal ad ati ao ap ar) (Temporal bd bti bo bp br) =
     safe_if (((ad \<longrightarrow> bd) \<and> (ati \<longrightarrow> bti) \<and> (ao \<longrightarrow> bo)) \<and> ap \<le> bp \<and> ar \<le> br)"
| "family_risk (Exact _ _ _) (Text_family _ _ _) = Narrows"
| "family_risk (Approx _) (Text_family _ _ _) = Narrows"
| "family_risk (Temporal _ _ _ _ _) (Text_family _ _ _) = Narrows"
| "family_risk _ _ = Incompatible"

definition change_risk :: "mssql_type \<Rightarrow> mssql_type \<Rightarrow> type_change_risk" where
  "change_risk old new = (if old = new then Safe else family_risk (family_of old) (family_of new))"

definition type_change_risk_of :: "column_decl \<Rightarrow> column_decl \<Rightarrow> type_change_risk" where
  "type_change_risk_of old new =
     (case (normalize_decl old, normalize_decl new) of
        (Some a, Some b) \<Rightarrow> change_risk a b
      | _ \<Rightarrow> Incompatible)"

definition collation_change_risk :: "column_decl \<Rightarrow> risk_class option" where
  "collation_change_risk new =
     (case normalize_decl new of
        None \<Rightarrow> None
      | Some (base, _) \<Rightarrow> if base \<in> set (map lit [''char'', ''varchar'', ''text'']) then Some Narrowing else None)"

definition alter_column_is_refused :: "column_decl \<Rightarrow> bool" where
  "alter_column_is_refused d = (case normalize_decl d of None \<Rightarrow> False | Some (base, _) \<Rightarrow> base = lit ''timestamp'')"

record retype_dependents =
  keys_and_indexes :: bool
  rd_checks :: bool
  filtered_indexes :: bool
  rd_foreign_keys :: bool

definition retype_dependents_of :: "column_decl \<Rightarrow> column_decl \<Rightarrow> retype_dependents" where
  "retype_dependents_of old new =
     (case (normalize_decl old, normalize_decl new) of
        (Some a, Some b) \<Rightarrow>
          if a = b then \<lparr>keys_and_indexes = False, rd_checks = False, filtered_indexes = False, rd_foreign_keys = False\<rparr>
          else
            (let keeps_indexes =
               fst a = fst b \<and> fst a \<in> set (map lit [''varchar'', ''nvarchar'', ''varbinary'']) \<and>
               (case (snd a, snd b) of ([ArgInt m], [ArgInt n]) \<Rightarrow> m \<le> n | _ \<Rightarrow> False)
             in \<lparr>keys_and_indexes = \<not> keeps_indexes, rd_checks = fst a \<noteq> fst b, filtered_indexes = True, rd_foreign_keys = True\<rparr>)
      | _ \<Rightarrow> \<lparr>keys_and_indexes = True, rd_checks = True, filtered_indexes = True, rd_foreign_keys = True\<rparr>)"

section \<open>Normal forms\<close>

lemma catalogue_names:
  "list_all (\<lambda>(n, _). u_words (lit n) = [lit n] \<and> canonical_base (lit n) = lit n) CATALOGUE"
proof -
  have "list_all (\<lambda>(n, _). u_words (lit n) = [lit n]) CATALOGUE"
    by (simp add: CATALOGUE_def lit_def u_whitespace_def)
  moreover have "list_all (\<lambda>(n, _). canonical_base (lit n) = lit n) CATALOGUE"
    by (simp add: CATALOGUE_def canonical_base_def ALIASES_def lit_inj)
  ultimately show ?thesis by (auto simp: list_all_iff)
qed

lemma normalize_idempotent:
  assumes "normalize name args = Some (base, nargs)"
  shows "normalize base nargs = Some (base, nargs)"
proof -
  note s = normalize_settled [OF assms]
  then obtain shape where sh: "shape_of base = Some shape" by (auto simp: settled_def split: option.splits)
  then obtain n where n: "(n, shape) \<in> set CATALOGUE" "base = lit n" unfolding shape_of_def by (auto dest!: find_Some_in)
  have b: "canonical_base (join_with (lit '' '') (u_words base)) = base" using list_all_pairD [OF catalogue_names n(1)] by (simp add: n(2))
  show ?thesis
  proof (cases "shape = Float_precision")
    case True
    with s sh show ?thesis unfolding normalize_def Let_def b by (simp add: settled_def)
  next
    case False
    with s sh have "shaped_args shape nargs = Some nargs" by (simp add: settled_def)
    with False sh show ?thesis unfolding normalize_def Let_def b by (cases shape) simp_all
  qed
qed

section \<open>The values of numeric families\<close>

definition family_ok :: "family \<Rightarrow> bool" where
  "family_ok f =
     (case f of
        Exact low high scale \<Rightarrow> - (2 ^ 127) \<le> low \<and> low \<le> 0 \<and> 1 \<le> high \<and> high < 2 ^ 127 \<and> scale \<le> 38
      | Approx most \<Rightarrow> most = 2 ^ 24 \<or> most = 2 ^ 53
      | _ \<Rightarrow> True)"

lemma decimal_args: "settled (lit ''decimal'') args \<Longrightarrow> \<exists>p s. args = [ArgInt p, ArgInt s] \<and> check_decimal p s"
proof -
  have "shape_of (lit ''decimal'') = Some Precision_scale" by (simp add: shape_of_def CATALOGUE_def lit_inj)
  then show "settled (lit ''decimal'') args \<Longrightarrow> \<exists>p s. args = [ArgInt p, ArgInt s] \<and> check_decimal p s"
    by (auto simp: settled_def shaped_args_def split: list.splits type_arg.splits if_splits)
qed

lemma families_fit:
  assumes "settled base args"
  shows "family_ok (family_of (base, args))"
proof (cases "base = lit ''decimal''")
  case True
  with assms obtain p s where a: "args = [ArgInt p, ArgInt s]" and c: "check_decimal p s" using decimal_args by blast
  have p: "1 \<le> p" "p \<le> 38" "0 \<le> s" "s \<le> 38" using c by (auto simp: check_decimal_def)
  have "(10::int) ^ 1 \<le> 10 ^ nat p" using p by (intro power_increasing) auto
  moreover have "(10::int) ^ nat p \<le> 10 ^ 38" using p by (intro power_increasing) auto
  ultimately show ?thesis using p unfolding a True family_of_def by (simp add: lit_inj Let_def int_arg_def family_ok_def)
next
  case False
  then show ?thesis unfolding family_of_def Let_def fst_conv snd_conv by (simp add: family_ok_def)
qed

text \<open>An exact type holds the multiples of a power of ten between its bounds; an approximate one the fractions with a mantissa up to its bound, of any
  exponent.\<close>

definition exact_values :: "int \<Rightarrow> int \<Rightarrow> nat \<Rightarrow> rat set" where
  "exact_values low high scale = {of_int c / 10 ^ scale | c. low \<le> c \<and> c \<le> high}"

definition approx_values :: "int \<Rightarrow> rat set" where
  "approx_values most = {of_int k * 2 ^ i / 2 ^ j | k i j. \<bar>k\<bar> \<le> most}"

definition numeric_values :: "family \<Rightarrow> rat set" where
  "numeric_values f = (case f of Exact low high scale \<Rightarrow> exact_values low high scale | Approx most \<Rightarrow> approx_values most | _ \<Rightarrow> {})"

definition is_numeric :: "family \<Rightarrow> bool" where
  "is_numeric f = (case f of Exact _ _ _ \<Rightarrow> True | Approx _ \<Rightarrow> True | _ \<Rightarrow> False)"

lemma le_div_iff: "0 < f \<Longrightarrow> x \<le> y div f \<longleftrightarrow> x * f \<le> (y :: int)"
proof
  assume f: "0 < f"
  have y: "y = (y div f) * f + y mod f" "0 \<le> y mod f" "y mod f < f" using f by (simp_all add: div_mult_mod_eq)
  show "x * f \<le> y" if "x \<le> y div f" using mult_right_mono [OF that, of f] f y by linarith
  show "x \<le> y div f" if "x * f \<le> y" using zdiv_mono1 [OF that f] f by simp
qed

lemma trunc_div_bounds:
  assumes "0 < f" "low \<le> 0" "0 \<le> high"
  shows "trunc_div low f \<le> a \<longleftrightarrow> low \<le> a * f" "b \<le> trunc_div high f \<longleftrightarrow> b * f \<le> high"
proof -
  have "trunc_div low f = - ((- low) div f)" using assms by (cases "low = 0") (auto simp: trunc_div_def)
  then have "trunc_div low f \<le> a \<longleftrightarrow> - a \<le> (- low) div f" by linarith
  then show "trunc_div low f \<le> a \<longleftrightarrow> low \<le> a * f" by (simp add: le_div_iff [OF assms(1)])
  have "trunc_div high f = high div f" using assms by (cases "high = 0") (auto simp: trunc_div_def)
  then show "b \<le> trunc_div high f \<longleftrightarrow> b * f \<le> high" by (simp add: le_div_iff [OF assms(1)])
qed

lemma exact_eq:
  assumes "of_int c / 10 ^ a = (of_int d / 10 ^ b :: rat)"
  shows "c * 10 ^ b = d * 10 ^ a"
proof -
  have "(of_int (c * 10 ^ b) :: rat) = of_int (d * 10 ^ a)" using assms by (simp add: field_simps)
  then show ?thesis by (simp only: of_int_eq_iff)
qed

lemma exact_subset:
  assumes "low \<le> 0" "1 \<le> high"
  shows "exact_values low high a \<subseteq> exact_values low' high' b \<longleftrightarrow> a \<le> b \<and> low' \<le> low * 10 ^ (b - a) \<and> high * 10 ^ (b - a) \<le> high'"
proof (rule iffI, goal_cases)
  case 1
  have val: "\<exists>d. c * 10 ^ b = d * 10 ^ a \<and> low' \<le> d \<and> d \<le> high'" if "low \<le> c" "c \<le> high" for c
  proof -
    have "of_int c / 10 ^ a \<in> exact_values low high a" using that by (auto simp: exact_values_def)
    with 1 obtain d where "of_int c / 10 ^ a = (of_int d / 10 ^ b :: rat)" "low' \<le> d" "d \<le> high'" by (auto simp: exact_values_def)
    then show ?thesis using exact_eq by blast
  qed
  have ab: "a \<le> b"
  proof (rule ccontr)
    assume "\<not> a \<le> b"
    obtain d where d: "(10::int) ^ b = d * 10 ^ a" using val [of 1] assms by auto
    then have "0 < d" by (metis zero_less_mult_pos2 zero_less_power zero_less_numeral)
    then have "(10::int) ^ a \<le> 10 ^ b" unfolding d by simp
    with \<open>\<not> a \<le> b\<close> show False using power_strict_increasing [of b a "10::int"] by simp
  qed
  have scaled: "c * 10 ^ b = d * 10 ^ a \<Longrightarrow> d = c * 10 ^ (b - a)" for c d :: int
  proof -
    assume "c * 10 ^ b = d * 10 ^ a"
    then have "(c * 10 ^ (b - a)) * 10 ^ a = d * 10 ^ a" using ab by (simp add: mult.assoc power_add [symmetric])
    then show "d = c * 10 ^ (b - a)" by simp
  qed
  show ?case using ab val [of low] val [of high] assms scaled by fastforce
next
  case 2
  show ?case
  proof
    fix x assume "x \<in> exact_values low high a"
    then obtain c where c: "x = of_int c / 10 ^ a" "low \<le> c" "c \<le> high" by (auto simp: exact_values_def)
    have "(10::rat) ^ b = 10 ^ (b - a) * 10 ^ a" using 2 by (simp add: power_add [symmetric])
    then have "x = of_int (c * 10 ^ (b - a)) / 10 ^ b" using c(1) by simp
    moreover have "low * 10 ^ (b - a) \<le> c * 10 ^ (b - a)" "c * 10 ^ (b - a) \<le> high * 10 ^ (b - a)" using c by simp_all
    ultimately show "x \<in> exact_values low' high' b" using 2 unfolding exact_values_def by (intro CollectI exI [of _ "c * 10 ^ (b - a)"]) linarith
  qed
qed

lemma approx_int: "\<bar>c\<bar> \<le> most \<Longrightarrow> of_int c \<in> approx_values most"
  unfolding approx_values_def by (intro CollectI exI [of _ c] exI [of _ 0]) simp

lemma approx_eq:
  assumes "of_int c / 10 ^ s = (of_int k * 2 ^ i / 2 ^ j :: rat)"
  shows "c * 2 ^ j = k * 2 ^ i * 10 ^ s"
proof -
  have "(of_int (c * 2 ^ j) :: rat) = of_int (k * 2 ^ i * 10 ^ s)" using assms by (simp add: field_simps)
  then show ?thesis by (simp only: of_int_eq_iff)
qed

text \<open>The first odd number past the mantissa is not representable.\<close>

lemma approx_odd:
  assumes "odd c" "most < \<bar>c\<bar>"
  shows "of_int c \<notin> approx_values most"
proof
  assume "of_int c \<in> approx_values most"
  then obtain k i j where "of_int c / 10 ^ 0 = (of_int k * 2 ^ i / 2 ^ j :: rat)" and k: "\<bar>k\<bar> \<le> most" by (auto simp: approx_values_def)
  then have e: "c * 2 ^ j = k * 2 ^ i" using approx_eq [of c 0 k i j] by simp
  show False
  proof (cases "i \<le> j")
    case True
    then have "(c * 2 ^ (j - i)) * 2 ^ i = k * 2 ^ i" using e by (simp add: mult.assoc power_add [symmetric])
    then have "k = c * 2 ^ (j - i)" by simp
    then have "\<bar>k\<bar> = \<bar>c\<bar> * 2 ^ (j - i)" by (simp add: abs_mult)
    moreover have "\<bar>c\<bar> * 1 \<le> \<bar>c\<bar> * 2 ^ (j - i)" by (intro mult_left_mono) simp_all
    ultimately show False using k assms(2) by linarith
  next
    case False
    then have "(k * 2 ^ (i - j)) * 2 ^ j = c * 2 ^ j" using e by (simp add: mult.assoc power_add [symmetric])
    then have "c = k * 2 ^ (i - j)" by simp
    with assms(1) False show False by simp
  qed
qed

lemma approx_fraction:
  assumes "0 < s"
  shows "1 / 10 ^ s \<notin> approx_values most"
proof
  assume "1 / 10 ^ s \<in> approx_values most"
  then obtain k i j where "of_int 1 / 10 ^ s = (of_int k * 2 ^ i / 2 ^ j :: rat)" by (auto simp: approx_values_def)
  from approx_eq [OF this] have "(2::int) ^ j = k * 2 ^ i * 10 ^ s" by simp
  moreover have "(5::int) dvd 10 ^ s" by (rule dvd_trans [of _ 10]) (use assms in \<open>simp_all add: dvd_power\<close>)
  ultimately have "(5::int) dvd 2 ^ j" by simp
  moreover have "\<not> (5::int) dvd 2 ^ n" for n
  proof (induction n)
    case (Suc n)
    have h: "(5::int) dvd 2 * x \<Longrightarrow> 5 dvd x" for x by presburger
    show ?case unfolding power_Suc using Suc h by blast
  qed simp
  ultimately show False by blast
qed

lemma exact_approx_subset:
  assumes "low \<le> 0" "1 \<le> high" "even most"
  shows "exact_values low high s \<subseteq> approx_values most \<longleftrightarrow> s = 0 \<and> - most \<le> low \<and> high \<le> most"
proof (rule iffI, goal_cases)
  case 1
  have "s = 0"
  proof (rule ccontr)
    assume "s \<noteq> 0"
    moreover have "of_int 1 / 10 ^ s \<in> exact_values low high s" unfolding exact_values_def using assms by (intro CollectI exI [of _ 1]) simp
    ultimately show False using 1 approx_fraction [of s most] by auto
  qed
  then have val: "of_int c \<in> approx_values most" if "low \<le> c" "c \<le> high" for c
    using 1 that by (auto simp: exact_values_def)
  have "high \<le> most"
  proof (rule ccontr)
    assume "\<not> high \<le> most"
    then show False using val [of "most + 1"] approx_odd [of "most + 1" most] assms val [of 1] approx_odd [of 1 most] by (cases "0 \<le> most") auto
  qed
  moreover have "- most \<le> low"
  proof (rule ccontr)
    assume "\<not> - most \<le> low"
    then show False using val [of "- most - 1"] approx_odd [of "- most - 1" most] assms \<open>high \<le> most\<close> by auto
  qed
  ultimately show ?case using \<open>s = 0\<close> by simp
next
  case 2
  then show ?case by (auto simp: exact_values_def intro!: approx_int)
qed

lemma approx_subset:
  assumes "even b" "0 < a" "0 < b"
  shows "approx_values a \<subseteq> approx_values b \<longleftrightarrow> a \<le> b"
proof
  show "a \<le> b" if "approx_values a \<subseteq> approx_values b"
  proof (rule ccontr)
    assume "\<not> a \<le> b"
    then show False using that approx_int [of "b + 1" a] approx_odd [of "b + 1" b] assms by auto
  qed
  show "approx_values a \<subseteq> approx_values b" if "a \<le> b" using that unfolding approx_values_def by fastforce
qed

lemma approx_exact_subset:
  assumes "1 \<le> most" "0 \<le> high"
  shows "\<not> approx_values most \<subseteq> exact_values low high s"
proof
  assume "approx_values most \<subseteq> exact_values low high s"
  moreover have "of_int 1 * 2 ^ nat high / 2 ^ 0 \<in> approx_values most" unfolding approx_values_def using assms by (intro CollectI exI conjI) (rule refl, simp)
  ultimately obtain c where c: "2 ^ nat high = (of_int c / 10 ^ s :: rat)" "c \<le> high" by (auto simp: exact_values_def)
  then have "(of_int (2 ^ nat high * 10 ^ s) :: rat) = of_int c" by (simp add: field_simps)
  then have "2 ^ nat high * 10 ^ s = c" by (simp only: of_int_eq_iff)
  moreover have "(2::int) ^ nat high * 1 \<le> 2 ^ nat high * 10 ^ s" by (intro mult_left_mono) simp_all
  moreover have "high < 2 ^ nat high" using assms(2) of_nat_less_two_power [of "nat high"] by simp
  ultimately show False using c(2) by linarith
qed

lemma safe_if_Safe [simp]: "safe_if b = Safe \<longleftrightarrow> b"
  by (simp add: safe_if_def)

lemma numeric_risk:
  assumes "family_ok a" "family_ok b" "is_numeric a" "is_numeric b"
  shows "family_risk a b = Safe \<longleftrightarrow> numeric_values a \<subseteq> numeric_values b"
proof (cases a)
  case (Exact low high s)
  note A = this
  show ?thesis
  proof (cases b)
    case (Exact low' high' s')
    have "low \<le> 0" "1 \<le> high" "low' \<le> 0" "0 \<le> high'" using assms A Exact by (simp_all add: family_ok_def)
    then show ?thesis using exact_subset [of low high s low' high' s'] trunc_div_bounds(1) [of "10 ^ (s' - s)" low' high' low]
      trunc_div_bounds(2) [of "10 ^ (s' - s)" low' high' high]
      by (auto simp: A Exact numeric_values_def Let_def)
  next
    case (Approx most)
    have "low \<le> 0" "1 \<le> high" "even most" using assms A Approx by (auto simp: family_ok_def)
    then show ?thesis using exact_approx_subset [of low high most s] by (simp add: A Approx numeric_values_def)
  qed (use assms in \<open>simp_all add: is_numeric_def\<close>)
next
  case (Approx most)
  note A = this
  show ?thesis
  proof (cases b)
    case (Exact low high s)
    have "1 \<le> most" "0 \<le> high" using assms A Exact by (auto simp: family_ok_def)
    then show ?thesis using approx_exact_subset by (simp add: A Exact numeric_values_def)
  next
    case (Approx most')
    have "even most'" "0 < most" "0 < most'" using assms A Approx by (auto simp: family_ok_def)
    then show ?thesis using approx_subset by (simp add: A Approx numeric_values_def)
  qed (use assms in \<open>simp_all add: is_numeric_def\<close>)
qed (use assms in \<open>simp_all add: is_numeric_def\<close>)

lemma fits_in_trans: "fits_in a b \<Longrightarrow> fits_in b c \<Longrightarrow> fits_in a c"
  by (auto simp: fits_in_def split: len.splits)

lemma family_risk_trans:
  assumes "family_ok a" "family_ok b" "family_ok c" "family_risk a b = Safe" "family_risk b c = Safe"
  shows "family_risk a c = Safe"
proof (cases "is_numeric a")
  case True
  then have b: "is_numeric b" using assms(4) by (cases a; cases b) (simp_all add: is_numeric_def)
  then have c: "is_numeric c" using assms(5) by (cases b; cases c) (simp_all add: is_numeric_def)
  show ?thesis using assms True b c by (simp add: numeric_risk)
next
  case False
  show ?thesis
  proof (cases a)
    case (Text_family l u f)
    with assms(4) obtain l' u' f' where b: "b = Text_family l' u' f'" by (cases b) simp_all
    with assms(5) obtain l'' u'' f'' where "c = Text_family l'' u'' f''" by (cases c) simp_all
    with assms(4,5) Text_family b show ?thesis using fits_in_trans [of l l' l''] by (auto split: if_splits)
  next
    case (Binary_family l f)
    with assms(4) obtain l' f' where b: "b = Binary_family l' f'" by (cases b) simp_all
    with assms(5) obtain l'' f'' where "c = Binary_family l'' f''" by (cases c) simp_all
    with assms(4,5) Binary_family b show ?thesis using fits_in_trans [of l l' l''] by (simp split: if_splits)
  next
    case (Temporal d t z p r)
    with assms(4) obtain d' t' z' p' r' where b: "b = Temporal d' t' z' p' r'" by (cases b) simp_all
    with assms(5) obtain d'' t'' z'' p'' r'' where "c = Temporal d'' t'' z'' p'' r''" by (cases c) simp_all
    with assms(4,5) Temporal b show ?thesis by auto
  qed (use assms(4) False in \<open>simp_all add: is_numeric_def\<close>)
qed

section \<open>Properties\<close>

lemma normalized_family: "normalize_decl d = Some t \<Longrightarrow> family_ok (family_of t)"
  using families_fit [OF normalize_settled] by (cases t) (auto simp: normalize_decl_def split: if_splits)

text \<open>C9. A change between numeric types is safe exactly when every value of the old type is a value of the new one: bounds, scale and binary mantissa are judged
  without overflow of the 128 bits they are kept in.\<close>

theorem safe_numeric_changes_keep_every_value:
  assumes "normalize_decl old = Some a" "normalize_decl new = Some b" "is_numeric (family_of a)" "is_numeric (family_of b)"
  shows "type_change_risk_of old new = Safe \<longleftrightarrow> numeric_values (family_of a) \<subseteq> numeric_values (family_of b)"
  using numeric_risk [OF normalized_family normalized_family, OF assms]
  by (auto simp: type_change_risk_of_def change_risk_def assms(1,2))

definition plain_decl :: "string \<Rightarrow> type_arg list \<Rightarrow> column_decl" where
  "plain_decl base args = \<lparr>cd_base = lit base, cd_args = args, cd_reference = False, cd_array = False, cd_after_word = False\<rparr>"

lemma sample_types:
  "normalize_decl (plain_decl ''money'' []) = Some (lit ''money'', [])"
  "normalize_decl (plain_decl ''decimal'' [ArgInt 19, ArgInt 4]) = Some (lit ''decimal'', [ArgInt 19, ArgInt 4])"
  "normalize_decl (plain_decl ''decimal'' [ArgInt 20, ArgInt 4]) = Some (lit ''decimal'', [ArgInt 20, ArgInt 4])"
proof -
  have m: "settled (lit ''money'') []" "settled (lit ''decimal'') [ArgInt 19, ArgInt 4]" "settled (lit ''decimal'') [ArgInt 20, ArgInt 4]"
    by (simp_all add: settled_def shape_of_def CATALOGUE_def lit_inj shaped_args_def check_decimal_def)
  have b: "''money'' \<in> set cast_bases" "''decimal'' \<in> set cast_bases" by (simp_all add: cast_bases_def)
  have "map u_lower (map u_upper (lit c)) = lit c" if "c \<in> set cast_bases" for c using that cast_bases_plain by (simp add: list_all_iff)
  then show "normalize_decl (plain_decl ''money'' []) = Some (lit ''money'', [])"
    "normalize_decl (plain_decl ''decimal'' [ArgInt 19, ArgInt 4]) = Some (lit ''decimal'', [ArgInt 19, ArgInt 4])"
    "normalize_decl (plain_decl ''decimal'' [ArgInt 20, ArgInt 4]) = Some (lit ''decimal'', [ArgInt 20, ArgInt 4])"
    using settled_normalize [OF b(1) m(1)] settled_normalize [OF b(2) m(2)] settled_normalize [OF b(2) m(3)] b
    by (simp_all add: normalize_decl_def plain_decl_def)
qed

lemma sample_families:
  "family_of (lit ''money'', []) = Exact (- (2 ^ 63)) (2 ^ 63 - 1) 4"
  "family_of (lit ''decimal'', [ArgInt 19, ArgInt 4]) = Exact (- (10 ^ 19 - 1)) (10 ^ 19 - 1) 4"
  "family_of (lit ''decimal'', [ArgInt 20, ArgInt 4]) = Exact (- (10 ^ 20 - 1)) (10 ^ 20 - 1) 4"
  by (simp_all add: family_of_def lit_inj int_arg_def Let_def)

theorem safe_numeric_changes_keep_every_value_witness:
  "type_change_risk_of (plain_decl ''money'' []) (plain_decl ''decimal'' [ArgInt 19, ArgInt 4]) = Safe \<longleftrightarrow>
   exact_values (- (2 ^ 63)) (2 ^ 63 - 1) 4 \<subseteq> exact_values (- (10 ^ 19 - 1)) (10 ^ 19 - 1) 4"
  using safe_numeric_changes_keep_every_value [OF sample_types(1,2)] unfolding sample_families by (simp add: is_numeric_def numeric_values_def)

text \<open>C22. Safe changes compose: where a column may go from one type to a second and from there to a third without losing a value, the direct change is
  safe as well, whatever the three types are.\<close>

theorem safe_changes_compose:
  assumes "type_change_risk_of x y = Safe" "type_change_risk_of y z = Safe"
  shows "type_change_risk_of x z = Safe"
proof -
  obtain a b c where n: "normalize_decl x = Some a" "normalize_decl y = Some b" "normalize_decl z = Some c"
    using assms by (auto simp: type_change_risk_of_def split: option.splits)
  then have "change_risk a b = Safe" "change_risk b c = Safe" using assms by (simp_all add: type_change_risk_of_def)
  then have "change_risk a c = Safe"
    using family_risk_trans [OF normalized_family normalized_family normalized_family, OF n] by (auto simp: change_risk_def split: if_splits)
  with n show ?thesis by (simp add: type_change_risk_of_def)
qed

lemma sample_risks:
  "type_change_risk_of (plain_decl ''money'' []) (plain_decl ''decimal'' [ArgInt 19, ArgInt 4]) = Safe"
  "type_change_risk_of (plain_decl ''decimal'' [ArgInt 19, ArgInt 4]) (plain_decl ''decimal'' [ArgInt 20, ArgInt 4]) = Safe"
  by (simp_all add: type_change_risk_of_def sample_types change_risk_def sample_families trunc_div_def lit_inj)

theorem safe_changes_compose_witness:
  "type_change_risk_of (plain_decl ''money'' []) (plain_decl ''decimal'' [ArgInt 20, ArgInt 4]) = Safe"
  by (rule safe_changes_compose [OF sample_risks])

text \<open>A fixed-width string may grow as a safe change, although every stored value gets blanks appended.\<close>

lemma fixed_text_growth_is_safe: "change_risk (lit ''char'', [ArgInt 10]) (lit ''char'', [ArgInt 20]) = Safe"
  by (simp add: change_risk_def family_of_def lit_inj len_arg_def fits_in_def)

end
