(* ===== verification/Plan_Names.thy ===== *)
theory Plan_Names
  imports Ids_Validity
begin

text \<open>
  The names a plan passes through (\<open>crates/pbps-model/src/plan_names.rs\<close>): from the ordered changes and the
  identity file they lead to, the index \<open>PlanNames\<close> of which uid has which address before and after every change.

  \<^item> A position is a boundary: 0 is the start, \<open>i\<close> lies before and \<open>i + 1\<close> after change \<open>i\<close>.
  \<^item> A \<open>history\<close> keeps a timeline of addresses per uid and a timeline of uids per address.
  \<^item> The theorems of \<open>Plan_Names_Laws\<close> state what the index answers.

  A change is seen through the fields \<open>identity_change\<close> reads. An address in a refusal is kept as it is, where
  the code writes it with \<open>{:?}\<close>. Positions are \<^typ>\<open>nat\<close>: a slice is shorter than \<open>usize::MAX\<close>, which is
  the boundary the last entry of a timeline is read at.
\<close>

section \<open>Data\<close>

datatype at_position = Start | Before nat | After nat | End

datatype holder = Tracked uid | Unmanaged | Vacant

datatype address =
    Table_address table_name
  | Column_address "uid \<times> column_name"
  | Role_address role_name
  | Type_address type_ref

datatype plan_names_error =
    Ids_error ids_error
  | Kind string uid
  | Source string uid "address option" nat
  | Collision string address uid uid nat
  | End_mismatch string
  | Owner column_ref nat
  | ColumnOwner uid
  | Index_panic uid

record 'a transition =
  tr_step :: nat
  tr_uid :: uid
  tr_before :: "'a option"
  tr_after :: "'a option"

definition transition_new :: "nat \<Rightarrow> uid \<Rightarrow> 'a option \<Rightarrow> 'a option \<Rightarrow> 'a transition" where
  "transition_new step u before after = \<lparr>tr_step = step, tr_uid = u, tr_before = before, tr_after = after\<rparr>"

type_synonym 'a timeline = "(nat \<times> 'a option) list"

record (overloaded) ('a::linorder) history =
  h_names :: "(uid, 'a timeline) btree"
  h_holders :: "('a, uid timeline) btree"

definition usize_max :: nat where
  "usize_max = 2 ^ 64 - 1"

text \<open>
  \<open>partition_point\<close> is the length of the longest prefix that satisfies the test: the steps of a timeline ascend.
\<close>

definition timeline_at :: "'a timeline \<Rightarrow> nat \<Rightarrow> 'a option" where
  "timeline_at line b =
     (let n = length (takeWhile (\<lambda>(step, _). step \<le> b) line) in
      if n = 0 then None else snd (line ! (n - 1)))"

section \<open>The history of one namespace\<close>

definition history_name :: "('a::linorder) history \<Rightarrow> uid \<Rightarrow> nat \<Rightarrow> 'a option" where
  "history_name h u b = Option.bind (bget (h_names h) u) (\<lambda>line. timeline_at line b)"

definition history_holder :: "('a::linorder) history \<Rightarrow> 'a \<Rightarrow> nat \<Rightarrow> holder" where
  "history_holder h a b =
     (case bget (h_holders h) a of
        None \<Rightarrow> Unmanaged
      | Some line \<Rightarrow> (case timeline_at line b of Some u \<Rightarrow> Tracked u | None \<Rightarrow> Vacant))"

definition history_set ::
  "('a::linorder \<Rightarrow> address) \<Rightarrow> string \<Rightarrow> uid \<Rightarrow> 'a option \<Rightarrow> nat \<Rightarrow> 'a history \<Rightarrow> (plan_names_error, 'a history) result"
where
  "history_set shown namespace u address b h =
     and_then
       (case address of
          None \<Rightarrow> Inr ()
        | Some a \<Rightarrow>
            (case history_holder h a b of
               Tracked other \<Rightarrow> ensure (other = u) (Collision namespace (shown a) other u b)
             | _ \<Rightarrow> Inr ()))
       (\<lambda>_. let hs = (case history_name h u b of None \<Rightarrow> h_holders h | Some old \<Rightarrow> bpush old (b, None) (h_holders h));
                hs = (case address of None \<Rightarrow> hs | Some a \<Rightarrow> bpush a (b, Some u) hs)
            in Inr \<lparr>h_names = bpush u (b, address) (h_names h), h_holders = hs\<rparr>)"

definition addresses_of :: "'a transition \<Rightarrow> 'a list" where
  "addresses_of e = (case tr_before e of None \<Rightarrow> [] | Some a \<Rightarrow> [a]) @ (case tr_after e of None \<Rightarrow> [] | Some a \<Rightarrow> [a])"

definition reserve_addresses :: "('a::linorder) transition list \<Rightarrow> ('a, uid timeline) btree" where
  "reserve_addresses events = foldl (\<lambda>hs a. bentry a [(0, None)] hs) bempty (concat (map addresses_of events))"

definition place_initial ::
  "('a::linorder \<Rightarrow> address) \<Rightarrow> string \<Rightarrow> 'a history \<Rightarrow> uid \<times> 'a option \<Rightarrow> (plan_names_error, 'a history) result"
where
  "place_initial shown namespace h ua =
     (case ua of (u, address) \<Rightarrow>
        history_set shown namespace u address 0 (h\<lparr>h_names := bput u [(0, None)] (h_names h)\<rparr>))"

definition place_event ::
  "('a::linorder \<Rightarrow> address) \<Rightarrow> string \<Rightarrow> 'a history \<Rightarrow> 'a transition \<Rightarrow> (plan_names_error, 'a history) result"
where
  "place_event shown namespace h e =
     and_then
       (ensure (history_name h (tr_uid e) (tr_step e) = tr_before e)
          (Source namespace (tr_uid e) (map_option shown (tr_before e)) (tr_step e)))
       (\<lambda>_. if tr_before e \<noteq> tr_after e then history_set shown namespace (tr_uid e) (tr_after e) (tr_step e + 1) h
            else Inr h)"

definition history_end :: "('a::linorder) history \<Rightarrow> (uid, 'a) btree" where
  "history_end h =
     bcollect (List.map_filter (\<lambda>(u, line). map_option (Pair u) (timeline_at line usize_max)) (entries (h_names h)))"

definition from_initial ::
  "('a::linorder \<Rightarrow> address) \<Rightarrow> string \<Rightarrow> 'a transition list \<Rightarrow> (uid, 'a) btree \<Rightarrow> (uid, 'a option) btree
   \<Rightarrow> (plan_names_error, 'a history) result"
where
  "from_initial shown namespace events after initial =
     and_then (try_fold (place_initial shown namespace) \<lparr>h_names = bempty, h_holders = reserve_addresses events\<rparr> (entries initial)) (\<lambda>h.
     and_then (try_fold (place_event shown namespace) h events) (\<lambda>h.
     and_then (ensure (history_end h = after) (End_mismatch namespace)) (\<lambda>_. Inr h)))"

definition seed_event ::
  "string \<Rightarrow> uid_kind \<Rightarrow> (uid, 'a option) btree \<Rightarrow> 'a transition \<Rightarrow> (plan_names_error, (uid, 'a option) btree) result"
where
  "seed_event namespace kind initial e =
     and_then (ensure (uid_kind_of (tr_uid e) = kind) (Kind namespace (tr_uid e)))
       (\<lambda>_. Inr (bentry (tr_uid e) (tr_before e) initial))"

definition history_of ::
  "('a::linorder \<Rightarrow> address) \<Rightarrow> string \<Rightarrow> uid_kind \<Rightarrow> 'a transition list \<Rightarrow> (uid, 'a) btree \<Rightarrow> (plan_names_error, 'a history) result"
where
  "history_of shown namespace kind events after =
     and_then (try_fold (seed_event namespace kind) bempty events) (\<lambda>initial.
       from_initial shown namespace events after
         (foldl (\<lambda>m (u, a). bentry u (Some a) m) initial (entries after)))"

section \<open>The identity a change carries\<close>

datatype plan_change =
    CreateTable uid table_name "column_name list"
  | DropTable uid table_name
  | RenameTable uid table_name table_name
  | DetachPartition uid table_name "column_name list"
  | AttachPartition uid table_name
  | SetTablePersistence uid table_name
  | SetStorageParameters uid table_name
  | SetRowSecurity uid table_name
  | SetReplicaIdentity uid table_name
  | SetPartitionDefault uid table_name
  | SetPartitionNotNull uid table_name
  | AddColumn uid table_name column_name
  | DropColumn uid column_ref
  | RenameColumn uid table_name column_name column_name
  | EnumRebuildRetype uid column_ref
  | AlterColumnType uid column_ref
  | AlterColumnNullability uid column_ref
  | AlterColumnDefault uid column_ref
  | AlterColumnExpression uid column_ref
  | AlterColumnNumbering uid column_ref
  | SetColumnDeprecated uid column_ref
  | CreateRole uid role_name
  | DropRole uid role_name
  | RenameRole uid role_name role_name
  | CreateType uid type_ref
  | DropType uid type_ref
  | RenameType uid type_ref type_ref
  | OtherChange

datatype column_life = Keep | Begin "column_name set" | Life_end

datatype identity =
    Table_identity "table_name transition" column_life
  | Column_identity "column_ref transition"
  | Role_identity "role_name transition"
  | Type_identity "type_ref transition"
  | Other_identity

fun identity_change :: "nat \<Rightarrow> plan_change \<Rightarrow> identity" where
  "identity_change i (CreateTable u n cs) = Table_identity (transition_new i u None (Some n)) (Begin (set cs))"
| "identity_change i (DropTable u n) = Table_identity (transition_new i u (Some n) None) Life_end"
| "identity_change i (RenameTable u old new) = Table_identity (transition_new i u (Some old) (Some new)) Keep"
| "identity_change i (DetachPartition u t cs) = Table_identity (transition_new i u (Some t) (Some t)) (Begin (set cs))"
| "identity_change i (AttachPartition u t) = Table_identity (transition_new i u (Some t) (Some t)) Life_end"
| "identity_change i (SetTablePersistence u t) = Table_identity (transition_new i u (Some t) (Some t)) Keep"
| "identity_change i (SetStorageParameters u t) = Table_identity (transition_new i u (Some t) (Some t)) Keep"
| "identity_change i (SetRowSecurity u t) = Table_identity (transition_new i u (Some t) (Some t)) Keep"
| "identity_change i (SetReplicaIdentity u t) = Table_identity (transition_new i u (Some t) (Some t)) Keep"
| "identity_change i (SetPartitionDefault u t) = Table_identity (transition_new i u (Some t) (Some t)) Keep"
| "identity_change i (SetPartitionNotNull u t) = Table_identity (transition_new i u (Some t) (Some t)) Keep"
| "identity_change i (AddColumn u t n) = Column_identity (transition_new i u None (Some (ColumnRef t n)))"
| "identity_change i (DropColumn u c) = Column_identity (transition_new i u (Some c) None)"
| "identity_change i (RenameColumn u t old new) =
     Column_identity (transition_new i u (Some (ColumnRef t old)) (Some (ColumnRef t new)))"
| "identity_change i (EnumRebuildRetype u c) = Column_identity (transition_new i u (Some c) (Some c))"
| "identity_change i (AlterColumnType u c) = Column_identity (transition_new i u (Some c) (Some c))"
| "identity_change i (AlterColumnNullability u c) = Column_identity (transition_new i u (Some c) (Some c))"
| "identity_change i (AlterColumnDefault u c) = Column_identity (transition_new i u (Some c) (Some c))"
| "identity_change i (AlterColumnExpression u c) = Column_identity (transition_new i u (Some c) (Some c))"
| "identity_change i (AlterColumnNumbering u c) = Column_identity (transition_new i u (Some c) (Some c))"
| "identity_change i (SetColumnDeprecated u c) = Column_identity (transition_new i u (Some c) (Some c))"
| "identity_change i (CreateRole u n) = Role_identity (transition_new i u None (Some n))"
| "identity_change i (DropRole u n) = Role_identity (transition_new i u (Some n) None)"
| "identity_change i (RenameRole u old new) = Role_identity (transition_new i u (Some old) (Some new))"
| "identity_change i (CreateType u n) = Type_identity (transition_new i u None (Some n))"
| "identity_change i (DropType u n) = Type_identity (transition_new i u (Some n) None)"
| "identity_change i (RenameType u old new) = Type_identity (transition_new i u (Some old) (Some new))"
| "identity_change i OtherChange = Other_identity"

section \<open>Building the index\<close>

text \<open>The vectors and the map the first loop of \<open>build\<close> fills.\<close>

record gathered =
  table_events :: "table_name transition list"
  owner_events :: "(uid, (nat \<times> column_life) list) btree"
  column_events :: "column_ref transition list"
  role_events :: "role_name transition list"
  type_events :: "type_ref transition list"

definition gather_step :: "uid set \<Rightarrow> gathered \<Rightarrow> nat \<times> plan_change \<Rightarrow> gathered" where
  "gather_step pending g ic =
     (case ic of (i, c) \<Rightarrow>
      (case identity_change i c of
         Table_identity e life \<Rightarrow>
           if life = Keep \<and> tr_before e = tr_after e \<and> uid_kind_of (tr_uid e) = TableUid \<and> tr_uid e \<in> pending then g
           else g\<lparr>owner_events := (if life = Keep then owner_events g else bpush (tr_uid e) (i, life) (owner_events g)),
                   table_events := table_events g @ [e]\<rparr>
       | Column_identity e \<Rightarrow>
           if tr_before e \<noteq> tr_after e \<or> uid_kind_of (tr_uid e) \<noteq> ColumnUid \<or> tr_uid e \<notin> pending
           then g\<lparr>column_events := column_events g @ [e]\<rparr> else g
       | Role_identity e \<Rightarrow> g\<lparr>role_events := role_events g @ [e]\<rparr>
       | Type_identity e \<Rightarrow> g\<lparr>type_events := type_events g @ [e]\<rparr>
       | Other_identity \<Rightarrow> g))"

definition gather :: "uid set \<Rightarrow> plan_change list \<Rightarrow> gathered" where
  "gather pending changes =
     foldl (gather_step pending)
       \<lparr>table_events = [], owner_events = bempty, column_events = [], role_events = [], type_events = []\<rparr>
       (zip [0..<length changes] changes)"

definition owned :: "table_name history \<Rightarrow> column_ref \<Rightarrow> nat \<Rightarrow> (plan_names_error, uid \<times> column_name) result" where
  "owned tables c b =
     (case history_holder tables (cr_table c) b of
        Tracked u \<Rightarrow> Inr (u, cr_name c)
      | _ \<Rightarrow> Inl (Owner c b))"

definition owned_option ::
  "table_name history \<Rightarrow> column_ref option \<Rightarrow> nat \<Rightarrow> (plan_names_error, (uid \<times> column_name) option) result"
where
  "owned_option tables c b = (case c of None \<Rightarrow> Inr None | Some c \<Rightarrow> and_then (owned tables c b) (\<lambda>a. Inr (Some a)))"

definition owned_after ::
  "table_name history \<Rightarrow> nat \<Rightarrow> (uid, column_ref) btree \<Rightarrow> (plan_names_error, (uid, uid \<times> column_name) btree) result"
where
  "owned_after tables n columns =
     try_fold (\<lambda>m (u, c). and_then (owned tables c n) (\<lambda>a. Inr (bput u a m))) bempty (entries columns)"

definition owned_event ::
  "table_name history \<Rightarrow> column_ref transition \<Rightarrow> (plan_names_error, (uid \<times> column_name) transition) result"
where
  "owned_event tables e =
     and_then (owned_option tables (tr_before e) (tr_step e)) (\<lambda>b.
     and_then (owned_option tables (tr_after e) (tr_step e)) (\<lambda>a.
       Inr (transition_new (tr_step e) (tr_uid e) b a)))"

text \<open>The maps \<open>seeds\<close> and \<open>owners\<close>, from the events and then from the final mapping.\<close>

type_synonym seeding = "(uid, (uid \<times> column_name) option) btree \<times> (uid, uid) btree"

definition own :: "uid \<Rightarrow> (uid, uid) btree \<Rightarrow> uid \<Rightarrow> (plan_names_error, (uid, uid) btree) result" where
  "own u owners owner =
     (case bget owners u of
        Some old \<Rightarrow> and_then (ensure (old = owner) (ColumnOwner u)) (\<lambda>_. Inr (bput u owner owners))
      | None \<Rightarrow> Inr (bput u owner owners))"

definition seed_column_event :: "seeding \<Rightarrow> (uid \<times> column_name) transition \<Rightarrow> (plan_names_error, seeding) result" where
  "seed_column_event so e =
     (case so of (seeds, owners) \<Rightarrow>
        and_then (try_fold (own (tr_uid e)) owners (map fst (addresses_of e)))
          (\<lambda>owners. Inr (bentry (tr_uid e) (tr_before e) seeds, owners)))"

definition seed_column_after :: "seeding \<Rightarrow> uid \<times> uid \<times> column_name \<Rightarrow> (plan_names_error, seeding) result" where
  "seed_column_after so ua =
     (case so of (seeds, owners) \<Rightarrow> case ua of (u, address) \<Rightarrow>
        and_then (own u owners (fst address)) (\<lambda>owners. Inr (bentry u (Some address) seeds, owners)))"

definition author ::
  "(uid, (uid \<times> column_name) transition list) btree \<Rightarrow> (uid \<times> column_name) transition
   \<Rightarrow> (plan_names_error, (uid, (uid \<times> column_name) transition list) btree) result"
where
  "author m e =
     and_then (ensure (uid_kind_of (tr_uid e) = ColumnUid) (Kind ''column'' (tr_uid e)))
       (\<lambda>_. Inr (bpush (tr_uid e) e m))"

text \<open>
  The walk along the lifetime of the owning table: the explicit events up to each point of it are taken, a begin
  gives the column the address its next event or the final mapping names, an end takes the address away.
\<close>

definition begin_address ::
  "nat \<Rightarrow> (uid \<times> column_name) option \<Rightarrow> (nat \<times> column_life) list \<Rightarrow> (uid \<times> column_name) transition list
   \<Rightarrow> (uid \<times> column_name) option"
where
  "begin_address n final later explicit =
     (let until = (case later of [] \<Rightarrow> n | (step, _) # _ \<Rightarrow> step) in
      case explicit of
        e # _ \<Rightarrow> if tr_step e < until then tr_before e else None
      | [] \<Rightarrow> if until = n then final else None)"

definition held_after ::
  "(uid \<times> column_name) option \<Rightarrow> (uid \<times> column_name) transition list \<Rightarrow> (uid \<times> column_name) option"
where
  "held_after held taken = (if taken = [] then held else tr_after (last taken))"

fun walk_lifetime ::
  "nat \<Rightarrow> uid \<Rightarrow> (uid \<times> column_name) option \<Rightarrow> (nat \<times> column_life) list \<Rightarrow> (uid \<times> column_name) transition list
   \<Rightarrow> (uid \<times> column_name) option \<Rightarrow> (uid \<times> column_name) transition list"
where
  "walk_lifetime n u final [] explicit held = explicit"
| "walk_lifetime n u final ((step, life) # later) explicit held =
     (let taken = takeWhile (\<lambda>e. tr_step e < step) explicit;
          rest = dropWhile (\<lambda>e. tr_step e < step) explicit;
          held = held_after held taken
      in taken @
        (case life of
           Begin columns \<Rightarrow>
             (case begin_address n final later rest of
                Some address \<Rightarrow>
                  if snd address \<in> columns
                  then transition_new step u None (Some address) # walk_lifetime n u final later rest (Some address)
                  else walk_lifetime n u final later rest held
              | None \<Rightarrow> walk_lifetime n u final later rest held)
         | Life_end \<Rightarrow>
             (case held of
                Some address \<Rightarrow> transition_new step u (Some address) None # walk_lifetime n u final later rest None
              | None \<Rightarrow> walk_lifetime n u final later rest None)
         | Keep \<Rightarrow> walk_lifetime n u final later rest held))"

definition column_start ::
  "table_name history \<Rightarrow> nat \<Rightarrow> uid \<Rightarrow> (nat \<times> column_life) list \<Rightarrow> (uid \<times> column_name) transition list
   \<Rightarrow> (uid \<times> column_name) option \<Rightarrow> (uid \<times> column_name) option"
where
  "column_start tables n owner lifetime explicit seed =
     (let first_evidence = (case explicit of [] \<Rightarrow> n | e # _ \<Rightarrow> tr_step e);
          starts_later = (\<exists>(step, life) \<in> set lifetime. step < first_evidence \<and> (case life of Begin _ \<Rightarrow> True | _ \<Rightarrow> False))
      in if \<not> starts_later \<and> history_name tables owner 0 \<noteq> None then seed else None)"

definition merge_column ::
  "table_name history \<Rightarrow> nat \<Rightarrow> (uid, uid \<times> column_name) btree \<Rightarrow> (uid, (nat \<times> column_life) list) btree
   \<Rightarrow> (uid, uid) btree \<Rightarrow> (uid, (uid \<times> column_name) transition list) btree
   \<Rightarrow> (uid \<times> column_name) transition list \<times> (uid, (uid \<times> column_name) option) btree
   \<Rightarrow> uid \<times> (uid \<times> column_name) option
   \<Rightarrow> (plan_names_error, (uid \<times> column_name) transition list \<times> (uid, (uid \<times> column_name) option) btree) result"
where
  "merge_column tables n after lives owners authored ei us =
     (case ei of (events, initial) \<Rightarrow> case us of (u, seed) \<Rightarrow>
        and_then (ok_or (bget owners u) (Index_panic u)) (\<lambda>owner.
          let lifetime = bget_list lives owner;
              explicit = bget_list authored u;
              start = column_start tables n owner lifetime explicit seed
          in Inr (events @ walk_lifetime n u (bget after u) lifetime explicit start, bput u start initial)))"

record plan_names =
  pn_changes :: "plan_change list"
  pn_tables :: "table_name history"
  pn_columns :: "(uid \<times> column_name) history"
  pn_roles :: "role_name history"
  pn_types :: "(plan_names_error, type_ref history) result"

text \<open>The columns, once the tables have their history.\<close>

definition column_history ::
  "nat \<Rightarrow> ids_file \<Rightarrow> gathered \<Rightarrow> table_name history \<Rightarrow> (plan_names_error, (uid \<times> column_name) history) result"
where
  "column_history n after g tables =
     and_then (owned_after tables n (ids_columns after)) (\<lambda>columns_after.
     and_then (try_map (owned_event tables) (column_events g)) (\<lambda>events.
     and_then (try_fold seed_column_event (bempty, bempty) events) (\<lambda>so.
     and_then (try_fold seed_column_after so (entries columns_after)) (\<lambda>(seeds, owners).
     and_then (try_fold author bempty events) (\<lambda>authored.
     and_then (try_fold (merge_column tables n columns_after (owner_events g) owners authored) ([], bempty) (entries seeds))
       (\<lambda>(events, initial).
       from_initial Column_address ''column'' (sort_key tr_step events) columns_after initial))))))"

definition build :: "plan_change list \<Rightarrow> ids_file \<Rightarrow> uid set \<Rightarrow> (plan_names_error, plan_names) result" where
  "build changes after pending =
     and_then (map_err Ids_error (validate after)) (\<lambda>_.
     let g = gather pending changes in
     and_then (history_of Table_address ''table'' TableUid (table_events g) (ids_tables after)) (\<lambda>tables.
     and_then (history_of Role_address ''role'' RoleUid (role_events g) (ids_roles after)) (\<lambda>roles.
     let types = history_of Type_address ''type'' TypeUid (type_events g) (ids_types after) in
     and_then (column_history (length changes) after g tables) (\<lambda>columns.
       Inr \<lparr>pn_changes = changes, pn_tables = tables, pn_columns = columns, pn_roles = roles, pn_types = types\<rparr>))))"

definition plan_names_of :: "plan_change list \<Rightarrow> ids_file \<Rightarrow> (plan_names_error, plan_names) result" where
  "plan_names_of changes after = build changes after {}"

definition of_templates :: "plan_change list \<Rightarrow> ids_file \<Rightarrow> uid set \<Rightarrow> (plan_names_error, plan_names) result" where
  "of_templates changes after pending = build changes after pending"

section \<open>Queries\<close>

text \<open>\<^term>\<open>None\<close> is the panic on a position outside the plan.\<close>

fun boundary :: "plan_names \<Rightarrow> at_position \<Rightarrow> nat option" where
  "boundary pn Start = Some 0"
| "boundary pn End = Some (length (pn_changes pn))"
| "boundary pn (Before i) = (if i < length (pn_changes pn) then Some i else None)"
| "boundary pn (After i) = (if i < length (pn_changes pn) then Some (i + 1) else None)"

definition table_at :: "plan_names \<Rightarrow> uid \<Rightarrow> at_position \<Rightarrow> table_name option option" where
  "table_at pn u p = map_option (history_name (pn_tables pn) u) (boundary pn p)"

definition table_holder :: "plan_names \<Rightarrow> table_name \<Rightarrow> at_position \<Rightarrow> holder option" where
  "table_holder pn n p = map_option (history_holder (pn_tables pn) n) (boundary pn p)"

definition role_at :: "plan_names \<Rightarrow> uid \<Rightarrow> at_position \<Rightarrow> role_name option option" where
  "role_at pn u p = map_option (history_name (pn_roles pn) u) (boundary pn p)"

definition role_holder :: "plan_names \<Rightarrow> role_name \<Rightarrow> at_position \<Rightarrow> holder option" where
  "role_holder pn n p = map_option (history_holder (pn_roles pn) n) (boundary pn p)"

definition type_holder :: "plan_names \<Rightarrow> type_ref \<Rightarrow> at_position \<Rightarrow> (plan_names_error, holder) result option" where
  "type_holder pn n p =
     (case pn_types pn of
        Inl e \<Rightarrow> Some (Inl e)
      | Inr types \<Rightarrow> map_option (\<lambda>b. Inr (history_holder types n b)) (boundary pn p))"

definition column_at :: "plan_names \<Rightarrow> uid \<Rightarrow> at_position \<Rightarrow> (uid \<times> column_name) option option" where
  "column_at pn u p =
     map_option (\<lambda>b.
       case history_name (pn_columns pn) u b of
         None \<Rightarrow> None
       | Some (owner, name) \<Rightarrow> (case history_name (pn_tables pn) owner b of None \<Rightarrow> None | Some _ \<Rightarrow> Some (owner, name)))
       (boundary pn p)"

definition column_first :: "plan_names \<Rightarrow> uid \<Rightarrow> (uid \<times> column_name) option" where
  "column_first pn u =
     Option.bind (bget (h_names (pn_columns pn)) u)
       (\<lambda>line. Option.bind (find (\<lambda>(_, a). a \<noteq> None) line) snd)"

definition column_holder :: "plan_names \<Rightarrow> column_ref \<Rightarrow> at_position \<Rightarrow> holder option" where
  "column_holder pn c p =
     Option.bind (table_holder pn (cr_table c) p)
       (\<lambda>r. case r of
          Tracked owner \<Rightarrow> map_option (history_holder (pn_columns pn) (owner, cr_name c)) (boundary pn p)
        | Unmanaged \<Rightarrow> Some Unmanaged
        | Vacant \<Rightarrow> Some Vacant)"

definition stored :: "plan_names \<Rightarrow> table_name \<Rightarrow> at_position \<Rightarrow> table_name option option" where
  "stored pn n p =
     Option.bind (table_holder pn n p)
       (\<lambda>r. case r of Tracked u \<Rightarrow> table_at pn u Start | _ \<Rightarrow> Some None)"

definition stored_column :: "plan_names \<Rightarrow> column_ref \<Rightarrow> at_position \<Rightarrow> column_ref option option" where
  "stored_column pn c p =
     Option.bind (column_holder pn c p)
       (\<lambda>r. case r of
          Tracked u \<Rightarrow>
            Option.bind (column_at pn u Start)
              (\<lambda>a. case a of
                 None \<Rightarrow> Some None
               | Some (owner, name) \<Rightarrow> map_option (map_option (\<lambda>t. ColumnRef t name)) (table_at pn owner Start))
        | _ \<Rightarrow> Some None)"

text \<open>The iterators: a position outside the plan panics when the first uid is drawn.\<close>

definition column_entry :: "plan_names \<Rightarrow> at_position \<Rightarrow> uid \<Rightarrow> (uid \<times> column_ref) option" where
  "column_entry pn p u =
     (case column_at pn u p of
        Some (Some (owner, name)) \<Rightarrow>
          (case table_at pn owner p of Some (Some t) \<Rightarrow> Some (u, ColumnRef t name) | _ \<Rightarrow> None)
      | _ \<Rightarrow> None)"

definition columns_at :: "plan_names \<Rightarrow> at_position \<Rightarrow> (uid \<times> column_ref) list option" where
  "columns_at pn p =
     (if bkeys (h_names (pn_columns pn)) \<noteq> [] \<and> boundary pn p = None then None
      else Some (List.map_filter (column_entry pn p) (bkeys (h_names (pn_columns pn)))))"

definition renamed_entry ::
  "plan_names \<Rightarrow> uid option \<Rightarrow> at_position \<Rightarrow> uid \<Rightarrow> (uid \<times> column_name \<times> column_name) option"
where
  "renamed_entry pn owner p u =
     (case column_at pn u Start of
        Some (Some (_, old)) \<Rightarrow>
          (case column_at pn u p of
             Some (Some (held, new)) \<Rightarrow> if Some held = owner \<and> old \<noteq> new then Some (u, old, new) else None
           | _ \<Rightarrow> None)
      | _ \<Rightarrow> None)"

definition renamed_columns_at ::
  "plan_names \<Rightarrow> table_name \<Rightarrow> at_position \<Rightarrow> (uid \<times> column_name \<times> column_name) list option"
where
  "renamed_columns_at pn n p =
     map_option (\<lambda>r.
       let owner = (case r of Tracked u \<Rightarrow> Some u | _ \<Rightarrow> None)
       in List.map_filter (renamed_entry pn owner p) (bkeys (h_names (pn_columns pn))))
       (table_holder pn n p)"

definition renamed_columns :: "plan_names \<Rightarrow> table_name \<Rightarrow> (uid \<times> column_name \<times> column_name) list option" where
  "renamed_columns pn n = renamed_columns_at pn n End"

end
