(* ===== verification/Plan_History.thy ===== *)
theory Plan_History
  imports Plan_Names
begin

text \<open>
  What one history answers (\<open>History\<close> of \<open>plan_names.rs\<close>). The specification is a replay: a \<open>world\<close> maps each
  uid to the address it holds, a transition changes it at one uid, and it may not give two uids one address.
  A history is built exactly for the sequences that replay from the first world to the final mapping, it names
  at each boundary what the replay of the changes before it gives, and both directions agree.
\<close>

section \<open>The replay\<close>

definition one_to_one :: "(uid \<Rightarrow> 'a option) \<Rightarrow> bool" where
  "one_to_one w \<longleftrightarrow> (\<forall>u v a. w u = Some a \<longrightarrow> w v = Some a \<longrightarrow> u = v)"

definition happen :: "(uid \<Rightarrow> 'a option) \<Rightarrow> 'a transition \<Rightarrow> uid \<Rightarrow> 'a option" where
  "happen w e = w(tr_uid e := tr_after e)"

definition replay :: "(uid \<Rightarrow> 'a option) \<Rightarrow> 'a transition list \<Rightarrow> uid \<Rightarrow> 'a option" where
  "replay w es = foldl happen w es"

fun admissible :: "(uid \<Rightarrow> 'a option) \<Rightarrow> 'a transition list \<Rightarrow> bool" where
  "admissible w [] = True"
| "admissible w (e # es) = (w (tr_uid e) = tr_before e \<and> one_to_one (happen w e) \<and> admissible (happen w e) es)"

definition timed :: "'a transition list \<Rightarrow> bool" where
  "timed es \<longleftrightarrow> sorted (map tr_step es) \<and> distinct (map (\<lambda>e. (tr_step e, tr_uid e)) es)"

lemma replay_simps [simp]: "replay w [] = w" "replay w (e # es) = replay (happen w e) es"
  by (simp_all add: replay_def)

lemma replay_append: "replay w (es @ es') = replay (replay w es) es'"
  by (simp add: replay_def)

lemma replay_other: "\<forall>e \<in> set es. tr_uid e \<noteq> u \<Longrightarrow> replay w es u = w u"
  by (induction es arbitrary: w) (auto simp: happen_def)

lemma timed_Cons: "timed (e # es) \<longleftrightarrow>
    (\<forall>e' \<in> set es. tr_step e \<le> tr_step e' \<and> (tr_uid e' = tr_uid e \<longrightarrow> tr_step e < tr_step e')) \<and> timed es"
  by (auto simp: timed_def le_less image_iff)

section \<open>Timelines\<close>

definition ends_by :: "'a timeline \<Rightarrow> nat \<Rightarrow> bool" where
  "ends_by line b \<longleftrightarrow> (\<forall>p \<in> set line. fst p \<le> b)"

definition last_of :: "'a timeline \<Rightarrow> 'a option" where
  "last_of line = (if line = [] then None else snd (last line))"

lemma ends_by_simps [simp]:
  "ends_by [] b" "ends_by (line @ [(s, x)]) b \<longleftrightarrow> ends_by line b \<and> s \<le> b"
  "ends_by [(s, x)] b \<longleftrightarrow> s \<le> b"
  by (auto simp: ends_by_def)

lemma ends_by_mono: "ends_by line b \<Longrightarrow> b \<le> c \<Longrightarrow> ends_by line c"
  by (auto simp: ends_by_def)

lemma last_of_simps [simp]: "last_of [] = None" "last_of (line @ [(s, x)]) = x" "last_of [(s, x)] = x"
  by (simp_all add: last_of_def)

lemma timeline_at_Nil [simp]: "timeline_at [] b = None"
  by (simp add: timeline_at_def)

lemma timeline_at_opened [simp]: "timeline_at [(0, None)] b = None"
  by (simp add: timeline_at_def)

lemma timeline_at_late: "ends_by line b \<Longrightarrow> timeline_at line b = last_of line"
proof -
  assume "ends_by line b"
  then have all: "takeWhile (\<lambda>(step, _). step \<le> b) line = line"
    by (simp add: takeWhile_eq_all_conv ends_by_def case_prod_unfold)
  show ?thesis
    unfolding timeline_at_def all Let_def by (simp add: last_of_def last_conv_nth)
qed

lemma timeline_at_early:
  "c < s \<Longrightarrow> timeline_at (line @ [(s, x)]) c = timeline_at line c"
proof -
  assume "c < s"
  then have "takeWhile (\<lambda>(step, _). step \<le> c) (line @ [(s, x)]) = takeWhile (\<lambda>(step, _). step \<le> c) line"
    by (induction line) auto
  moreover have "length (takeWhile (\<lambda>(step, _). step \<le> c) line) = 0
      \<or> length (takeWhile (\<lambda>(step, _). step \<le> c) line) - 1 < length line"
    using length_takeWhile_le [of "\<lambda>(step, _). step \<le> c" line] by linarith
  ultimately show ?thesis
    by (auto simp: timeline_at_def Let_def nth_append)
qed

lemma timeline_at_snoc:
  "ends_by line s \<Longrightarrow> timeline_at (line @ [(s, x)]) c = (if s \<le> c then x else timeline_at line c)"
  using timeline_at_late [of "line @ [(s, x)]" c] timeline_at_early [of c s line x] ends_by_mono [of line s c]
  by simp

section \<open>Histories\<close>

definition line_of :: "('a::linorder) history \<Rightarrow> uid \<Rightarrow> 'a timeline" where
  "line_of h u = bget_list (h_names h) u"

definition held_line :: "('a::linorder) history \<Rightarrow> 'a \<Rightarrow> uid timeline" where
  "held_line h a = bget_list (h_holders h) a"

definition until :: "('a::linorder) history \<Rightarrow> nat \<Rightarrow> bool" where
  "until h b \<longleftrightarrow> (\<forall>u. ends_by (line_of h u) b) \<and> (\<forall>a. ends_by (held_line h a) b)"

definition matched :: "('a::linorder) history \<Rightarrow> bool" where
  "matched h \<longleftrightarrow> (\<forall>u a c. history_name h u c = Some a \<longleftrightarrow> history_holder h a c = Tracked u)"

definition world :: "('a::linorder) history \<Rightarrow> uid \<Rightarrow> 'a option" where
  "world h u = last_of (line_of h u)"

definition described :: "('a::linorder) history \<Rightarrow> 'a set" where
  "described h = {a. bhas (h_holders h) a}"

lemma until_mono: "until h b \<Longrightarrow> b \<le> c \<Longrightarrow> until h c"
  by (auto simp: until_def intro: ends_by_mono)

lemma history_name_line: "history_name h u c = timeline_at (line_of h u) c"
  by (simp add: history_name_def line_of_def bget_list_def split: option.split)

lemma tracked_line: "history_holder h a c = Tracked u \<longleftrightarrow> timeline_at (held_line h a) c = Some u"
  by (simp add: history_holder_def held_line_def bget_list_def split: option.split)

lemma unmanaged_described: "history_holder h a c = Unmanaged \<longleftrightarrow> a \<notin> described h"
  by (simp add: history_holder_def described_def bhas_def split: option.split)

lemma matched_iff:
  "matched h \<longleftrightarrow> (\<forall>u a c. timeline_at (line_of h u) c = Some a \<longleftrightarrow> timeline_at (held_line h a) c = Some u)"
  by (simp add: matched_def history_name_line tracked_line)

lemma matchedD: "matched h \<Longrightarrow> history_name h u c = Some a \<longleftrightarrow> history_holder h a c = Tracked u"
  by (simp add: matched_def)

lemma matched_one_to_one: "matched h \<Longrightarrow> one_to_one (\<lambda>u. history_name h u c)"
  by (auto simp: matched_def one_to_one_def)

lemma world_now: "ends_by (line_of h u) b \<Longrightarrow> history_name h u b = world h u"
  by (simp add: history_name_line world_def timeline_at_late)

lemma world_until: "until h b \<Longrightarrow> history_name h u b = world h u"
  by (simp add: until_def world_now)

subsection \<open>Setting an address\<close>

definition free_for :: "('a::linorder) history \<Rightarrow> uid \<Rightarrow> 'a option \<Rightarrow> nat \<Rightarrow> bool" where
  "free_for h u x b \<longleftrightarrow> (\<forall>a v. x = Some a \<longrightarrow> history_holder h a b = Tracked v \<longrightarrow> v = u)"

definition after_set :: "('a::linorder) history \<Rightarrow> uid \<Rightarrow> 'a option \<Rightarrow> nat \<Rightarrow> 'a history" where
  "after_set h u x b =
     (let hs = (case history_name h u b of None \<Rightarrow> h_holders h | Some old \<Rightarrow> bpush old (b, None) (h_holders h))
      in \<lparr>h_names = bpush u (b, x) (h_names h),
          h_holders = (case x of None \<Rightarrow> hs | Some a \<Rightarrow> bpush a (b, Some u) hs)\<rparr>)"

lemma history_set_eq:
  "history_set shown ns u x b h = Inr h' \<longleftrightarrow> free_for h u x b \<and> h' = after_set h u x b"
  by (auto simp: history_set_def free_for_def after_set_def Let_def and_then_def ensure_def
      split: option.splits holder.splits)

lemma line_of_after_set: "line_of (after_set h u x b) v = line_of h v @ (if v = u then [(b, x)] else [])"
  by (simp add: after_set_def Let_def line_of_def bget_bpush)

lemma held_line_after_set:
  "held_line (after_set h u x b) a =
     held_line h a @ (if history_name h u b = Some a then [(b, None)] else []) @ (if x = Some a then [(b, Some u)] else [])"
  by (auto simp: after_set_def Let_def held_line_def bget_bpush split: option.splits)

lemma world_after_set: "world (after_set h u x b) = (world h)(u := x)"
  by (simp add: fun_eq_iff world_def line_of_after_set)

lemma ends_by_append: "ends_by (xs @ ys) b \<longleftrightarrow> ends_by xs b \<and> ends_by ys b"
  by (auto simp: ends_by_def)

lemma until_after_set: "until h b \<Longrightarrow> until (after_set h u x b) b"
  by (simp add: until_def line_of_after_set held_line_after_set ends_by_append)

lemma name_after_set:
  assumes "until h b"
  shows "history_name (after_set h u x b) v c = (if v = u \<and> b \<le> c then x else history_name h v c)"
  using assms by (simp add: history_name_line line_of_after_set until_def timeline_at_snoc)

lemma held_after_set:
  assumes "until h b"
  shows "timeline_at (held_line (after_set h u x b) a) c =
    (if b \<le> c \<and> x = Some a then Some u else if b \<le> c \<and> history_name h u b = Some a then None
     else timeline_at (held_line h a) c)"
proof -
  have "ends_by (held_line h a) b" using assms by (simp add: until_def)
  then have "timeline_at (held_line h a @ [(b, y)]) c = (if b \<le> c then y else timeline_at (held_line h a) c)"
    "timeline_at (held_line h a @ [(b, None), (b, y)]) c = (if b \<le> c then y else timeline_at (held_line h a) c)" for y
    using timeline_at_snoc [of "held_line h a" b y c] timeline_at_snoc [of "held_line h a" b None c]
      timeline_at_snoc [of "held_line h a @ [(b, None)]" b y c] by auto
  then show ?thesis
    by (simp add: held_line_after_set)
qed

lemma matched_after_set:
  assumes "matched h" "until h b" "free_for h u x b"
  shows "matched (after_set h u x b)"
proof -
  have late: "timeline_at (held_line h a) c = timeline_at (held_line h a) b" "history_name h v c = history_name h v b"
    if "b \<le> c" for a v c
    using assms(2) until_mono [OF assms(2) that] by (simp_all add: until_def timeline_at_late history_name_line)
  have now: "history_name h v b = Some a \<longleftrightarrow> timeline_at (held_line h a) b = Some v" for v a
    using assms(1) by (simp add: matched_iff history_name_line)
  have free: "x = Some a \<Longrightarrow> timeline_at (held_line h a) b = Some v \<Longrightarrow> v = u" for a v
    using assms(3) by (simp add: free_for_def tracked_line)
  have "(if v = u \<and> b \<le> c then x else history_name h v c) = Some a \<longleftrightarrow>
      (if b \<le> c \<and> x = Some a then Some u else if b \<le> c \<and> history_name h u b = Some a then None
       else timeline_at (held_line h a) c) = Some v" for v a c
  proof (cases "b \<le> c")
    case True
    have "(if v = u then x else N) = Some a \<longleftrightarrow>
        (if x = Some a then Some u else if M = Some a then None else T) = Some v"
      if "N = Some a \<longleftrightarrow> T = Some v" "M = Some a \<longleftrightarrow> T = Some u" "x = Some a \<Longrightarrow> T = Some v \<Longrightarrow> v = u" for N M T
      using that by (metis option.distinct(1) option.inject)
    from this [OF now [of v a] now [of u a] free [of a v]] True show ?thesis
      by (simp only: late(1) [OF True, of a] late(2) [OF True, of v] simp_thms)
  next
    case False
    then show ?thesis using assms(1) by (simp add: matched_iff history_name_line)
  qed
  then show ?thesis
    unfolding matched_iff history_name_line [symmetric] name_after_set [OF assms(2)] held_after_set [OF assms(2)]
    by blast
qed

lemma bhas_bpush: "bhas (bpush k x m) j \<longleftrightarrow> j = k \<or> bhas m j"
  by (simp add: bpush_def)

lemma described_after_set:
  assumes "matched h"
  shows "described (after_set h u x b) = described h \<union> set_option x"
proof -
  have "a \<in> described h" if "history_name h u b = Some a" for a
    using that matchedD [OF assms] unmanaged_described [of h a b] by simp
  then show ?thesis
    by (auto simp: described_def after_set_def Let_def bhas_bpush split: option.splits)
qed

lemma free_for_world:
  assumes "matched h" "until h b" "one_to_one ((world h)(u := x))"
  shows "free_for h u x b"
proof (unfold free_for_def, intro allI impI)
  fix a v
  assume "x = Some a" "history_holder h a b = Tracked v"
  then have "world h v = Some a" "x = Some a"
    using matchedD [OF assms(1), of v b a] world_until [OF assms(2)] by auto
  then show "v = u"
    using assms(3) unfolding one_to_one_def by (metis fun_upd_other fun_upd_same)
qed

subsection \<open>The initial addresses\<close>

definition opened :: "('a::linorder) history \<Rightarrow> uid \<Rightarrow> 'a history" where
  "opened h u = h\<lparr>h_names := bput u [(0, None)] (h_names h)\<rparr>"

definition assigned :: "(uid \<Rightarrow> 'a option) \<Rightarrow> (uid \<times> 'a option) list \<Rightarrow> uid \<Rightarrow> 'a option" where
  "assigned w ps = foldl (\<lambda>w (u, x). w(u := x)) w ps"

lemma assigned_simps [simp]: "assigned w [] = w" "assigned w ((u, x) # ps) = assigned (w(u := x)) ps"
  by (simp_all add: assigned_def)

lemma assigned_map_of:
  "distinct (map fst ps) \<Longrightarrow> assigned w ps u = (case map_of ps u of None \<Rightarrow> w u | Some x \<Rightarrow> x)"
proof (induction ps arbitrary: w)
  case Nil
  then show ?case by simp
next
  case (Cons p ps)
  obtain v x where p: "p = (v, x)" by (cases p)
  have "map_of ps v = None" using Cons.prems by (simp add: p map_of_eq_None_iff)
  with Cons show ?case by (auto simp: p split: option.split)
qed

lemma one_to_one_le: "one_to_one w' \<Longrightarrow> w \<subseteq>\<^sub>m w' \<Longrightarrow> one_to_one w"
  unfolding one_to_one_def map_le_def by (metis domI)

lemma opened_lines:
  "line_of (opened h u) v = (if v = u then [(0, None)] else line_of h v)" "held_line (opened h u) a = held_line h a"
  by (simp_all add: opened_def line_of_def held_line_def bget_list_def bget_bput)

lemma opened_described [simp]: "described (opened h u) = described h"
  by (simp add: opened_def described_def)

lemma opened_keeps:
  assumes "line_of h u = []"
  shows "matched (opened h u) = matched h" "until (opened h u) b = until h b" "world (opened h u) = world h"
proof -
  have "timeline_at (line_of (opened h u) v) c = timeline_at (line_of h v) c" for v c
    using assms by (simp add: opened_lines)
  then show "matched (opened h u) = matched h"
    by (simp only: matched_iff opened_lines(2))
  show "until (opened h u) b = until h b"
    using assms by (auto simp: until_def opened_lines) (metis ends_by_simps(1))
  show "world (opened h u) = world h"
    using assms by (auto simp: world_def opened_lines fun_eq_iff)
qed

lemma place_initial_eq:
  "place_initial shown ns h (u, x) = Inr h' \<longleftrightarrow> free_for (opened h u) u x 0 \<and> h' = after_set (opened h u) u x 0"
  by (simp add: place_initial_def history_set_eq opened_def)

lemma initial_step:
  assumes "place_initial shown ns h (u, x) = Inr h'" "matched h" "until h 0" "line_of h u = []"
  shows "matched h'" "until h' 0" "world h' = (world h)(u := x)" "described h' = described h \<union> set_option x"
    "v \<noteq> u \<Longrightarrow> line_of h' v = line_of h v"
  using assms(1-3) opened_keeps [OF assms(4)]
  by (auto simp: place_initial_eq matched_after_set until_after_set world_after_set described_after_set
      line_of_after_set opened_lines)

lemma initial_steps:
  assumes "try_fold (place_initial shown ns) h ps = Inr h'" "matched h" "until h 0" "distinct (map fst ps)"
    "\<forall>p \<in> set ps. line_of h (fst p) = []"
  shows "matched h' \<and> until h' 0 \<and> world h' = assigned (world h) ps
    \<and> described h' = described h \<union> {a. Some a \<in> snd ` set ps}"
  using assms
proof (induction ps arbitrary: h)
  case Nil
  then show ?case by simp
next
  case (Cons p ps)
  obtain u x where p: "p = (u, x)" by (cases p)
  from Cons.prems(1) obtain k where k: "place_initial shown ns h (u, x) = Inr k" and rest: "try_fold (place_initial shown ns) k ps = Inr h'"
    by (auto simp: p result_simps)
  note step = initial_step [OF k Cons.prems(2,3)]
  have fresh: "line_of h u = []" using Cons.prems(5) by (simp add: p)
  have "\<forall>q \<in> set ps. line_of k (fst q) = []"
    using Cons.prems(4,5) step(5) [OF fresh] by (force simp: p)
  from Cons.IH [OF rest step(1,2) [OF fresh] _ this] Cons.prems(4) step(3,4) [OF fresh]
  show ?case by (auto simp: p elem_set fun_upd_def)
qed

lemma initial_steps_exist:
  assumes "matched h" "until h 0" "distinct (map fst ps)" "\<forall>p \<in> set ps. line_of h (fst p) = []"
    "one_to_one (assigned (world h) ps)"
  shows "\<exists>h'. try_fold (place_initial shown ns) h ps = Inr h'"
  using assms
proof (induction ps arbitrary: h)
  case Nil
  then show ?case by simp
next
  case (Cons p ps)
  obtain u x where p: "p = (u, x)" by (cases p)
  have fresh: "line_of h u = []" using Cons.prems(4) by (simp add: p)
  have unheld: "world h v = None" if "v \<in> fst ` set ps" for v
    using Cons.prems(4) that by (auto simp: world_def)
  have "(world h)(u := x) \<subseteq>\<^sub>m assigned ((world h)(u := x)) ps"
    unfolding map_le_def
  proof
    fix v
    assume v: "v \<in> dom ((world h)(u := x))"
    have "v \<notin> fst ` set ps"
    proof
      assume "v \<in> fst ` set ps"
      then have "world h v = None" "v \<noteq> u" using unheld Cons.prems(3) by (auto simp: p)
      with v show False by (auto split: if_splits)
    qed
    then have "map_of ps v = None" by (simp add: map_of_eq_None_iff)
    then show "((world h)(u := x)) v = assigned ((world h)(u := x)) ps v"
      using Cons.prems(3) by (simp add: assigned_map_of p)
  qed
  with Cons.prems(5) have "one_to_one ((world h)(u := x))"
    by (auto simp: p intro: one_to_one_le)
  then have "free_for (opened h u) u x 0"
    using Cons.prems(1,2) by (intro free_for_world) (simp_all add: opened_keeps [OF fresh])
  then obtain k where k: "place_initial shown ns h (u, x) = Inr k"
    by (simp add: place_initial_eq)
  note step = initial_step [OF k Cons.prems(1,2) fresh]
  have "\<forall>q \<in> set ps. line_of k (fst q) = []"
    using Cons.prems(3,4) step(5) by (force simp: p)
  from Cons.IH [OF step(1,2) _ this] Cons.prems(3,5) k step(3) show ?case
    by (simp add: p fun_upd_def)
qed

subsection \<open>The events\<close>

definition ready :: "('a::linorder) history \<Rightarrow> 'a transition list \<Rightarrow> bool" where
  "ready h es \<longleftrightarrow> (\<forall>e \<in> set es. until h (tr_step e + 1) \<and> ends_by (line_of h (tr_uid e)) (tr_step e))"

lemma ready_initial: "until h 0 \<Longrightarrow> ready h es"
  by (auto simp: ready_def until_def intro: ends_by_mono)

lemma place_event_eq:
  "place_event shown ns h e = Inr h' \<longleftrightarrow> history_name h (tr_uid e) (tr_step e) = tr_before e
     \<and> (if tr_before e \<noteq> tr_after e
        then free_for h (tr_uid e) (tr_after e) (tr_step e + 1) \<and> h' = after_set h (tr_uid e) (tr_after e) (tr_step e + 1)
        else h' = h)"
  by (auto simp: place_event_def result_simps history_set_eq)

lemma event_step:
  assumes "place_event shown ns h e = Inr h'" "matched h" "ready h (e # es)" "timed (e # es)"
  shows "matched h'" "ready h' es" "until h' (tr_step e + 1)" "world h (tr_uid e) = tr_before e"
    "world h' = happen (world h) e" "described h' = described h \<union> set_option (tr_after e)"
    "history_name h' v c = (if v = tr_uid e \<and> tr_step e < c then tr_after e else history_name h v c)"
proof -
  let ?u = "tr_uid e" and ?b = "tr_step e + 1"
  have until: "until h ?b" and line: "ends_by (line_of h ?u) (tr_step e)"
    using assms(3) by (simp_all add: ready_def)
  show before: "world h ?u = tr_before e"
    using assms(1) world_now [OF line] by (simp add: place_event_eq)
  have same: "tr_before e = tr_after e \<Longrightarrow> h' = h"
    and set: "tr_before e \<noteq> tr_after e \<Longrightarrow> free_for h ?u (tr_after e) ?b \<and> h' = after_set h ?u (tr_after e) ?b"
    using assms(1) by (auto simp: place_event_eq)
  show "matched h'"
    using same set assms(2) matched_after_set [OF assms(2) until] by (cases "tr_before e = tr_after e") auto
  show until': "until h' ?b"
    using same set until until_after_set [OF until] by (cases "tr_before e = tr_after e") auto
  show "world h' = happen (world h) e"
    using same set before by (cases "tr_before e = tr_after e") (auto simp: happen_def world_after_set)
  have held: "a \<in> described h" if "tr_before e = Some a" for a
    using that before world_until [OF until, of ?u] matchedD [OF assms(2)] unmanaged_described [of h a ?b] by simp
  show "described h' = described h \<union> set_option (tr_after e)"
    using same set held described_after_set [OF assms(2)] by (cases "tr_before e = tr_after e") (auto simp: elem_set)
  have "history_name h ?u c = tr_before e" if "tr_step e < c"
    using before world_now [OF ends_by_mono [OF line], of c] that by simp
  then show "history_name h' v c = (if v = ?u \<and> tr_step e < c then tr_after e else history_name h v c)"
    using same set name_after_set [OF until] by (cases "tr_before e = tr_after e") (auto simp: Suc_le_eq)
  show "ready h' es"
    unfolding ready_def
  proof
    fix e'
    assume e': "e' \<in> set es"
    have le: "tr_step e \<le> tr_step e'" and less: "tr_uid e' = ?u \<Longrightarrow> tr_step e < tr_step e'"
      using assms(4) e' by (auto simp: timed_Cons)
    have "ends_by (line_of h (tr_uid e')) (tr_step e')"
      using assms(3) e' by (simp add: ready_def)
    then have "ends_by (line_of h' (tr_uid e')) (tr_step e')"
      using same set less by (cases "tr_before e = tr_after e") (auto simp: line_of_after_set)
    then show "until h' (tr_step e' + 1) \<and> ends_by (line_of h' (tr_uid e')) (tr_step e')"
      using until_mono [OF until', of "tr_step e' + 1"] le by simp
  qed
qed

lemma happen_name:
  assumes "\<And>v. history_name h' v c = (if v = tr_uid e \<and> tr_step e < c then tr_after e else history_name h v c)"
  shows "(\<lambda>v. history_name h' v c) = (if tr_step e < c then happen (\<lambda>v. history_name h v c) e else (\<lambda>v. history_name h v c))"
  by (auto simp: assms happen_def fun_eq_iff)

lemma event_steps:
  assumes "try_fold (place_event shown ns) h es = Inr h'" "matched h" "ready h es" "timed es"
  shows "matched h' \<and> admissible (world h) es \<and> world h' = replay (world h) es
    \<and> described h' = described h \<union> {a. \<exists>e \<in> set es. tr_after e = Some a}
    \<and> (\<forall>b. until h b \<longrightarrow> (\<forall>e \<in> set es. tr_step e < b) \<longrightarrow> until h' b)
    \<and> (\<forall>v c. history_name h' v c = replay (\<lambda>v. history_name h v c) (filter (\<lambda>e. tr_step e < c) es) v)"
  using assms
proof (induction es arbitrary: h)
  case Nil
  then show ?case by simp
next
  case (Cons e es)
  from Cons.prems(1) obtain k where k: "place_event shown ns h e = Inr k" and rest: "try_fold (place_event shown ns) k es = Inr h'"
    by (auto simp: result_simps)
  note step = event_step [OF k Cons.prems(2-4)]
  have "timed es" using Cons.prems(4) by (simp add: timed_Cons)
  note IH = Cons.IH [OF rest step(1,2) this]
  have "(\<lambda>u. history_name k u (tr_step e + 1)) = happen (world h) e"
    using world_until [OF step(3)] step(5) by (simp add: fun_eq_iff)
  then have "one_to_one (happen (world h) e)"
    using matched_one_to_one [OF step(1), of "tr_step e + 1"] by simp
  moreover have "until k b" if "tr_step e < b" for b
    using until_mono [OF step(3)] that by simp
  moreover have "(\<lambda>v. history_name k v c) =
      (if tr_step e < c then happen (\<lambda>v. history_name h v c) e else (\<lambda>v. history_name h v c))" for c
    by (rule happen_name [OF step(7)])
  ultimately show ?case
    using IH step(4-6) by (auto simp: elem_set)
qed

lemma event_steps_exist:
  assumes "matched h" "ready h es" "timed es" "admissible (world h) es"
  shows "\<exists>h'. try_fold (place_event shown ns) h es = Inr h'"
  using assms
proof (induction es arbitrary: h)
  case Nil
  then show ?case by simp
next
  case (Cons e es)
  have until: "until h (tr_step e + 1)" and line: "ends_by (line_of h (tr_uid e)) (tr_step e)"
    using Cons.prems(2) by (simp_all add: ready_def)
  have "free_for h (tr_uid e) (tr_after e) (tr_step e + 1)"
    using Cons.prems(4) by (intro free_for_world [OF Cons.prems(1) until]) (simp add: happen_def)
  then obtain k where k: "place_event shown ns h e = Inr k"
    using Cons.prems(4) world_now [OF line] by (cases "tr_before e = tr_after e") (auto simp: place_event_eq)
  note step = event_step [OF k Cons.prems(1-3)]
  have "timed es" using Cons.prems(3) by (simp add: timed_Cons)
  from Cons.IH [OF step(1,2) this] k step(5) Cons.prems(4) show ?case by simp
qed

section \<open>What is accepted and what is answered\<close>

definition first_world :: "(uid, 'a option) btree \<Rightarrow> uid \<Rightarrow> 'a option" where
  "first_world initial u = Option.bind (bget initial u) (\<lambda>x. x)"

definition mentioned :: "'a transition list \<Rightarrow> 'a set" where
  "mentioned es = {a. \<exists>e \<in> set es. tr_before e = Some a \<or> tr_after e = Some a}"

lemma reserve_keys: "bget_list (reserve_addresses es) a = (if a \<in> mentioned es then [(0, None)] else [])"
  "bhas (reserve_addresses es) a \<longleftrightarrow> a \<in> mentioned es"
proof -
  have "bget (foldl (\<lambda>hs a. bentry a [(0, None)] hs) m as) a =
      (case bget m a of None \<Rightarrow> if a \<in> set as then Some [(0, None)] else None | Some x \<Rightarrow> Some x)" for m :: "('a, uid timeline) btree" and as
    by (induction as arbitrary: m) (auto simp: bget_bentry split: option.splits)
  then have "bget (reserve_addresses es) a = (if a \<in> mentioned es then Some [(0, None)] else None)"
    by (auto simp: reserve_addresses_def mentioned_def addresses_of_def split: option.splits)
  then show "bget_list (reserve_addresses es) a = (if a \<in> mentioned es then [(0, None)] else [])"
    "bhas (reserve_addresses es) a \<longleftrightarrow> a \<in> mentioned es"
    by (simp_all add: bget_list_def bhas_def)
qed

abbreviation reserving :: "('a::linorder) transition list \<Rightarrow> 'a history" where
  "reserving es \<equiv> \<lparr>h_names = bempty, h_holders = reserve_addresses es\<rparr>"

lemma reserved:
  "matched (reserving es)" "until (reserving es) 0" "world (reserving es) = Map.empty"
  "described (reserving es) = mentioned es" "line_of (reserving es) u = []"
  by (auto simp: matched_iff until_def world_def described_def line_of_def held_line_def reserve_keys fun_eq_iff)

lemma assigned_first_world: "assigned Map.empty (entries initial) = first_world initial"
  by (simp add: fun_eq_iff first_world_def assigned_map_of [OF sorted_keys_distinct [OF entries_sorted]] bget_entries
      split: option.split)

lemma bget_history_end: "bget (history_end h) u = history_name h u usize_max"
proof -
  let ?f = "\<lambda>(u, line). map_option (Pair u) (timeline_at line usize_max)"
  have keys: "distinct (map fst (List.map_filter ?f ps)) \<and> fst ` set (List.map_filter ?f ps) \<subseteq> fst ` set ps"
    if "distinct (map fst ps)" for ps :: "(uid \<times> 'a timeline) list"
    using that
    by (induction ps) (auto simp: List.map_filter_simps split: option.splits, metis (no_types, lifting) fst_conv imageI subsetD)
  have "map_of (List.map_filter ?f ps) u = Option.bind (map_of ps u) (\<lambda>line. timeline_at line usize_max)"
    if "distinct (map fst ps)" for ps :: "(uid \<times> 'a timeline) list"
    using that
  proof (induction ps)
    case Nil
    then show ?case by (simp add: List.map_filter_simps)
  next
    case (Cons p ps)
    obtain v line where p: "p = (v, line)" by (cases p)
    have "map_of ps v = None" using Cons.prems by (simp add: p map_of_eq_None_iff)
    with Cons show ?case by (auto simp: p List.map_filter_simps split: option.splits)
  qed
  from this [OF sorted_keys_distinct [OF entries_sorted [of "h_names h"]]] show ?thesis
    unfolding history_end_def bget_bcollect history_name_def bget_entries [of "h_names h"]
    using keys [OF sorted_keys_distinct [OF entries_sorted [of "h_names h"]]] by (simp add: map_of_rev)
qed

lemma from_initial_answers:
  assumes "from_initial shown ns es after initial = Inr h" "timed es"
  shows "matched h" "admissible (first_world initial) es" "one_to_one (first_world initial)"
    "history_name h u c = replay (first_world initial) (filter (\<lambda>e. tr_step e < c) es) u"
    "described h = mentioned es \<union> ran (first_world initial)"
    "bget after u = history_name h u usize_max"
proof -
  from assms(1) obtain k
    where k: "try_fold (place_initial shown ns) (reserving es) (entries initial) = Inr k"
      and h: "try_fold (place_event shown ns) k es = Inr h" and last: "history_end h = after"
    by (auto simp: from_initial_def result_simps)
  have initial: "matched k" "until k 0" "world k = first_world initial"
    "described k = mentioned es \<union> {a. Some a \<in> snd ` set (entries initial)}"
    using initial_steps [OF k reserved(1,2) sorted_keys_distinct [OF entries_sorted]]
    by (auto simp: reserved assigned_first_world)
  note events = event_steps [OF h initial(1) ready_initial [OF initial(2)] assms(2)]
  show "matched h" "admissible (first_world initial) es"
    using events initial(3) by simp_all
  have "(\<lambda>v. history_name k v c) = first_world initial" for c
    using world_until [OF until_mono [OF initial(2)], of c] initial(3) by (simp add: fun_eq_iff)
  then show "history_name h u c = replay (first_world initial) (filter (\<lambda>e. tr_step e < c) es) u"
    "one_to_one (first_world initial)"
    using events matched_one_to_one [OF initial(1), of 0] by simp_all
  have "ran (first_world initial) = {a. Some a \<in> snd ` set (entries initial)}"
    unfolding ran_def first_world_def bind_eq_Some_conv image_iff Bex_def split_paired_Ex entries_bget by auto
  then show "described h = mentioned es \<union> ran (first_world initial)"
    using events initial(4) by (auto simp: mentioned_def)
  show "bget after u = history_name h u usize_max"
    using bget_history_end [of h u] last by simp
qed

lemma filter_all: "\<forall>x \<in> set xs. P x \<Longrightarrow> filter P xs = xs"
  by simp

lemma from_initial_accepts:
  assumes "timed es" "\<forall>e \<in> set es. tr_step e < usize_max"
  shows "(\<exists>h. from_initial shown ns es after initial = Inr h) \<longleftrightarrow>
    one_to_one (first_world initial) \<and> admissible (first_world initial) es \<and> replay (first_world initial) es = bget after"
    (is "?ok \<longleftrightarrow> ?one \<and> ?adm \<and> ?fin")
proof
  assume ?ok
  then obtain h where "from_initial shown ns es after initial = Inr h" by blast
  note answers = from_initial_answers [OF this assms(1)]
  from answers(2-6) show "?one \<and> ?adm \<and> ?fin"
    using filter_all [OF assms(2)] by (simp add: fun_eq_iff)
next
  assume spec: "?one \<and> ?adm \<and> ?fin"
  obtain k where k: "try_fold (place_initial shown ns) (reserving es) (entries initial) = Inr k"
    using initial_steps_exist [OF reserved(1,2) sorted_keys_distinct [OF entries_sorted], of initial es shown ns] spec
    by (auto simp: reserved assigned_first_world)
  have initial: "matched k" "until k 0" "world k = first_world initial"
    using initial_steps [OF k reserved(1,2) sorted_keys_distinct [OF entries_sorted]]
    by (auto simp: reserved assigned_first_world)
  obtain h where h: "try_fold (place_event shown ns) k es = Inr h"
    using event_steps_exist [OF initial(1) ready_initial [OF initial(2)] assms(1)] spec initial(3) by auto
  have "(\<lambda>v. history_name k v usize_max) = first_world initial"
    using world_until [OF until_mono [OF initial(2)], of usize_max] initial(3) by (simp add: fun_eq_iff)
  then have "bget (history_end h) = bget after"
    using event_steps [OF h initial(1) ready_initial [OF initial(2)] assms(1)] filter_all [OF assms(2)] spec
    by (simp add: fun_eq_iff bget_history_end)
  then have "history_end h = after" by (rule btree_eqI)
  with k h show ?ok
    by (simp add: from_initial_def)
qed

section \<open>A history and the sequence it follows\<close>

definition follows :: "('a::linorder) history \<Rightarrow> (uid \<Rightarrow> 'a option) \<Rightarrow> 'a transition list \<Rightarrow> bool" where
  "follows h w es \<longleftrightarrow> matched h \<and> timed es \<and> admissible w es
     \<and> (\<forall>u c. history_name h u c = replay w (filter (\<lambda>e. tr_step e < c) es) u)"

lemma follows_matched: "follows h w es \<Longrightarrow> matched h"
  by (simp add: follows_def)

lemma replay_uid: "replay w es u = replay w (filter (\<lambda>e. tr_uid e = u) es) u"
proof (induction es rule: rev_induct)
  case Nil
  then show ?case by simp
next
  case (snoc e es)
  then show ?case by (auto simp: replay_append happen_def)
qed

lemma admissible_append: "admissible w (xs @ ys) \<longleftrightarrow> admissible w xs \<and> admissible (replay w xs) ys"
  by (induction xs arbitrary: w) auto

lemma timed_split:
  assumes "timed (xs @ e # ys)"
  shows "\<forall>x \<in> set xs. tr_uid x = tr_uid e \<longrightarrow> tr_step x < tr_step e"
    "\<forall>y \<in> set ys. tr_uid y = tr_uid e \<longrightarrow> tr_step e < tr_step y"
  using assms by (auto simp: timed_def sorted_append image_iff le_less) metis

lemma follows_event:
  assumes "follows h w es" "e \<in> set es"
  shows "history_name h (tr_uid e) (tr_step e) = tr_before e" "history_name h (tr_uid e) (Suc (tr_step e)) = tr_after e"
proof -
  obtain xs ys where es: "es = xs @ e # ys" using assms(2) by (meson split_list)
  let ?mine = "\<lambda>x. tr_uid x = tr_uid e"
  have timed: "timed (xs @ e # ys)" and adm: "admissible w (xs @ e # ys)"
    using assms(1) by (auto simp: follows_def es)
  note split = timed_split [OF timed]
  have "filter (\<lambda>x. tr_step x < tr_step e \<and> ?mine x) xs = filter ?mine xs"
    "filter (\<lambda>x. tr_step x < Suc (tr_step e) \<and> ?mine x) xs = filter ?mine xs"
    using split(1) by (auto simp: less_Suc_eq intro!: filter_cong)
  moreover have "filter (\<lambda>x. tr_step x < tr_step e \<and> ?mine x) ys = []"
    "filter (\<lambda>x. tr_step x < Suc (tr_step e) \<and> ?mine x) ys = []"
    using split(2) by (force simp: filter_empty_conv)+
  ultimately have "filter (\<lambda>x. tr_step x < tr_step e \<and> ?mine x) es = filter ?mine xs"
    "filter (\<lambda>x. tr_step x < Suc (tr_step e) \<and> ?mine x) es = filter ?mine xs @ [e]"
    by (simp_all add: es)
  then have "history_name h (tr_uid e) (tr_step e) = replay w (filter ?mine xs) (tr_uid e)"
    "history_name h (tr_uid e) (Suc (tr_step e)) = replay w (filter ?mine xs @ [e]) (tr_uid e)"
    using assms(1) replay_uid [of w "filter (\<lambda>x. tr_step x < tr_step e) es" "tr_uid e"]
      replay_uid [of w "filter (\<lambda>x. tr_step x < Suc (tr_step e)) es" "tr_uid e"]
    by (simp_all add: follows_def conj_commute)
  moreover have "replay w xs (tr_uid e) = tr_before e"
    using adm by (simp add: admissible_append)
  ultimately show "history_name h (tr_uid e) (tr_step e) = tr_before e"
    "history_name h (tr_uid e) (Suc (tr_step e)) = tr_after e"
    using replay_uid [of w xs "tr_uid e"] by (simp_all add: replay_append happen_def)
qed

lemma follows_frame:
  assumes "follows h w es" "\<forall>e \<in> set es. tr_step e = i \<longrightarrow> tr_uid e \<noteq> u"
  shows "history_name h u (Suc i) = history_name h u i"
proof -
  have "filter (\<lambda>x. tr_step x < Suc i \<and> tr_uid x = u) es = filter (\<lambda>x. tr_step x < i \<and> tr_uid x = u) es"
    using assms(2) by (auto simp: less_Suc_eq intro: filter_cong)
  then show ?thesis
    using assms(1) replay_uid [of w "filter (\<lambda>x. tr_step x < Suc i) es" u]
      replay_uid [of w "filter (\<lambda>x. tr_step x < i) es" u]
    by (simp add: follows_def conj_commute)
qed

lemma follows_frame_holder:
  assumes "follows h w es" "\<forall>e \<in> set es. tr_step e \<noteq> i"
  shows "history_holder h a (Suc i) = history_holder h a i"
proof -
  have "history_name h u (Suc i) = history_name h u i" for u
    using follows_frame [OF assms(1)] assms(2) by blast
  then have "history_holder h a (Suc i) = Tracked u \<longleftrightarrow> history_holder h a i = Tracked u" for u
    using matchedD [OF follows_matched [OF assms(1)]] by metis
  moreover have "history_holder h a (Suc i) = Unmanaged \<longleftrightarrow> history_holder h a i = Unmanaged"
    by (simp add: unmanaged_described)
  ultimately show ?thesis by (metis holder.exhaust)
qed

section \<open>The history of a namespace from its events and its end\<close>

definition first_named :: "'a transition list \<Rightarrow> (uid, 'a) btree \<Rightarrow> uid \<Rightarrow> 'a option" where
  "first_named es after u = (case find (\<lambda>e. tr_uid e = u) es of Some e \<Rightarrow> tr_before e | None \<Rightarrow> bget after u)"

definition replays :: "uid_kind \<Rightarrow> 'a transition list \<Rightarrow> (uid, 'a) btree \<Rightarrow> bool" where
  "replays kind es after \<longleftrightarrow>
     (\<forall>e \<in> set es. uid_kind_of (tr_uid e) = kind) \<and> one_to_one (first_named es after)
     \<and> admissible (first_named es after) es \<and> replay (first_named es after) es = bget after"

lemma seed_events:
  "try_fold (seed_event ns kind) m es = Inr m' \<longleftrightarrow>
     (\<forall>e \<in> set es. uid_kind_of (tr_uid e) = kind)
     \<and> m' = foldl (\<lambda>m e. bentry (tr_uid e) (tr_before e) m) m es"
  by (induction es arbitrary: m) (auto simp: seed_event_def result_simps)

lemma bget_seeds:
  "bget (foldl (\<lambda>m e. bentry (tr_uid e) (tr_before e) m) m es) u =
     (case bget m u of Some x \<Rightarrow> Some x | None \<Rightarrow> map_option tr_before (find (\<lambda>e. tr_uid e = u) es))"
  by (induction es arbitrary: m) (auto simp: bget_bentry split: option.splits)

lemma bget_seeds_after:
  "bget (foldl (\<lambda>m (u, a). bentry u (Some a) m) m ps) u =
     (case bget m u of Some x \<Rightarrow> Some x | None \<Rightarrow> map_option Some (map_of ps u))"
  by (induction ps arbitrary: m) (auto simp: bget_bentry split: option.splits)

lemma first_world_seeds:
  "first_world (foldl (\<lambda>m (u, a). bentry u (Some a) m)
     (foldl (\<lambda>m e. bentry (tr_uid e) (tr_before e) m) bempty es) (entries after)) = first_named es after"
  by (auto simp: fun_eq_iff first_world_def first_named_def bget_seeds bget_seeds_after bget_entries [symmetric]
      option.map_comp split: option.splits) (metis bind.bind_lunit option.exhaust option.map(1,2) bind.bind_lzero)

lemma history_of_eq:
  "history_of shown ns kind es after = Inr h \<longleftrightarrow>
     (\<forall>e \<in> set es. uid_kind_of (tr_uid e) = kind)
     \<and> from_initial shown ns es after
         (foldl (\<lambda>m (u, a). bentry u (Some a) m)
           (foldl (\<lambda>m e. bentry (tr_uid e) (tr_before e) m) bempty es) (entries after)) = Inr h"
  by (auto simp: history_of_def result_simps seed_events)

lemma history_of_accepts:
  assumes "timed es" "\<forall>e \<in> set es. tr_step e < usize_max"
  shows "(\<exists>h. history_of shown ns kind es after = Inr h) \<longleftrightarrow> replays kind es after"
  using from_initial_accepts [OF assms] by (auto simp: history_of_eq replays_def first_world_seeds)

lemma history_of_answers:
  assumes "history_of shown ns kind es after = Inr h" "timed es"
  shows "follows h (first_named es after) es" "bget after u = history_name h u usize_max"
    "described h = mentioned es \<union> ran (bget after)"
proof -
  note answers = from_initial_answers [OF assms(1) [unfolded history_of_eq, THEN conjunct2] assms(2), unfolded first_world_seeds]
  show "follows h (first_named es after) es"
    using answers(1,2,4) assms(2) by (simp add: follows_def)
  show last: "bget after u = history_name h u usize_max" for u
    by (rule answers(6))
  have "a \<in> described h" if "bget after u = Some a" for u a
    using that last matchedD [OF answers(1)] unmanaged_described [of h a usize_max] by simp
  then have "ran (bget after) \<subseteq> described h" by (auto simp: ran_def)
  moreover have "ran (first_named es after) \<subseteq> mentioned es \<union> ran (bget after)"
    by (auto simp: ran_def first_named_def mentioned_def find_Some_iff split: option.splits) (metis nth_mem)
  ultimately show "described h = mentioned es \<union> ran (bget after)"
    using answers(5) by blast
qed

lemma steps_late:
  assumes "follows h w es" "\<forall>e \<in> set es. tr_step e < n" "n \<le> b"
  shows "history_name h u b = history_name h u n"
proof -
  have "\<forall>e \<in> set es. tr_step e < b" using assms(2,3) by auto
  then show ?thesis using assms(1,2) by (simp add: follows_def)
qed

end
