(* ===== verification/Plan_Columns.thy ===== *)
theory Plan_Columns
  imports Plan_History "HOL-Library.Multiset"
begin

text \<open>
  The events \<open>build\<close> gathers from a plan, and the events of a column merged from its own changes and the lifetime
  of its table: both name each uid at most once per change, in the order of the plan, so that the histories follow
  them.
\<close>

section \<open>The events of a plan\<close>

lemma identity_step:
  "identity_change i c = Table_identity t life \<Longrightarrow> tr_step t = i"
  "identity_change i c = Column_identity e \<Longrightarrow> tr_step e = i"
  "identity_change i c = Role_identity r \<Longrightarrow> tr_step r = i"
  "identity_change i c = Type_identity y \<Longrightarrow> tr_step y = i"
  by (cases c; auto simp: transition_new_def)+

lemma column_identity_names: "identity_change i c = Column_identity e \<Longrightarrow> tr_before e \<noteq> None \<or> tr_after e \<noteq> None"
  by (cases c) (auto simp: transition_new_def)

lemma gather_Nil [simp]:
  "gather pending [] =
     \<lparr>table_events = [], owner_events = bempty, column_events = [], role_events = [], type_events = []\<rparr>"
  by (simp add: gather_def)

lemma gather_snoc: "gather pending (cs @ [c]) = gather_step pending (gather pending cs) (length cs, c)"
  by (simp add: gather_def)

definition in_order :: "nat \<Rightarrow> 'a transition list \<Rightarrow> bool" where
  "in_order n es \<longleftrightarrow> sorted_wrt (<) (map tr_step es) \<and> (\<forall>e \<in> set es. tr_step e < n)"

lemma in_order_Nil [simp]: "in_order n []"
  by (simp add: in_order_def)

lemma in_order_Suc: "in_order n es \<Longrightarrow> in_order (Suc n) es"
  by (auto simp: in_order_def)

lemma in_order_snoc: "in_order n es \<Longrightarrow> tr_step e = n \<Longrightarrow> in_order (Suc n) (es @ [e])"
  by (auto simp: in_order_def sorted_wrt_append)

lemma in_order_timed: "in_order n es \<Longrightarrow> timed es"
proof -
  assume "in_order n es"
  then have "sorted_wrt (<) (map tr_step es)" by (simp add: in_order_def)
  then have "sorted (map tr_step es)" "distinct (map tr_step es)"
    by (simp_all add: strict_sorted_iff)
  then show ?thesis
    by (auto simp: timed_def distinct_map inj_on_def)
qed

lemma gathered_in_order:
  "in_order (length cs) (table_events (gather pending cs))"
  "in_order (length cs) (column_events (gather pending cs))"
  "in_order (length cs) (role_events (gather pending cs))"
  "in_order (length cs) (type_events (gather pending cs))"
  by (induction cs rule: rev_induct)
    (auto simp: gather_snoc gather_step_def identity_step intro: in_order_Suc in_order_snoc split: identity.split)

lemma gathered_events:
  "e \<in> set (table_events (gather {} cs)) \<longleftrightarrow> (\<exists>i < length cs. \<exists>life. identity_change i (cs ! i) = Table_identity e life)"
  "c \<in> set (column_events (gather {} cs)) \<longleftrightarrow> (\<exists>i < length cs. identity_change i (cs ! i) = Column_identity c)"
  "r \<in> set (role_events (gather {} cs)) \<longleftrightarrow> (\<exists>i < length cs. identity_change i (cs ! i) = Role_identity r)"
  by (induction cs rule: rev_induct)
    (auto simp: gather_snoc gather_step_def nth_append less_Suc_eq split: identity.split)

definition scheduled :: "plan_change list \<Rightarrow> (nat \<times> column_life) list \<Rightarrow> bool" where
  "scheduled cs lives \<longleftrightarrow> sorted_wrt (<) (map fst lives)
     \<and> (\<forall>(i, life) \<in> set lives. i < length cs \<and> (\<exists>e. identity_change i (cs ! i) = Table_identity e life))"

lemma scheduled_snoc:
  "scheduled cs lives \<Longrightarrow> scheduled (cs @ [c]) lives"
  "scheduled cs lives \<Longrightarrow> identity_change (length cs) c = Table_identity e life \<Longrightarrow> scheduled (cs @ [c]) (lives @ [(length cs, life)])"
  by (auto simp: scheduled_def nth_append sorted_wrt_append case_prod_unfold)

lemma owner_events_scheduled: "scheduled cs (bget_list (owner_events (gather pending cs)) u)"
proof (induction cs rule: rev_induct)
  case Nil
  then show ?case by (simp add: scheduled_def)
next
  case (snoc c cs)
  then show ?case
    by (auto simp: gather_snoc gather_step_def bget_bpush scheduled_snoc split: identity.split)
qed

section \<open>The walk along a lifetime\<close>

lemma walk_Cons:
  obtains extra held' where
    "walk_lifetime n u final ((step, life) # later) explicit held =
       takeWhile (\<lambda>e. tr_step e < step) explicit @ extra
       @ walk_lifetime n u final later (dropWhile (\<lambda>e. tr_step e < step) explicit) held'"
    "extra = [] \<or> (\<exists>b a. extra = [transition_new step u b a])"
proof -
  let ?taken = "takeWhile (\<lambda>e. tr_step e < step) explicit" and ?rest = "dropWhile (\<lambda>e. tr_step e < step) explicit"
  let ?walk = "walk_lifetime n u final later ?rest"
  define Q where "Q t \<longleftrightarrow> (\<exists>extra held'. t = ?taken @ extra @ ?walk held' \<and> (extra = [] \<or> (\<exists>b a. extra = [transition_new step u b a])))"
    for t
  have Q: "Q (?taken @ ?walk h)" "Q (?taken @ transition_new step u b a # ?walk h)" for h b a
    unfolding Q_def by (rule exI [of _ "[]"], force) (rule exI [of _ "[transition_new step u b a]"], force)
  have "Q (walk_lifetime n u final ((step, life) # later) explicit held)"
    by (simp add: Let_def Q split: column_life.split option.split)
  then show thesis using that unfolding Q_def by blast
qed

definition merged :: "uid \<Rightarrow> (nat \<times> column_life) list \<Rightarrow> 'a transition list \<Rightarrow> 'a transition list \<Rightarrow> bool" where
  "merged u lives explicit es \<longleftrightarrow> sorted_wrt (<) (map tr_step es) \<and> set explicit \<subseteq> set es
     \<and> (\<forall>e \<in> set es. e \<in> set explicit \<or> tr_uid e = u \<and> tr_step e \<in> fst ` set lives)"

lemma walk_merged:
  assumes "sorted_wrt (<) (map fst lives)" "sorted_wrt (<) (map tr_step explicit)"
    "fst ` set lives \<inter> tr_step ` set explicit = {}"
  shows "merged u lives explicit (walk_lifetime n u final lives explicit held)"
  using assms
proof (induction lives arbitrary: explicit held)
  case Nil
  then show ?case by (simp add: merged_def)
next
  case (Cons p lives)
  obtain step life where p: "p = (step, life)" by (cases p)
  let ?taken = "takeWhile (\<lambda>e. tr_step e < step) explicit" and ?rest = "dropWhile (\<lambda>e. tr_step e < step) explicit"
  obtain extra held' where walk: "walk_lifetime n u final (p # lives) explicit held =
      ?taken @ extra @ walk_lifetime n u final lives ?rest held'"
    and extra: "extra = [] \<or> (\<exists>b a. extra = [transition_new step u b a])"
    unfolding p by (rule walk_Cons)
  have members: "set explicit = set ?taken \<union> set ?rest"
    by (metis set_append takeWhile_dropWhile_id)
  have taken: "\<forall>e \<in> set ?taken. tr_step e < step" by (auto dest: set_takeWhileD)
  have "sorted_wrt (<) (map tr_step (?taken @ ?rest))" using Cons.prems(2) by simp
  then have sorted: "sorted_wrt (<) (map tr_step ?taken)" "sorted_wrt (<) (map tr_step ?rest)"
    unfolding map_append sorted_wrt_append by blast+
  have rest: "\<forall>e \<in> set ?rest. step < tr_step e"
  proof (cases ?rest)
    case Nil
    show ?thesis unfolding Nil by simp
  next
    case (Cons r rs)
    have "\<not> tr_step r < step" using hd_dropWhile [of "\<lambda>e. tr_step e < step" explicit] by (simp add: Cons)
    moreover have "tr_step r \<noteq> step"
      using Cons.prems(3) members by (auto simp: p Cons)
    ultimately show ?thesis using sorted(2) by (auto simp: Cons)
  qed
  have "fst ` set lives \<inter> tr_step ` set ?rest = {}"
    using Cons.prems(3) members by auto
  from Cons.IH [OF _ sorted(2) this, of held'] Cons.prems(1)
  have IH: "merged u lives ?rest (walk_lifetime n u final lives ?rest held')" (is "merged _ _ _ ?es") by simp
  have later: "\<forall>e \<in> set ?es. step < tr_step e"
    using IH rest Cons.prems(1) by (force simp: merged_def p)
  have "\<forall>x \<in> set ?taken. \<forall>y \<in> set ?es. tr_step x < tr_step y"
    using taken later by (meson less_trans)
  moreover have "sorted_wrt (<) (map tr_step ?es)" using IH by (simp add: merged_def)
  ultimately have "sorted_wrt (<) (map tr_step (?taken @ extra @ ?es))"
    using extra taken later sorted(1) by (elim disjE exE) (simp_all add: sorted_wrt_append transition_new_def)
  moreover have "set explicit \<subseteq> set (?taken @ extra @ ?es)"
    "\<forall>e \<in> set (?taken @ extra @ ?es). e \<in> set explicit \<or> tr_uid e = u \<and> tr_step e \<in> fst ` set (p # lives)"
    using IH extra members by (auto simp: merged_def p transition_new_def)
  ultimately show ?case
    unfolding walk merged_def by blast
qed

section \<open>The merged events of all columns\<close>

lemma owned_ok: "owned tables c b = Inr a \<longleftrightarrow> history_holder tables (cr_table c) b = Tracked (fst a) \<and> snd a = cr_name c"
  by (cases a) (auto simp: owned_def split: holder.splits)

lemma owned_after_entries:
  assumes "try_fold (\<lambda>m (u, c). and_then (owned tables c n) (\<lambda>a. Inr (bput u a m))) m ps = Inr m'" "distinct (map fst ps)"
  shows "bget m' u = Some a \<longleftrightarrow> (case map_of ps u of None \<Rightarrow> bget m u = Some a | Some c \<Rightarrow> owned tables c n = Inr a)"
  using assms
proof (induction ps arbitrary: m)
  case Nil
  then show ?case by simp
next
  case (Cons p ps)
  obtain v c where p: "p = (v, c)" by (cases p)
  have new: "map_of ps v = None" using Cons.prems by (simp add: p map_of_eq_None_iff)
  from Cons.prems(1) obtain x where x: "owned tables c n = Inr x"
    "try_fold (\<lambda>m (u, c). and_then (owned tables c n) (\<lambda>a. Inr (bput u a m))) (bput v x m) ps = Inr m'"
    by (auto simp: p result_simps)
  from Cons.IH [OF x(2)] Cons.prems(2) new x(1) show ?case
    by (auto simp: p bget_bput split: option.splits)
qed

lemma owned_after_ok:
  assumes "owned_after tables n columns = Inr m"
  shows "bget m u = Some a \<longleftrightarrow> (\<exists>c. bget columns u = Some c \<and> owned tables c n = Inr a)"
  using owned_after_entries [OF assms [unfolded owned_after_def] sorted_keys_distinct [OF entries_sorted], of u a]
  by (auto simp: bget_entries [symmetric] split: option.splits)

lemma owned_after_total:
  assumes "try_fold (\<lambda>m (u, c). and_then (owned tables c n) (\<lambda>a. Inr (bput u a m))) m ps = Inr m'" "(u, c) \<in> set ps"
  shows "\<exists>a. owned tables c n = Inr a"
  using assms by (induction ps arbitrary: m) (auto simp: result_simps)

lemma owned_option_ok:
  "owned_option tables c b = Inr x \<longleftrightarrow>
     (case c of None \<Rightarrow> x = None | Some c \<Rightarrow> \<exists>a. x = Some a \<and> owned tables c b = Inr a)"
  by (auto simp: owned_option_def result_simps split: option.splits)

lemma owned_event_ok:
  "owned_event tables e = Inr e' \<longleftrightarrow> tr_step e' = tr_step e \<and> tr_uid e' = tr_uid e
     \<and> owned_option tables (tr_before e) (tr_step e) = Inr (tr_before e')
     \<and> owned_option tables (tr_after e) (tr_step e) = Inr (tr_after e')"
  by (cases e') (auto simp: owned_event_def result_simps transition_new_def)

lemma bhas_bentry: "bhas (bentry k v m) j \<longleftrightarrow> j = k \<or> bhas m j"
  by (auto simp: bentry_def)

lemma seed_events_keys:
  assumes "try_fold seed_column_event so es = Inr so'"
  shows "bhas (fst so') u \<longleftrightarrow> bhas (fst so) u \<or> (\<exists>e \<in> set es. tr_uid e = u)"
  using assms
proof (induction es arbitrary: so)
  case Nil
  then show ?case by simp
next
  case (Cons e es)
  then obtain k where "seed_column_event so e = Inr k" "try_fold seed_column_event k es = Inr so'"
    by (auto simp: result_simps)
  with Cons.IH [OF this(2)] show ?case
    by (cases so) (auto simp: seed_column_event_def result_simps bhas_bentry)
qed

lemma seed_after_keys:
  assumes "try_fold seed_column_after so ps = Inr so'" "bhas (fst so) u"
  shows "bhas (fst so') u"
  using assms
  by (induction ps arbitrary: so) (force simp: seed_column_after_def result_simps bhas_bentry)+

lemma authored_events:
  assumes "try_fold author m es = Inr m'"
  shows "bget_list m' u = bget_list m u @ filter (\<lambda>e. tr_uid e = u) es"
  using assms
  by (induction es arbitrary: m) (auto simp: author_def result_simps bget_bpush)

lemma merge_columns:
  assumes "try_fold (merge_column tables n after lives owners authored) (es, m) ps = Inr (es', m')"
  shows "\<exists>walks. es' = es @ concat walks \<and>
    list_all2 (\<lambda>p es. \<exists>owner start.
      es = walk_lifetime n (fst p) (bget after (fst p)) (bget_list lives owner) (bget_list authored (fst p)) start) ps walks"
  using assms
proof (induction ps arbitrary: es m)
  case Nil
  then show ?case by simp
next
  case (Cons p ps)
  obtain u seed where p: "p = (u, seed)" by (cases p)
  from Cons.prems obtain t where t: "merge_column tables n after lives owners authored (es, m) p = Inr t"
    and rest: "try_fold (merge_column tables n after lives owners authored) t ps = Inr (es', m')"
    by (auto simp: result_simps)
  from t obtain owner start k where
    "t = (es @ walk_lifetime n u (bget after u) (bget_list lives owner) (bget_list authored u) start, k)"
    by (auto simp: p merge_column_def result_simps Let_def)
  with rest have "try_fold (merge_column tables n after lives owners authored)
       (es @ walk_lifetime n u (bget after u) (bget_list lives owner) (bget_list authored u) start, k) ps = Inr (es', m')"
    by simp
  from Cons.IH [OF this] obtain walks where
    "es' = es @ concat (walk_lifetime n u (bget after u) (bget_list lives owner) (bget_list authored u) start # walks)"
    "list_all2 (\<lambda>p es. \<exists>owner start.
      es = walk_lifetime n (fst p) (bget after (fst p)) (bget_list lives owner) (bget_list authored (fst p)) start) ps walks"
    by auto
  then show ?case
    by (intro exI [of _ "walk_lifetime n u (bget after u) (bget_list lives owner) (bget_list authored u) start # walks"])
      (auto simp: p)
qed

lemma distinct_merged:
  assumes "list_all2 (\<lambda>u es. sorted_wrt (<) (map tr_step es) \<and> (\<forall>e \<in> set es. tr_uid e = u)) us walks" "distinct us"
  shows "distinct (map (\<lambda>e. (tr_step e, tr_uid e)) (concat walks)) \<and> (\<forall>e \<in> set (concat walks). tr_uid e \<in> set us)"
  using assms
proof (induction us walks rule: list_all2_induct)
  case Nil
  then show ?case by simp
next
  case (Cons u us es walks)
  have "distinct (map tr_step es)" using Cons.hyps by (simp add: strict_sorted_iff)
  then have "distinct (map (\<lambda>e. (tr_step e, tr_uid e)) es)"
    by (auto simp: distinct_map inj_on_def)
  with Cons show ?case by auto
qed

lemma owned_events_steps:
  "list_all2 (\<lambda>e e'. owned_event tables e = Inr e') es es' \<Longrightarrow> map tr_step es' = map tr_step es"
  by (induction rule: list_all2_induct) (auto simp: owned_event_ok)

lemma owned_events_members:
  assumes "list_all2 (\<lambda>e e'. owned_event tables e = Inr e') es es'"
  shows "e \<in> set es \<Longrightarrow> \<exists>e' \<in> set es'. owned_event tables e = Inr e'"
    "e' \<in> set es' \<Longrightarrow> \<exists>e \<in> set es. owned_event tables e = Inr e'"
  using assms by (induction rule: list_all2_induct) auto

text \<open>The events of one column are merged from its own and from those of its table, which are at other changes.\<close>

lemma walk_of_column:
  assumes "list_all2 (\<lambda>e e'. owned_event tables e = Inr e') (column_events (gather pending cs)) es"
    "\<forall>e \<in> set (column_events (gather pending cs)). \<exists>c. identity_change (tr_step e) c = Column_identity e \<and> c = cs ! tr_step e"
  shows "merged u (bget_list (owner_events (gather pending cs)) owner) (filter (\<lambda>e. tr_uid e = u) es)
    (walk_lifetime n u final (bget_list (owner_events (gather pending cs)) owner) (filter (\<lambda>e. tr_uid e = u) es) start)"
proof (rule walk_merged)
  let ?lives = "bget_list (owner_events (gather pending cs)) owner" and ?mine = "filter (\<lambda>e. tr_uid e = u) es"
  have lives: "scheduled cs ?lives" by (rule owner_events_scheduled)
  then show "sorted_wrt (<) (map fst ?lives)" by (simp add: scheduled_def)
  have "sorted_wrt (<) (map tr_step es)"
    using gathered_in_order(2) [of cs pending] owned_events_steps [OF assms(1)] by (simp add: in_order_def)
  then show "sorted_wrt (<) (map tr_step ?mine)"
    by (simp add: sorted_wrt_map sorted_wrt_filter)
  show "fst ` set ?lives \<inter> tr_step ` set ?mine = {}"
  proof (rule equals0I)
    fix i
    assume "i \<in> fst ` set ?lives \<inter> tr_step ` set ?mine"
    then obtain life e' where "(i, life) \<in> set ?lives" "e' \<in> set es" "tr_step e' = i" by auto
    moreover obtain e where "e \<in> set (column_events (gather pending cs))" "owned_event tables e = Inr e'"
      using owned_events_members(2) [OF assms(1) \<open>e' \<in> set es\<close>] by blast
    ultimately show False
      using lives assms(2) by (auto simp: scheduled_def owned_event_ok)
  qed
qed

lemma gathered_columns:
  "e \<in> set (column_events (gather pending cs)) \<Longrightarrow>
     tr_step e < length cs \<and> identity_change (tr_step e) (cs ! tr_step e) = Column_identity e"
  by (induction cs rule: rev_induct)
    (auto simp: gather_snoc gather_step_def nth_append identity_step split: identity.splits if_splits)

text \<open>The walks of all columns, one for each uid.\<close>

definition woven :: "gathered \<Rightarrow> 'a transition list \<Rightarrow> uid list \<Rightarrow> 'a transition list list \<Rightarrow> bool" where
  "woven g es us walks \<longleftrightarrow> distinct us
     \<and> list_all2 (\<lambda>u walk. \<exists>owner. merged u (bget_list (owner_events g) owner) (filter (\<lambda>e. tr_uid e = u) es) walk) us walks"

lemma woven_timed:
  assumes "woven g es us walks"
  shows "timed (sort_key tr_step (concat walks))"
proof -
  have "list_all2 (\<lambda>u walk. sorted_wrt (<) (map tr_step walk) \<and> (\<forall>e \<in> set walk. tr_uid e = u)) us walks"
    using assms unfolding woven_def by (elim conjE list_all2_mono) (auto simp: merged_def)
  then have "distinct (map (\<lambda>e. (tr_step e, tr_uid e)) (concat walks))"
    using distinct_merged assms by (auto simp: woven_def)
  moreover have "mset (map (\<lambda>e. (tr_step e, tr_uid e)) (sort_key tr_step (concat walks)))
      = mset (map (\<lambda>e. (tr_step e, tr_uid e)) (concat walks))"
    by simp
  ultimately show ?thesis
    unfolding timed_def by (metis mset_eq_imp_distinct_iff sorted_sort_key)
qed

lemma woven_member:
  assumes "woven (gather pending cs) es us walks" "e \<in> set (concat walks)" "e \<notin> set es"
  shows "tr_step e < length cs \<and> (\<exists>t life. identity_change (tr_step e) (cs ! tr_step e) = Table_identity t life)"
proof -
  obtain i where i: "i < length walks" "e \<in> set (walks ! i)"
    using assms(2) by (metis UN_E in_set_conv_nth set_concat)
  then obtain owner where
    "merged (us ! i) (bget_list (owner_events (gather pending cs)) owner) (filter (\<lambda>e. tr_uid e = us ! i) es) (walks ! i)"
    using assms(1) by (auto simp: woven_def list_all2_conv_all_nth)
  with i(2) have "tr_step e \<in> fst ` set (bget_list (owner_events (gather pending cs)) owner)"
    using assms(3) by (auto simp: merged_def)
  then show ?thesis
    using owner_events_scheduled [of cs pending owner] by (auto simp: scheduled_def)
qed

lemma woven_kept:
  assumes "woven g es us walks" "e \<in> set es" "tr_uid e \<in> set us"
  shows "e \<in> set (concat walks)"
proof -
  obtain i where i: "i < length us" "us ! i = tr_uid e"
    using assms(3) by (auto simp: in_set_conv_nth)
  have walks: "length us = length walks"
    and each: "\<forall>i < length us. \<exists>owner. merged (us ! i) (bget_list (owner_events g) owner) (filter (\<lambda>e. tr_uid e = us ! i) es) (walks ! i)"
    using assms(1) by (auto simp: woven_def list_all2_conv_all_nth)
  obtain owner where
    "merged (us ! i) (bget_list (owner_events g) owner) (filter (\<lambda>e. tr_uid e = us ! i) es) (walks ! i)"
    using each i(1) by blast
  then have "e \<in> set (walks ! i)" using assms(2) i(2) by (auto simp: merged_def)
  then show ?thesis using walks i(1) by auto
qed

lemma merge_columns_woven:
  assumes "try_fold (merge_column tables (length cs) ca (owner_events (gather pending cs)) owners authored) ([], bempty) (entries seeds)
      = Inr (evs, initial)"
    "list_all2 (\<lambda>e e'. owned_event tables e = Inr e') (column_events (gather pending cs)) es"
    "try_fold author bempty es = Inr authored"
  obtains walks where "evs = concat walks" "woven (gather pending cs) es (bkeys seeds) walks"
proof -
  have mine: "bget_list authored u = filter (\<lambda>e. tr_uid e = u) es" for u
    using authored_events [OF assms(3)] by simp
  have columns: "\<forall>e \<in> set (column_events (gather pending cs)).
      \<exists>c. identity_change (tr_step e) c = Column_identity e \<and> c = cs ! tr_step e"
    using gathered_columns by blast
  obtain walks where "evs = concat walks" and walks: "list_all2 (\<lambda>p es. \<exists>owner start.
      es = walk_lifetime (length cs) (fst p) (bget ca (fst p)) (bget_list (owner_events (gather pending cs)) owner)
        (bget_list authored (fst p)) start) (entries seeds) walks"
    using merge_columns [OF assms(1)] by auto
  moreover have "woven (gather pending cs) es (bkeys seeds) walks"
    unfolding woven_def bkeys_def list_all2_map1
    using distinct_bkeys [of seeds, unfolded bkeys_def] walks
    by (elim list_all2_mono conjI) (unfold mine, use walk_of_column [OF assms(2) columns] in blast)
  ultimately show thesis using that by blast
qed

lemma column_history_follows:
  assumes "column_history (length cs) after (gather pending cs) tables = Inr h"
  obtains ca w es where "owned_after tables (length cs) (ids_columns after) = Inr ca"
    "follows h w es" "\<forall>u. bget ca u = history_name h u usize_max"
    "\<forall>e \<in> set es. tr_step e < length cs"
    "\<forall>e \<in> set (column_events (gather pending cs)). \<exists>e' \<in> set es. owned_event tables e = Inr e'"
    "\<forall>e' \<in> set es. (\<exists>e \<in> set (column_events (gather pending cs)). owned_event tables e = Inr e')
       \<or> (\<exists>t life. identity_change (tr_step e') (cs ! tr_step e') = Table_identity t life)"
proof -
  let ?g = "gather pending cs" and ?n = "length cs"
  from assms obtain ca es so seeds owners authored evs initial where
    ca: "owned_after tables ?n (ids_columns after) = Inr ca" and es: "try_map (owned_event tables) (column_events ?g) = Inr es"
    and so: "try_fold seed_column_event (bempty, bempty) es = Inr so"
    and seeds: "try_fold seed_column_after so (entries ca) = Inr (seeds, owners)"
    and authored: "try_fold author bempty es = Inr authored"
    and evs: "try_fold (merge_column tables ?n ca (owner_events ?g) owners authored) ([], bempty) (entries seeds) = Inr (evs, initial)"
    and h: "from_initial Column_address ''column'' (sort_key tr_step evs) ca initial = Inr h"
    by (auto simp: column_history_def result_simps)
  have es': "list_all2 (\<lambda>e e'. owned_event tables e = Inr e') (column_events ?g) es"
    using es by (simp add: try_map_ok)
  obtain walks where walks: "evs = concat walks" "woven ?g es (bkeys seeds) walks"
    by (rule merge_columns_woven [OF evs es' authored])
  have timed: "timed (sort_key tr_step evs)"
    using woven_timed [OF walks(2)] walks(1) by simp
  note answers = from_initial_answers [OF h timed]
  have follows: "follows h (first_world initial) (sort_key tr_step evs)"
    using answers(1,2,4) timed by (simp add: follows_def)
  have own: "tr_step e < ?n \<and> (\<exists>c \<in> set (column_events ?g). owned_event tables c = Inr e)" if "e \<in> set es" for e
    using owned_events_members(2) [OF es' that] gathered_columns by (fastforce simp: owned_event_ok)
  have uids: "tr_uid e \<in> set (bkeys seeds)" if "e \<in> set es" for e
    using seed_after_keys [OF seeds, of "tr_uid e"] seed_events_keys [OF so, of "tr_uid e"] that by (auto simp: set_bkeys)
  show thesis
  proof (rule that [OF ca follows])
    show "\<forall>u. bget ca u = history_name h u usize_max" using answers(6) by blast
    show "\<forall>e \<in> set (sort_key tr_step evs). tr_step e < ?n"
      "\<forall>e' \<in> set (sort_key tr_step evs). (\<exists>e \<in> set (column_events ?g). owned_event tables e = Inr e')
       \<or> (\<exists>t life. identity_change (tr_step e') (cs ! tr_step e') = Table_identity t life)"
      using woven_member [OF walks(2)] own unfolding set_sort walks(1) by blast+
    show "\<forall>e \<in> set (column_events ?g). \<exists>e' \<in> set (sort_key tr_step evs). owned_event tables e = Inr e'"
      using owned_events_members(1) [OF es'] woven_kept [OF walks(2) _ uids] unfolding set_sort walks(1) by blast
  qed
qed

end
