(* ===== verification/Plan_Laws.thy ===== *)
theory Plan_Laws
  imports Plan_Columns
begin

text \<open>
  What the index of a plan (\<open>PlanNames\<close>) answers: every change acts on the names it states and on no other, an
  address has one holder at each boundary and both directions of the index agree, the plan ends at the identity
  file, and a namespace is accepted exactly when its changes replay to that file. The index of owners is never
  read at a missing uid.
\<close>

section \<open>The histories of an index\<close>

lemma build_parts:
  assumes "build cs ids pending = Inr pn"
  shows "pn_changes pn = cs"
    "history_of Table_address ''table'' TableUid (table_events (gather pending cs)) (ids_tables ids) = Inr (pn_tables pn)"
    "history_of Role_address ''role'' RoleUid (role_events (gather pending cs)) (ids_roles ids) = Inr (pn_roles pn)"
    "column_history (length cs) ids (gather pending cs) (pn_tables pn) = Inr (pn_columns pn)"
    "validate ids = Inr ()"
  using assms by (auto simp: build_def result_simps Let_def)

lemma boundary_simps:
  assumes "build cs ids pending = Inr pn"
  shows "boundary pn Start = Some 0" "boundary pn End = Some (length cs)"
    "i < length cs \<Longrightarrow> boundary pn (Before i) = Some i" "i < length cs \<Longrightarrow> boundary pn (After i) = Some (Suc i)"
  using build_parts(1) [OF assms] by simp_all

lemma index_follows:
  assumes "build cs ids pending = Inr pn"
  shows "follows (pn_tables pn) (first_named (table_events (gather pending cs)) (ids_tables ids)) (table_events (gather pending cs))"
    "follows (pn_roles pn) (first_named (role_events (gather pending cs)) (ids_roles ids)) (role_events (gather pending cs))"
  using history_of_answers(1) [OF build_parts(2) [OF assms]] history_of_answers(1) [OF build_parts(3) [OF assms]]
    in_order_timed [OF gathered_in_order(1)] in_order_timed [OF gathered_in_order(3)]
  by blast+

lemma columns_matched:
  assumes "build cs ids pending = Inr pn"
  shows "matched (pn_columns pn)"
  by (rule column_history_follows [OF build_parts(4) [OF assms]]) (rule follows_matched)

lemma column_entry_at:
  assumes "boundary pn p = Some b"
  shows "column_entry pn p u = Some (v, c) \<longleftrightarrow> v = u
    \<and> (\<exists>owner. history_name (pn_columns pn) u b = Some (owner, cr_name c) \<and> history_name (pn_tables pn) owner b = Some (cr_table c))"
  by (cases c) (auto simp: column_entry_def column_at_def table_at_def assms split: option.splits)

lemma column_entry_none: "boundary pn p = None \<Longrightarrow> column_entry pn p u = None"
  by (simp add: column_entry_def column_at_def)

lemma column_holder_at:
  assumes "build cs ids pending = Inr pn"
  shows "column_holder pn c p = Some (Tracked u) \<longleftrightarrow> column_entry pn p u = Some (u, c)"
proof (cases "boundary pn p")
  case None
  then show ?thesis by (simp add: column_holder_def table_holder_def column_entry_none)
next
  case (Some b)
  have "column_holder pn c p = Some (Tracked u) \<longleftrightarrow>
      (\<exists>owner. history_holder (pn_tables pn) (cr_table c) b = Tracked owner
        \<and> history_holder (pn_columns pn) (owner, cr_name c) b = Tracked u)"
    by (simp add: column_holder_def table_holder_def Some split: holder.split)
  then show ?thesis
    using matchedD [OF columns_matched [OF assms]] matchedD [OF follows_matched [OF index_follows(1) [OF assms]]]
    by (auto simp: column_entry_at [OF Some])
qed

section \<open>Every change acts on the names it states\<close>

definition tables_kept :: "plan_names \<Rightarrow> nat \<Rightarrow> uid set \<Rightarrow> bool" where
  "tables_kept pn i us \<longleftrightarrow> (\<forall>u. u \<notin> us \<longrightarrow> table_at pn u (After i) = table_at pn u (Before i))"

definition columns_kept :: "plan_names \<Rightarrow> nat \<Rightarrow> uid set \<Rightarrow> bool" where
  "columns_kept pn i us \<longleftrightarrow> (\<forall>u. u \<notin> us \<longrightarrow> column_entry pn (After i) u = column_entry pn (Before i) u)"

definition roles_kept :: "plan_names \<Rightarrow> nat \<Rightarrow> uid set \<Rightarrow> bool" where
  "roles_kept pn i us \<longleftrightarrow> (\<forall>u. u \<notin> us \<longrightarrow> role_at pn u (After i) = role_at pn u (Before i))"

lemma tables_kept_by:
  assumes "plan_names_of cs ids = Inr pn" "i < length cs"
    "\<And>e life. identity_change i (cs ! i) = Table_identity e life \<Longrightarrow> tr_uid e \<in> us"
  shows "tables_kept pn i us"
proof -
  note b = assms(1) [unfolded plan_names_of_def]
  have "history_name (pn_tables pn) u (Suc i) = history_name (pn_tables pn) u i" if "u \<notin> us" for u
    using assms(3) that by (intro follows_frame [OF index_follows(1) [OF b]]) (auto simp: gathered_events, metis identity_step(1))
  then show ?thesis
    by (simp add: tables_kept_def table_at_def boundary_simps [OF b] assms(2) del: boundary.simps)
qed

lemma roles_kept_by:
  assumes "plan_names_of cs ids = Inr pn" "i < length cs"
    "\<And>e. identity_change i (cs ! i) = Role_identity e \<Longrightarrow> tr_uid e \<in> us"
  shows "roles_kept pn i us"
proof -
  note b = assms(1) [unfolded plan_names_of_def]
  have "history_name (pn_roles pn) u (Suc i) = history_name (pn_roles pn) u i" if "u \<notin> us" for u
    using assms(3) that by (intro follows_frame [OF index_follows(2) [OF b]]) (auto simp: gathered_events, metis identity_step(3))
  then show ?thesis
    by (simp add: roles_kept_def role_at_def boundary_simps [OF b] assms(2) del: boundary.simps)
qed

lemma table_acts:
  assumes "plan_names_of cs ids = Inr pn" "i < length cs" "identity_change i (cs ! i) = Table_identity e life"
  shows "table_at pn (tr_uid e) (Before i) = Some (tr_before e)" "table_at pn (tr_uid e) (After i) = Some (tr_after e)"
proof -
  note b = assms(1) [unfolded plan_names_of_def]
  have "e \<in> set (table_events (gather {} cs))" using assms(2,3) by (auto simp: gathered_events)
  from follows_event [OF index_follows(1) [OF b] this] identity_step(1) [OF assms(3)]
  show "table_at pn (tr_uid e) (Before i) = Some (tr_before e)" "table_at pn (tr_uid e) (After i) = Some (tr_after e)"
    by (simp_all add: table_at_def boundary_simps [OF b] assms(2) del: boundary.simps)
qed

lemma role_acts:
  assumes "plan_names_of cs ids = Inr pn" "i < length cs" "identity_change i (cs ! i) = Role_identity e"
  shows "role_at pn (tr_uid e) (Before i) = Some (tr_before e)" "role_at pn (tr_uid e) (After i) = Some (tr_after e)"
proof -
  note b = assms(1) [unfolded plan_names_of_def]
  have "e \<in> set (role_events (gather {} cs))" using assms(2,3) by (auto simp: gathered_events)
  from follows_event [OF index_follows(2) [OF b] this] identity_step(3) [OF assms(3)]
  show "role_at pn (tr_uid e) (Before i) = Some (tr_before e)" "role_at pn (tr_uid e) (After i) = Some (tr_after e)"
    by (simp_all add: role_at_def boundary_simps [OF b] assms(2) del: boundary.simps)
qed

text \<open>Where no table changes, a column entry moves exactly with the address of the column.\<close>

lemma entry_of_name:
  assumes "matched tables" "owned_option tables x b = Inr y" "boundary pn p = Some c" "history_name (pn_columns pn) u c = y"
    "\<And>v. history_name (pn_tables pn) v c = history_name tables v b"
  shows "column_entry pn p u = map_option (Pair u) x"
proof (cases x)
  case None
  then show ?thesis
    using assms by (simp add: owned_option_ok column_entry_def column_at_def)
next
  case (Some d)
  then obtain owner where "y = Some (owner, cr_name d)" "history_holder tables (cr_table d) b = Tracked owner"
    using assms(2) by (auto simp: owned_option_ok owned_ok)
  then have "column_entry pn p u = Some (u, d)"
    using assms(4,5) matchedD [OF assms(1)] by (auto simp: column_entry_at [OF assms(3)])
  then show ?thesis by (simp add: Some)
qed

lemma columns_kept_by:
  assumes "plan_names_of cs ids = Inr pn" "i < length cs" "tables_kept pn i {}"
    "\<And>e life. identity_change i (cs ! i) \<noteq> Table_identity e life"
    "\<And>e. identity_change i (cs ! i) = Column_identity e \<Longrightarrow> tr_uid e \<in> us"
  shows "columns_kept pn i us"
proof -
  note b = assms(1) [unfolded plan_names_of_def]
  have tables: "history_name (pn_tables pn) v (Suc i) = history_name (pn_tables pn) v i" for v
    using assms(3) by (simp add: tables_kept_def table_at_def boundary_simps [OF b] assms(2) del: boundary.simps)
  obtain ca w es where follows: "follows (pn_columns pn) w es"
    and members: "\<forall>e' \<in> set es. (\<exists>e \<in> set (column_events (gather {} cs)). owned_event (pn_tables pn) e = Inr e')
       \<or> (\<exists>t life. identity_change (tr_step e') (cs ! tr_step e') = Table_identity t life)"
    by (rule column_history_follows [OF build_parts(4) [OF b]])
  have "\<forall>e \<in> set es. tr_step e = i \<longrightarrow> tr_uid e \<in> us"
    using members assms(4,5) gathered_columns by (fastforce simp: owned_event_ok)
  then have columns: "history_name (pn_columns pn) u (Suc i) = history_name (pn_columns pn) u i" if "u \<notin> us" for u
    using that by (intro follows_frame [OF follows]) auto
  have "column_entry pn (After i) u = Some q \<longleftrightarrow> column_entry pn (Before i) u = Some q" if "u \<notin> us" for u q
    by (cases q) (simp add: column_entry_at [OF boundary_simps(3) [OF b assms(2)]]
        column_entry_at [OF boundary_simps(4) [OF b assms(2)]] tables columns [OF that])
  then show ?thesis
    unfolding columns_kept_def by (metis option.exhaust)
qed

lemma column_acts:
  assumes "plan_names_of cs ids = Inr pn" "i < length cs" "identity_change i (cs ! i) = Column_identity e"
  shows "column_entry pn (Before i) (tr_uid e) = map_option (Pair (tr_uid e)) (tr_before e)"
    "column_entry pn (After i) (tr_uid e) = map_option (Pair (tr_uid e)) (tr_after e)"
proof -
  note b = assms(1) [unfolded plan_names_of_def]
  have tables: "history_name (pn_tables pn) v (Suc i) = history_name (pn_tables pn) v i" for v
    using tables_kept_by [OF assms(1,2), of "{}"] assms(3)
    by (simp add: tables_kept_def table_at_def boundary_simps [OF b] assms(2) del: boundary.simps)
  have matched: "matched (pn_tables pn)" by (rule follows_matched [OF index_follows(1) [OF b]])
  obtain ca w es where follows: "follows (pn_columns pn) w es"
    and kept: "\<forall>e \<in> set (column_events (gather {} cs)). \<exists>e' \<in> set es. owned_event (pn_tables pn) e = Inr e'"
    by (rule column_history_follows [OF build_parts(4) [OF b]])
  obtain e' where e': "e' \<in> set es" "owned_event (pn_tables pn) e = Inr e'"
    using kept assms(2,3) by (force simp: gathered_events)
  have step: "tr_step e = i" by (rule identity_step(2) [OF assms(3)])
  have owned: "owned_option (pn_tables pn) (tr_before e) i = Inr (tr_before e')"
    "owned_option (pn_tables pn) (tr_after e) i = Inr (tr_after e')" "tr_step e' = i" "tr_uid e' = tr_uid e"
    using e'(2) step by (simp_all add: owned_event_ok)
  note names = follows_event [OF follows e'(1), unfolded owned(3,4)]
  show "column_entry pn (Before i) (tr_uid e) = map_option (Pair (tr_uid e)) (tr_before e)"
    by (rule entry_of_name [OF matched owned(1) boundary_simps(3) [OF b assms(2)] names(1)]) simp
  show "column_entry pn (After i) (tr_uid e) = map_option (Pair (tr_uid e)) (tr_after e)"
    by (rule entry_of_name [OF matched owned(2) boundary_simps(4) [OF b assms(2)] names(2) tables])
qed


section \<open>A plan to evaluate\<close>

text \<open>
  A table is dropped and its name given to a new one, another table and one of its columns are renamed, and a role
  is created; the identities it leads to are \<open>sample_ids\<close>. The last boundary is compared as an integer, since
  evaluation would count up to it as a natural number.
\<close>

definition timeline_last :: "'a timeline \<Rightarrow> 'a option" where
  "timeline_last line = timeline_at line usize_max"

lemma timeline_last_code [code]:
  "timeline_last line =
     (let n = length (takeWhile (\<lambda>(step, _). int step \<le> 18446744073709551615) line) in
      if n = 0 then None else snd (line ! (n - 1)))"
proof -
  have "int step \<le> 18446744073709551615 \<longleftrightarrow> step \<le> usize_max" for step
    by (simp add: usize_max_def)
  then show ?thesis by (simp add: timeline_last_def timeline_at_def)
qed

lemma history_end_code [code]:
  "history_end h = bcollect (List.map_filter (\<lambda>(u, line). map_option (Pair u) (timeline_last line)) (entries (h_names h)))"
  by (simp add: history_end_def timeline_last_def)

definition sample_plan :: "plan_change list" where
  "sample_plan =
     [DropTable (Uid ''t_000009'') (TableName ''dbo'' ''order''),
      RenameTable (Uid ''t_000001'') (TableName ''dbo'' ''client'') (TableName ''dbo'' ''customer''),
      RenameColumn (Uid ''c_000002'') (TableName ''dbo'' ''customer'') ''label'' ''name'',
      CreateTable (Uid ''t_000002'') (TableName ''dbo'' ''order'') [''id''],
      CreateRole (Uid ''r_000001'') ''reader'']"

definition sample_index :: plan_names where
  "sample_index = projr (plan_names_of sample_plan sample_ids)"

lemma sample_index: "plan_names_of sample_plan sample_ids = Inr sample_index"
proof -
  have "is_ok (plan_names_of sample_plan sample_ids)" by code_simp
  then show ?thesis by (auto simp: is_ok_iff sample_index_def)
qed

lemma sample_length: "length sample_plan = 5"
  by (simp add: sample_plan_def)


section \<open>Names and holders\<close>

lemma tracked_option: "map_option f x = Some (Tracked u) \<longleftrightarrow> (\<exists>b. x = Some b \<and> f b = Tracked u)"
  by auto

lemma index_matched:
  assumes "build cs ids pending = Inr pn"
  shows "table_holder pn n p = Some (Tracked u) \<longleftrightarrow> table_at pn u p = Some (Some n)"
    "role_holder pn r p = Some (Tracked u) \<longleftrightarrow> role_at pn u p = Some (Some r)"
  using matchedD [OF follows_matched [OF index_follows(1) [OF assms]]]
    matchedD [OF follows_matched [OF index_follows(2) [OF assms]]]
  by (auto simp: table_holder_def table_at_def role_holder_def role_at_def)

lemma table_at_Start: "table_at pn u Start = Some (history_name (pn_tables pn) u 0)"
  by (simp add: table_at_def)

lemma stored_at:
  assumes "build cs ids pending = Inr pn"
  shows "stored pn n p = Some (Some m) \<longleftrightarrow>
    (\<exists>u. table_at pn u p = Some (Some n) \<and> table_at pn u Start = Some (Some m))"
proof -
  have "stored pn n p = Some (Some m) \<longleftrightarrow>
      (\<exists>u. table_holder pn n p = Some (Tracked u) \<and> table_at pn u Start = Some (Some m))"
    by (cases "table_holder pn n p"; cases "the (table_holder pn n p)") (auto simp: stored_def)
  then show ?thesis by (simp add: index_matched [OF assms])
qed

lemma start_column:
  "Option.bind (column_at pn u Start)
     (\<lambda>a. case a of
        None \<Rightarrow> Some None
      | Some (owner, name) \<Rightarrow> map_option (map_option (\<lambda>t. ColumnRef t name)) (table_at pn owner Start)) = Some (Some d)
   \<longleftrightarrow> column_entry pn Start u = Some (u, d)"
  by (auto simp: column_entry_def table_at_Start bind_eq_Some_conv split: option.splits)

lemma stored_column_at:
  assumes "build cs ids pending = Inr pn"
  shows "stored_column pn c p = Some (Some d) \<longleftrightarrow>
    (\<exists>u. column_entry pn p u = Some (u, c) \<and> column_entry pn Start u = Some (u, d))"
proof -
  have "stored_column pn c p = Some (Some d) \<longleftrightarrow>
      (\<exists>u. column_holder pn c p = Some (Tracked u) \<and> column_entry pn Start u = Some (u, d))"
    unfolding start_column [symmetric]
    by (cases "column_holder pn c p"; cases "the (column_holder pn c p)") (simp_all add: stored_column_def)
  then show ?thesis by (simp add: column_holder_at [OF assms])
qed

lemma table_unmanaged:
  assumes "build cs ids pending = Inr pn"
  shows "table_holder pn n p = Some Unmanaged \<longleftrightarrow>
    boundary pn p \<noteq> None \<and> n \<notin> mentioned (table_events (gather pending cs)) \<and> n \<notin> ran (bget (ids_tables ids))"
  using history_of_answers(3) [OF build_parts(2) [OF assms] in_order_timed [OF gathered_in_order(1)]]
  by (auto simp: table_holder_def unmanaged_described)

text \<open>
  C12. At every boundary of an indexed plan, of every plan and of templates with pending spellings too, names and
  holders are the two directions of one relation: a uid is the holder of a table, role or column name exactly when
  that name is its name there, so a name has one holder and a uid one name. A table name is unmanaged exactly when
  no change and no final identity describes it. What was stored under a name is what its present holder was called
  at the start, never an earlier occupant.
\<close>

theorem names_and_holders_are_one_relation:
  assumes "of_templates cs ids pending = Inr pn"
  shows "(table_holder pn n p = Some (Tracked u) \<longleftrightarrow> table_at pn u p = Some (Some n))
    \<and> (role_holder pn r p = Some (Tracked u) \<longleftrightarrow> role_at pn u p = Some (Some r))
    \<and> (column_holder pn c p = Some (Tracked u) \<longleftrightarrow> column_entry pn p u = Some (u, c))
    \<and> (table_holder pn n p = Some Unmanaged \<longleftrightarrow>
        boundary pn p \<noteq> None \<and> n \<notin> mentioned (table_events (gather pending cs)) \<and> n \<notin> ran (bget (ids_tables ids)))
    \<and> (stored pn n p = Some (Some m) \<longleftrightarrow> (\<exists>v. table_at pn v p = Some (Some n) \<and> table_at pn v Start = Some (Some m)))
    \<and> (stored_column pn c p = Some (Some d) \<longleftrightarrow>
        (\<exists>v. column_entry pn p v = Some (v, c) \<and> column_entry pn Start v = Some (v, d)))"
proof -
  note b = assms [unfolded of_templates_def]
  show ?thesis
    using index_matched [OF b] column_holder_at [OF b] table_unmanaged [OF b] stored_at [OF b] stored_column_at [OF b]
    by blast
qed

theorem names_and_holders_are_one_relation_witness:
  "table_at sample_index (Uid ''t_000002'') End = Some (Some (TableName ''dbo'' ''order''))
   \<and> table_at sample_index (Uid ''t_000009'') Start = Some (Some (TableName ''dbo'' ''order''))
   \<and> table_holder sample_index (TableName ''dbo'' ''order'') End = Some (Tracked (Uid ''t_000002''))
   \<and> stored sample_index (TableName ''dbo'' ''order'') End = Some None"
proof -
  have "of_templates sample_plan sample_ids {} = Inr sample_index"
    using sample_index by (simp add: plan_names_of_def of_templates_def)
  note index = names_and_holders_are_one_relation [OF this]
  have at: "table_at sample_index (Uid ''t_000002'') End = Some (Some (TableName ''dbo'' ''order''))"
    "table_at sample_index (Uid ''t_000009'') Start = Some (Some (TableName ''dbo'' ''order''))"
    "table_at sample_index (Uid ''t_000002'') Start = Some None"
    by code_simp+
  then have held: "table_holder sample_index (TableName ''dbo'' ''order'') End = Some (Tracked (Uid ''t_000002''))"
    using index by blast
  then show ?thesis using at by (simp add: stored_def)
qed

section \<open>The end of the plan\<close>

lemma name_at_end:
  assumes "follows h w es" "\<forall>e \<in> set es. tr_step e < n" "n \<le> usize_max" "bget after u = history_name h u usize_max"
  shows "history_name h u n = bget after u"
  using steps_late [OF assms(1-3)] assms(4) by simp

lemma table_at_end:
  assumes "build cs ids pending = Inr pn" "length cs \<le> usize_max"
  shows "history_name (pn_tables pn) u (length cs) = bget (ids_tables ids) u"
    "history_name (pn_roles pn) u (length cs) = bget (ids_roles ids) u"
  using name_at_end [OF index_follows(1) [OF assms(1)] _ assms(2)
      history_of_answers(2) [OF build_parts(2) [OF assms(1)] in_order_timed [OF gathered_in_order(1)]]]
    name_at_end [OF index_follows(2) [OF assms(1)] _ assms(2)
      history_of_answers(2) [OF build_parts(3) [OF assms(1)] in_order_timed [OF gathered_in_order(3)]]]
    gathered_in_order(1,3) [of cs pending]
  by (simp_all add: in_order_def)

lemma column_at_end:
  assumes "build cs ids pending = Inr pn" "length cs \<le> usize_max"
  shows "column_entry pn End u = map_option (Pair u) (bget (ids_columns ids) u)"
proof -
  obtain ca w es where ca: "owned_after (pn_tables pn) (length cs) (ids_columns ids) = Inr ca"
    and h: "follows (pn_columns pn) w es" "\<forall>u. bget ca u = history_name (pn_columns pn) u usize_max"
      "\<forall>e \<in> set es. tr_step e < length cs"
    by (rule column_history_follows [OF build_parts(4) [OF assms(1)]])
  have name: "history_name (pn_columns pn) u (length cs) = bget ca u"
    by (rule name_at_end [OF h(1,3) assms(2) h(2) [THEN spec]])
  have "owned_option (pn_tables pn) (bget (ids_columns ids) u) (length cs) = Inr (bget ca u)"
  proof (cases "bget (ids_columns ids) u")
    case None
    then have "bget ca u = None" using owned_after_ok [OF ca, of u] by (metis option.distinct(1) option.exhaust)
    then show ?thesis by (simp add: None owned_option_ok)
  next
    case (Some c)
    then obtain a where "owned (pn_tables pn) c (length cs) = Inr a"
      using owned_after_total [OF ca [unfolded owned_after_def], of u c] by (auto simp: entries_bget)
    then show ?thesis using owned_after_ok [OF ca, of u a] Some by (simp add: owned_option_ok)
  qed
  from entry_of_name [OF follows_matched [OF index_follows(1) [OF assms(1)]] this boundary_simps(2) [OF assms(1)] name]
  show ?thesis by simp
qed

lemma map_filter_keyed:
  assumes "sorted_wrt (<) us" "\<And>u. f u = map_option (Pair u) (g u)"
  shows "sorted_keys (List.map_filter f us) \<and> fst ` set (List.map_filter f us) \<subseteq> set us
    \<and> map_of (List.map_filter f us) = (\<lambda>u. if u \<in> set us then g u else None)"
  using assms(1)
proof (induction us)
  case Nil
  then show ?case by (simp add: List.map_filter_simps)
next
  case (Cons u us)
  then show ?case
    by (cases "g u") (auto simp: List.map_filter_simps assms(2) fun_eq_iff)
qed

lemma columns_at_end:
  assumes "build cs ids pending = Inr pn" "length cs \<le> usize_max"
  shows "columns_at pn End = Some (entries (ids_columns ids))"
proof -
  let ?us = "bkeys (h_names (pn_columns pn))"
  have "bget (ids_columns ids) u = None" if "u \<notin> set ?us" for u
  proof -
    have "history_name (pn_columns pn) u (length cs) = None"
      using that by (simp add: history_name_def set_bkeys bhas_def)
    then have "column_entry pn End u = None"
      by (simp add: column_entry_def column_at_def boundary_simps [OF assms(1)] del: boundary.simps)
    then show ?thesis by (simp add: column_at_end [OF assms])
  qed
  then have all: "(\<lambda>u. if u \<in> set ?us then bget (ids_columns ids) u else None) = bget (ids_columns ids)"
    by auto
  have sorted: "sorted_wrt (<) ?us" unfolding bkeys_def by (rule entries_sorted)
  from map_filter_keyed [OF sorted column_at_end [OF assms]]
  have "List.map_filter (column_entry pn End) ?us = entries (ids_columns ids)"
    unfolding all by (intro entries_map_of_sorted) auto
  then show ?thesis
    by (simp add: columns_at_def)
qed

text \<open>
  C14. An indexed plan ends at the identity file it was built for: after the last change every table and role has
  exactly the name the file gives it, the managed columns are exactly those of the file, and the holder of a table
  name is the uid the file finds for it. The plan is shorter than \<open>usize::MAX\<close>, as every slice is.
\<close>

theorem an_indexed_plan_ends_at_its_identities:
  assumes "of_templates cs ids pending = Inr pn" "length cs \<le> usize_max"
  shows "table_at pn u End = Some (bget (ids_tables ids) u) \<and> role_at pn u End = Some (bget (ids_roles ids) u)
    \<and> columns_at pn End = Some (entries (ids_columns ids))
    \<and> (table_holder pn n End = Some (Tracked u) \<longleftrightarrow> table_uid ids n = Some u)"
proof -
  note b = assms(1) [unfolded of_templates_def]
  have "table_at pn u End = Some (bget (ids_tables ids) u)" "role_at pn u End = Some (bget (ids_roles ids) u)" for u
    using table_at_end [OF b assms(2)] by (simp_all add: table_at_def role_at_def boundary_simps [OF b] del: boundary.simps)
  then show ?thesis
    using columns_at_end [OF b assms(2)] index_matched(1) [OF b, of n End u]
      find_uid_unique [OF valid_unique(1), of ids n u] build_parts(5) [OF b]
    by (simp add: validate_ok table_uid_def)
qed

theorem an_indexed_plan_ends_at_its_identities_witness:
  "table_at sample_index (Uid ''t_000001'') End = Some (Some (TableName ''dbo'' ''customer''))
   \<and> columns_at sample_index End = Some (entries (ids_columns sample_ids))"
proof -
  have "of_templates sample_plan sample_ids {} = Inr sample_index"
    using sample_index by (simp add: plan_names_of_def of_templates_def)
  moreover have "length sample_plan \<le> usize_max" by (simp add: sample_length usize_max_def)
  moreover have "bget (ids_tables sample_ids) (Uid ''t_000001'') = Some (TableName ''dbo'' ''customer'')" by code_simp
  ultimately show ?thesis
    using an_indexed_plan_ends_at_its_identities [of sample_plan sample_ids "{}" sample_index "Uid ''t_000001''"] by simp
qed

section \<open>What is accepted\<close>

text \<open>
  C13. The history of a namespace is built exactly for the plans whose changes replay: every change carries a uid of
  the kind of the namespace, no two uids start with one name, each change finds its object under the name it
  states and gives it a name no other object has at that time, and the names after the last change are those of
  the identity file. This holds for tables, roles and types alike; the index is refused with its tables or roles,
  a refusal of its types is kept until a type is asked for.
\<close>

theorem a_namespace_is_accepted_exactly_when_it_replays:
  assumes "length cs \<le> usize_max"
  shows "(is_ok (history_of Table_address ''table'' TableUid (table_events (gather pending cs)) (ids_tables ids))
      \<longleftrightarrow> replays TableUid (table_events (gather pending cs)) (ids_tables ids))
    \<and> (is_ok (history_of Role_address ''role'' RoleUid (role_events (gather pending cs)) (ids_roles ids))
      \<longleftrightarrow> replays RoleUid (role_events (gather pending cs)) (ids_roles ids))
    \<and> (is_ok (history_of Type_address ''type'' TypeUid (type_events (gather pending cs)) (ids_types ids))
      \<longleftrightarrow> replays TypeUid (type_events (gather pending cs)) (ids_types ids))"
proof -
  have accept: "is_ok (history_of shown ns kind es after) \<longleftrightarrow> replays kind es after" if "in_order (length cs) es"
    for shown :: "'b::linorder \<Rightarrow> address" and ns kind es after
    using history_of_accepts [OF in_order_timed [OF that]] that assms by (fastforce simp: is_ok_iff in_order_def)
  show ?thesis
    using accept [OF gathered_in_order(1)] accept [OF gathered_in_order(3)] accept [OF gathered_in_order(4)] by blast
qed

theorem a_namespace_is_accepted_exactly_when_it_replays_witness:
  "replays TableUid (table_events (gather {} sample_plan)) (ids_tables sample_ids)
   \<and> \<not> replays TableUid (table_events (gather {} (rev sample_plan))) (ids_tables sample_ids)"
proof -
  have "length sample_plan \<le> usize_max" "length (rev sample_plan) \<le> usize_max"
    by (simp_all add: sample_length usize_max_def)
  note accept = this [THEN a_namespace_is_accepted_exactly_when_it_replays, THEN conjunct1]
  have "is_ok (history_of Table_address ''table'' TableUid (table_events (gather {} sample_plan)) (ids_tables sample_ids))"
    "\<not> is_ok (history_of Table_address ''table'' TableUid (table_events (gather {} (rev sample_plan))) (ids_tables sample_ids))"
    by code_simp+
  then show ?thesis
    using accept(1) [of "{}" sample_ids] accept(2) [of "{}" sample_ids] by simp
qed

section \<open>The owner of every seed is known\<close>

definition no_panic :: "(plan_names_error, 'a) result \<Rightarrow> bool" where
  "no_panic r \<longleftrightarrow> (\<forall>u. r \<noteq> Inl (Index_panic u))"

lemma no_panic_Inr [intro]: "no_panic (Inr x)"
  by (simp add: no_panic_def)

lemma no_panic_and_then [intro]: "no_panic r \<Longrightarrow> (\<And>x. r = Inr x \<Longrightarrow> no_panic (f x)) \<Longrightarrow> no_panic (and_then r f)"
  by (cases r) (auto simp: no_panic_def)

lemma no_panic_try_fold:
  "(\<And>s x. x \<in> set xs \<Longrightarrow> no_panic (f s x)) \<Longrightarrow> no_panic (try_fold f s xs)"
  by (induction xs arbitrary: s) auto

lemma no_panic_try_map: "(\<And>x. no_panic (f x)) \<Longrightarrow> no_panic (try_map f xs)"
  by (induction xs) auto

lemma no_panic_leaves:
  "no_panic (ensure c (Kind ns u))" "no_panic (ensure c (Source ns u x i))" "no_panic (ensure c (Collision ns a u v i))"
  "no_panic (ensure c (End_mismatch ns))" "no_panic (ensure c (ColumnOwner u))" "no_panic (map_err Ids_error r)"
  "no_panic (owned tables col b)"
  by (auto simp: no_panic_def ensure_def map_err_def owned_def split: sum.splits holder.splits)

lemma no_panic_from_initial: "no_panic (from_initial shown ns es after initial)"
proof -
  have set: "no_panic (history_set shown ns u x b h)" for u x b h
    unfolding history_set_def Let_def
    by (intro no_panic_and_then no_panic_Inr) (auto simp: no_panic_leaves split: option.splits holder.splits)
  then have "no_panic (place_initial shown ns h p)" "no_panic (place_event shown ns h e)" for h p e
    by (auto simp: place_initial_def place_event_def no_panic_leaves split: prod.splits)
  then show ?thesis
    unfolding from_initial_def by (intro no_panic_and_then no_panic_try_fold no_panic_Inr no_panic_leaves)
qed

lemma no_panic_history_of: "no_panic (history_of shown ns kind es after)"
  unfolding history_of_def seed_event_def
  by (intro no_panic_and_then no_panic_try_fold no_panic_from_initial no_panic_leaves no_panic_Inr)

lemma own_keeps: "own u owners owner = Inr owners' \<Longrightarrow> bhas owners' v \<longleftrightarrow> v = u \<or> bhas owners v"
  by (auto simp: own_def result_simps bhas_def bget_bput split: option.splits)

lemma owns_keep: "try_fold (own u) owners os = Inr owners' \<Longrightarrow> bhas owners' v \<longleftrightarrow> os \<noteq> [] \<and> v = u \<or> bhas owners v"
proof (induction os arbitrary: owners)
  case Nil
  then show ?case by simp
next
  case (Cons o' os)
  then obtain k where "own u owners o' = Inr k" "try_fold (own u) k os = Inr owners'"
    by (auto simp: result_simps)
  with Cons.IH [OF this(2)] own_keeps [OF this(1), of v] show ?case by auto
qed

definition all_owned :: "seeding \<Rightarrow> bool" where
  "all_owned so \<longleftrightarrow> (\<forall>u. bhas (fst so) u \<longrightarrow> bhas (snd so) u)"

lemma seeds_owned:
  assumes "try_fold seed_column_event (bempty, bempty) es = Inr so" "\<forall>e \<in> set es. addresses_of e \<noteq> []"
    "try_fold seed_column_after so ps = Inr so'"
  shows "all_owned so'"
proof -
  have "all_owned so"
    using assms(1)
  proof (rule try_fold_invariant)
    show "all_owned (bempty, bempty)" by (simp add: all_owned_def)
  next
    fix s e t
    assume "all_owned s" "e \<in> set es" "seed_column_event s e = Inr t"
    then show "all_owned t"
      using assms(2) by (cases s) (auto simp: seed_column_event_def result_simps all_owned_def bhas_bentry owns_keep)
  qed
  with assms(3) show ?thesis
  proof (rule try_fold_invariant)
    fix s p t
    assume "all_owned s" "seed_column_after s p = Inr t"
    then show "all_owned t"
      by (cases s; cases p) (auto simp: seed_column_after_def result_simps all_owned_def bhas_bentry own_keeps)
  qed
qed

lemma owned_event_addresses:
  assumes "try_map (owned_event tables) (column_events (gather pending cs)) = Inr es"
  shows "\<forall>e \<in> set es. addresses_of e \<noteq> []"
proof
  fix e'
  assume "e' \<in> set es"
  then obtain e where "e \<in> set (column_events (gather pending cs))" and owned: "owned_event tables e = Inr e'"
    using owned_events_members(2) assms by (metis try_map_ok)
  then have "tr_before e \<noteq> None \<or> tr_after e \<noteq> None"
    using gathered_columns column_identity_names by blast
  then show "addresses_of e' \<noteq> []"
    using owned by (auto simp: owned_event_ok owned_option_ok addresses_of_def split: option.splits)
qed

lemma no_panic_column_history: "no_panic (column_history n ids (gather pending cs) tables)"
  unfolding column_history_def
proof (intro no_panic_and_then)
  show "no_panic (owned_after tables n (ids_columns ids))"
    unfolding owned_after_def by (auto intro!: no_panic_try_fold simp: no_panic_leaves)
  show "no_panic (try_map (owned_event tables) (column_events (gather pending cs)))"
    unfolding owned_event_def owned_option_def
    by (intro no_panic_try_map no_panic_and_then no_panic_Inr) (auto simp: no_panic_leaves split: option.splits)
  fix ca es so
  assume es: "try_map (owned_event tables) (column_events (gather pending cs)) = Inr es"
  have own: "no_panic (own u m o')" for u m o'
    by (auto simp: own_def no_panic_leaves split: option.splits)
  then show "no_panic (try_fold seed_column_event (bempty, bempty) es)" "no_panic (try_fold seed_column_after so (entries ca))"
    by (auto intro!: no_panic_try_fold no_panic_and_then simp: seed_column_event_def seed_column_after_def split: prod.splits)
  assume so: "try_fold seed_column_event (bempty, bempty) es = Inr so"
  fix p
  assume p: "try_fold seed_column_after so (entries ca) = Inr p"
  obtain seeds owners where so': "p = (seeds, owners)" by (cases p)
  have known: "bget owners u \<noteq> None" if "(u, x) \<in> set (entries seeds)" for u x
    using seeds_owned [OF so owned_event_addresses [OF es] p] that
    by (auto simp: all_owned_def so' entries_bget bhas_def)
  have merge: "no_panic (merge_column tables n ca lives owners authored s q)" if "q \<in> set (entries seeds)" for lives authored s q
  proof -
    obtain u x where q: "q = (u, x)" by (cases q)
    with known that obtain owner where "bget owners u = Some owner" by blast
    then show ?thesis by (cases s) (auto simp: merge_column_def Let_def q)
  qed
  show "no_panic (case p of (seeds, owners) \<Rightarrow> and_then (try_fold author bempty es) (\<lambda>authored.
      and_then (try_fold (merge_column tables n ca (owner_events (gather pending cs)) owners authored) ([], bempty) (entries seeds))
       (\<lambda>(events, initial). from_initial Column_address ''column'' (sort_key tr_step events) ca initial)))"
    unfolding so' prod.case
    by (intro no_panic_and_then no_panic_try_fold)
      (auto simp: author_def no_panic_leaves no_panic_from_initial merge split: prod.splits)
qed

text \<open>The index never reads \<open>owners\<close> at a uid that is not there.\<close>

lemma build_never_panics: "build cs ids pending \<noteq> Inl (Index_panic u)"
proof -
  have "no_panic (build cs ids pending)"
    unfolding build_def Let_def
    by (intro no_panic_and_then no_panic_history_of no_panic_column_history no_panic_leaves no_panic_Inr)
  then show ?thesis by (simp add: no_panic_def)
qed

end
