(* ===== verification/Spec2Isabelle.thy ===== *)
theory Spec2Isabelle
  imports Tree_Roundtrip Ids_Merge Ids_Check Settle Policy_Plan Pred_Laws Mssql_Types Plan_Laws
begin

text \<open>
  A verification of the core of \<open>pbps\<close>, a tool that keeps a database schema as declarations, plans the changes from one revision to the next and
  deploys them. The parts modelled here are pure and carry the decisions; the source is under \<open>src/crates\<close>.

  \<^bold>\<open>The parts and how they meet.\<close> Declared objects have an identity that outlives their names: a uid. The identity mapping says which uid has which
  name and is written as a tree of files that branches merge. The planner turns the difference of two mappings into steps and edges between steps;
  a schedule settles them into one order, and an index says which uid has which
  name before and after each step. Policies look at declarations and plans, and report findings. A row predicate that guards a change is read
  from a closed language, vetted against the target table and the server, and written as SQL.

  \<^bold>\<open>Theories, sources and what is shown.\<close>

  \<^item> \<open>PBPS_Prelude\<close>, \<open>Rust_Str\<close>: results, \<open>BTreeMap\<close> (the type \<open>btree\<close> behind the locale \<open>finite_map\<close>), strings as UTF-8 bytes, white space.
  \<^item> \<open>Uid\<close> (\<open>uid.rs\<close>): kinds, the reader, both allocators and the SplitMix64 generator on 64-bit words. Allocated uids read back; the generator
    does not repeat within its period.
  \<^item> \<open>Escape\<close> (\<open>escape.rs\<close>, \<open>zone.rs\<close>, \<open>reason.rs\<close>): shown text is inert and different texts are shown differently.
  \<^item> \<open>Name\<close>, \<open>Type_Ref\<close> (\<open>name.rs\<close>, \<open>types.rs\<close>): dotted names and quoted type references read back from what is written.
  \<^item> \<open>Ids\<close>, \<open>Ids_Validity\<close> (\<open>ids.rs\<close>, \<open>rebuild.rs\<close>): the record \<open>ids_file\<close>, lookups, the one-pass index, renames and removals, and validation.
    Validation is equivalent to a consistency predicate, edits keep it, and the index answers what the scans answer.
  \<^item> \<open>Ids_Tree\<close>, \<open>Ids_Split\<close>, \<open>Tree_Text\<close>, \<open>Tree_Assemble\<close>, \<open>Tree_Split\<close>, \<open>Tree_Roundtrip\<close>, \<open>Record_Order\<close> (\<open>ids_tree.rs\<close>): the writer and strict
    reader of one file, \<open>assemble\<close> and \<open>split\<close>. A file reads back exactly when it keeps the rules; every mapping split into a tree is assembled
    back; \<open>split\<close> never panics; records keep the declared order.
  \<^item> \<open>Ids_Merge\<close> (\<open>ids_merge.rs\<close>): the merge of a file is the three-way merge of its parts, prefers neither side, and reports exactly the conflicts.
  \<^item> \<open>Ids_Check\<close> (\<open>ids_check.rs\<close>): the validator of a tree reports nothing exactly for the sound trees.
  \<^item> \<open>Kahn\<close>, \<open>Components\<close>, \<open>Schedule\<close>, \<open>Settle\<close> (\<open>order/schedule.rs\<close>, with the types of \<open>edges.rs\<close> and \<open>resolver/ordering.rs\<close> it uses): Tarjan's
    components are the classes of mutual reachability (locale \<open>scc_groups\<close>), Kahn's loop places what it can (locale \<open>placer\<close>), and the settled order
    respects every edge kept, gives up only guesses and annotations in cycles, is the least such order, and refuses exactly real cycles.
  \<^item> \<open>Plan_Names\<close> (\<open>plan_names.rs\<close>): the index of the names a plan passes through, a history per namespace with timelines of names and of holders, and
    all its queries. \<open>Plan_History\<close>: a history is built exactly for the sequences that replay over a one-to-one naming, and answers the replay.
    \<open>Plan_Columns\<close>: the events of a column are merged from its own changes and the lifetime of its table. \<open>Plan_Laws\<close>: every change acts on the names it
    states, names and holders are one relation at every boundary, the plan ends at its identity file, and the construction never panics.
  \<^item> \<open>Civil\<close>, \<open>Civil_Text\<close> (\<open>pbps-policy/src/civil.rs\<close>): the calendar is the Gregorian calendar; each reader is characterised by the texts it accepts.
  \<^item> \<open>Policy\<close>, \<open>Policy_Window\<close>, \<open>Policy_Eval\<close>, \<open>Policy_Plan\<close> (\<open>rules.rs\<close>, \<open>config.rs\<close>, \<open>evaluate.rs\<close>, \<open>finding.rs\<close>): the catalogue, the block and its
    check, windows, and the declaration and plan rules. A block passes its check exactly when it is evaluated as written; suppressions end on their
    day; windows admit what they say; tables are followed across renames; only live rules report.
  \<^item> \<open>Pred_Syntax\<close>, \<open>Pred_Read\<close>, \<open>Pred_Mssql\<close>, \<open>Pred_Vet\<close> (\<open>pbps-dialect/src/predicate.rs\<close> with \<open>lex.rs\<close>, \<open>parse.rs\<close> and \<open>render.rs\<close>; \<open>predicate.rs\<close>, \<open>ident.rs\<close>
    and \<open>types.rs\<close> of \<open>pbps-mssql\<close>): the trees with their depth, the lexer, the operator-precedence reader, the writer, SQL Server's functions, types and
    quoting, and the vetting. \<open>Pred_Total\<close>: the reader answers every text. \<open>Pred_Canon\<close>, \<open>Pred_Back\<close>, \<open>Pred_Back_Calls\<close>, \<open>Pred_Lex\<close>, \<open>Pred_Text\<close>, \<open>Pred_Sound\<close>: what
    is read is well-formed, and what is written of a well-formed tree is lexed and read as it, under the laws of the locale \<open>predicate_text\<close> (which extends
    \<open>predicate_grammar\<close> and \<open>plain_lexicon\<close>). \<open>Pred_Laws\<close>: SQL Server keeps the laws, so vetted SQL reads back; vetting accepts exactly the predicates whose
    columns resolve and whose calls the server supports.
  \<^item> \<open>Mssql_Types\<close> (\<open>pbps-mssql/src/types.rs\<close>, \<open>type_change_risk\<close> of \<open>lib.rs\<close>): families of types and the risk of a change. Between numeric types a
    change is safe exactly when it keeps every value, over the rationals the types hold; safe changes compose; normal forms are stable.

  \<^bold>\<open>Conventions.\<close> A struct is a record, an enum a datatype, \<open>Result\<close> is a sum with the error on the left, a \<open>for\<close> loop with \<open>?\<close> is \<open>try_each\<close> or
  \<open>try_fold\<close>, \<open>while\<close> loops are recursive functions. The wording of a message is a constructor that carries the values it names. Integers are
  words where they wrap and \<open>int\<close> or \<open>nat\<close> where the code keeps them in range, which the theories say and bound.

  \<^bold>\<open>Parameters.\<close> Code outside the repository is an argument: entropy and SHA-256 of the allocators, \<open>serde_json\<close> of the tree files, Unicode
  lowercasing of the tree validator, \<open>regex_lite\<close> of the naming rules, the resolver of columns of the vetting. Of the standard library,
  \<open>char::is_alphanumeric\<close> outside ASCII is an argument of SQL Server's lexicon. What is relied on is a hypothesis with a witness.

  \<^bold>\<open>Fuel.\<close> The loop of Kahn's algorithm has as fuel the number of steps, Tarjan's the steps plus the edges; both are proved enough
  (\<open>a_schedule_without_a_cycle_is_ordered\<close>, \<open>components_are_the_classes_of_mutual_reachability\<close>), so no theorem rests on running out. The reader of
  predicates has 257 units, the limit of 256 levels and one to refuse the next, and each of its loops one more turn than there are tokens;
  \<open>the_predicate_reader_answers\<close> shows both enough.

  \<^bold>\<open>Not modelled.\<close> The comparison of whole schemas (\<open>pbps-diff/src/schema_diff.rs\<close>), the derivation of edges from the effects of steps
  (\<open>order/edges.rs\<close>), the consumers of policies and the ledger are left out: each is a large comparison of whole schemas whose data model, the declared
  schema, is not part of this development. The engines (\<open>pbps-pg\<close>, and of \<open>pbps-mssql\<close> all but the tables named above), the
  loaders, the command line and the documentation talk to servers, files and terminals over these parts and hold no state of their own to state
  theorems about.
\<close>

end
